(* ===== verification/Prelude.thy ===== *)
theory Prelude
  imports Main "HOL-Library.Word"
begin

text \<open>
  Shared vocabulary of the development: the machine types of the ZipCPU's C
  (\<open>int\<close>, \<open>unsigned\<close> and every pointer are 32 bits wide, \<open>char\<close> is an unsigned
  byte, because the CPU's byte load zero-extends, see rtl/cpu/memops.v), the result type of kernel
  code that can stop the processor, and the generic facts on words, masks and
  lists that several components use.
\<close>

unbundle bit_operations_syntax

section \<open>Machine types\<close>

type_synonym u8 = "8 word"
type_synonym u16 = "16 word"
type_synonym u32 = "32 word"
type_synonym u64 = "64 word"

type_synonym addr = u32

abbreviation (input) NULL :: addr where
  "NULL \<equiv> 0"

section \<open>Collections\<close>

named_theorems kdefs \<open>definitions of the kernel's operations, to unfold a step\<close>
named_theorems mask_simps \<open>bitwise AND with a power-of-two mask, read as arithmetic\<close>
named_theorems frame \<open>which part of the state an operation leaves alone\<close>

section \<open>Results of code that may stop the processor\<close>

text \<open>
  Sequencing in the sum type: a value on the left (the processor has stopped)
  ends the computation.
\<close>

definition andthen :: "'e + 'a \<Rightarrow> ('a \<Rightarrow> 'e + 'b) \<Rightarrow> 'e + 'b" where
  "andthen r f = (case r of Inl e \<Rightarrow> Inl e | Inr a \<Rightarrow> f a)"

lemma andthen_simps [simp]:
  "andthen (Inl e) f = Inl e"
  "andthen (Inr a) f = f a"
  by (simp_all add: andthen_def)

lemma andthen_eq_Inr:
  "andthen r f = Inr b \<longleftrightarrow> (\<exists>a. r = Inr a \<and> f a = Inr b)"
  by (cases r) simp_all

section \<open>Words and power-of-two masks\<close>

lemma unat_and_mask_eq_mod [mask_simps]:
  fixes x :: "'a::len word"
  shows "unat (x AND mask k) = unat x mod 2 ^ k"
proof -
  have "unat (x AND mask k) = take_bit k (unat x)"
    by (simp add: unsigned_take_bit_eq flip: take_bit_eq_mask)
  then show ?thesis
    by (simp only: take_bit_eq_mod)
qed

lemma mod_exp_mod_exp:
  fixes a :: nat
  shows "k \<le> n \<Longrightarrow> a mod 2 ^ n mod 2 ^ k = a mod 2 ^ k"
  by (simp add: le_imp_power_dvd mod_mod_cancel)

lemma unat_plus_and_mask [mask_simps]:
  fixes x y :: "'a::len word"
  assumes "k \<le> LENGTH('a)"
  shows "unat ((x + y) AND mask k) = (unat x + unat y) mod 2 ^ k"
  using assms by (simp add: unat_and_mask_eq_mod unat_word_ariths mod_exp_mod_exp)

lemma unat_pow2:
  "k < LENGTH('a::len) \<Longrightarrow> unat (2 ^ k :: 'a word) = 2 ^ k"
  by transfer simp

lemma unat_mask_plus_1:
  assumes "k < LENGTH('a::len)"
  shows "unat (mask k :: 'a word) + 1 = 2 ^ k"
proof -
  have "unat (2 ^ k :: 'a word) = 2 ^ k"
    using assms by transfer simp
  then show ?thesis
    using assms by (simp add: mask_eq_exp_minus_1 unat_minus_one)
qed

lemma unat_drop_bit_div: "unat (drop_bit n x) = unat x div 2 ^ n"
  unfolding unat_drop_bit_eq unfolding drop_bit_eq_div ..

lemma unat_ucast_id: "unat (x :: 'a::len word) < 2 ^ LENGTH('b::len) \<Longrightarrow> unat (ucast x :: 'b word) = unat x"
  unfolding unsigned_ucast_eq by (rule take_bit_nat_eq_self)

text \<open>Stepping through a ring of size \<open>n\<close>.\<close>

lemma mod_add_one_step:
  "(a::nat) < n \<Longrightarrow> (a + 1) mod n = (if a + 1 = n then 0 else a + 1)"
  by auto

section \<open>Bytes and words\<close>

lemma unat_u8_less: "unat (c :: u8) < 256"
  by (rule order_less_le_trans [OF unsigned_less]) simp

lemma unat_ucast_u8 [simp]: "unat (ucast (c :: u8) :: u32) = unat c"
  using unat_u8_less [of c] by (simp add: unsigned_ucast_eq take_bit_nat_eq_self)

lemma unat_to_u8: "unat (x :: u32) < 256 \<Longrightarrow> unat (ucast x :: u8) = unat x"
  by (simp add: unsigned_ucast_eq take_bit_nat_eq_self)

lemma ucast_and_byte [simp]: "(ucast (c :: u8) AND 0xff :: u32) = ucast c"
proof -
  have "(0xff :: u32) = mask 8"
    by (simp add: mask_eq_exp_minus_1)
  then have "unat (ucast c AND 0xff :: u32) = unat c mod 2 ^ 8"
    by (simp only: unat_and_mask_eq_mod unat_ucast_u8)
  then show ?thesis
    using unat_u8_less [of c] by (simp add: word_unat_eq_iff)
qed

section \<open>Signed reading of a 32-bit word\<close>

lemma sint_u32:
  "sint (x :: u32) = (if uint x < 2 ^ 31 then uint x else uint x - 2 ^ 32)"
proof -
  have range: "0 \<le> uint x" "uint x < 2 ^ 32"
    using uint_lt2p [of x] by simp_all
  have *: "sint x = take_bit 32 (uint x) - 2 ^ 32 * of_bool (bit (uint x) 31)"
    by (simp add: sint_uint signed_take_bit_eq_take_bit_minus)
  have "take_bit 32 (uint x) = uint x"
    using range by (simp add: take_bit_eq_mod)
  moreover have "bit (uint x) 31 \<longleftrightarrow> \<not> uint x < 2 ^ 31"
  proof (cases "uint x < 2 ^ 31")
    case True
    then show ?thesis
      using range by (simp add: bit_iff_odd)
  next
    case False
    then have "uint x div 2 ^ 31 = 1"
      using range by (intro div_pos_geq [THEN trans]) simp_all
    then show ?thesis
      using False by (simp add: bit_iff_odd)
  qed
  ultimately show ?thesis
    using * by simp
qed

lemma unat_u32_less:
  "unat (x :: u32) < 4294967296"
  by (rule order_less_le_trans [OF unsigned_less]) simp

lemma unat_of_nat_u32:
  "n < 2 ^ 32 \<Longrightarrow> unat (of_nat n :: u32) = n"
  by (simp add: unsigned_of_nat take_bit_nat_eq_self)

lemma uint_int_unat:
  "uint x = int (unat x)"
  by simp

lemma sint_u32_nat:
  "sint (x :: u32) = (if unat x < 2 ^ 31 then int (unat x) else int (unat x) - 2 ^ 32)"
proof -
  have "uint x < 2 ^ 31 \<longleftrightarrow> unat x < 2 ^ 31"
    unfolding uint_int_unat by (simp del: of_nat_unat)
  then show ?thesis
    by (simp add: sint_u32)
qed

lemma zero_sless_u32:
  "0 <s (x :: u32) \<longleftrightarrow> 0 < unat x \<and> unat x < 2 ^ 31"
  using unat_u32_less [of x]
  by (auto simp: word_sless_alt sint_u32_nat simp del: of_nat_unat split: if_splits)

lemma sless_zero_u32:
  "(x :: u32) <s 0 \<longleftrightarrow> 2 ^ 31 \<le> unat x"
  using unat_u32_less [of x]
  by (auto simp: word_sless_alt sint_u32_nat simp del: of_nat_unat)

lemma sless_u32_small:
  assumes "unat x < 2 ^ 31" "unat y < 2 ^ 31"
  shows "(x :: u32) <s y \<longleftrightarrow> unat x < unat y"
  using assms by (simp add: word_sless_alt sint_u32_nat del: of_nat_unat)

section \<open>Lists\<close>

lemma map_nth_slice:
  "a + n \<le> length xs \<Longrightarrow> map (\<lambda>i. xs ! (a + i)) [0..<n] = take n (drop a xs)"
  by (rule nth_equalityI) simp_all

lemma take_update_append:
  assumes "i < length xs"
  shows "take (Suc i) (xs[i := v]) = take i xs @ [v]"
  using assms by (simp add: take_Suc_conv_app_nth)

end
