(* ===== verification/Board.thy ===== *)
theory Board
  imports Prelude
begin

text \<open>
  The board as the C code sees it (sw/zipos/board.h, swint.h, errno.h, zipsys.h): the
  constants of the registers, the address windows of the memories, and the volatile I/O space.

  A device register can change under the program's feet, so a run carries its history: the list of
  all register accesses and system calls made so far, newest first. What a register read (or a
  system call) returns is a function of that history, the parameter \<open>env\<close>. Every
  statement over an arbitrary \<open>env\<close> therefore holds for whatever the hardware does.
\<close>

section \<open>Interrupt bits (board.h)\<close>

abbreviation (input) INT_ENABLE :: u32 where "INT_ENABLE \<equiv> 0x80000000"
abbreviation (input) INT_BUTTON :: u32 where "INT_BUTTON \<equiv> 0x001"
abbreviation (input) INT_BUSERR :: u32 where "INT_BUSERR \<equiv> 0x002"
abbreviation (input) INT_SCOPE :: u32 where "INT_SCOPE \<equiv> 0x004"
abbreviation (input) INT_TIMER :: u32 where "INT_TIMER \<equiv> 0x010"
abbreviation (input) INT_UARTRX :: u32 where "INT_UARTRX \<equiv> 0x040"
abbreviation (input) INT_UARTTX :: u32 where "INT_UARTTX \<equiv> 0x080"
abbreviation (input) INT_KEYPAD :: u32 where "INT_KEYPAD \<equiv> 0x100"
abbreviation (input) INT_AUDIO :: u32 where "INT_AUDIO \<equiv> 0x200"
abbreviation (input) INT_GPIO :: u32 where "INT_GPIO \<equiv> 0x400"

definition INT_ENABLEV :: "u32 \<Rightarrow> u32" where
  "INT_ENABLEV IN = INT_ENABLE OR push_bit 16 IN"

definition INT_DISABLEV :: "u32 \<Rightarrow> u32" where
  "INT_DISABLEV IN = push_bit 16 IN"

definition INT_CLEAR :: "u32 \<Rightarrow> u32" where
  "INT_CLEAR IN = IN"

abbreviation (input) INT_CLEARPIC :: u32 where "INT_CLEARPIC \<equiv> 0x7fff7fff"
abbreviation (input) INT_DALLPIC :: u32 where "INT_DALLPIC \<equiv> 0x7fff0000"

abbreviation (input) TM_ONE_SECOND :: u32 where "TM_ONE_SECOND \<equiv> 80000000"
abbreviation (input) TM_REPEAT :: u32 where "TM_REPEAT \<equiv> 0x80000000"

section \<open>GPIO pins (board.h)\<close>

abbreviation (input) GPO_SDA :: u32 where "GPO_SDA \<equiv> 0x000001"
abbreviation (input) GPO_SCL :: u32 where "GPO_SCL \<equiv> 0x000002"
abbreviation (input) GPO_MOSI :: u32 where "GPO_MOSI \<equiv> 0x000004"
abbreviation (input) GPO_SCK :: u32 where "GPO_SCK \<equiv> 0x000008"
abbreviation (input) GPO_SS :: u32 where "GPO_SS \<equiv> 0x000010"

definition GPOSETV :: "u32 \<Rightarrow> u32" where
  "GPOSETV PINS = PINS OR push_bit 16 PINS"

definition GPOCLRV :: "u32 \<Rightarrow> u32" where
  "GPOCLRV PINS = push_bit 16 PINS"

section \<open>Software events (swint.h) and error numbers (errno.h)\<close>

abbreviation (input) SWINT_PPS :: u32 where "SWINT_PPS \<equiv> 0x008000"
abbreviation (input) SWINT_TIMEOUT :: u32 where "SWINT_TIMEOUT \<equiv> 0x010000"
abbreviation (input) SWINT_PPD :: u32 where "SWINT_PPD \<equiv> 0x020000"
abbreviation (input) SWINT_ALARM :: u32 where "SWINT_ALARM \<equiv> 0x040000"
abbreviation (input) SWINT_CLOCK :: u32 where "SWINT_CLOCK \<equiv> 0x080000"
abbreviation (input) SWINT_DOORBELL :: u32 where "SWINT_DOORBELL \<equiv> 0x100000"

abbreviation (input) EIO :: u32 where "EIO \<equiv> 5"
abbreviation (input) EBADF :: u32 where "EBADF \<equiv> 9"
abbreviation (input) EFAULT :: u32 where "EFAULT \<equiv> 14"
abbreviation (input) EBUSY :: u32 where "EBUSY \<equiv> 16"

section \<open>Condition codes (zipsys.h)\<close>

abbreviation (input) CC_GIE :: u32 where "CC_GIE \<equiv> 0x0020"
abbreviation (input) CC_ILL :: u32 where "CC_ILL \<equiv> 0x0100"
abbreviation (input) CC_TRAPBIT :: u32 where "CC_TRAPBIT \<equiv> 0x0200"
abbreviation (input) CC_BUSERR :: u32 where "CC_BUSERR \<equiv> 0x0400"
abbreviation (input) CC_DIVERR :: u32 where "CC_DIVERR \<equiv> 0x0800"
abbreviation (input) CC_FPUERR :: u32 where "CC_FPUERR \<equiv> 0x1000"

section \<open>Memory windows (board.h)\<close>

abbreviation (input) BKRAM :: addr where "BKRAM \<equiv> 0x004000"
abbreviation (input) FLASH :: addr where "FLASH \<equiv> 0x1000000"
abbreviation (input) MEMLEN :: u32 where "MEMLEN \<equiv> 0x04000"
abbreviation (input) FLASHLEN :: u32 where "FLASHLEN \<equiv> 0x1000000"

definition valid_ram_region :: "addr \<Rightarrow> u32 \<Rightarrow> bool" where
  "valid_ram_region PTR LN \<longleftrightarrow> PTR \<ge> BKRAM \<and> PTR + LN < BKRAM + MEMLEN"

definition valid_flash_region :: "addr \<Rightarrow> u32 \<Rightarrow> bool" where
  "valid_flash_region PTR LN \<longleftrightarrow> PTR \<ge> FLASH \<and> PTR + LN < FLASH + FLASHLEN"

definition valid_mem_region :: "addr \<Rightarrow> u32 \<Rightarrow> bool" where
  "valid_mem_region PTR LN \<longleftrightarrow> valid_ram_region PTR LN \<or> valid_flash_region PTR LN"

section \<open>The volatile register space and the history of a run\<close>

text \<open>The registers of \<open>IOSPACE\<close> and of the wishbone scope.\<close>

datatype ioreg =
    IO_PIC | IO_BUSERR | IO_TIMER | IO_WATCHDOG | IO_PWM_AUDIO | IO_SPIO | IO_GPIO
  | IO_UART | IO_VERSION | SCOPE_CTRL | SCOPE_DATA

text \<open>
  The events of a run: a register read and the value it gave, a register write, a
  system call with its three arguments and its result, a \<open>write()\<close> with the bytes
  of the caller's buffer and its result, and a \<open>read()\<close> of one byte with the byte it stored.
\<close>

datatype event =
    Rd ioreg u32
  | Wr ioreg u32
  | Call u32 u32 u32 u32 u32
  | Put u32 "u8 list" u32
  | Get u32 u8

type_synonym hist = "event list"

datatype query = QRd ioreg | QCall u32 u32 u32 u32 | QPut u32 "u8 list" | QGet u32

type_synonym env = "hist \<Rightarrow> query \<Rightarrow> u32"

definition rd :: "env \<Rightarrow> ioreg \<Rightarrow> hist \<Rightarrow> u32 \<times> hist" where
  "rd env r h = (let v = env h (QRd r) in (v, Rd r v # h))"

definition wr :: "ioreg \<Rightarrow> u32 \<Rightarrow> hist \<Rightarrow> hist" where
  "wr r v h = Wr r v # h"

text \<open>What a run has written to one register, oldest first.\<close>

fun written :: "ioreg \<Rightarrow> hist \<Rightarrow> u32 list" where
  "written r [] = []"
| "written r (Wr r' v # h) = (if r' = r then written r h @ [v] else written r h)"
| "written r (_ # h) = written r h"

text \<open>What it has written to one file descriptor, oldest first.\<close>

fun sent :: "u32 \<Rightarrow> hist \<Rightarrow> u8 list" where
  "sent fd [] = []"
| "sent fd (Put fd' bs v # h) = (if fd' = fd then sent fd h @ bs else sent fd h)"
| "sent fd (_ # h) = sent fd h"

lemma written_wr [simp]:
  "written r (wr r' v h) = (if r' = r then written r h @ [v] else written r h)"
  by (simp add: wr_def)

lemma written_rd [simp]:
  "written r (snd (rd env r' h)) = written r h"
  by (simp add: rd_def Let_def)

lemma sent_simps [simp]:
  "sent fd (wr r v h) = sent fd h"
  "sent fd (snd (rd env r h)) = sent fd h"
  by (simp_all add: wr_def rd_def Let_def)

text \<open>Which bits the PIC words set.\<close>

lemma bit_INT_ENABLEV:
  "bit (INT_ENABLEV x) n \<longleftrightarrow> n = 31 \<or> (16 \<le> n \<and> n < 32 \<and> bit x (n - 16))"
proof -
  have "(0x80000000 :: u32) = 2 ^ 31"
    by simp
  then have "bit (0x80000000 :: u32) n \<longleftrightarrow> n = 31"
    by (simp only: bit_exp_iff) (auto simp: possible_bit_def)
  then show ?thesis
    by (auto simp: INT_ENABLEV_def bit_simps)
qed

text \<open>
  What the region checks accept. The end address is computed with a 32-bit
  addition: beside the regions inside the window (short of its last byte), they accept a region
  that runs over the top of the address space.
\<close>

lemma valid_ram_region_iff:
  assumes "0 <s ln"
  shows "valid_ram_region p ln \<longleftrightarrow>
    (0x4000 \<le> unat p \<and> unat p + unat ln < 0x8000) \<or>
    (2 ^ 32 \<le> unat p + unat ln \<and> unat p + unat ln < 2 ^ 32 + 0x8000)"
proof -
  have ln: "0 < unat ln" "unat ln < 2 ^ 31"
    using assms by (simp_all add: zero_sless_u32)
  have p: "unat p < 2 ^ 32"
    using unat_u32_less [of p] by simp
  have sum: "unat (p + ln) = (if unat p + unat ln < 2 ^ 32 then unat p + unat ln
      else unat p + unat ln - 2 ^ 32)"
    by (simp add: unat_plus_if')
  have "valid_ram_region p ln \<longleftrightarrow> 0x4000 \<le> unat p \<and> unat (p + ln) < 0x8000"
    by (simp add: valid_ram_region_def word_le_nat_alt word_less_nat_alt)
  then show ?thesis
    using ln p by (auto simp: sum)
qed

end
