(* ===== verification/KState.thy ===== *)
theory KState
  imports Board
begin

text \<open>
  The state of the ZipOS kernel: the structures of sw/zipos/taskp.h, kfildes.h and syspipe.h, the
  globals of ksetup.c and kernel.c, and the locals of \<open>kernel_entry()\<close> that live from one
  pass of its loop to the next.

  Memory is split by type, as the C types split it: task structures, pipes, file descriptors and
  device tables are total maps from addresses, and the bytes that user buffers live in are the map
  \<open>mem\<close>. A pointer is its 32-bit address, \<open>NULL\<close> is 0. (That the structures and
  the user buffers do not overlap is the one thing this typed view takes for granted.)
\<close>

section \<open>Tasks (ksched.h, taskp.h)\<close>

datatype ksched_state = SCHED_READY | SCHED_WAITING | SCHED_ERR | SCHED_EXIT

abbreviation (input) MAX_KFILDES :: u32 where "MAX_KFILDES \<equiv> 4"

text \<open>
  The saved registers \<open>context[16]\<close> are a total map from the register number (every index the
  code uses is a literal below 16); 13 is the stack pointer, 14 the condition codes and 15 the
  program counter.
\<close>

record task =
  t_state :: ksched_state
  t_context :: "nat \<Rightarrow> u32"
  t_fd :: "nat \<Rightarrow> addr"
  t_user_heap :: addr
  t_errno :: u32
  t_waitsig :: u32
  t_pending :: u32
  t_timeout :: u32

section \<open>Devices and file descriptors (kfildes.h)\<close>

text \<open>The functions that the program ever installs in a \<open>KDEVICE\<close>.\<close>

datatype rwfdfun = Fn_NULL | Fn_kread_syspipe | Fn_kwrite_syspipe

record kdevice =
  dev_write :: rwfdfun
  dev_read :: rwfdfun
  dev_close :: rwfdfun

record kfildes =
  fd_id :: u32
  fd_dev :: addr

section \<open>Pipes (syspipe.h)\<close>

text \<open>The flexible array \<open>m_buf\<close> is the list of its \<open>m_mask + 1\<close> bytes.\<close>

record syspipe =
  m_mask :: u32
  m_head :: u32
  m_tail :: u32
  m_rdtask :: addr
  m_wrtask :: addr
  m_nread :: u32
  m_nwritten :: u32
  m_error :: u32
  m_buf :: "u8 list"

abbreviation (input) INTERRUPT_READ_TASK :: addr where
  "INTERRUPT_READ_TASK \<equiv> 0xffffffff"

section \<open>Trap numbers (ktraps.h)\<close>

abbreviation (input) TRAPID_WAIT :: u32 where "TRAPID_WAIT \<equiv> 0"
abbreviation (input) TRAPID_CLEAR :: u32 where "TRAPID_CLEAR \<equiv> 1"
abbreviation (input) TRAPID_POST :: u32 where "TRAPID_POST \<equiv> 2"
abbreviation (input) TRAPID_YIELD :: u32 where "TRAPID_YIELD \<equiv> 3"
abbreviation (input) TRAPID_READ :: u32 where "TRAPID_READ \<equiv> 4"
abbreviation (input) TRAPID_WRITE :: u32 where "TRAPID_WRITE \<equiv> 5"
abbreviation (input) TRAPID_TIME :: u32 where "TRAPID_TIME \<equiv> 6"
abbreviation (input) TRAPID_SEMGET :: u32 where "TRAPID_SEMGET \<equiv> 7"
abbreviation (input) TRAPID_SEMPUT :: u32 where "TRAPID_SEMPUT \<equiv> 8"
abbreviation (input) TRAPID_SEMNEW :: u32 where "TRAPID_SEMNEW \<equiv> 9"
abbreviation (input) TRAPID_MALLOC :: u32 where "TRAPID_MALLOC \<equiv> 10"
abbreviation (input) TRAPID_FREE :: u32 where "TRAPID_FREE \<equiv> 11"
abbreviation (input) TRAPID_EXIT :: u32 where "TRAPID_EXIT \<equiv> 12"

section \<open>The kernel state\<close>

text \<open>
  Addresses the linker chooses: code entry points that the kernel stores in a program counter,
  and the start of the heap. They are parameters, the field \<open>sym\<close> of the state.
\<close>

datatype symbol =
    Sym_uread_syspipe | Sym_uwrite_syspipe | Sym_idle_task | Sym_rtctask
  | Sym_doorbell_task | Sym_display_task | Sym_menu_task | Sym_top_of_heap

record kst =
  tasks :: "addr \<Rightarrow> task"
  pipes :: "addr \<Rightarrow> syspipe"
  fildes :: "addr \<Rightarrow> kfildes"
  devices :: "addr \<Rightarrow> kdevice"
  mem :: "addr \<Rightarrow> u8"
  sym :: "symbol \<Rightarrow> addr"
  heap :: addr
  LAST_TASK :: nat
  tasklist :: "addr list"
  rxpipe :: addr
  txpipe :: addr
  keypipe :: addr
  lcdpipe :: addr
  pwmpipe :: addr
  cmdpipe :: addr
  pipedev :: addr
  txdev :: addr
  pwmdev :: addr
  current :: addr
  nheartbeats :: u32
  tickcount :: u32
  milliseconds :: u32
  ticks :: u32
  audiostate :: u32
  buttonstate :: u32
  enableset :: u32
  uregs :: "nat \<Rightarrow> u32"
  io :: hist

text \<open>Why the processor stopped: \<open>kpanic()\<close> dumps and restarts, \<open>zip_halt()\<close> halts.\<close>

datatype halt = KPANIC | ZIP_HALT

type_synonym 'a res = "(halt \<times> kst) + 'a"

section \<open>Updates\<close>

definition upd_task :: "addr \<Rightarrow> (task \<Rightarrow> task) \<Rightarrow> kst \<Rightarrow> kst" where
  "upd_task p f = tasks_update (\<lambda>ts. ts(p := f (ts p)))"

definition upd_pipe :: "addr \<Rightarrow> (syspipe \<Rightarrow> syspipe) \<Rightarrow> kst \<Rightarrow> kst" where
  "upd_pipe p f = pipes_update (\<lambda>ps. ps(p := f (ps p)))"

definition set_state :: "addr \<Rightarrow> ksched_state \<Rightarrow> kst \<Rightarrow> kst" where
  "set_state p st = upd_task p (\<lambda>t. t\<lparr>t_state := st\<rparr>)"

definition set_ctx :: "addr \<Rightarrow> nat \<Rightarrow> u32 \<Rightarrow> kst \<Rightarrow> kst" where
  "set_ctx p i v = upd_task p (\<lambda>t. t\<lparr>t_context := (t_context t)(i := v)\<rparr>)"

abbreviation ctx :: "kst \<Rightarrow> addr \<Rightarrow> nat \<Rightarrow> u32" where
  "ctx s p i \<equiv> t_context (tasks s p) i"

definition io_rd :: "env \<Rightarrow> ioreg \<Rightarrow> kst \<Rightarrow> u32 \<times> kst" where
  "io_rd env r s = (let (v, h) = rd env r (io s) in (v, s\<lparr>io := h\<rparr>))"

definition io_wr :: "ioreg \<Rightarrow> u32 \<Rightarrow> kst \<Rightarrow> kst" where
  "io_wr r v = io_update (wr r v)"

text \<open>\<open>DISABLE_INTS()\<close> and \<open>ENABLE_INTS()\<close> of zipsys.h.\<close>

definition DISABLE_INTS :: "kst \<Rightarrow> kst" where
  "DISABLE_INTS = io_wr IO_PIC 0"

definition ENABLE_INTS :: "kst \<Rightarrow> kst" where
  "ENABLE_INTS = io_wr IO_PIC INT_ENABLE"

text \<open>Save and restore the user register file (zipsys.c, around the CPU builtins).\<close>

definition save_context :: "addr \<Rightarrow> kst \<Rightarrow> kst" where
  "save_context p s = upd_task p (\<lambda>t. t\<lparr>t_context := (\<lambda>i. if i < 16 then uregs s i else t_context t i)\<rparr>) s"

definition restore_context :: "addr \<Rightarrow> kst \<Rightarrow> kst" where
  "restore_context p s = s\<lparr>uregs := (\<lambda>i. if i < 16 then t_context (tasks s p) i else uregs s i)\<rparr>"

lemmas state_updates [simp] =
  upd_task_def upd_pipe_def set_state_def set_ctx_def io_wr_def DISABLE_INTS_def ENABLE_INTS_def
  save_context_def restore_context_def

text \<open>An update by a function is an update by a value.\<close>

lemma kst_update_value:
  "pipes_update f s = s\<lparr>pipes := f (pipes s)\<rparr>"
  "tasks_update g s = s\<lparr>tasks := g (tasks s)\<rparr>"
  "io_update h s = s\<lparr>io := h (io s)\<rparr>"
  by simp_all

lemma io_rd_eq:
  "io_rd env r s = (env (io s) (QRd r), s\<lparr>io := Rd r (env (io s) (QRd r)) # io s\<rparr>)"
  by (simp add: io_rd_def rd_def Let_def)

section \<open>The state before setup\<close>

text \<open>
  The cleared memory the kernel starts from; the symbols are at some addresses in
  the flash and the heap starts in the block RAM.
\<close>

definition blank_task :: task where
  "blank_task = \<lparr>t_state = SCHED_READY, t_context = (\<lambda>_. 0), t_fd = (\<lambda>_. NULL), t_user_heap = NULL,
    t_errno = 0, t_waitsig = 0, t_pending = 0, t_timeout = 0\<rparr>"

definition blank_pipe :: "nat \<Rightarrow> syspipe" where
  "blank_pipe n = \<lparr>m_mask = of_nat n - 1, m_head = 0, m_tail = 0, m_rdtask = NULL, m_wrtask = NULL,
    m_nread = 0, m_nwritten = 0, m_error = 0, m_buf = replicate n 0\<rparr>"

definition blank_kst :: kst where
  "blank_kst = \<lparr>tasks = (\<lambda>_. blank_task), pipes = (\<lambda>_. blank_pipe 16),
    fildes = (\<lambda>_. \<lparr>fd_id = 0, fd_dev = NULL\<rparr>),
    devices = (\<lambda>_. \<lparr>dev_write = Fn_NULL, dev_read = Fn_NULL, dev_close = Fn_NULL\<rparr>),
    mem = (\<lambda>_. 0),
    sym = (\<lambda>y. case y of Sym_uread_syspipe \<Rightarrow> 0x1000100 | Sym_uwrite_syspipe \<Rightarrow> 0x1000200
      | Sym_idle_task \<Rightarrow> 0x1000300 | Sym_rtctask \<Rightarrow> 0x1000400 | Sym_doorbell_task \<Rightarrow> 0x1000500
      | Sym_display_task \<Rightarrow> 0x1000600 | Sym_menu_task \<Rightarrow> 0x1000700 | Sym_top_of_heap \<Rightarrow> 0x4800),
    heap = NULL, LAST_TASK = 0, tasklist = [], rxpipe = NULL, txpipe = NULL, keypipe = NULL,
    lcdpipe = NULL, pwmpipe = NULL, cmdpipe = NULL, pipedev = NULL, txdev = NULL, pwmdev = NULL,
    current = NULL, nheartbeats = 0, tickcount = 0, milliseconds = 0, ticks = 0, audiostate = 0,
    buttonstate = 0, enableset = 0, uregs = (\<lambda>_. 0), io = []\<rparr>"

lemma blank_ready [simp]: "t_state (tasks blank_kst p) = SCHED_READY"
  by (simp add: blank_kst_def blank_task_def)

lemmas blank_defs = blank_kst_def blank_pipe_def blank_task_def

end
