(* ===== verification/Syspipe.thy ===== *)
theory Syspipe
  imports KState
begin

text \<open>
  The ring buffer of the system pipes (sw/zipos/syspipe.c): the kernel-side push and pop, and
  the free-space count. The contents of a pipe is the list of bytes from tail to head; the
  operations are a bounded FIFO queue over that list, stated as the locale
  \<open>bounded_queue\<close> and interpreted on the code's own operations.
\<close>

section \<open>The operations\<close>

definition kpush_syspipe :: "addr \<Rightarrow> u8 \<Rightarrow> kst \<Rightarrow> kst" where
  "kpush_syspipe pipe val s =
    (let p = pipes s pipe;
         tst = (m_head p + 1) AND m_mask p
     in if tst \<noteq> m_tail p
        then let s1 = upd_pipe pipe (\<lambda>q. q\<lparr>m_buf := (m_buf p)[unat (m_head p) := val],
                                        m_head := tst\<rparr>) s
             in if m_rdtask p \<noteq> NULL \<and> m_rdtask p \<noteq> INTERRUPT_READ_TASK
                then set_state (m_rdtask p) SCHED_READY s1
                else s1
        else upd_pipe pipe (\<lambda>q. q\<lparr>m_error := 1\<rparr>) s)"

text \<open>
  The result of \<open>kpop_syspipe\<close> is \<open>Some v\<close> where the code stores \<open>v\<close> and
  returns 0, \<open>None\<close> where it returns 1 (and stores nothing).
\<close>

definition kpop_syspipe :: "addr \<Rightarrow> kst \<Rightarrow> u8 option \<times> kst" where
  "kpop_syspipe pipe s =
    (let p = pipes s pipe
     in if m_head p \<noteq> m_tail p
        then let vl = m_buf p ! unat (m_tail p);
                 s1 = upd_pipe pipe (\<lambda>q. q\<lparr>m_tail := (m_tail p + 1) AND m_mask p\<rparr>) s
             in (Some vl, if m_wrtask p \<noteq> NULL then set_state (m_wrtask p) SCHED_READY s1 else s1)
        else (None, s))"

text \<open>
  A short is read at the tail in one (big-endian) access. The CPU's halfword load ignores the
  lowest address bit (rtl/cpu/memops.v), and \<open>m_buf\<close> starts at a word boundary of the
  structure, so the pair is the one that holds the tail.
\<close>

definition load_short :: "u8 list \<Rightarrow> nat \<Rightarrow> u16" where
  "load_short buf i = push_bit 8 (ucast (buf ! (2 * (i div 2)))) OR ucast (buf ! (2 * (i div 2) + 1))"

definition kpop_short_syspipe :: "addr \<Rightarrow> kst \<Rightarrow> u16 option \<times> kst" where
  "kpop_short_syspipe pipe s =
    (let p = pipes s pipe
     in if m_head p = m_tail p then (None, s)
        else let vl = load_short (m_buf p) (unat (m_tail p));
                 s1 = upd_pipe pipe (\<lambda>q. q\<lparr>m_tail := (m_tail p + 2) AND m_mask p\<rparr>) s
             in (Some vl, if m_wrtask p \<noteq> NULL then set_state (m_wrtask p) SCHED_READY s1 else s1))"

definition num_avail_syspipe :: "syspipe \<Rightarrow> u32" where
  "num_avail_syspipe p = (m_tail p - m_head p - 1) AND m_mask p"

section \<open>Well-formed pipes and their contents\<close>

text \<open>
  The mask is \<open>2^k - 1\<close> for a ring of at least 16 and at most \<open>2^30\<close> bytes, the buffer has
  one byte per index, and both indices are inside it.
\<close>

definition is_ring_mask :: "u32 \<Rightarrow> bool" where
  "is_ring_mask m \<longleftrightarrow> (\<exists>k\<in>set [4..<31]. m = mask k)"

definition ring_size :: "syspipe \<Rightarrow> nat" where
  "ring_size p = unat (m_mask p) + 1"

definition pipe_wf :: "syspipe \<Rightarrow> bool" where
  "pipe_wf p \<longleftrightarrow> is_ring_mask (m_mask p) \<and> length (m_buf p) = ring_size p \<and>
    unat (m_head p) < ring_size p \<and> unat (m_tail p) < ring_size p"

definition pipe_len :: "syspipe \<Rightarrow> nat" where
  "pipe_len p = (unat (m_head p) + ring_size p - unat (m_tail p)) mod ring_size p"

definition pipe_bytes :: "syspipe \<Rightarrow> u8 list" where
  "pipe_bytes p = map (\<lambda>i. m_buf p ! ((unat (m_tail p) + i) mod ring_size p)) [0..<pipe_len p]"

definition pipe_room :: "syspipe \<Rightarrow> nat" where
  "pipe_room p = ring_size p - 1 - pipe_len p"

lemma is_ring_maskE:
  assumes "is_ring_mask m"
  obtains k where "4 \<le> k" "k < 31" "m = mask k" "unat m + 1 = 2 ^ k"
proof -
  obtain k where k: "4 \<le> k" "k < 31" "m = mask k"
    using assms unfolding is_ring_mask_def set_upt by auto
  then have "unat m + 1 = 2 ^ k"
    using unat_mask_plus_1 [where 'a = 32, of k] by simp
  with k show thesis
    by (rule that)
qed

lemma ring_size_bounds:
  assumes "is_ring_mask (m_mask p)"
  shows "16 \<le> ring_size p" "ring_size p \<le> 2 ^ 30"
proof -
  obtain k where k: "4 \<le> k" "k < 31" "ring_size p = 2 ^ k"
    using assms by (auto simp: ring_size_def elim: is_ring_maskE)
  have "(2 :: nat) ^ 4 \<le> 2 ^ k" "(2 :: nat) ^ k \<le> 2 ^ 30"
    using k by (intro power_increasing; simp)+
  then show "16 \<le> ring_size p" "ring_size p \<le> 2 ^ 30"
    by (simp_all add: k)
qed

text \<open>Index arithmetic of the code, read in natural numbers.\<close>

lemma unat_index_plus [mask_simps]:
  assumes "is_ring_mask (m_mask p)"
  shows "unat ((x + y) AND m_mask p) = (unat x + unat y) mod ring_size p"
proof -
  obtain k where k: "k < 31" "m_mask p = mask k" "ring_size p = 2 ^ k"
    using assms unfolding ring_size_def by (auto elim: is_ring_maskE)
  show ?thesis
    unfolding k(2,3) using k(1) by (intro unat_plus_and_mask) simp
qed

lemma pipe_len_less: "pipe_wf p \<Longrightarrow> pipe_len p < ring_size p"
  by (simp add: pipe_len_def pipe_wf_def)

lemma length_pipe_bytes [simp]: "length (pipe_bytes p) = pipe_len p"
  by (simp add: pipe_bytes_def)

lemma nth_pipe_bytes:
  "i < pipe_len p \<Longrightarrow> pipe_bytes p ! i = m_buf p ! ((unat (m_tail p) + i) mod ring_size p)"
  by (simp add: pipe_bytes_def)

lemma pipe_len_eq:
  assumes "pipe_wf p"
  shows "pipe_len p = (if unat (m_tail p) \<le> unat (m_head p)
    then unat (m_head p) - unat (m_tail p)
    else unat (m_head p) + ring_size p - unat (m_tail p))"
  using assms by (auto simp: pipe_len_def pipe_wf_def mod_if)

lemma pipe_empty_iff:
  "pipe_wf p \<Longrightarrow> m_head p = m_tail p \<longleftrightarrow> pipe_len p = 0"
  by (auto simp: pipe_len_eq pipe_wf_def word_unat_eq_iff split: if_splits)

lemma ring_index:
  "(t::nat) < n \<Longrightarrow> i < n \<Longrightarrow> (t + i) mod n = (if t + i < n then t + i else t + i - n)"
  by (simp add: mod_if)

text \<open>The byte at the head index is the one after the contents.\<close>

lemma head_index:
  assumes "pipe_wf p"
  shows "(unat (m_tail p) + pipe_len p) mod ring_size p = unat (m_head p)"
  using assms by (auto simp: ring_index pipe_len_less pipe_len_eq [OF assms] pipe_wf_def)

lemma head_not_in_contents:
  assumes "pipe_wf p" "i < pipe_len p"
  shows "(unat (m_tail p) + i) mod ring_size p \<noteq> unat (m_head p)"
proof -
  have "i < ring_size p"
    using assms pipe_len_less [of p] by simp
  then show ?thesis
    using assms by (auto simp: ring_index pipe_len_eq pipe_wf_def split: if_splits)
qed

section \<open>What the operations do to the ring\<close>

text \<open>
  The ring part of a push and of a pop, as updates of the one structure; the operations above are
  these updates and the wake-up of the blocked task.
\<close>

definition ring_push :: "u8 \<Rightarrow> syspipe \<Rightarrow> syspipe" where
  "ring_push v p = (let tst = (m_head p + 1) AND m_mask p
     in if tst \<noteq> m_tail p
        then p\<lparr>m_buf := (m_buf p)[unat (m_head p) := v], m_head := tst\<rparr>
        else p\<lparr>m_error := 1\<rparr>)"

definition ring_drop :: "u32 \<Rightarrow> syspipe \<Rightarrow> syspipe" where
  "ring_drop n p = (if m_head p \<noteq> m_tail p then p\<lparr>m_tail := (m_tail p + n) AND m_mask p\<rparr> else p)"

lemma pipes_kpush [simp]:
  "pipes (kpush_syspipe pp v s) = (pipes s)(pp := ring_push v (pipes s pp))"
  by (simp add: kpush_syspipe_def ring_push_def Let_def)

lemma pipes_kpop [simp]:
  "pipes (snd (kpop_syspipe pp s)) = (pipes s)(pp := ring_drop 1 (pipes s pp))"
  by (simp add: kpop_syspipe_def ring_drop_def Let_def)

lemma pipes_kpop_short [simp]:
  "pipes (snd (kpop_short_syspipe pp s)) = (pipes s)(pp := ring_drop 2 (pipes s pp))"
  by (simp add: kpop_short_syspipe_def ring_drop_def Let_def)

lemma push_guard:
  assumes "pipe_wf p"
  shows "(m_head p + 1) AND m_mask p = m_tail p \<longleftrightarrow> pipe_room p = 0"
proof -
  have idx: "unat ((m_head p + 1) AND m_mask p) = (unat (m_head p) + 1) mod ring_size p"
    using assms by (simp add: unat_index_plus pipe_wf_def)
  show ?thesis
    using assms ring_size_bounds [of p]
    unfolding word_unat_eq_iff idx
    by (auto simp: pipe_room_def pipe_len_eq pipe_wf_def mod_if split: if_splits)
qed

lemma ring_push_full:
  "pipe_wf p \<Longrightarrow> pipe_room p = 0 \<Longrightarrow> ring_push v p = p\<lparr>m_error := 1\<rparr>"
  by (simp add: ring_push_def Let_def push_guard)

lemma ring_push_room:
  assumes "pipe_wf p" "0 < pipe_room p"
  shows "pipe_wf (ring_push v p)"
    and "pipe_len (ring_push v p) = Suc (pipe_len p)"
    and "ring_size (ring_push v p) = ring_size p"
    and "pipe_bytes (ring_push v p) = pipe_bytes p @ [v]"
proof -
  let ?q = "ring_push v p"
  have idx: "unat ((m_head p + 1) AND m_mask p) = (unat (m_head p) + 1) mod ring_size p"
    using assms(1) by (simp add: unat_index_plus pipe_wf_def)
  have q: "?q = p\<lparr>m_buf := (m_buf p)[unat (m_head p) := v], m_head := (m_head p + 1) AND m_mask p\<rparr>"
    using assms push_guard [of p] by (simp add: ring_push_def Let_def)
  show size: "ring_size ?q = ring_size p"
    by (simp add: q ring_size_def)
  have "(unat (m_head p) + 1) mod ring_size p < ring_size p"
    by (rule mod_less_divisor) (simp add: ring_size_def)
  then show wf: "pipe_wf ?q"
    using assms(1) size idx by (simp add: pipe_wf_def q)
  show len: "pipe_len ?q = Suc (pipe_len p)"
    using assms idx size unfolding pipe_len_eq [OF wf] pipe_room_def
    by (auto simp: q pipe_len_eq pipe_wf_def mod_if split: if_splits)
  have upd: "i < ring_size p \<Longrightarrow> m_buf ?q ! i = (if i = unat (m_head p) then v else m_buf p ! i)" for i
    using assms(1) by (simp add: q pipe_wf_def nth_list_update)
  have tail: "m_tail ?q = m_tail p"
    by (simp add: q)
  have same: "m_buf ?q ! ((unat (m_tail p) + i) mod ring_size p)
      = m_buf p ! ((unat (m_tail p) + i) mod ring_size p)" if "i < pipe_len p" for i
    using head_not_in_contents [OF assms(1) that] by (subst upd) (simp_all add: ring_size_def)
  have last: "m_buf ?q ! ((unat (m_tail p) + pipe_len p) mod ring_size p) = v"
    using head_index [OF assms(1)] assms(1) by (simp add: upd pipe_wf_def)
  show "pipe_bytes ?q = pipe_bytes p @ [v]"
    unfolding pipe_bytes_def len size tail using same last by simp
qed

lemma ring_drop_one:
  assumes "pipe_wf p" "pipe_bytes p = x # xs"
  shows "pipe_wf (ring_drop 1 p)"
    and "pipe_len (ring_drop 1 p) = length xs"
    and "ring_size (ring_drop 1 p) = ring_size p"
    and "pipe_bytes (ring_drop 1 p) = xs"
    and "m_buf p ! unat (m_tail p) = x"
proof -
  let ?q = "ring_drop 1 p"
  have len0: "pipe_len p = Suc (length xs)"
    using arg_cong [OF assms(2), of length] by simp
  have idx: "unat ((m_tail p + 1) AND m_mask p) = (unat (m_tail p) + 1) mod ring_size p"
    using assms(1) by (simp add: unat_index_plus pipe_wf_def)
  have q: "?q = p\<lparr>m_tail := (m_tail p + 1) AND m_mask p\<rparr>"
    using len0 pipe_empty_iff [OF assms(1)] by (simp add: ring_drop_def)
  show size: "ring_size ?q = ring_size p"
    by (simp add: q ring_size_def)
  have "(unat (m_tail p) + 1) mod ring_size p < ring_size p"
    by (rule mod_less_divisor) (simp add: ring_size_def)
  then show wf: "pipe_wf ?q"
    using assms(1) size idx by (simp add: pipe_wf_def q)
  show len: "pipe_len ?q = length xs"
    using assms(1) len0 idx size unfolding pipe_len_eq [OF wf]
    by (auto simp: q pipe_len_eq pipe_wf_def mod_if split: if_splits)
  have nth: "i < pipe_len p \<Longrightarrow> m_buf p ! ((unat (m_tail p) + i) mod ring_size p) = (x # xs) ! i" for i
    using nth_pipe_bytes [of i p] by (simp add: assms(2))
  show "m_buf p ! unat (m_tail p) = x"
    using nth [of 0] len0 assms(1) by (simp add: pipe_wf_def)
  show "pipe_bytes ?q = xs"
  proof (rule nth_equalityI)
    show "length (pipe_bytes ?q) = length xs"
      by (simp add: len)
  next
    fix i assume "i < length (pipe_bytes ?q)"
    then have i: "Suc i < pipe_len p"
      by (simp add: len len0)
    have "pipe_bytes ?q ! i = m_buf p ! ((unat (m_tail ?q) + i) mod ring_size p)"
      using i len0 unfolding pipe_bytes_def len size by (simp add: q)
    also have "(unat (m_tail ?q) + i) mod ring_size p = (unat (m_tail p) + Suc i) mod ring_size p"
      by (simp add: q idx mod_simps)
    finally show "pipe_bytes ?q ! i = xs ! i"
      using nth [OF i] by simp
  qed
qed

text \<open>Dropping the two oldest bytes at once, where there are two.\<close>

lemma ring_drop_two:
  assumes "pipe_wf p" "pipe_bytes p = x # y # zs"
  shows "ring_drop 2 p = ring_drop 1 (ring_drop 1 p)"
proof -
  have ne: "m_head p \<noteq> m_tail p"
    using assms by (auto simp: pipe_empty_iff simp flip: length_pipe_bytes)
  have wf1: "pipe_wf (ring_drop 1 p)" and len1: "pipe_len (ring_drop 1 p) = Suc (length zs)"
    using ring_drop_one [OF assms] by simp_all
  then have ne1: "m_head (ring_drop 1 p) \<noteq> m_tail (ring_drop 1 p)"
    by (auto simp: pipe_empty_iff)
  have "(((m_tail p + 1) AND m_mask p) + 1) AND m_mask p = (m_tail p + 2) AND m_mask p"
  proof -
    have m: "is_ring_mask (m_mask p)"
      using assms(1) by (simp add: pipe_wf_def)
    show ?thesis
      by (simp add: word_unat_eq_iff unat_index_plus [OF m] mod_simps)
  qed
  then show ?thesis
    using ne ne1 by (simp add: ring_drop_def)
qed

section \<open>A bounded queue and its clients\<close>

text \<open>
  How interrupt handlers use a queue: a burst of pops, and any interleaving of pushes
  (\<open>Some x\<close>) and pops (\<open>None\<close>). A run returns the values that were accepted, the
  values that came out, and the final state.
\<close>

fun deq_all :: "('s \<Rightarrow> 'a option \<times> 's) \<Rightarrow> nat \<Rightarrow> 's \<Rightarrow> 'a option list \<times> 's" where
  "deq_all deq 0 s = ([], s)"
| "deq_all deq (Suc n) s =
    (fst (deq s) # fst (deq_all deq n (snd (deq s))), snd (deq_all deq n (snd (deq s))))"

fun queue_run :: "('a \<Rightarrow> 's \<Rightarrow> 's) \<Rightarrow> ('s \<Rightarrow> 'a option \<times> 's) \<Rightarrow> ('s \<Rightarrow> nat) \<Rightarrow>
    'a option list \<Rightarrow> 's \<Rightarrow> 'a list \<times> 'a list \<times> 's" where
  "queue_run enq deq room [] s = ([], [], s)"
| "queue_run enq deq room (Some x # ops) s =
    (let (ins, outs, s') = queue_run enq deq room ops (enq x s)
     in (if 0 < room s then x # ins else ins, outs, s'))"
| "queue_run enq deq room (None # ops) s =
    (let (ins, outs, s') = queue_run enq deq room ops (snd (deq s))
     in (ins, case fst (deq s) of None \<Rightarrow> outs | Some y \<Rightarrow> y # outs, s'))"

text \<open>The contract of a bounded FIFO queue.\<close>

locale bounded_queue =
  fixes enq :: "'a \<Rightarrow> 's \<Rightarrow> 's"
    and deq :: "'s \<Rightarrow> 'a option \<times> 's"
    and contents :: "'s \<Rightarrow> 'a list"
    and room :: "'s \<Rightarrow> nat"
    and inv :: "'s \<Rightarrow> bool"
  assumes inv_enq: "inv s \<Longrightarrow> inv (enq x s)"
    and inv_deq: "inv s \<Longrightarrow> inv (snd (deq s))"
    and enq_room: "inv s \<Longrightarrow> 0 < room s \<Longrightarrow> contents (enq x s) = contents s @ [x]"
    and enq_full: "inv s \<Longrightarrow> room s = 0 \<Longrightarrow> contents (enq x s) = contents s"
    and room_enq: "inv s \<Longrightarrow> room (enq x s) = room s - 1"
    and deq_nil: "inv s \<Longrightarrow> contents s = [] \<Longrightarrow> fst (deq s) = None \<and> contents (snd (deq s)) = []"
    and deq_cons: "inv s \<Longrightarrow> contents s = x # xs \<Longrightarrow>
      fst (deq s) = Some x \<and> contents (snd (deq s)) = xs"
begin

lemma inv_enq_all: "inv s \<Longrightarrow> inv (fold enq xs s)"
  by (induction xs arbitrary: s) (simp_all add: inv_enq)

text \<open>A burst is kept up to the free room, and what does not fit is lost.\<close>

lemma enq_all_contents:
  "inv s \<Longrightarrow> contents (fold enq xs s) = contents s @ take (room s) xs"
proof (induction xs arbitrary: s)
  case Nil
  then show ?case by simp
next
  case (Cons x xs)
  then show ?case
    by (cases "room s") (simp_all add: inv_enq enq_room enq_full room_enq)
qed

lemma deq_all_contents:
  "inv s \<Longrightarrow> contents s = xs @ ys \<Longrightarrow>
    fst (deq_all deq (length xs) s) = map Some xs \<and> contents (snd (deq_all deq (length xs) s)) = ys"
proof (induction xs arbitrary: s)
  case Nil
  then show ?case by simp
next
  case (Cons x xs)
  have "fst (deq s) = Some x \<and> contents (snd (deq s)) = xs @ ys"
    using Cons.prems by (intro deq_cons) simp_all
  with Cons.IH [of "snd (deq s)"] Cons.prems inv_deq [of s] show ?case
    by simp
qed

lemma enq_deq_roundtrip:
  assumes "inv s" "contents s = []" "length xs \<le> room s"
  shows "fst (deq_all deq (length xs) (fold enq xs s)) = map Some xs"
  using deq_all_contents [of "fold enq xs s" xs "[]"] enq_all_contents [of s xs] inv_enq_all [of s xs]
    assms by simp

text \<open>
  First in, first out over a whole run: what was inside, followed by what was
  accepted, is what came out, followed by what is still inside.
\<close>

lemma fifo_run:
  "inv s \<Longrightarrow> queue_run enq deq room ops s = (ins, outs, s') \<Longrightarrow>
    contents s @ ins = outs @ contents s' \<and> inv s'"
proof (induction ops arbitrary: s ins outs)
  case Nil
  then show ?case by simp
next
  case (Cons op ops)
  show ?case
  proof (cases op)
    case (Some x)
    obtain ins1 outs1 s1 where r: "queue_run enq deq room ops (enq x s) = (ins1, outs1, s1)"
      by (rule prod_cases3)
    with Cons.prems Some have "s1 = s'" by simp
    with Cons.IH [OF inv_enq [OF Cons.prems(1)]] r
    have "contents (enq x s) @ ins1 = outs1 @ contents s' \<and> inv s'" by simp
    then show ?thesis
      using Cons.prems Some r by (cases "room s") (auto simp: enq_room enq_full)
  next
    case None
    obtain ins1 outs1 s1 where r: "queue_run enq deq room ops (snd (deq s)) = (ins1, outs1, s1)"
      by (rule prod_cases3)
    with Cons.prems None have "s1 = s'" by simp
    with Cons.IH [OF inv_deq [OF Cons.prems(1)]] r
    have "contents (snd (deq s)) @ ins1 = outs1 @ contents s' \<and> inv s'" by simp
    then show ?thesis
      using Cons.prems None r deq_nil [OF Cons.prems(1)] deq_cons [OF Cons.prems(1)]
      by (cases "contents s") auto
  qed
qed

end

section \<open>The pipes are bounded queues\<close>

lemma pipe_room_le: "pipe_wf p \<Longrightarrow> pipe_len p + pipe_room p = ring_size p - 1"
  using pipe_len_less [of p] by (simp add: pipe_room_def)

text \<open>The ring does not depend on the bookkeeping fields.\<close>

lemma ring_bookkeeping [simp]:
  "pipe_wf (p\<lparr>m_error := e\<rparr>) = pipe_wf p"
  "pipe_wf (p\<lparr>m_rdtask := t\<rparr>) = pipe_wf p"
  "pipe_wf (p\<lparr>m_wrtask := t\<rparr>) = pipe_wf p"
  "pipe_wf (p\<lparr>m_nread := n\<rparr>) = pipe_wf p"
  "pipe_wf (p\<lparr>m_nwritten := n\<rparr>) = pipe_wf p"
  "ring_size (p\<lparr>m_error := e\<rparr>) = ring_size p"
  "ring_size (p\<lparr>m_rdtask := t\<rparr>) = ring_size p"
  "ring_size (p\<lparr>m_wrtask := t\<rparr>) = ring_size p"
  "ring_size (p\<lparr>m_nread := n\<rparr>) = ring_size p"
  "ring_size (p\<lparr>m_nwritten := n\<rparr>) = ring_size p"
  "pipe_len (p\<lparr>m_error := e\<rparr>) = pipe_len p"
  "pipe_len (p\<lparr>m_rdtask := t\<rparr>) = pipe_len p"
  "pipe_len (p\<lparr>m_wrtask := t\<rparr>) = pipe_len p"
  "pipe_len (p\<lparr>m_nread := n\<rparr>) = pipe_len p"
  "pipe_len (p\<lparr>m_nwritten := n\<rparr>) = pipe_len p"
  "pipe_bytes (p\<lparr>m_error := e\<rparr>) = pipe_bytes p"
  "pipe_bytes (p\<lparr>m_rdtask := t\<rparr>) = pipe_bytes p"
  "pipe_bytes (p\<lparr>m_wrtask := t\<rparr>) = pipe_bytes p"
  "pipe_bytes (p\<lparr>m_nread := n\<rparr>) = pipe_bytes p"
  "pipe_bytes (p\<lparr>m_nwritten := n\<rparr>) = pipe_bytes p"
  by (simp_all add: pipe_wf_def pipe_bytes_def pipe_len_def ring_size_def)

lemma room_bookkeeping [simp]:
  "pipe_room (p\<lparr>m_error := e\<rparr>) = pipe_room p"
  "pipe_room (p\<lparr>m_rdtask := t\<rparr>) = pipe_room p"
  "pipe_room (p\<lparr>m_wrtask := t\<rparr>) = pipe_room p"
  "pipe_room (p\<lparr>m_nread := n\<rparr>) = pipe_room p"
  "pipe_room (p\<lparr>m_nwritten := n\<rparr>) = pipe_room p"
  by (simp_all add: pipe_room_def)

lemma ring_push_wf: "pipe_wf p \<Longrightarrow> pipe_wf (ring_push v p)"
  by (cases "pipe_room p") (simp_all add: ring_push_full ring_push_room)

lemma ring_push_pipe_room: "pipe_wf p \<Longrightarrow> pipe_room (ring_push v p) = pipe_room p - 1"
  by (cases "pipe_room p = 0") (simp_all add: ring_push_full ring_push_room pipe_room_def)

lemma ring_drop_wf: "pipe_wf p \<Longrightarrow> pipe_wf (ring_drop n p)"
proof -
  assume a: "pipe_wf p"
  have "unat ((m_tail p + n) AND m_mask p) < ring_size p"
    using a by (simp add: unat_index_plus pipe_wf_def ring_size_def)
  with a show ?thesis
    by (simp add: ring_drop_def pipe_wf_def ring_size_def)
qed

lemma kpop_result:
  assumes "pipe_wf (pipes s pp)"
  shows "fst (kpop_syspipe pp s) =
    (case pipe_bytes (pipes s pp) of [] \<Rightarrow> None | x # _ \<Rightarrow> Some x)"
proof (cases "pipe_bytes (pipes s pp)")
  case Nil
  then have "m_head (pipes s pp) = m_tail (pipes s pp)"
    using assms by (simp add: pipe_empty_iff flip: length_pipe_bytes)
  then show ?thesis
    by (simp add: kpop_syspipe_def Nil)
next
  case (Cons x xs)
  then have "m_head (pipes s pp) \<noteq> m_tail (pipes s pp)"
    using assms by (simp add: pipe_empty_iff flip: length_pipe_bytes)
  then show ?thesis
    using ring_drop_one(5) [OF assms Cons] by (simp add: kpop_syspipe_def Cons Let_def)
qed

lemma ring_drop_empty:
  "pipe_wf p \<Longrightarrow> pipe_bytes p = [] \<Longrightarrow> ring_drop n p = p"
  by (simp add: ring_drop_def pipe_empty_iff flip: length_pipe_bytes)

interpretation pipeq: bounded_queue "kpush_syspipe pp" "kpop_syspipe pp"
    "\<lambda>s. pipe_bytes (pipes s pp)" "\<lambda>s. pipe_room (pipes s pp)" "\<lambda>s. pipe_wf (pipes s pp)"
  for pp
  by unfold_locales
    (auto simp: ring_push_wf ring_drop_wf ring_push_room ring_push_full ring_push_pipe_room
      kpop_result ring_drop_empty ring_drop_one)

section \<open>The free-space count\<close>

lemma unat_index_minus:
  assumes "is_ring_mask (m_mask p)" "unat x < ring_size p" "unat y < ring_size p"
  shows "unat ((x - y - 1) AND m_mask p) = (unat x + ring_size p - unat y - 1) mod ring_size p"
proof -
  obtain k where k: "k < 31" "m_mask p = mask k" "ring_size p = 2 ^ k" "unat (m_mask p) + 1 = 2 ^ k"
    using assms(1) unfolding ring_size_def by (auto elim: is_ring_maskE)
  define z :: u32 where "z = of_nat (unat x + ring_size p - unat y - 1)"
  have small: "ring_size p \<le> 2 ^ 30"
    using assms(1) by (rule ring_size_bounds)
  then have z: "unat z = unat x + ring_size p - unat y - 1"
    unfolding z_def using assms(2,3) by (intro unat_of_nat_u32) simp
  have rs: "(of_nat (ring_size p) :: u32) = m_mask p + 1"
    by (simp add: ring_size_def)
  have "z = x - y - 1 + of_nat (ring_size p)"
    using assms(3) by (simp add: z_def of_nat_diff algebra_simps)
  then have "z AND mask k = (x - y - 1 + (mask k + 1)) AND mask k"
    by (simp add: rs k(2))
  also have "\<dots> = (x - y - 1) AND mask k"
  proof -
    have "unat (mask k + 1 :: u32) = 2 ^ k"
      using k small by (simp add: unat_word_ariths)
    then have "unat ((x - y - 1 + (mask k + 1)) AND mask k) = unat (x - y - 1) mod 2 ^ k"
      using k(1) by (subst unat_plus_and_mask) simp_all
    then show ?thesis
      unfolding word_unat_eq_iff unat_and_mask_eq_mod by (simp only: )
  qed
  finally have "(x - y - 1) AND m_mask p = z AND mask k"
    by (simp add: k(2))
  then show ?thesis
    by (simp add: mask_simps z k(3))
qed

lemma num_avail_room:
  assumes "pipe_wf p"
  shows "unat (num_avail_syspipe p) = pipe_room p"
proof -
  have "unat (num_avail_syspipe p)
      = (unat (m_tail p) + ring_size p - unat (m_head p) - 1) mod ring_size p"
    unfolding num_avail_syspipe_def
    using assms by (intro unat_index_minus) (simp_all add: pipe_wf_def)
  then show ?thesis
    using assms ring_size_bounds [of p]
    by (auto simp: pipe_room_def pipe_len_eq pipe_wf_def mod_if split: if_splits)
qed

section \<open>Waking the blocked task\<close>

lemma tasks_kpush:
  "tasks (kpush_syspipe pp v s) =
    (let p = pipes s pp
     in if (m_head p + 1) AND m_mask p \<noteq> m_tail p \<and> m_rdtask p \<noteq> NULL \<and> m_rdtask p \<noteq> INTERRUPT_READ_TASK
        then (tasks s)(m_rdtask p := (tasks s (m_rdtask p))\<lparr>t_state := SCHED_READY\<rparr>)
        else tasks s)"
  by (simp add: kpush_syspipe_def Let_def)

lemma tasks_kpop:
  "tasks (snd (kpop_syspipe pp s)) =
    (let p = pipes s pp
     in if m_head p \<noteq> m_tail p \<and> m_wrtask p \<noteq> NULL
        then (tasks s)(m_wrtask p := (tasks s (m_wrtask p))\<lparr>t_state := SCHED_READY\<rparr>)
        else tasks s)"
  by (simp add: kpop_syspipe_def Let_def)

lemma tasks_kpop_short:
  "tasks (snd (kpop_short_syspipe pp s)) =
    (let p = pipes s pp
     in if m_head p \<noteq> m_tail p \<and> m_wrtask p \<noteq> NULL
        then (tasks s)(m_wrtask p := (tasks s (m_wrtask p))\<lparr>t_state := SCHED_READY\<rparr>)
        else tasks s)"
  by (auto simp: kpop_short_syspipe_def Let_def)

text \<open>Pushing and popping touch the pipe and the state of one task, and nothing else.\<close>

lemma kpush_frame [frame]:
  "kpush_syspipe pp v s =
    s\<lparr>pipes := pipes (kpush_syspipe pp v s), tasks := tasks (kpush_syspipe pp v s)\<rparr>"
  by (simp add: kpush_syspipe_def Let_def)

lemma kpop_frame [frame]:
  "snd (kpop_syspipe pp s) =
    s\<lparr>pipes := pipes (snd (kpop_syspipe pp s)), tasks := tasks (snd (kpop_syspipe pp s))\<rparr>"
  by (simp add: kpop_syspipe_def Let_def)

lemma kpop_short_frame [frame]:
  "snd (kpop_short_syspipe pp s) =
    s\<lparr>pipes := pipes (snd (kpop_short_syspipe pp s)), tasks := tasks (snd (kpop_short_syspipe pp s))\<rparr>"
  by (simp add: kpop_short_syspipe_def Let_def)

section \<open>Popping a pair of bytes\<close>

lemma even_ring_size: "is_ring_mask (m_mask p) \<Longrightarrow> even (ring_size p)"
proof -
  assume "is_ring_mask (m_mask p)"
  then obtain k where "4 \<le> k" "ring_size p = 2 ^ k"
    unfolding ring_size_def by (auto elim: is_ring_maskE)
  then show ?thesis
    by simp
qed

lemma kpop_short_pair:
  assumes wf: "pipe_wf (pipes s pp)" and bytes: "pipe_bytes (pipes s pp) = x # y # zs"
    and aligned: "even (unat (m_tail (pipes s pp)))"
  shows "fst (kpop_short_syspipe pp s) = Some (push_bit 8 (ucast x) OR ucast y)"
    and "pipe_bytes (pipes (snd (kpop_short_syspipe pp s)) pp) = zs"
    and "pipe_wf (pipes (snd (kpop_short_syspipe pp s)) pp)"
proof -
  let ?p = "pipes s pp"
  have one: "pipe_wf (ring_drop 1 ?p)" "pipe_bytes (ring_drop 1 ?p) = y # zs" "m_buf ?p ! unat (m_tail ?p) = x"
    using ring_drop_one [OF wf bytes] by simp_all
  have len: "pipe_len ?p = Suc (Suc (length zs))"
    using arg_cong [OF bytes, of length] by simp
  have tl: "unat (m_tail ?p) < ring_size ?p" "even (ring_size ?p)"
    using wf even_ring_size by (auto simp: pipe_wf_def)
  then have next_in: "unat (m_tail ?p) + 1 < ring_size ?p"
    using aligned by (metis Suc_eq_plus1 Suc_lessI even_Suc)
  have "pipe_bytes ?p ! 1 = y"
    by (simp add: bytes)
  then have y: "m_buf ?p ! (unat (m_tail ?p) + 1) = y"
    using len next_in by (simp add: nth_pipe_bytes)
  have ne: "m_head ?p \<noteq> m_tail ?p"
    using len by (simp add: pipe_empty_iff [OF wf])
  have "load_short (m_buf ?p) (unat (m_tail ?p)) = push_bit 8 (ucast x) OR ucast y"
    using aligned y one(3) by (simp add: load_short_def)
  then show "fst (kpop_short_syspipe pp s) = Some (push_bit 8 (ucast x) OR ucast y)"
    using ne by (simp add: kpop_short_syspipe_def Let_def)
  show "pipe_bytes (pipes (snd (kpop_short_syspipe pp s)) pp) = zs"
    using ring_drop_one [OF one(1,2)] by (simp add: ring_drop_two [OF wf bytes])
  show "pipe_wf (pipes (snd (kpop_short_syspipe pp s)) pp)"
    using wf by (simp add: ring_drop_wf)
qed

lemma kpop_short_single:
  assumes wf: "pipe_wf (pipes s pp)" and one: "pipe_len (pipes s pp) = 1"
  shows "pipe_room (pipes (snd (kpop_short_syspipe pp s)) pp) = 0"
proof -
  let ?p = "pipes s pp" and ?q = "ring_drop 2 (pipes s pp)"
  have ne: "m_head ?p \<noteq> m_tail ?p"
    using one by (simp add: pipe_empty_iff [OF wf])
  have q: "?q = ?p\<lparr>m_tail := (m_tail ?p + 2) AND m_mask ?p\<rparr>"
    using ne by (simp add: ring_drop_def)
  have idx: "unat ((m_tail ?p + 2) AND m_mask ?p) = (unat (m_tail ?p) + 2) mod ring_size ?p"
    using wf by (simp add: unat_index_plus pipe_wf_def)
  have size: "ring_size ?q = ring_size ?p" "16 \<le> ring_size ?p"
    using wf ring_size_bounds [of ?p] by (simp_all add: q ring_size_def pipe_wf_def)
  have wfq: "pipe_wf ?q"
    using wf by (rule ring_drop_wf)
  have "pipe_len ?q = ring_size ?p - 1"
    using wf one idx size unfolding pipe_len_eq [OF wfq]
    by (auto simp: q pipe_len_eq pipe_wf_def mod_if split: if_splits)
  then show ?thesis
    using size by (simp add: pipe_room_def)
qed

end
