(* ===== verification/Strings.thy ===== *)
theory Strings
  imports Prelude "HOL-Library.Monad_Syntax"
begin

text \<open>
  Byte memory and the C string routines of sw/zipos/string.c. A memory is a total map from
  addresses to bytes; an address steps with 32-bit wrap-around, as the pointers do. The loops of
  strcpy, strcat and strlen run until they meet a NUL byte, so they are partial: \<open>None\<close> is a loop
  that never ends. The lemmas say that they end on a NUL-terminated string and what they leave in
  memory.
\<close>

type_synonym memory = "addr \<Rightarrow> u8"

section \<open>Ranges of addresses\<close>

primrec addrs :: "addr \<Rightarrow> nat \<Rightarrow> addr list" where
  "addrs a 0 = []"
| "addrs a (Suc n) = a # addrs (a + 1) n"

definition mem_bytes :: "memory \<Rightarrow> addr \<Rightarrow> nat \<Rightarrow> u8 list" where
  "mem_bytes m a n = map m (addrs a n)"

primrec mem_write :: "memory \<Rightarrow> addr \<Rightarrow> u8 list \<Rightarrow> memory" where
  "mem_write m a [] = m"
| "mem_write m a (b # bs) = mem_write (m(a := b)) (a + 1) bs"

definition apart :: "addr \<Rightarrow> nat \<Rightarrow> addr \<Rightarrow> nat \<Rightarrow> bool" where
  "apart a n b k \<longleftrightarrow> set (addrs a n) \<inter> set (addrs b k) = {}"

lemma length_addrs [simp]: "length (addrs a n) = n"
  by (induction n arbitrary: a) simp_all

lemma addrs_nth: "i < n \<Longrightarrow> addrs a n ! i = a + of_nat i"
proof (induction n arbitrary: a i)
  case 0
  then show ?case by simp
next
  case (Suc n)
  then show ?case
    by (cases i) (simp_all add: algebra_simps)
qed

lemma addrs_append: "addrs a (n + k) = addrs a n @ addrs (a + of_nat n) k"
  by (induction n arbitrary: a) (simp_all add: algebra_simps)

lemma set_addrs: "set (addrs a n) = (\<lambda>i. a + of_nat i) ` {..<n}"
  by (force simp: set_conv_nth addrs_nth)

lemma inj_of_nat_u32: "i < 2 ^ 32 \<Longrightarrow> j < 2 ^ 32 \<Longrightarrow> (of_nat i :: u32) = of_nat j \<Longrightarrow> i = j"
  by (metis unat_of_nat_u32)

lemma distinct_addrs: "n \<le> 2 ^ 32 \<Longrightarrow> distinct (addrs a n)"
  using inj_of_nat_u32 by (fastforce simp: distinct_conv_nth addrs_nth)

lemma apart_sym: "apart a n b k = apart b k a n"
  by (auto simp: apart_def)

lemma apart_Suc_right: "apart a n b (Suc k) \<longleftrightarrow> b \<notin> set (addrs a n) \<and> apart a n (b + 1) k"
  by (auto simp: apart_def)

lemma apart_Suc_left: "apart a (Suc n) b k \<longleftrightarrow> a \<notin> set (addrs b k) \<and> apart (a + 1) n b k"
  by (auto simp: apart_def)

lemma length_mem_bytes [simp]: "length (mem_bytes m a n) = n"
  by (simp add: mem_bytes_def)

lemma mem_bytes_simps [simp]:
  "mem_bytes m a 0 = []"
  "mem_bytes m a (Suc n) = m a # mem_bytes m (a + 1) n"
  by (simp_all add: mem_bytes_def)

lemma mem_bytes_numeral:
  "mem_bytes m a (numeral k) = m a # mem_bytes m (a + 1) (pred_numeral k)"
  by (simp add: numeral_eq_Suc)

lemma mem_bytes_append: "mem_bytes m a (n + k) = mem_bytes m a n @ mem_bytes m (a + of_nat n) k"
  by (simp add: mem_bytes_def addrs_append)

lemma mem_bytes_upd_notin [simp]: "b \<notin> set (addrs a n) \<Longrightarrow> mem_bytes (m(b := v)) a n = mem_bytes m a n"
  by (simp add: mem_bytes_def)

lemma mem_write_outside: "x \<notin> set (addrs a (length bs)) \<Longrightarrow> mem_write m a bs x = m x"
  by (induction bs arbitrary: a m) auto

lemma mem_bytes_write_apart:
  "apart b k a (length bs) \<Longrightarrow> mem_bytes (mem_write m a bs) b k = mem_bytes m b k"
  unfolding mem_bytes_def apart_def by (auto intro!: mem_write_outside)

lemma mem_write_append: "mem_write m a (xs @ ys) = mem_write (mem_write m a xs) (a + of_nat (length xs)) ys"
  by (induction xs arbitrary: a m) (simp_all add: algebra_simps)

lemma mem_bytes_write:
  "length bs \<le> 2 ^ 32 \<Longrightarrow> mem_bytes (mem_write m a bs) a (length bs) = bs"
proof (induction bs arbitrary: a m)
  case Nil
  then show ?case by simp
next
  case (Cons b bs)
  have "a \<notin> set (addrs (a + 1) (length bs))"
    using distinct_addrs [of "Suc (length bs)" a] Cons.prems by simp
  then have "mem_write (m(a := b)) (a + 1) bs a = b"
    by (simp add: mem_write_outside)
  with Cons show ?case
    by simp
qed

section \<open>memcpy\<close>

text \<open>The byte loop of \<open>memcpy\<close> (the C form of the routine).\<close>

primrec memcpy_loop :: "nat \<Rightarrow> memory \<Rightarrow> addr \<Rightarrow> addr \<Rightarrow> memory" where
  "memcpy_loop 0 m d s = m"
| "memcpy_loop (Suc ln) m d s = memcpy_loop ln (m(d := m s)) (d + 1) (s + 1)"

definition memcpy :: "memory \<Rightarrow> addr \<Rightarrow> addr \<Rightarrow> u32 \<Rightarrow> memory" where
  "memcpy m dest src ln = memcpy_loop (unat ln) m dest src"

lemma memcpy_loop_apart:
  "apart d n s n \<Longrightarrow> memcpy_loop n m d s = mem_write m d (mem_bytes m s n)"
proof (induction n arbitrary: d s m)
  case 0
  then show ?case by simp
next
  case (Suc n)
  have "d \<notin> set (addrs (s + 1) n)" "apart (d + 1) n (s + 1) n"
    using Suc.prems by (auto simp: apart_def)
  then show ?case
    using Suc.IH by (simp del: fun_upd_apply)
qed

section \<open>NUL-terminated strings\<close>

text \<open>\<open>cstr m a s\<close>: the bytes \<open>s\<close>, none of them NUL, and then a NUL are at address \<open>a\<close>.\<close>

fun cstr :: "memory \<Rightarrow> addr \<Rightarrow> u8 list \<Rightarrow> bool" where
  "cstr m a [] \<longleftrightarrow> m a = 0"
| "cstr m a (c # s) \<longleftrightarrow> c \<noteq> 0 \<and> m a = c \<and> cstr m (a + 1) s"

lemma cstr_iff: "cstr m a s \<longleftrightarrow> 0 \<notin> set s \<and> mem_bytes m a (length s + 1) = s @ [0]"
  by (induction s arbitrary: a) auto

lemma cstr_upd:
  "b \<notin> set (addrs a (length s + 1)) \<Longrightarrow> cstr (m(b := v)) a s = cstr m a s"
  unfolding cstr_iff by (simp del: fun_upd_apply mem_bytes_simps)

partial_function (option) strcpy_loop :: "memory \<Rightarrow> addr \<Rightarrow> addr \<Rightarrow> memory option" where
  "strcpy_loop m dst src =
    (let v = m src; m' = m(dst := v)
     in if v \<noteq> 0 then strcpy_loop m' (dst + 1) (src + 1) else Some m')"

text \<open>The C functions return the start of the destination.\<close>

definition strcpy :: "memory \<Rightarrow> addr \<Rightarrow> addr \<Rightarrow> (addr \<times> memory) option" where
  "strcpy m dst src = map_option (\<lambda>m'. (dst, m')) (strcpy_loop m dst src)"

partial_function (option) strcat_loop :: "memory \<Rightarrow> addr \<Rightarrow> addr option" where
  "strcat_loop m dst = (if m dst \<noteq> 0 then strcat_loop m (dst + 1) else Some (dst + 1))"

definition strcat :: "memory \<Rightarrow> addr \<Rightarrow> addr \<Rightarrow> (addr \<times> memory) option" where
  "strcat m dst src = do {
     e \<leftarrow> strcat_loop m dst;
     (_, m') \<leftarrow> strcpy m (e - 1) src;
     Some (dst, m') }"

partial_function (option) strlen_loop :: "memory \<Rightarrow> addr \<Rightarrow> u32 \<Rightarrow> u32 option" where
  "strlen_loop m str ln = (if m str \<noteq> 0 then strlen_loop m (str + 1) (ln + 1) else Some ln)"

definition strlen :: "memory \<Rightarrow> addr \<Rightarrow> u32 option" where
  "strlen m str = strlen_loop m str 0"

lemma strcpy_loop_cstr:
  "cstr m src s \<Longrightarrow> apart dst (length s + 1) src (length s + 1) \<Longrightarrow>
    strcpy_loop m dst src = Some (mem_write m dst (s @ [0]))"
proof (induction s arbitrary: m dst src)
  case Nil
  then show ?case
    by (subst strcpy_loop.simps) simp
next
  case (Cons c s)
  have d: "dst \<notin> set (addrs (src + 1) (length s + 1))"
    and ap: "apart (dst + 1) (length s + 1) (src + 1) (length s + 1)"
    using Cons.prems(2) by (auto simp: apart_def)
  have "cstr (m(dst := c)) (src + 1) s"
    using Cons.prems(1) cstr_upd [OF d] by simp
  from Cons.IH [OF this ap] Cons.prems(1) show ?case
    by (subst strcpy_loop.simps) (simp del: fun_upd_apply)
qed

lemma strcat_loop_cstr:
  "cstr m dst s \<Longrightarrow> strcat_loop m dst = Some (dst + of_nat (length s) + 1)"
proof (induction s arbitrary: dst)
  case Nil
  then show ?case
    by (subst strcat_loop.simps) simp
next
  case (Cons c s)
  then show ?case
    by (subst strcat_loop.simps) (simp add: algebra_simps)
qed

lemma strlen_loop_cstr:
  "cstr m str s \<Longrightarrow> strlen_loop m str ln = Some (ln + of_nat (length s))"
proof (induction s arbitrary: str ln)
  case Nil
  then show ?case
    by (subst strlen_loop.simps) simp
next
  case (Cons c s)
  then show ?case
    by (subst strlen_loop.simps) (simp add: algebra_simps)
qed

lemma cstr_write:
  "0 \<notin> set s \<Longrightarrow> length s < 2 ^ 32 \<Longrightarrow> cstr (mem_write m a (s @ [0])) a s"
  using mem_bytes_write [of "s @ [0]" m a] by (simp add: cstr_iff del: mem_bytes_simps)

lemma cstr_append:
  "cstr m a (s @ t) \<longleftrightarrow> 0 \<notin> set s \<and> mem_bytes m a (length s) = s \<and> cstr m (a + of_nat (length s)) t"
  by (induction s arbitrary: a) (auto simp: algebra_simps)

lemma strcat_cstr:
  assumes dst: "cstr m dst s" and src: "cstr m src t"
    and apart: "apart (dst + of_nat (length s)) (length t + 1) src (length t + 1)"
    and fits: "length s + length t < 2 ^ 32"
  shows "\<exists>m'. strcat m dst src = Some (dst, m') \<and> cstr m' dst (s @ t)"
proof -
  let ?e = "dst + of_nat (length s)"
  let ?m = "mem_write m ?e (t @ [0])"
  have run: "strcat m dst src = Some (dst, ?m)"
    using strcpy_loop_cstr [OF src apart] strcat_loop_cstr [OF dst]
    by (simp add: strcat_def strcpy_def)
  have t: "0 \<notin> set t" "0 \<notin> set s" "mem_bytes m dst (length s) = s"
    using src dst cstr_append [of m dst s "[]"] by (simp_all add: cstr_iff)
  have "set (addrs dst (length s)) \<inter> set (addrs ?e (length t + 1)) = {}"
    using distinct_addrs [of "length s + (length t + 1)" dst] fits
    unfolding addrs_append by auto
  then have "mem_bytes ?m dst (length s) = mem_bytes m dst (length s)"
    by (intro mem_bytes_write_apart) (simp add: apart_def)
  then have "cstr ?m dst (s @ t)"
    using t cstr_write [of t m ?e] fits by (simp add: cstr_append)
  with run show ?thesis
    by blast
qed

end
