(* ===== verification/PipeUser.thy ===== *)
theory PipeUser
  imports Syspipe Strings
begin

text \<open>
  The system calls \<open>read()\<close> and \<open>write()\<close> on a pipe (sw/zipos/syspipe.c): the kernel halves
  \<open>kread_syspipe\<close> and \<open>kwrite_syspipe\<close>, which only hand the pipe to the caller, and the user
  halves \<open>uread_syspipe\<close> and \<open>uwrite_syspipe\<close>, which move the bytes with interrupts enabled.

  The user halves are machines: a control point, the locals of the C function and the kernel
  state. One step runs from one control point to the next. The control points lie where the code
  reads the fields of the pipe that others change, so that an interrupt may come between any two
  steps; the sections between \<open>DISABLE_INTS()\<close> and \<open>ENABLE_INTS()\<close> are single steps.
\<close>

section \<open>The kernel halves\<close>

definition kread_syspipe :: "addr \<Rightarrow> addr \<Rightarrow> addr \<Rightarrow> u32 \<Rightarrow> kst \<Rightarrow> kst res" where
  "kread_syspipe tsk dev dst ln s =
    (let p = pipes s dev in
     if m_rdtask p \<noteq> NULL then Inl (ZIP_HALT, set_ctx tsk 1 (- EBUSY) s)
     else if m_error p \<noteq> 0
     then Inr (upd_pipe dev (\<lambda>q. q\<lparr>m_tail := m_head q, m_error := 0\<rparr>) (set_ctx tsk 1 (- EIO) s))
     else if ln \<le>s 0 then Inl (ZIP_HALT, set_ctx tsk 1 (- EFAULT) s)
     else if \<not> valid_ram_region dst ln then Inl (ZIP_HALT, set_ctx tsk 1 (- EFAULT) s)
     else
       (let s1 = upd_pipe dev (\<lambda>q. q\<lparr>m_rdtask := tsk, m_nread := 0\<rparr>) s;
            s2 = set_ctx tsk 15 (sym s Sym_uread_syspipe) (set_ctx tsk 2 dev (set_ctx tsk 1 tsk s1))
        in Inr (if m_wrtask p \<noteq> NULL
                then set_state (m_wrtask p) SCHED_READY (set_state tsk SCHED_WAITING s2)
                else if m_head p = m_tail p then set_state tsk SCHED_WAITING s2
                else s2)))"

definition kwrite_syspipe :: "addr \<Rightarrow> addr \<Rightarrow> addr \<Rightarrow> u32 \<Rightarrow> kst \<Rightarrow> kst res" where
  "kwrite_syspipe tsk dev src ln s =
    (let p = pipes s dev in
     if m_wrtask p \<noteq> NULL then Inr (set_ctx tsk 1 (- EBUSY) s)
     else if ln \<le>s 0 then Inr (set_ctx tsk 1 (- EFAULT) s)
     else if \<not> valid_mem_region src ln then Inl (ZIP_HALT, set_ctx tsk 1 (- EFAULT) s)
     else
       (let s1 = upd_pipe dev (\<lambda>q. q\<lparr>m_wrtask := tsk, m_nwritten := 0\<rparr>) s;
            s2 = set_ctx tsk 15 (sym s Sym_uwrite_syspipe) (set_ctx tsk 2 dev (set_ctx tsk 1 tsk s1))
        in Inr (if m_rdtask p \<noteq> NULL \<and> m_rdtask p \<noteq> INTERRUPT_READ_TASK
                then set_state (m_rdtask p) SCHED_READY (set_state tsk SCHED_WAITING s2)
                else if (m_head p + 1) AND m_mask p = m_tail p then set_state tsk SCHED_WAITING s2
                else s2)))"

section \<open>The user half of read\<close>

text \<open>
  The locals: the buffer pointer (\<open>dst\<close> or \<open>src\<close>), \<open>nleft\<close>, and \<open>h\<close>, \<open>rdtask\<close>,
  \<open>navail\<close> where the function has them.
\<close>

record uloc =
  u_buf :: addr
  u_nleft :: u32
  u_h :: u32
  u_rdtask :: addr
  u_navail :: u32

text \<open>
  \<open>R_wait\<close> is inside the system call \<open>wait(0,-1)\<close>, \<open>R_done\<close> and \<open>R_exit\<close> are the return and
  the system call \<open>exit\<close>, which does not return.
\<close>

datatype rpc = R_load | R_first | R_second | R_direct | R_block | R_wait | R_release
  | R_done u32 | R_exit u32

definition uread_enter :: "addr \<Rightarrow> addr \<Rightarrow> u32 \<Rightarrow> kst \<Rightarrow> rpc \<times> uloc \<times> kst" where
  "uread_enter pp dst ln s =
    (if ln = 0 then R_done (m_nread (pipes s pp)) else R_load,
     \<lparr>u_buf = dst, u_nleft = ln, u_h = 0, u_rdtask = 0, u_navail = 0\<rparr>, s)"

text \<open>The copy of \<open>ln1\<close> bytes out of the ring, which both halves of the loop body contain.\<close>

definition uread_copy :: "addr \<Rightarrow> u32 \<Rightarrow> uloc \<Rightarrow> kst \<Rightarrow> uloc \<times> kst" where
  "uread_copy pp ln1 l s =
    (let p = pipes s pp;
         nt = (if m_tail p + ln1 > m_mask p then 0 else m_tail p + ln1)
     in (l\<lparr>u_buf := u_buf l + ln1, u_nleft := u_nleft l - ln1\<rparr>,
         upd_pipe pp (\<lambda>q. q\<lparr>m_nread := m_nread p + ln1, m_tail := nt\<rparr>)
           (s\<lparr>mem := mem_write (mem s) (u_buf l) (take (unat ln1) (drop (unat (m_tail p)) (m_buf p)))\<rparr>)))"

text \<open>The two \<open>exit()\<close> calls after each copy.\<close>

definition uread_exits :: "addr \<Rightarrow> rpc \<Rightarrow> uloc \<Rightarrow> kst \<Rightarrow> rpc" where
  "uread_exits pp pc l s =
    (if u_nleft l AND -2 \<noteq> 0 then R_exit (u_nleft l)
     else if m_nread (pipes s pp) AND -2 \<noteq> 0 then R_exit (m_nread (pipes s pp))
     else pc)"

definition uread_first :: "addr \<Rightarrow> uloc \<Rightarrow> kst \<Rightarrow> rpc \<times> uloc \<times> kst" where
  "uread_first pp l s =
    (let p = pipes s pp in
     if u_h l <s m_tail p
     then (let ln0 = m_mask p + 1 - m_tail p;
               ln1 = (if u_nleft l <s ln0 then u_nleft l else ln0);
               (l1, s1) = (if 0 <s ln1 then uread_copy pp ln1 l s else (l, s))
           in (uread_exits pp R_second l1 s1, l1, s1))
     else (R_second, l, s))"

definition uread_second :: "addr \<Rightarrow> uloc \<Rightarrow> kst \<Rightarrow> rpc \<times> uloc \<times> kst" where
  "uread_second pp l s =
    (if 0 <s u_nleft l
     then (let ln0 = u_h l - m_tail (pipes s pp);
               ln1 = (if ln0 <s u_nleft l then ln0 else u_nleft l);
               (l1, s1) = uread_copy pp ln1 l s
           in (uread_exits pp (if u_nleft l1 = 0 then R_release else R_direct) l1 s1, l1, s1))
     else (if u_nleft l = 0 then R_release else R_direct, l, s))"

text \<open>
  Copying from a blocked writer: its buffer and the count left are in its saved
  registers 3 and 4.
\<close>

definition uread_direct :: "addr \<Rightarrow> uloc \<Rightarrow> kst \<Rightarrow> rpc \<times> uloc \<times> kst" where
  "uread_direct pp l s =
    (let p = pipes s pp; w = m_wrtask p in
     if w \<noteq> NULL
     then (let ln = (if ctx s w 4 <s u_nleft l then ctx s w 4 else u_nleft l);
               src = ctx s w 3;
               s1 = upd_pipe pp (\<lambda>q. q\<lparr>m_nwritten := m_nwritten p + ln, m_nread := m_nread p + ln\<rparr>)
                      (s\<lparr>mem := memcpy (mem s) (u_buf l) src ln\<rparr>);
               s2 = set_ctx w 3 (src + ln) (set_ctx w 4 (ctx s w 4 - ln) s1);
               s3 = (if ctx s2 w 4 = 0
                     then set_state w SCHED_READY (upd_pipe pp (\<lambda>q. q\<lparr>m_wrtask := NULL\<rparr>) s2)
                     else s2)
           in (R_block, l\<lparr>u_buf := u_buf l + ln, u_nleft := u_nleft l - ln\<rparr>, s3))
     else (R_block, l, s))"

definition uread_block :: "addr \<Rightarrow> uloc \<Rightarrow> kst \<Rightarrow> rpc \<times> uloc \<times> kst" where
  "uread_block pp l s =
    (if 0 <s u_nleft l
     then (let s1 = DISABLE_INTS s; l1 = l\<lparr>u_h := m_head (pipes s pp)\<rparr>
           in if u_h l1 = m_tail (pipes s pp) then (R_wait, l1, s1)
              else (R_load, l1, ENABLE_INTS s1))
     else (R_release, l, s))"

definition uread_release :: "addr \<Rightarrow> uloc \<Rightarrow> kst \<Rightarrow> rpc \<times> uloc \<times> kst" where
  "uread_release pp l s =
    (let p = pipes s pp;
         s1 = DISABLE_INTS (upd_pipe pp (\<lambda>q. q\<lparr>m_nread := 0\<rparr>) s);
         s2 = upd_pipe pp (\<lambda>q. q\<lparr>m_rdtask := NULL\<rparr>) s1;
         s3 = (if m_wrtask p \<noteq> NULL then set_state (m_wrtask p) SCHED_READY s2 else s2)
     in (R_done (m_nread p), l, ENABLE_INTS s3))"

definition uread_step :: "addr \<Rightarrow> rpc \<times> uloc \<times> kst \<Rightarrow> rpc \<times> uloc \<times> kst" where
  "uread_step pp c =
    (case c of (pc, l, s) \<Rightarrow>
      (case pc of
        R_load \<Rightarrow> (R_first, l\<lparr>u_h := m_head (pipes s pp)\<rparr>, s)
      | R_first \<Rightarrow> uread_first pp l s
      | R_second \<Rightarrow> uread_second pp l s
      | R_direct \<Rightarrow> uread_direct pp l s
      | R_block \<Rightarrow> uread_block pp l s
      | R_wait \<Rightarrow> (R_load, l, s)
      | R_release \<Rightarrow> uread_release pp l s
      | R_done n \<Rightarrow> c
      | R_exit n \<Rightarrow> c))"

section \<open>The user half of write\<close>

datatype wpc = W_direct | W_fill | W_block | W_wait | W_finish | W_done u32

definition uwrite_enter :: "addr \<Rightarrow> u32 \<Rightarrow> kst \<Rightarrow> wpc \<times> uloc \<times> kst" where
  "uwrite_enter src ln s =
    (W_direct, \<lparr>u_buf = src, u_nleft = ln, u_h = 0, u_rdtask = 0, u_navail = 0\<rparr>, s)"

definition uwrite_direct :: "addr \<Rightarrow> uloc \<Rightarrow> kst \<Rightarrow> wpc \<times> uloc \<times> kst" where
  "uwrite_direct pp l s =
    (let p = pipes s pp; r = m_rdtask p; l0 = l\<lparr>u_rdtask := r\<rparr> in
     if r = INTERRUPT_READ_TASK then (W_fill, l0, s)
     else if r \<noteq> NULL
     then (let ln = (if ctx s r 4 <s u_nleft l then ctx s r 4 else u_nleft l);
               l1 = l0\<lparr>u_buf := u_buf l + ln, u_nleft := u_nleft l - ln\<rparr>;
               s1 = upd_pipe pp (\<lambda>q. q\<lparr>m_nread := m_nread p + ln, m_nwritten := m_nwritten p + ln\<rparr>)
                      (s\<lparr>mem := memcpy (mem s) (ctx s r 3) (u_buf l) ln\<rparr>);
               s2 = set_ctx r 4 (ctx s r 4 - ln) (set_ctx r 3 (ctx s r 3 + ln) s1);
               s3 = (if ctx s2 r 4 = 0
                     then set_state r SCHED_READY (upd_pipe pp (\<lambda>q. q\<lparr>m_rdtask := NULL\<rparr>) s2)
                     else s2)
           in (if u_nleft l1 = 0 then W_finish else W_fill, l1, s3))
     else (W_fill, l0, s))"

text \<open>\<open>bs\<close> written over the buffer from index \<open>i\<close> on.\<close>

definition buf_write :: "u8 list \<Rightarrow> nat \<Rightarrow> u8 list \<Rightarrow> u8 list" where
  "buf_write buf i bs = take i buf @ bs @ drop (i + length bs) buf"

definition uwrite_fill :: "addr \<Rightarrow> uloc \<Rightarrow> kst \<Rightarrow> wpc \<times> uloc \<times> kst" where
  "uwrite_fill pp l s =
    (let p = pipes s pp; navail = num_avail_syspipe p in
     if u_nleft l \<le>s navail \<or> (u_rdtask l = INTERRUPT_READ_TASK \<and> 0 <s navail)
     then (let ln0 = m_mask p + 1 - m_head p;
               ln1 = (if u_nleft l <s ln0 then u_nleft l else ln0);
               ln = (if navail <s ln1 then navail else ln1);
               bs = mem_bytes (mem s) (u_buf l) (unat ln)
           in (W_block,
               l\<lparr>u_buf := u_buf l + ln, u_nleft := u_nleft l - ln, u_navail := navail - ln\<rparr>,
               upd_pipe pp (\<lambda>q. q\<lparr>m_buf := buf_write (m_buf p) (unat (m_head p)) bs,
                 m_head := (m_head p + ln) AND m_mask p, m_nwritten := m_nwritten p + ln\<rparr>) s))
     else (W_block, l\<lparr>u_navail := navail\<rparr>, s))"

definition uwrite_block :: "addr \<Rightarrow> uloc \<Rightarrow> kst \<Rightarrow> wpc \<times> uloc \<times> kst" where
  "uwrite_block pp l s =
    (let p = pipes s pp; again = (if 0 <s u_nleft l then W_direct else W_finish) in
     if 0 <s u_nleft l \<and> u_navail l = 0
     then (let s1 = DISABLE_INTS s;
               must_wait = (if u_rdtask l = INTERRUPT_READ_TASK then num_avail_syspipe p = 0
                            else m_rdtask p = NULL)
           in if must_wait then (W_wait, l, s1) else (again, l, ENABLE_INTS s1))
     else (again, l, s))"

definition uwrite_finish :: "addr \<Rightarrow> uloc \<Rightarrow> kst \<Rightarrow> wpc \<times> uloc \<times> kst" where
  "uwrite_finish pp l s =
    (W_done (m_nwritten (pipes s pp)), l, upd_pipe pp (\<lambda>q. q\<lparr>m_wrtask := NULL\<rparr>) s)"

definition uwrite_step :: "addr \<Rightarrow> wpc \<times> uloc \<times> kst \<Rightarrow> wpc \<times> uloc \<times> kst" where
  "uwrite_step pp c =
    (case c of (pc, l, s) \<Rightarrow>
      (case pc of
        W_direct \<Rightarrow> uwrite_direct pp l s
      | W_fill \<Rightarrow> uwrite_fill pp l s
      | W_block \<Rightarrow> uwrite_block pp l s
      | W_wait \<Rightarrow> (if 0 <s u_nleft l then W_direct else W_finish, l, s)
      | W_finish \<Rightarrow> uwrite_finish pp l s
      | W_done n \<Rightarrow> c))"

section \<open>Blocks of bytes in the ring\<close>

lemma length_buf_write [simp]:
  "i + length bs \<le> length buf \<Longrightarrow> length (buf_write buf i bs) = length buf"
  by (simp add: buf_write_def)

lemma nth_buf_write:
  "i + length bs \<le> length buf \<Longrightarrow> k < length buf \<Longrightarrow>
    buf_write buf i bs ! k = (if i \<le> k \<and> k < i + length bs then bs ! (k - i) else buf ! k)"
  by (auto simp: buf_write_def nth_append)

text \<open>Where the contents and the free space of a ring lie.\<close>

lemma ring_geometry:
  fixes t h n len b i :: nat
  assumes "t < n" "h < n" "len = (if t \<le> h then h - t else h + n - t)" "h + b \<le> n" "len + b < n"
  shows "i < len \<Longrightarrow> \<not> (h \<le> (t + i) mod n \<and> (t + i) mod n < h + b)"
    and "len \<le> i \<Longrightarrow> i < len + b \<Longrightarrow> (t + i) mod n = h + (i - len)"
proof -
  have idx: "i < n \<Longrightarrow> (t + i) mod n = (if t + i < n then t + i else t + i - n)"
    using assms(1) by (rule ring_index)
  show "i < len \<Longrightarrow> \<not> (h \<le> (t + i) mod n \<and> (t + i) mod n < h + b)"
    using idx assms by (auto split: if_splits)
  show "len \<le> i \<Longrightarrow> i < len + b \<Longrightarrow> (t + i) mod n = h + (i - len)"
    using idx assms by (simp split: if_splits)
qed

text \<open>Taking \<open>n\<close> bytes that lie in one piece behind the tail.\<close>

lemma ring_take_block:
  assumes wf: "pipe_wf p" and n: "n \<le> pipe_len p" "unat (m_tail p) + n \<le> ring_size p"
    and q: "q = p\<lparr>m_tail := nt\<rparr>"
    and nt: "unat nt = (if unat (m_tail p) + n = ring_size p then 0 else unat (m_tail p) + n)"
  shows "pipe_wf q" and "pipe_bytes q = drop n (pipe_bytes p)"
    and "take n (drop (unat (m_tail p)) (m_buf p)) = take n (pipe_bytes p)"
proof -
  have size: "ring_size q = ring_size p" "0 < ring_size p"
    by (simp_all add: q ring_size_def)
  show wfq: "pipe_wf q"
    using wf n nt size by (auto simp: pipe_wf_def q)
  have len: "pipe_len q = pipe_len p - n"
    using wf n nt size pipe_len_less [OF wf] unfolding pipe_len_eq [OF wfq] pipe_len_eq [OF wf]
    by (auto simp: q pipe_wf_def split: if_splits)
  have idx: "(unat (m_tail q) + i) mod ring_size p = (unat (m_tail p) + (n + i)) mod ring_size p" for i
    using nt by (auto simp: q add.assoc [symmetric])
  show "pipe_bytes q = drop n (pipe_bytes p)"
    by (rule nth_equalityI) (simp_all add: len nth_pipe_bytes size idx, simp add: q)
  show "take n (drop (unat (m_tail p)) (m_buf p)) = take n (pipe_bytes p)"
    using n wf by (intro nth_equalityI) (auto simp: nth_pipe_bytes pipe_wf_def)
qed

text \<open>Appending a block that fits between the head and the end of the buffer.\<close>

lemma ring_put_block:
  assumes wf: "pipe_wf p" and room: "length bs \<le> pipe_room p"
    and fit: "unat (m_head p) + length bs \<le> ring_size p" and ln: "unat ln = length bs"
    and q: "q = p\<lparr>m_buf := buf_write (m_buf p) (unat (m_head p)) bs, m_head := (m_head p + ln) AND m_mask p\<rparr>"
  shows "pipe_wf q" and "pipe_bytes q = pipe_bytes p @ bs"
proof -
  have size: "ring_size q = ring_size p" "0 < ring_size p" and tail: "m_tail q = m_tail p"
    by (simp_all add: q ring_size_def)
  have head: "unat (m_head q) = (unat (m_head p) + length bs) mod ring_size p"
    using wf ln by (simp add: q unat_index_plus pipe_wf_def)
  show wfq: "pipe_wf q"
    using wf fit head size mod_less_divisor [OF size(2), of "unat (m_head p) + length bs"]
    unfolding pipe_wf_def by (simp add: q)
  have len: "pipe_len q = pipe_len p + length bs"
    using wf room fit head size unfolding pipe_len_eq [OF wfq] pipe_len_eq [OF wf] pipe_room_def
    by (auto simp: q pipe_wf_def mod_if split: if_splits)
  show "pipe_bytes q = pipe_bytes p @ bs"
  proof (rule nth_equalityI)
    show "length (pipe_bytes q) = length (pipe_bytes p @ bs)"
      by (simp add: len)
  next
    fix i assume "i < length (pipe_bytes q)"
    then have i: "i < pipe_len p + length bs"
      by (simp add: len)
    let ?k = "(unat (m_tail p) + i) mod ring_size p"
    have t: "unat (m_tail p) < ring_size p" and h: "unat (m_head p) < ring_size p"
      using wf by (simp_all add: pipe_wf_def)
    have b: "pipe_len p + length bs < ring_size p"
      using room pipe_len_less [OF wf] by (simp add: pipe_room_def)
    note geo = ring_geometry [OF t h pipe_len_eq [OF wf] fit b, of i]
    have "pipe_bytes q ! i = buf_write (m_buf p) (unat (m_head p)) bs ! ?k"
      using i by (simp add: nth_pipe_bytes len size tail) (simp add: q)
    also have "\<dots> = (if unat (m_head p) \<le> ?k \<and> ?k < unat (m_head p) + length bs
        then bs ! (?k - unat (m_head p)) else m_buf p ! ?k)"
      using wf fit size by (intro nth_buf_write) (simp_all add: pipe_wf_def)
    also have "\<dots> = (pipe_bytes p @ bs) ! i"
      using i geo by (cases "i < pipe_len p") (auto simp: nth_append nth_pipe_bytes)
    finally show "pipe_bytes q ! i = (pipe_bytes p @ bs) ! i" .
  qed
qed

section \<open>Writing to a pipe that an interrupt drains\<close>

text \<open>
  The interleaving: a step of the writer, which must be ready for it, or the interrupt handler taking one byte.
  \<open>out\<close> is what the handler has taken so far. At \<open>W_wait\<close> the writer calls \<open>wait(0,-1)\<close> with the
  interrupts disabled: it sleeps until somebody makes it ready.
\<close>

definition tx_ready :: "addr \<Rightarrow> kst \<Rightarrow> bool" where
  "tx_ready pp s \<longleftrightarrow> t_state (tasks s (m_wrtask (pipes s pp))) = SCHED_READY"

definition tx_sleep :: "addr \<Rightarrow> wpc \<times> uloc \<times> kst \<Rightarrow> wpc \<times> uloc \<times> kst" where
  "tx_sleep pp = (\<lambda>(pc, l, s). (pc, l, if pc = W_wait then set_state (m_wrtask (pipes s pp)) SCHED_WAITING s else s))"

inductive tx_step :: "addr \<Rightarrow> (wpc \<times> uloc \<times> kst) \<times> u8 list \<Rightarrow> (wpc \<times> uloc \<times> kst) \<times> u8 list \<Rightarrow> bool"
  for pp :: addr where
  tx_user: "tx_ready pp s \<Longrightarrow> tx_step pp ((pc, l, s), out) (tx_sleep pp (uwrite_step pp (pc, l, s)), out)"
| tx_irq: "fst (kpop_syspipe pp s) = Some v \<Longrightarrow>
    tx_step pp ((pc, l, s), out) ((pc, l, snd (kpop_syspipe pp s)), out @ [v])"

inductive_cases tx_stepE: "tx_step pp a b"

definition tx_inv :: "addr \<Rightarrow> u8 list \<Rightarrow> u32 \<Rightarrow> (wpc \<times> uloc \<times> kst) \<times> u8 list \<Rightarrow> bool" where
  "tx_inv pp whole n0 = (\<lambda>((pc, l, s), out). let p = pipes s pp in
    pipe_wf p \<and> m_rdtask p = INTERRUPT_READ_TASK \<and> unat (u_nleft l) < 2 ^ 31 \<and>
    out @ pipe_bytes p @ mem_bytes (mem s) (u_buf l) (unat (u_nleft l)) = whole \<and>
    m_nwritten p + u_nleft l = n0 \<and>
    (pc = W_fill \<or> pc = W_block \<longrightarrow> u_rdtask l = INTERRUPT_READ_TASK) \<and>
    (pc = W_finish \<longrightarrow> u_nleft l = 0) \<and> (\<forall>n. pc = W_done n \<longrightarrow> u_nleft l = 0 \<and> n = n0) \<and>
    ((\<forall>n. pc \<noteq> W_done n) \<longrightarrow> m_wrtask p \<noteq> NULL \<and> (tx_ready pp s \<or> 0 < pipe_len p)))"

text \<open>How much one filling step moves.\<close>

lemma sless_eq_u32_small:
  assumes "unat x < 2 ^ 31" "unat y < 2 ^ 31"
  shows "(x :: u32) \<le>s y \<longleftrightarrow> unat x \<le> unat y"
  using assms by (simp add: word_sle_eq sint_u32_nat del: of_nat_unat)

lemma space_to_end:
  assumes "pipe_wf p" "unat i < ring_size p"
  shows "unat (m_mask p + 1 - i) = ring_size p - unat i"
proof -
  have "is_ring_mask (m_mask p)"
    using assms(1) by (simp add: pipe_wf_def)
  then have "ring_size p \<le> 2 ^ 30"
    by (rule ring_size_bounds)
  then have "unat (m_mask p + 1) = ring_size p"
    unfolding ring_size_def by (simp add: unat_word_ariths)
  then show ?thesis
    using assms(2) by (simp add: unat_sub_if')
qed

lemma pipe_room_small: "pipe_wf p \<Longrightarrow> pipe_room p < 2 ^ 30"
  using ring_size_bounds [of p] by (simp add: pipe_room_def pipe_wf_def)

text \<open>
  One filling step for an interrupt-driven pipe moves as much as fits before
  the end of the buffer: \<open>k\<close> bytes, at least one if there is room and something to write.
\<close>

lemma uwrite_fill_int:
  assumes wf: "pipe_wf (pipes s pp)" and rd: "u_rdtask l = INTERRUPT_READ_TASK"
    and small: "unat (u_nleft l) < 2 ^ 31"
  obtains k where "k \<le> unat (u_nleft l)" "unat (u_nleft l) = 0 \<or> pipe_room (pipes s pp) = 0 \<or> 0 < k"
    "\<exists>l' s'. uwrite_fill pp l s = (W_block, l', s') \<and>
      u_buf l' = u_buf l + of_nat k \<and> u_nleft l' = u_nleft l - of_nat k \<and> u_rdtask l' = u_rdtask l \<and>
      mem s' = mem s \<and> tasks s' = tasks s \<and> pipe_wf (pipes s' pp) \<and>
      m_rdtask (pipes s' pp) = m_rdtask (pipes s pp) \<and> m_wrtask (pipes s' pp) = m_wrtask (pipes s pp) \<and>
      m_nwritten (pipes s' pp) = m_nwritten (pipes s pp) + of_nat k \<and>
      pipe_bytes (pipes s' pp) = pipe_bytes (pipes s pp) @ mem_bytes (mem s) (u_buf l) k"
proof -
  let ?p = "pipes s pp"
  define navail where "navail = num_avail_syspipe ?p"
  have na: "unat navail = pipe_room ?p" "unat navail < 2 ^ 30"
    using num_avail_room [OF wf] pipe_room_small [OF wf] by (simp_all add: navail_def)
  show thesis
  proof (cases "u_nleft l \<le>s navail \<or> 0 <s navail")
    case False
    then have "pipe_room ?p = 0"
      using na by (simp add: zero_sless_u32)
    moreover have "uwrite_fill pp l s = (W_block, l\<lparr>u_navail := navail\<rparr>, s)"
      using False rd by (simp add: uwrite_fill_def Let_def navail_def)
    ultimately show thesis
      using wf by (intro that [of 0]) simp_all
  next
    case True
    define ln0 where "ln0 = m_mask ?p + 1 - m_head ?p"
    define ln1 where "ln1 = (if u_nleft l <s ln0 then u_nleft l else ln0)"
    define ln where "ln = (if navail <s ln1 then navail else ln1)"
    have "unat ln0 = ring_size ?p - unat (m_head ?p)" "ring_size ?p \<le> 2 ^ 30"
      unfolding ln0_def using wf ring_size_bounds [of ?p] by (simp_all add: space_to_end pipe_wf_def)
    then have ln0: "unat ln0 = ring_size ?p - unat (m_head ?p)" "unat ln0 < 2 ^ 31" "0 < unat ln0"
      using wf by (simp_all add: pipe_wf_def)
    have ln1: "unat ln1 = min (unat (u_nleft l)) (unat ln0)"
      using small ln0(2) by (simp add: ln1_def sless_u32_small)
    then have ln: "unat ln = min (pipe_room ?p) (min (unat (u_nleft l)) (unat ln0))"
      using small na ln0(2) by (simp add: ln_def sless_u32_small min_def)
    let ?bs = "mem_bytes (mem s) (u_buf l) (unat ln)"
    let ?q = "?p\<lparr>m_buf := buf_write (m_buf ?p) (unat (m_head ?p)) ?bs, m_head := (m_head ?p + ln) AND m_mask ?p\<rparr>"
    have put: "pipe_wf ?q" "pipe_bytes ?q = pipe_bytes ?p @ ?bs"
      using ring_put_block [OF wf _ _ _ refl, of ?bs ln] ln ln0 by simp_all
    have step: "uwrite_fill pp l s = (W_block,
        l\<lparr>u_buf := u_buf l + ln, u_nleft := u_nleft l - ln, u_navail := navail - ln\<rparr>,
        upd_pipe pp (\<lambda>q. q\<lparr>m_buf := buf_write (m_buf ?p) (unat (m_head ?p)) ?bs,
          m_head := (m_head ?p + ln) AND m_mask ?p, m_nwritten := m_nwritten ?p + ln\<rparr>) s)"
      using True rd unfolding ln_def ln1_def ln0_def navail_def
      by (simp only: uwrite_fill_def Let_def simp_thms if_True)
    show thesis
    proof (rule that [of "unat ln"])
      show "unat ln \<le> unat (u_nleft l)"
        by (simp add: ln)
      show "unat (u_nleft l) = 0 \<or> pipe_room ?p = 0 \<or> 0 < unat ln"
        using ln0(3) by (auto simp: ln)
    qed (use step put in simp)
  qed
qed

lemma full_pipe_len:
  assumes "pipe_wf p" "pipe_room p = 0"
  shows "0 < pipe_len p"
  using pipe_room_le [OF assms(1)] ring_size_bounds [of p] assms by (simp add: pipe_wf_def)

lemma tx_inv_user:
  assumes inv: "tx_inv pp whole n0 ((pc, l, s), out)" and ready: "tx_ready pp s"
  shows "tx_inv pp whole n0 (tx_sleep pp (uwrite_step pp (pc, l, s)), out)"
proof (cases pc)
  case W_fill
  have wf: "pipe_wf (pipes s pp)" and rd: "u_rdtask l = INTERRUPT_READ_TASK"
    and small: "unat (u_nleft l) < 2 ^ 31"
    using inv W_fill by (simp_all add: tx_inv_def Let_def)
  obtain k l' s' where k: "k \<le> unat (u_nleft l)"
    and step: "uwrite_fill pp l s = (W_block, l', s')" "u_buf l' = u_buf l + of_nat k"
      "u_nleft l' = u_nleft l - of_nat k" "u_rdtask l' = u_rdtask l" "mem s' = mem s" "tasks s' = tasks s"
      "pipe_wf (pipes s' pp)" "m_rdtask (pipes s' pp) = m_rdtask (pipes s pp)"
      "m_wrtask (pipes s' pp) = m_wrtask (pipes s pp)"
      "m_nwritten (pipes s' pp) = m_nwritten (pipes s pp) + of_nat k"
      "pipe_bytes (pipes s' pp) = pipe_bytes (pipes s pp) @ mem_bytes (mem s) (u_buf l) k"
    by (rule uwrite_fill_int [OF wf rd small]) blast
  have "unat (of_nat k :: u32) = k"
    using k small by (intro unat_of_nat_u32) simp
  then have left: "unat (u_nleft l') = unat (u_nleft l) - k"
    using k by (simp add: step(3) unat_sub word_le_nat_alt)
  have "mem_bytes (mem s) (u_buf l) (unat (u_nleft l))
      = mem_bytes (mem s) (u_buf l) k @ mem_bytes (mem s) (u_buf l + of_nat k) (unat (u_nleft l) - k)"
    using k by (simp flip: mem_bytes_append)
  with inv W_fill step left small ready show ?thesis
    by (simp add: tx_inv_def Let_def uwrite_step_def tx_sleep_def tx_ready_def less_imp_diff_less)
next
  case W_block
  have "num_avail_syspipe (pipes s pp) = 0 \<Longrightarrow> 0 < pipe_len (pipes s pp)"
    using inv full_pipe_len num_avail_room by (fastforce simp: tx_inv_def Let_def)
  with inv W_block ready show ?thesis
    by (auto simp: tx_inv_def uwrite_step_def uwrite_block_def Let_def tx_sleep_def tx_ready_def zero_sless_u32
        unat_eq_zero)
next
  case W_wait
  with inv ready show ?thesis
    by (auto simp: tx_inv_def uwrite_step_def Let_def tx_sleep_def tx_ready_def zero_sless_u32 unat_eq_zero)
qed (use inv ready in \<open>auto simp: tx_inv_def uwrite_step_def uwrite_direct_def uwrite_finish_def tx_sleep_def tx_ready_def
    Let_def\<close>)

text \<open>What the handler does to the writer's pipe and to the writer.\<close>

lemma tx_pop_frame:
  assumes "fst (kpop_syspipe pp s) = Some v"
  shows "m_wrtask (pipes (snd (kpop_syspipe pp s)) pp) = m_wrtask (pipes s pp)"
    and "m_wrtask (pipes s pp) \<noteq> NULL \<Longrightarrow> tx_ready pp (snd (kpop_syspipe pp s))"
  using assms by (auto simp: kpop_syspipe_def Let_def tx_ready_def split: if_split_asm)

lemma tx_inv_irq:
  assumes inv: "tx_inv pp whole n0 ((pc, l, s), out)" and v: "fst (kpop_syspipe pp s) = Some v"
  shows "tx_inv pp whole n0 ((pc, l, snd (kpop_syspipe pp s)), out @ [v])"
proof -
  have wf: "pipe_wf (pipes s pp)"
    using inv by (simp add: tx_inv_def Let_def)
  obtain xs where "pipe_bytes (pipes s pp) = v # xs"
    using v unfolding kpop_result [OF wf] by (auto split: list.splits)
  moreover from ring_drop_one [OF wf this]
  have "pipe_wf (ring_drop 1 (pipes s pp))" "pipe_bytes (ring_drop 1 (pipes s pp)) = xs" by simp_all
  moreover have "mem (snd (kpop_syspipe pp s)) = mem s"
    by (subst kpop_frame) simp
  ultimately show ?thesis
    using inv tx_pop_frame [OF v] by (auto simp: tx_inv_def Let_def ring_drop_def)
qed

lemma tx_inv_step:
  assumes "tx_step pp a b" "tx_inv pp whole n0 a"
  shows "tx_inv pp whole n0 b"
  using assms by cases (auto intro: tx_inv_irq tx_inv_user simp: prod_cases3)

lemma tx_inv_reach:
  "(tx_step pp)\<^sup>*\<^sup>* a b \<Longrightarrow> tx_inv pp whole n0 a \<Longrightarrow> tx_inv pp whole n0 b"
  by (induction rule: rtranclp_induct) (blast intro: tx_inv_step)+

lemma tx_inv_start:
  assumes "pipe_wf (pipes s pp)" "m_rdtask (pipes s pp) = INTERRUPT_READ_TASK"
    "m_nwritten (pipes s pp) = 0" "unat ln < 2 ^ 31"
    "m_wrtask (pipes s pp) \<noteq> NULL" "tx_ready pp s \<or> pipe_room (pipes s pp) = 0"
  shows "tx_inv pp (pipe_bytes (pipes s pp) @ mem_bytes (mem s) src (unat ln)) ln (uwrite_enter src ln s, [])"
  using assms full_pipe_len [OF assms(1)] by (auto simp: tx_inv_def uwrite_enter_def Let_def)

text \<open>From every state of the run there is a continuation that completes the write.\<close>

definition tx_finishes :: "addr \<Rightarrow> u32 \<Rightarrow> (wpc \<times> uloc \<times> kst) \<times> u8 list \<Rightarrow> bool" where
  "tx_finishes pp n0 a \<longleftrightarrow> (\<exists>l s out. (tx_step pp)\<^sup>*\<^sup>* a ((W_done n0, l, s), out))"

lemma tx_finishes_step: "tx_step pp a b \<Longrightarrow> tx_finishes pp n0 b \<Longrightarrow> tx_finishes pp n0 a"
  by (auto simp: tx_finishes_def intro: converse_rtranclp_into_rtranclp)

lemmas tx_finishes_user = tx_finishes_step [OF tx_user]

text \<open>A step that does not go to sleep leaves the writer ready.\<close>

lemma tx_sleep_awake [simp]: "pc \<noteq> W_wait \<Longrightarrow> tx_sleep pp (pc, l, s) = (pc, l, s)"
  by (simp add: tx_sleep_def)

text \<open>
  When the writer sleeps, and when the pipe is full, the handler can take a byte, and then the writer is
  ready and the pipe has room.
\<close>

lemma tx_pop:
  assumes inv: "tx_inv pp whole n0 ((pc, l, s), out)" and "\<And>n. pc \<noteq> W_done n"
    and "\<not> tx_ready pp s \<or> pipe_room (pipes s pp) = 0"
  obtains v where "fst (kpop_syspipe pp s) = Some v" "tx_ready pp (snd (kpop_syspipe pp s))"
    "0 < pipe_room (pipes (snd (kpop_syspipe pp s)) pp)"
    "tx_inv pp whole n0 ((pc, l, snd (kpop_syspipe pp s)), out @ [v])"
proof -
  have wf: "pipe_wf (pipes s pp)" and wr: "m_wrtask (pipes s pp) \<noteq> NULL"
    using inv assms(2) by (simp_all add: tx_inv_def Let_def)
  have "0 < pipe_len (pipes s pp)"
    using inv assms(2,3) full_pipe_len [OF wf] by (auto simp: tx_inv_def Let_def)
  then obtain v xs where bytes: "pipe_bytes (pipes s pp) = v # xs"
    by (cases "pipe_bytes (pipes s pp)") (simp_all flip: length_pipe_bytes)
  have v: "fst (kpop_syspipe pp s) = Some v"
    by (simp add: kpop_result [OF wf] bytes)
  have "0 < pipe_room (pipes (snd (kpop_syspipe pp s)) pp)"
    using ring_drop_one [OF wf bytes] pipe_len_less [OF wf] arg_cong [OF bytes, of length]
    by (simp add: pipe_room_def)
  then show thesis
    using that [OF v tx_pop_frame(2) [OF v wr] _ tx_inv_irq [OF inv v]] by blast
qed

lemma tx_finishes_awake:
  assumes inv: "tx_inv pp whole n0 ((pc, l, s), out)" and "\<And>n. pc \<noteq> W_done n"
    and run: "\<And>s out. tx_inv pp whole n0 ((pc, l, s), out) \<Longrightarrow> tx_ready pp s \<Longrightarrow> tx_finishes pp n0 ((pc, l, s), out)"
  shows "tx_finishes pp n0 ((pc, l, s), out)"
proof (cases "tx_ready pp s")
  case True
  with inv show ?thesis
    by (rule run)
next
  case False
  then obtain v where v: "fst (kpop_syspipe pp s) = Some v" "tx_ready pp (snd (kpop_syspipe pp s))"
    "tx_inv pp whole n0 ((pc, l, snd (kpop_syspipe pp s)), out @ [v])"
    using tx_pop [OF inv assms(2)] by metis
  show ?thesis
    by (rule tx_finishes_step [OF tx_irq [OF v(1)]]) (rule run [OF v(3,2)])
qed

lemma tx_finishes_finish:
  assumes "tx_inv pp whole n0 ((W_finish, l, s), out)" "tx_ready pp s"
  shows "tx_finishes pp n0 ((W_finish, l, s), out)"
proof (rule tx_finishes_user [OF assms(2)])
  have "uwrite_step pp (W_finish, l, s) = (W_done n0, l, upd_pipe pp (\<lambda>q. q\<lparr>m_wrtask := NULL\<rparr>) s)"
    using assms(1) by (auto simp: uwrite_step_def uwrite_finish_def tx_inv_def Let_def)
  then show "tx_finishes pp n0 (tx_sleep pp (uwrite_step pp (W_finish, l, s)), out)"
    by (auto simp: tx_finishes_def)
qed

lemma tx_finishes_block:
  assumes "tx_inv pp whole n0 ((W_block, l, s), out)" "tx_ready pp s" "u_nleft l = 0"
  shows "tx_finishes pp n0 ((W_block, l, s), out)"
proof (rule tx_finishes_user [OF assms(2)])
  have "uwrite_step pp (W_block, l, s) = (W_finish, l, s)"
    using assms(3) by (simp add: uwrite_step_def uwrite_block_def Let_def)
  then show "tx_finishes pp n0 (tx_sleep pp (uwrite_step pp (W_block, l, s)), out)"
    using tx_inv_user [OF assms(1,2)] assms(2) by (simp add: tx_finishes_finish)
qed

text \<open>A filling step with room in the pipe moves on, with less to write or nothing left.\<close>

lemma tx_finishes_fill_room:
  assumes inv: "tx_inv pp whole n0 ((W_fill, l, s), out)" and ready: "tx_ready pp s"
    and room: "0 < pipe_room (pipes s pp)"
    and IH: "\<And>l' s'. unat (u_nleft l') < unat (u_nleft l) \<Longrightarrow> tx_inv pp whole n0 ((W_block, l', s'), out)
      \<Longrightarrow> tx_finishes pp n0 ((W_block, l', s'), out)"
  shows "tx_finishes pp n0 ((W_fill, l, s), out)"
proof -
  have wf: "pipe_wf (pipes s pp)" and rd: "u_rdtask l = INTERRUPT_READ_TASK"
    and small: "unat (u_nleft l) < 2 ^ 31"
    using inv by (simp_all add: tx_inv_def Let_def)
  obtain k l2 s2 where k: "k \<le> unat (u_nleft l)"
      "unat (u_nleft l) = 0 \<or> pipe_room (pipes s pp) = 0 \<or> 0 < k"
    and step: "uwrite_fill pp l s = (W_block, l2, s2)" "u_nleft l2 = u_nleft l - of_nat k"
      "tasks s2 = tasks s" "m_wrtask (pipes s2 pp) = m_wrtask (pipes s pp)"
    by (rule uwrite_fill_int [OF wf rd small]) blast
  have ofk: "unat (of_nat k :: u32) = k"
    using k small by (intro unat_of_nat_u32) simp
  then have left: "unat (u_nleft l2) = unat (u_nleft l) - k"
    using k by (simp add: step(2) unat_sub word_le_nat_alt)
  have inv2: "tx_inv pp whole n0 ((W_block, l2, s2), out)"
    using tx_inv_user [OF inv ready] by (simp add: uwrite_step_def step(1))
  have ready2: "tx_ready pp s2"
    using ready by (simp add: tx_ready_def step(3,4))
  have "tx_finishes pp n0 ((W_block, l2, s2), out)"
  proof (cases "u_nleft l = 0")
    case True
    with k step(2) have "u_nleft l2 = 0" by simp
    with inv2 ready2 show ?thesis by (rule tx_finishes_block)
  next
    case False
    then have pos: "0 < unat (u_nleft l)"
      by (simp add: unat_gt_0)
    with k(2) room False have "0 < k"
      by simp
    with pos have "unat (u_nleft l2) < unat (u_nleft l)"
      by (simp add: left)
    from IH [OF this inv2] show ?thesis .
  qed
  then have "tx_finishes pp n0 (tx_sleep pp (uwrite_step pp (W_fill, l, s)), out)"
    by (simp add: uwrite_step_def step(1))
  then show ?thesis
    by (rule tx_finishes_user [OF ready])
qed

text \<open>A full pipe is not empty, so that the interrupt can make room.\<close>

lemma tx_finishes_fill:
  assumes inv: "tx_inv pp whole n0 ((W_fill, l, s), out)"
    and IH: "\<And>l' s' out'. unat (u_nleft l') < unat (u_nleft l) \<Longrightarrow> tx_inv pp whole n0 ((W_block, l', s'), out')
      \<Longrightarrow> tx_finishes pp n0 ((W_block, l', s'), out')"
  shows "tx_finishes pp n0 ((W_fill, l, s), out)"
proof (cases "tx_ready pp s \<and> pipe_room (pipes s pp) \<noteq> 0")
  case True
  with tx_finishes_fill_room [OF inv _ _ IH] show ?thesis by simp
next
  case False
  then obtain v where v: "fst (kpop_syspipe pp s) = Some v" "tx_ready pp (snd (kpop_syspipe pp s))"
    "0 < pipe_room (pipes (snd (kpop_syspipe pp s)) pp)"
    "tx_inv pp whole n0 ((W_fill, l, snd (kpop_syspipe pp s)), out @ [v])"
    using tx_pop [OF inv, of thesis] by auto
  show ?thesis
    by (rule tx_finishes_step [OF tx_irq [OF v(1)]]) (rule tx_finishes_fill_room [OF v(4,2,3) IH])
qed

lemma tx_finishes_direct:
  assumes inv: "tx_inv pp whole n0 ((W_direct, l, s), out)"
    and IH: "\<And>l' s' out'. unat (u_nleft l') < unat (u_nleft l) \<Longrightarrow> tx_inv pp whole n0 ((W_block, l', s'), out')
      \<Longrightarrow> tx_finishes pp n0 ((W_block, l', s'), out')"
  shows "tx_finishes pp n0 ((W_direct, l, s), out)"
proof (rule tx_finishes_awake [OF inv])
  fix s out
  assume inv: "tx_inv pp whole n0 ((W_direct, l, s), out)" and ready: "tx_ready pp s"
  let ?l = "l\<lparr>u_rdtask := INTERRUPT_READ_TASK\<rparr>"
  have step: "uwrite_step pp (W_direct, l, s) = (W_fill, ?l, s)"
    using inv by (simp add: uwrite_step_def uwrite_direct_def tx_inv_def Let_def)
  have "tx_inv pp whole n0 ((W_fill, ?l, s), out)"
    using tx_inv_user [OF inv ready] by (simp add: step)
  then have "tx_finishes pp n0 ((W_fill, ?l, s), out)"
    by (rule tx_finishes_fill) (use IH in simp)
  then show "tx_finishes pp n0 ((W_direct, l, s), out)"
    by (intro tx_finishes_user [OF ready]) (simp add: step)
qed simp

lemma tx_finishes_wait:
  assumes inv: "tx_inv pp whole n0 ((W_wait, l, s), out)"
    and IH: "\<And>l' s' out'. unat (u_nleft l') < unat (u_nleft l) \<Longrightarrow> tx_inv pp whole n0 ((W_block, l', s'), out')
      \<Longrightarrow> tx_finishes pp n0 ((W_block, l', s'), out')"
  shows "tx_finishes pp n0 ((W_wait, l, s), out)"
proof (rule tx_finishes_awake [OF inv])
  fix s out
  assume inv: "tx_inv pp whole n0 ((W_wait, l, s), out)" and ready: "tx_ready pp s"
  have "tx_finishes pp n0 (tx_sleep pp (uwrite_step pp (W_wait, l, s)), out)"
    using tx_inv_user [OF inv ready] tx_finishes_direct [OF _ IH] tx_finishes_finish [OF _ ready]
    by (cases "0 <s u_nleft l") (simp_all add: uwrite_step_def)
  then show "tx_finishes pp n0 ((W_wait, l, s), out)"
    by (rule tx_finishes_user [OF ready])
qed simp

lemma uwrite_block_pc:
  "\<exists>pc' s'. uwrite_block pp l s = (pc', l, s') \<and> (pc' = W_finish \<or> pc' = W_direct \<or> pc' = W_wait) \<and>
    tasks s' = tasks s \<and> pipes s' = pipes s"
  by (simp add: uwrite_block_def Let_def)

lemma tx_can_finish:
  "tx_inv pp whole n0 ((pc, l, s), out) \<Longrightarrow> tx_finishes pp n0 ((pc, l, s), out)"
proof (induction "unat (u_nleft l)" arbitrary: pc l s out rule: less_induct)
  case less
  note IH = less.hyps
  note go = tx_finishes_direct [OF _ IH] tx_finishes_wait [OF _ IH] tx_finishes_fill [OF _ IH]
  show ?case
  proof (cases pc)
    case W_block
    show ?thesis
      unfolding W_block
    proof (rule tx_finishes_awake [OF less.prems [unfolded W_block]])
      fix s out
      assume inv: "tx_inv pp whole n0 ((W_block, l, s), out)" and ready: "tx_ready pp s"
      obtain pc' s' where step: "uwrite_step pp (W_block, l, s) = (pc', l, s')" "tasks s' = tasks s" "pipes s' = pipes s"
        and pc': "pc' = W_finish \<or> pc' = W_direct \<or> pc' = W_wait"
        using uwrite_block_pc [of pp l s] by (auto simp: uwrite_step_def)
      have ready': "tx_ready pp s'"
        using ready by (simp add: tx_ready_def step(2,3))
      obtain s2 where s2: "tx_sleep pp (pc', l, s') = (pc', l, s2)" "pc' \<noteq> W_wait \<Longrightarrow> s2 = s'"
        by (simp add: tx_sleep_def)
      have "tx_inv pp whole n0 ((pc', l, s2), out)"
        using tx_inv_user [OF inv ready] by (simp add: step(1) s2(1))
      with pc' ready' s2(2) have "tx_finishes pp n0 ((pc', l, s2), out)"
        using go(1,2) tx_finishes_finish by (cases "pc' = W_wait") auto
      then show "tx_finishes pp n0 ((W_block, l, s), out)"
        by (intro tx_finishes_user [OF ready]) (simp add: step(1) s2(1))
    qed simp
  next
    case (W_done n)
    with less.prems show ?thesis by (auto simp: tx_finishes_def tx_inv_def Let_def)
  next
    case W_finish
    show ?thesis
      unfolding W_finish
      by (rule tx_finishes_awake [OF less.prems [unfolded W_finish]]) (simp_all add: tx_finishes_finish)
  qed (use go less.prems in metis)+
qed

section \<open>Reading from a pipe that an interrupt fills\<close>

text \<open>The interleaving: a step of the reader, or the handler pushing a byte; \<open>ins\<close> is what was accepted.\<close>

inductive rx_step :: "addr \<Rightarrow> (rpc \<times> uloc \<times> kst) \<times> u8 list \<Rightarrow> (rpc \<times> uloc \<times> kst) \<times> u8 list \<Rightarrow> bool"
  for pp :: addr where
  rx_user: "rx_step pp (c, ins) (uread_step pp c, ins)"
| rx_irq: "rx_step pp ((pc, l, s), ins) ((pc, l, kpush_syspipe pp v s),
    if 0 < pipe_room (pipes s pp) then ins @ [v] else ins)"

text \<open>
  The bytes moved so far are those from \<open>dst\<close> to the buffer pointer; they and the contents of the
  ring make up the stream.
\<close>

definition moved :: "addr \<Rightarrow> uloc \<Rightarrow> nat" where
  "moved dst l = unat (u_buf l - dst)"

definition rx_data :: "addr \<Rightarrow> addr \<Rightarrow> u32 \<Rightarrow> u8 list \<Rightarrow> uloc \<Rightarrow> kst \<Rightarrow> bool" where
  "rx_data pp dst ln strm l s \<longleftrightarrow> (let p = pipes s pp in
    pipe_wf p \<and> m_wrtask p = NULL \<and> unat ln < 2 ^ 31 \<and>
    moved dst l + unat (u_nleft l) = unat ln \<and>
    mem_bytes (mem s) dst (moved dst l) @ pipe_bytes p = strm)"

text \<open>A value of the head index that may be out of date: the bytes up to it are in the ring.\<close>

definition head_seen :: "u32 \<Rightarrow> syspipe \<Rightarrow> bool" where
  "head_seen h p \<longleftrightarrow> unat h < ring_size p \<and>
    (unat h + ring_size p - unat (m_tail p)) mod ring_size p \<le> pipe_len p"

lemma uread_copy_spec:
  assumes wf: "pipe_wf (pipes s pp)" and k: "unat ln1 \<le> pipe_len (pipes s pp)"
    "unat (m_tail (pipes s pp)) + unat ln1 \<le> ring_size (pipes s pp)"
  obtains nt where "uread_copy pp ln1 l s =
      (l\<lparr>u_buf := u_buf l + ln1, u_nleft := u_nleft l - ln1\<rparr>,
       upd_pipe pp (\<lambda>q. q\<lparr>m_nread := m_nread q + ln1, m_tail := nt\<rparr>)
         (s\<lparr>mem := mem_write (mem s) (u_buf l) (take (unat ln1) (pipe_bytes (pipes s pp)))\<rparr>))"
    "unat nt = (if unat (m_tail (pipes s pp)) + unat ln1 = ring_size (pipes s pp) then 0
      else unat (m_tail (pipes s pp)) + unat ln1)"
    "pipe_wf ((pipes s pp)\<lparr>m_tail := nt\<rparr>)"
    "pipe_bytes ((pipes s pp)\<lparr>m_tail := nt\<rparr>) = drop (unat ln1) (pipe_bytes (pipes s pp))"
proof -
  let ?p = "pipes s pp"
  define nt where "nt = (if m_tail ?p + ln1 > m_mask ?p then 0 else m_tail ?p + ln1)"
  have "ring_size ?p \<le> 2 ^ 30"
    using wf ring_size_bounds [of ?p] by (simp add: pipe_wf_def)
  then have "unat (m_tail ?p + ln1) = unat (m_tail ?p) + unat ln1"
    using k(2) by (simp add: unat_plus_if')
  then have nt: "unat nt = (if unat (m_tail ?p) + unat ln1 = ring_size ?p then 0
      else unat (m_tail ?p) + unat ln1)"
    using k(2) by (auto simp: nt_def word_less_nat_alt ring_size_def)
  note blk = ring_take_block [OF wf k refl nt]
  have "uread_copy pp ln1 l s =
      (l\<lparr>u_buf := u_buf l + ln1, u_nleft := u_nleft l - ln1\<rparr>,
       upd_pipe pp (\<lambda>q. q\<lparr>m_nread := m_nread ?p + ln1, m_tail := nt\<rparr>)
         (s\<lparr>mem := mem_write (mem s) (u_buf l) (take (unat ln1) (pipe_bytes ?p))\<rparr>))"
    unfolding nt_def blk(3) [symmetric] by (simp only: uread_copy_def Let_def)
  moreover have "upd_pipe pp (\<lambda>q. q\<lparr>m_nread := m_nread ?p + ln1, m_tail := nt\<rparr>)
         (s\<lparr>mem := m\<rparr>) = upd_pipe pp (\<lambda>q. q\<lparr>m_nread := m_nread q + ln1, m_tail := nt\<rparr>) (s\<lparr>mem := m\<rparr>)" for m
    by (cases s) simp
  ultimately show thesis
    using nt blk(1,2) by (intro that) simp_all
qed

text \<open>A copy moves bytes from the front of the ring to the end of the buffer.\<close>

lemma rx_data_copy:
  assumes dat: "rx_data pp dst ln strm l s"
    and k: "unat ln1 \<le> pipe_len (pipes s pp)" "unat ln1 \<le> unat (u_nleft l)"
      "unat (m_tail (pipes s pp)) + unat ln1 \<le> ring_size (pipes s pp)"
    and run: "uread_copy pp ln1 l s = (l', s')"
  shows "rx_data pp dst ln strm l' s'" and "moved dst l' = moved dst l + unat ln1"
    and "u_h l' = u_h l" and "m_head (pipes s' pp) = m_head (pipes s pp)"
    and "m_nread (pipes s' pp) = m_nread (pipes s pp) + ln1"
    and "unat (m_tail (pipes s' pp)) = (if unat (m_tail (pipes s pp)) + unat ln1 = ring_size (pipes s pp)
      then 0 else unat (m_tail (pipes s pp)) + unat ln1)"
    and "ring_size (pipes s' pp) = ring_size (pipes s pp)"
    and "pipe_len (pipes s' pp) = pipe_len (pipes s pp) - unat ln1"
    and "io s' = io s"
proof -
  let ?p = "pipes s pp"
  have wf: "pipe_wf ?p" and small: "unat ln < 2 ^ 31" and tot: "moved dst l + unat (u_nleft l) = unat ln"
    and strm: "mem_bytes (mem s) dst (moved dst l) @ pipe_bytes ?p = strm" and nw: "m_wrtask ?p = NULL"
    using dat by (simp_all add: rx_data_def Let_def)
  obtain nt where step: "uread_copy pp ln1 l s =
      (l\<lparr>u_buf := u_buf l + ln1, u_nleft := u_nleft l - ln1\<rparr>,
       upd_pipe pp (\<lambda>q. q\<lparr>m_nread := m_nread q + ln1, m_tail := nt\<rparr>)
         (s\<lparr>mem := mem_write (mem s) (u_buf l) (take (unat ln1) (pipe_bytes ?p))\<rparr>))"
    and nt: "unat nt = (if unat (m_tail ?p) + unat ln1 = ring_size ?p then 0
      else unat (m_tail ?p) + unat ln1)"
    and q: "pipe_wf (?p\<lparr>m_tail := nt\<rparr>)" "pipe_bytes (?p\<lparr>m_tail := nt\<rparr>) = drop (unat ln1) (pipe_bytes ?p)"
    by (rule uread_copy_spec [OF wf k(1,3)])
  have l': "l' = l\<lparr>u_buf := u_buf l + ln1, u_nleft := u_nleft l - ln1\<rparr>"
    and s': "s' = upd_pipe pp (\<lambda>q. q\<lparr>m_nread := m_nread q + ln1, m_tail := nt\<rparr>)
         (s\<lparr>mem := mem_write (mem s) (u_buf l) (take (unat ln1) (pipe_bytes ?p))\<rparr>)"
    using run step by simp_all
  have pq: "pipe_wf (pipes s' pp)" "pipe_bytes (pipes s' pp) = drop (unat ln1) (pipe_bytes ?p)"
    using q by (simp_all add: s' pipe_wf_def pipe_bytes_def pipe_len_def ring_size_def)
  show rs: "ring_size (pipes s' pp) = ring_size ?p" and "m_head (pipes s' pp) = m_head ?p"
    "m_nread (pipes s' pp) = m_nread ?p + ln1" "u_h l' = u_h l" "io s' = io s"
    by (simp_all add: s' l' ring_size_def)
  show "unat (m_tail (pipes s' pp)) = (if unat (m_tail ?p) + unat ln1 = ring_size ?p then 0
      else unat (m_tail ?p) + unat ln1)"
    using nt by (simp add: s')
  show "pipe_len (pipes s' pp) = pipe_len ?p - unat ln1"
    using arg_cong [OF pq(2), of length] by simp
  have buf: "u_buf l' - dst = (u_buf l - dst) + ln1"
    by (simp add: l')
  show mv: "moved dst l' = moved dst l + unat ln1"
    using tot k(2) small unfolding moved_def buf by (simp add: unat_plus_if' moved_def)
  have left: "unat (u_nleft l') = unat (u_nleft l) - unat ln1"
    using k(2) by (simp add: l' unat_sub word_le_nat_alt)
  have at: "u_buf l = dst + of_nat (moved dst l)"
    by (simp add: moved_def)
  let ?bs = "take (unat ln1) (pipe_bytes ?p)"
  have lbs: "length ?bs = unat ln1"
    using k(1) by simp
  have "apart dst (moved dst l) (u_buf l) (length ?bs)"
    using distinct_addrs [of "moved dst l + unat ln1" dst] tot k(2) small
    unfolding addrs_append apart_def lbs by (auto simp: at)
  then have "mem_bytes (mem s') dst (moved dst l') = mem_bytes (mem s) dst (moved dst l) @ ?bs"
    using mem_bytes_write [of ?bs "mem s" "u_buf l"] lbs tot k(2) small
    unfolding mv mem_bytes_append at [symmetric] by (simp add: s' mem_bytes_write_apart)
  with strm have "mem_bytes (mem s') dst (moved dst l') @ pipe_bytes (pipes s' pp) = strm"
    by (simp add: pq(2))
  then show "rx_data pp dst ln strm l' s'"
    using pq(1) nw small tot mv left k(2) by (simp add: rx_data_def Let_def s')
qed

definition rx_inv :: "addr \<Rightarrow> addr \<Rightarrow> u32 \<Rightarrow> u8 list \<Rightarrow> (rpc \<times> uloc \<times> kst) \<times> u8 list \<Rightarrow> bool" where
  "rx_inv pp dst ln ini = (\<lambda>((pc, l, s), ins).
    let p = pipes s pp; counted = (unat (m_nread p) = moved dst l); left = u_nleft l in
    rx_data pp dst ln (ini @ ins) l s \<and>
    (case pc of
      R_load \<Rightarrow> counted \<and> left \<noteq> 0
    | R_first \<Rightarrow> counted \<and> left \<noteq> 0 \<and> head_seen (u_h l) p
    | R_second \<Rightarrow> counted \<and> (left = 0 \<longrightarrow> ln = 1) \<and>
        (left \<noteq> 0 \<longrightarrow> head_seen (u_h l) p \<and> unat (m_tail p) \<le> unat (u_h l))
    | R_direct \<Rightarrow> counted \<and> left \<noteq> 0
    | R_block \<Rightarrow> counted \<and> left \<noteq> 0
    | R_wait \<Rightarrow> counted \<and> left \<noteq> 0
    | R_release \<Rightarrow> counted \<and> left = 0 \<and> ln = 1
    | R_done n \<Rightarrow> left = 0 \<and> n = ln \<and> ln = 1
    | R_exit n \<Rightarrow> 2 \<le> unat ln))"

lemma head_seenD:
  assumes "pipe_wf p" "head_seen h p"
  shows "unat h < unat (m_tail p) \<Longrightarrow> ring_size p - unat (m_tail p) + unat h \<le> pipe_len p"
    and "unat (m_tail p) \<le> unat h \<Longrightarrow> unat h - unat (m_tail p) \<le> pipe_len p"
  using assms by (auto simp: head_seen_def pipe_wf_def mod_if split: if_splits)

lemma head_seen_now: "pipe_wf p \<Longrightarrow> head_seen (m_head p) p"
  by (simp add: head_seen_def pipe_len_def pipe_wf_def)

lemma and_minus_2: "x AND -2 = 0 \<longleftrightarrow> unat (x :: u32) < 2"
proof -
  have m: "(-2 :: u32) = NOT (mask 1)"
    by (simp add: not_eq_complement)
  have "x AND -2 = 0 \<longleftrightarrow> x AND mask 1 = x"
    unfolding m bit_eq_iff by (auto simp only: bit_and_iff bit_not_iff bit_0_eq bot_apply bot_bool_def
      possible_bit_def dest: bit_imp_le_length)
  also have "\<dots> \<longleftrightarrow> unat x mod 2 = unat x"
    unfolding word_unat_eq_iff unat_and_mask_eq_mod by simp
  finally show ?thesis
    by (metis mod_less mod_less_divisor zero_less_numeral)
qed

lemma rx_data_push:
  assumes "rx_data pp dst ln strm l s"
  shows "rx_data pp dst ln (if 0 < pipe_room (pipes s pp) then strm @ [v] else strm) l (kpush_syspipe pp v s)"
proof -
  have wf: "pipe_wf (pipes s pp)"
    using assms by (simp add: rx_data_def Let_def)
  have "mem (kpush_syspipe pp v s) = mem s"
    by (subst kpush_frame) simp
  moreover have "m_wrtask (ring_push v (pipes s pp)) = m_wrtask (pipes s pp)"
    by (simp add: ring_push_def Let_def)
  ultimately show ?thesis
    using assms by (auto simp: rx_data_def Let_def ring_push_wf ring_push_room ring_push_full)
qed

lemma ring_push_fields:
  assumes "pipe_wf p"
  shows "m_tail (ring_push v p) = m_tail p" "m_nread (ring_push v p) = m_nread p"
    "ring_size (ring_push v p) = ring_size p" "pipe_len p \<le> pipe_len (ring_push v p)"
  using assms ring_push_room [OF assms] ring_push_full [OF assms]
  by (cases "pipe_room p"; simp add: ring_push_def Let_def ring_size_def)+

lemma head_seen_push: "pipe_wf p \<Longrightarrow> head_seen h p \<Longrightarrow> head_seen h (ring_push v p)"
  using ring_push_fields [of p v] by (auto simp: head_seen_def)

lemma rx_inv_irq:
  assumes "rx_inv pp dst ln ini ((pc, l, s), ins)"
  shows "rx_inv pp dst ln ini ((pc, l, kpush_syspipe pp v s),
    if 0 < pipe_room (pipes s pp) then ins @ [v] else ins)"
proof -
  have wf: "pipe_wf (pipes s pp)" and dat: "rx_data pp dst ln (ini @ ins) l s"
    using assms by (auto simp: rx_inv_def rx_data_def Let_def)
  have "rx_data pp dst ln (ini @ (if 0 < pipe_room (pipes s pp) then ins @ [v] else ins)) l
      (kpush_syspipe pp v s)"
    using rx_data_push [OF dat, of v] by (simp split: if_splits)
  then show ?thesis
    using assms ring_push_fields [OF wf] head_seen_push [OF wf]
    by (cases pc) (simp_all add: rx_inv_def Let_def)
qed

text \<open>The common part of both copies: what the invariant says after them, debugging exits included.\<close>

lemma rx_after_copy:
  assumes dat: "rx_data pp dst ln strm l s" and cnt: "unat (m_nread (pipes s pp)) = moved dst l"
    and k: "unat ln1 \<le> pipe_len (pipes s pp)" "unat ln1 \<le> unat (u_nleft l)"
      "unat (m_tail (pipes s pp)) + unat ln1 \<le> ring_size (pipes s pp)"
    and run: "uread_copy pp ln1 l s = (l', s')"
  shows "unat (m_nread (pipes s' pp)) = moved dst l'"
    and "uread_exits pp pc l' s' = pc \<or> (\<exists>n. uread_exits pp pc l' s' = R_exit n) \<and> 2 \<le> unat ln"
    and "uread_exits pp pc l' s' = pc \<Longrightarrow> (\<forall>n. pc \<noteq> R_exit n) \<Longrightarrow> unat (u_nleft l') < 2 \<and> moved dst l' < 2"
proof -
  note c = rx_data_copy [OF dat k run]
  have tot: "moved dst l' + unat (u_nleft l') = unat ln" "unat ln < 2 ^ 31"
    using c(1) by (simp_all add: rx_data_def Let_def)
  then show cnt': "unat (m_nread (pipes s' pp)) = moved dst l'"
    using cnt c(2) by (simp add: c(5) unat_plus_if')
  show "uread_exits pp pc l' s' = pc \<or> (\<exists>n. uread_exits pp pc l' s' = R_exit n) \<and> 2 \<le> unat ln"
    using tot cnt' by (auto simp: uread_exits_def and_minus_2)
  show "uread_exits pp pc l' s' = pc \<Longrightarrow> (\<forall>n. pc \<noteq> R_exit n) \<Longrightarrow> unat (u_nleft l') < 2 \<and> moved dst l' < 2"
    using cnt' by (auto simp: uread_exits_def and_minus_2 split: if_splits)
qed

lemma rx_facts:
  assumes "rx_data pp dst ln strm l s"
  shows "pipe_wf (pipes s pp)" "unat (u_nleft l) < 2 ^ 31" "ring_size (pipes s pp) \<le> 2 ^ 30"
    "unat (m_tail (pipes s pp)) < ring_size (pipes s pp)" "m_wrtask (pipes s pp) = NULL"
    "moved dst l + unat (u_nleft l) = unat ln"
  using assms ring_size_bounds [of "pipes s pp"] by (auto simp: rx_data_def Let_def pipe_wf_def)

lemma rx_inv_first:
  assumes inv: "rx_inv pp dst ln ini ((R_first, l, s), ins)"
  shows "rx_inv pp dst ln ini (uread_first pp l s, ins)"
proof -
  let ?p = "pipes s pp" and ?strm = "ini @ ins"
  have dat: "rx_data pp dst ln ?strm l s" and cnt: "unat (m_nread ?p) = moved dst l"
    and left: "u_nleft l \<noteq> 0" and hs: "head_seen (u_h l) ?p"
    using inv by (simp_all add: rx_inv_def Let_def)
  note f = rx_facts [OF dat]
  have h: "unat (u_h l) < ring_size ?p"
    using hs by (simp add: head_seen_def)
  have cmp: "u_h l <s m_tail ?p \<longleftrightarrow> unat (u_h l) < unat (m_tail ?p)"
    using f h by (intro sless_u32_small) simp_all
  show ?thesis
  proof (cases "u_h l <s m_tail ?p")
    case False
    then show ?thesis
      using inv cmp by (simp add: uread_first_def rx_inv_def Let_def)
  next
    case True
    define ln0 where "ln0 = m_mask ?p + 1 - m_tail ?p"
    define ln1 where "ln1 = (if u_nleft l <s ln0 then u_nleft l else ln0)"
    have ln0: "unat ln0 = ring_size ?p - unat (m_tail ?p)"
      unfolding ln0_def using f by (intro space_to_end)
    then have ln1: "unat ln1 = min (unat (u_nleft l)) (ring_size ?p - unat (m_tail ?p))"
      using f by (simp add: ln1_def sless_u32_small)
    have pos: "0 <s ln1"
      using left f ln1 by (simp add: zero_sless_u32 unat_gt_0)
    have avail: "ring_size ?p - unat (m_tail ?p) + unat (u_h l) \<le> pipe_len ?p"
      using head_seenD(1) [OF f(1) hs] True cmp by simp
    then have k: "unat ln1 \<le> pipe_len ?p" "unat ln1 \<le> unat (u_nleft l)"
      "unat (m_tail ?p) + unat ln1 \<le> ring_size ?p"
      using f by (simp_all add: ln1)
    obtain l' s' where run: "uread_copy pp ln1 l s = (l', s')"
      by fastforce
    have step: "uread_first pp l s = (uread_exits pp R_second l' s', l', s')"
      using True pos run unfolding ln1_def ln0_def
      by (simp only: uread_first_def Let_def if_True prod.case)
    note c = rx_data_copy [OF dat k run] and a = rx_after_copy [OF dat cnt k run]
    note f' = rx_facts [OF c(1)]
    have seen: "head_seen (u_h l') (pipes s' pp) \<and> unat (m_tail (pipes s' pp)) \<le> unat (u_h l')"
      if "u_nleft l' \<noteq> 0"
    proof -
      have "unat ln1 = ring_size ?p - unat (m_tail ?p)"
        using that c(2) f(6) f'(6) ln1 by (auto simp: unat_eq_zero min_def split: if_splits)
      then show ?thesis
        using c avail h f(4) by (simp add: head_seen_def)
    qed
    have "ln = 1" if "u_nleft l' = 0" "moved dst l' < 2"
    proof -
      have "unat ln = 1"
        using that f(6) f'(6) left by (simp add: unat_eq_zero) (metis less_2_cases add_is_0 unat_eq_zero)
      then show ?thesis
        by (simp add: word_unat_eq_iff)
    qed
    then show ?thesis
      using a(2,3) [of R_second] a(1) c(1) seen unfolding step
      by (auto simp: rx_inv_def Let_def split: rpc.splits)
  qed
qed

lemma rx_inv_second:
  assumes inv: "rx_inv pp dst ln ini ((R_second, l, s), ins)"
  shows "rx_inv pp dst ln ini (uread_second pp l s, ins)"
proof -
  let ?p = "pipes s pp" and ?strm = "ini @ ins"
  have dat: "rx_data pp dst ln ?strm l s" and cnt: "unat (m_nread ?p) = moved dst l"
    using inv by (simp_all add: rx_inv_def Let_def)
  note f = rx_facts [OF dat]
  show ?thesis
  proof (cases "u_nleft l = 0")
    case True
    then show ?thesis
      using inv by (auto simp: uread_second_def rx_inv_def Let_def)
  next
    case False
    then have pos: "0 <s u_nleft l"
      using f by (simp add: zero_sless_u32 unat_gt_0)
    have hs: "head_seen (u_h l) ?p" and le: "unat (m_tail ?p) \<le> unat (u_h l)"
      using inv False by (simp_all add: rx_inv_def Let_def)
    have h: "unat (u_h l) < ring_size ?p"
      using hs by (simp add: head_seen_def)
    define ln0 where "ln0 = u_h l - m_tail ?p"
    define ln1 where "ln1 = (if ln0 <s u_nleft l then ln0 else u_nleft l)"
    have ln0: "unat ln0 = unat (u_h l) - unat (m_tail ?p)"
      unfolding ln0_def using le by (simp add: unat_sub word_le_nat_alt)
    then have ln1: "unat ln1 = min (unat (u_h l) - unat (m_tail ?p)) (unat (u_nleft l))"
      using f h by (simp add: ln1_def sless_u32_small)
    have k: "unat ln1 \<le> pipe_len ?p" "unat ln1 \<le> unat (u_nleft l)"
      "unat (m_tail ?p) + unat ln1 \<le> ring_size ?p"
      using head_seenD(2) [OF f(1) hs le] le h by (simp_all add: ln1)
    obtain l' s' where run: "uread_copy pp ln1 l s = (l', s')"
      by fastforce
    have step: "uread_second pp l s =
        (uread_exits pp (if u_nleft l' = 0 then R_release else R_direct) l' s', l', s')"
      using pos run unfolding ln1_def ln0_def
      by (simp only: uread_second_def Let_def if_True prod.case)
    note c = rx_data_copy [OF dat k run] and a = rx_after_copy [OF dat cnt k run]
    have "ln = 1" if "u_nleft l' = 0" "moved dst l' < 2"
    proof -
      have "unat ln = 1"
        using that f(6) rx_facts(6) [OF c(1)] False
        by (simp add: unat_eq_zero) (metis less_2_cases add_is_0 unat_eq_zero)
      then show ?thesis
        by (simp add: word_unat_eq_iff)
    qed
    then show ?thesis
      using a(2,3) [of "if u_nleft l' = 0 then R_release else R_direct"] a(1) c(1) unfolding step
      by (auto simp: rx_inv_def Let_def split: rpc.splits if_splits)
  qed
qed

text \<open>Steps that leave the ring and the buffer alone.\<close>

lemma rx_data_cong:
  assumes "rx_data pp dst ln strm l s" "u_buf l' = u_buf l" "u_nleft l' = u_nleft l" "mem s' = mem s"
    and "pipes s' pp = (pipes s pp)\<lparr>m_nread := n, m_rdtask := r\<rparr>"
  shows "rx_data pp dst ln strm l' s'"
  using assms by (simp add: rx_data_def moved_def Let_def)

lemma rx_inv_user:
  assumes inv: "rx_inv pp dst ln ini ((pc, l, s), ins)"
  shows "rx_inv pp dst ln ini (uread_step pp (pc, l, s), ins)"
proof -
  have dat: "rx_data pp dst ln (ini @ ins) l s"
    using inv by (simp add: rx_inv_def Let_def)
  note f = rx_facts [OF dat]
  have same: "rx_data pp dst ln (ini @ ins) (l\<lparr>u_h := h\<rparr>) s" for h
    using dat by (simp add: rx_data_def moved_def)
  show ?thesis
  proof (cases pc)
    case R_load
    with inv same head_seen_now [OF f(1)] show ?thesis
      by (simp add: rx_inv_def uread_step_def Let_def moved_def)
  next
    case R_block
    have "0 <s u_nleft l"
      using inv R_block f by (simp add: zero_sless_u32 unat_gt_0 rx_inv_def Let_def)
    with inv R_block show ?thesis
      by (simp add: rx_inv_def uread_step_def uread_block_def Let_def rx_data_def moved_def)
  next
    case R_release
    have "m_nread (pipes s pp) = ln"
      using inv R_release f(6) by (simp add: rx_inv_def Let_def word_unat_eq_iff)
    with inv R_release f(5) show ?thesis
      by (auto simp: rx_inv_def uread_step_def uread_release_def Let_def rx_data_def moved_def)
  qed (use inv f(5) in \<open>simp_all add: uread_step_def rx_inv_first rx_inv_second uread_direct_def,
      simp_all add: rx_inv_def Let_def\<close>)
qed

lemma rx_inv_step:
  assumes step: "rx_step pp a b" and inv: "rx_inv pp dst ln ini a"
  shows "rx_inv pp dst ln ini b"
  using step
proof cases
  case (rx_user c ins)
  with inv show ?thesis
    by (cases c) (simp add: rx_inv_user)
next
  case (rx_irq pc l s ins v)
  with inv rx_inv_irq [of pp dst ln ini pc l s ins v] show ?thesis
    by simp
qed

lemma rx_inv_reach:
  "(rx_step pp)\<^sup>*\<^sup>* a b \<Longrightarrow> rx_inv pp dst ln ini a \<Longrightarrow> rx_inv pp dst ln ini b"
  by (induction rule: rtranclp_induct) (blast intro: rx_inv_step)+

lemma rx_inv_start:
  assumes "pipe_wf (pipes s pp)" "m_wrtask (pipes s pp) = NULL" "m_nread (pipes s pp) = 0" "0 <s ln"
  shows "rx_inv pp dst ln (pipe_bytes (pipes s pp)) (uread_enter pp dst ln s, [])"
  using assms
  by (auto simp: rx_inv_def uread_enter_def rx_data_def moved_def Let_def zero_sless_u32 unat_eq_zero)

section \<open>Properties\<close>



text \<open>
  Reading one byte from a pipe that an interrupt handler fills (UART receiver, keypad): when
  \<open>uread_syspipe\<close> leaves by its return it returns 1, the byte in the buffer followed by the
  ring is the old ring followed by the accepted bytes, and the function never calls \<open>exit\<close>.
\<close>

theorem rx_read_one:
  assumes "pipe_wf (pipes s pp)" "m_wrtask (pipes s pp) = NULL" "m_nread (pipes s pp) = 0"
    and "(rx_step pp)\<^sup>*\<^sup>* (uread_enter pp dst 1 s, []) ((pc, l', s'), ins)"
  shows "pc \<noteq> R_exit e \<and> (pc = R_done n \<longrightarrow> n = 1 \<and>
    mem s' dst # pipe_bytes (pipes s' pp) = pipe_bytes (pipes s pp) @ ins)"
proof -
  have "0 <s (1 :: u32)"
    by (simp add: zero_sless_u32)
  then have inv: "rx_inv pp dst 1 (pipe_bytes (pipes s pp)) ((pc, l', s'), ins)"
    using rx_inv_reach [OF assms(4) rx_inv_start [OF assms(1-3)]] by simp
  then have "pc = R_done n \<Longrightarrow> moved dst l' = 1"
    by (auto simp: rx_inv_def rx_data_def Let_def)
  with inv show ?thesis
    by (auto simp: rx_inv_def rx_data_def Let_def)
qed

text \<open>
  C11. The debugging exits left in \<open>uread_syspipe\<close>: a read of two or more bytes from a pipe that an
  interrupt handler fills never returns. No interleaving brings it to its return.
\<close>

theorem rx_read_two_never_returns:
  assumes "pipe_wf (pipes s pp)" "m_wrtask (pipes s pp) = NULL" "m_nread (pipes s pp) = 0"
    and "0 <s ln" "ln \<noteq> 1"
    and "(rx_step pp)\<^sup>*\<^sup>* (uread_enter pp dst ln s, []) ((pc, l', s'), ins)"
  shows "pc \<noteq> R_done n"
  using rx_inv_reach [OF assms(6) rx_inv_start [OF assms(1-4)]] assms(5)
  by (auto simp: rx_inv_def)

text \<open>
  Direct hand-over: a reader that \<open>kread_syspipe\<close> has blocked waits with its request in its saved
  registers 3 (buffer) and 4 (count). A writer copies as much as both sides have straight into the
  reader's buffer, the ring is not touched, the request shrinks by that much, and a reader whose
  request is complete is detached from the pipe and made ready.
\<close>

theorem uwrite_direct_handover:
  assumes "m_rdtask (pipes s pp) = r" "r \<noteq> NULL" "r \<noteq> INTERRUPT_READ_TASK"
    and "0 <s ctx s r 4" "0 <s u_nleft l"
    and "n = min (unat (ctx s r 4)) (unat (u_nleft l))"
    and "apart (ctx s r 3) n (u_buf l) n"
    and "uwrite_direct pp l s = (pc, l', s')"
  shows "mem_bytes (mem s') (ctx s r 3) n = mem_bytes (mem s) (u_buf l) n \<and>
    pipe_bytes (pipes s' pp) = pipe_bytes (pipes s pp) \<and>
    unat (u_nleft l') = unat (u_nleft l) - n \<and> unat (ctx s' r 4) = unat (ctx s r 4) - n \<and>
    (pc = W_finish \<longleftrightarrow> u_nleft l' = 0) \<and>
    (n = unat (ctx s r 4) \<longrightarrow> t_state (tasks s' r) = SCHED_READY \<and> m_rdtask (pipes s' pp) = NULL) \<and>
    (n < unat (ctx s r 4) \<longrightarrow> tasks s' r = (tasks s r)\<lparr>t_context := t_context (tasks s' r)\<rparr> \<and>
      m_rdtask (pipes s' pp) = r)"
proof -
  define ln where "ln = (if ctx s r 4 <s u_nleft l then ctx s r 4 else u_nleft l)"
  have small: "unat (ctx s r 4) < 2 ^ 31" "unat (u_nleft l) < 2 ^ 31"
    using assms(4,5) by (simp_all add: zero_sless_u32)
  then have ln: "unat ln = n"
    by (simp add: ln_def assms(6) sless_u32_small)
  have left: "unat (u_nleft l - ln) = unat (u_nleft l) - n" "unat (ctx s r 4 - ln) = unat (ctx s r 4) - n"
    using ln assms(6) by (simp_all add: unat_sub word_le_nat_alt)
  have "n \<le> 2 ^ 32"
    using small assms(6) by simp
  then have "mem_bytes (memcpy (mem s) (ctx s r 3) (u_buf l) ln) (ctx s r 3) n = mem_bytes (mem s) (u_buf l) n"
    using mem_bytes_write [of "mem_bytes (mem s) (u_buf l) n" "mem s" "ctx s r 3"]
    by (simp add: memcpy_def ln memcpy_loop_apart [OF assms(7)])
  moreover have "ctx s r 4 - ln = 0 \<longleftrightarrow> n = unat (ctx s r 4)"
    unfolding word_unat_eq_iff left(2) using assms(6) by auto
  ultimately show ?thesis
    using assms(8) left unfolding uwrite_direct_def assms(1) Let_def ln_def [symmetric]
    by (simp add: assms(2,3) split: if_splits) (auto simp: assms(1))
qed

text \<open>
  Which reads start and which stop the processor: \<open>kread_syspipe\<close> halts exactly when the pipe
  already has a reader, or, with no overrun to report, when the count or the buffer is invalid; an
  overrun is reported as \<open>-EIO\<close> and discards the ring; otherwise the caller owns the read end,
  resumes in \<open>uread_syspipe\<close>, and is blocked exactly if there is a writer or nothing to read.
\<close>

theorem kread_outcomes:
  assumes "t_state (tasks s tsk) = SCHED_READY" "m_wrtask (pipes s dev) \<noteq> tsk"
  shows "case kread_syspipe tsk dev dst ln s of
    Inl (h, s') \<Rightarrow> h = ZIP_HALT \<and> (m_rdtask (pipes s dev) \<noteq> NULL \<or>
      m_error (pipes s dev) = 0 \<and> (ln \<le>s 0 \<or> \<not> valid_ram_region dst ln))
  | Inr s' \<Rightarrow> m_rdtask (pipes s dev) = NULL \<and>
      (if m_error (pipes s dev) \<noteq> 0
       then ctx s' tsk 1 = - EIO \<and> m_error (pipes s' dev) = 0 \<and>
         m_tail (pipes s' dev) = m_head (pipes s' dev) \<and> t_state (tasks s' tsk) = SCHED_READY
       else m_rdtask (pipes s' dev) = tsk \<and> m_nread (pipes s' dev) = 0 \<and>
         ctx s' tsk 15 = sym s Sym_uread_syspipe \<and> ctx s' tsk 3 = ctx s tsk 3 \<and> ctx s' tsk 4 = ctx s tsk 4 \<and>
         (t_state (tasks s' tsk) = SCHED_WAITING \<longleftrightarrow>
           m_wrtask (pipes s dev) \<noteq> NULL \<or> m_head (pipes s dev) = m_tail (pipes s dev)) \<and>
         (m_wrtask (pipes s dev) \<noteq> NULL \<longrightarrow> t_state (tasks s' (m_wrtask (pipes s dev))) = SCHED_READY))"
  using assms by (auto simp: kread_syspipe_def Let_def)

text \<open>
  Which writes start: a second writer gets \<open>-EBUSY\<close>, a count that is not positive
  \<open>-EFAULT\<close>, and a buffer outside the RAM and the flash stops the processor; otherwise the caller owns
  the write end, resumes in \<open>uwrite_syspipe\<close>, and is blocked exactly if a task is reading (which is
  then woken) or the ring is full.
\<close>

theorem kwrite_outcomes:
  assumes "t_state (tasks s tsk) = SCHED_READY" "m_rdtask (pipes s dev) \<noteq> tsk" "pipe_wf (pipes s dev)"
  shows "case kwrite_syspipe tsk dev src ln s of
    Inl (h, s') \<Rightarrow> h = ZIP_HALT \<and> m_wrtask (pipes s dev) = NULL \<and> 0 <s ln \<and> \<not> valid_mem_region src ln
  | Inr s' \<Rightarrow>
      (if m_wrtask (pipes s dev) \<noteq> NULL then s' = set_ctx tsk 1 (- EBUSY) s
       else if \<not> 0 <s ln then s' = set_ctx tsk 1 (- EFAULT) s
       else m_wrtask (pipes s' dev) = tsk \<and> m_nwritten (pipes s' dev) = 0 \<and>
         ctx s' tsk 15 = sym s Sym_uwrite_syspipe \<and>
         pipe_bytes (pipes s' dev) = pipe_bytes (pipes s dev) \<and>
         (let r = m_rdtask (pipes s dev); reading = (r \<noteq> NULL \<and> r \<noteq> INTERRUPT_READ_TASK) in
           (t_state (tasks s' tsk) = SCHED_WAITING \<longleftrightarrow> reading \<or> pipe_room (pipes s dev) = 0) \<and>
           (reading \<longrightarrow> t_state (tasks s' r) = SCHED_READY)))"
proof -
  have "ln \<le>s 0 \<longleftrightarrow> \<not> 0 <s ln"
    by (simp add: word_sle_eq word_sless_alt not_less)
  then show ?thesis
    using assms by (auto simp: kwrite_syspipe_def Let_def push_guard)
qed

section \<open>Witnesses\<close>

text \<open>
  A pipe of 16 bytes that an interrupt drains, and a writer with the two bytes 72 and 105; and a pipe
  that an interrupt has filled with one byte.
\<close>

definition demo_tx :: kst where
  "demo_tx = upd_pipe 0 (\<lambda>q. q\<lparr>m_rdtask := INTERRUPT_READ_TASK, m_wrtask := 0x4400\<rparr>)
    (blank_kst\<lparr>mem := (\<lambda>_. 0)(0x5000 := 72, 0x5001 := 105)\<rparr>)"

definition demo_rx :: kst where
  "demo_rx = kpush_syspipe 0 65 (upd_pipe 0 (\<lambda>q. q\<lparr>m_rdtask := 0x4400\<rparr>) blank_kst)"

lemma blank_pipe_wf:
  assumes "4 \<le> k" "k < 31"
  shows "pipe_wf (blank_pipe (2 ^ k))"
proof -
  have "(of_nat (2 ^ k) :: u32) - 1 = mask k"
    by (simp add: mask_eq_exp_minus_1)
  moreover have "unat (mask k :: u32) + 1 = 2 ^ k"
    using assms by (intro unat_mask_plus_1) simp
  ultimately show ?thesis
    using assms unfolding pipe_wf_def is_ring_mask_def ring_size_def blank_pipe_def set_upt by auto
qed

lemma demo_wf: "pipe_wf (pipes demo_tx 0)" "pipe_wf (pipes demo_rx 0)"
  using blank_pipe_wf [of 4] by (simp_all add: demo_tx_def demo_rx_def blank_kst_def ring_push_wf)

text \<open>\<open>k\<close> steps of a writer that stays ready.\<close>

definition tx_busy :: "addr \<Rightarrow> wpc \<times> uloc \<times> kst \<Rightarrow> nat \<Rightarrow> bool" where
  "tx_busy pp c i \<longleftrightarrow> (case (uwrite_step pp ^^ i) c of (pc, l, s) \<Rightarrow> tx_ready pp s \<and> fst (uwrite_step pp (pc, l, s)) \<noteq> W_wait)"

lemma tx_user_steps:
  "list_all (tx_busy pp c) [0..<k] \<Longrightarrow> (tx_step pp)\<^sup>*\<^sup>* (c, out) ((uwrite_step pp ^^ k) c, out)"
proof (induction k)
  case (Suc k)
  obtain pc l s where c: "(uwrite_step pp ^^ k) c = (pc, l, s)"
    by (cases "(uwrite_step pp ^^ k) c")
  obtain pc' l' s' where step: "uwrite_step pp (pc, l, s) = (pc', l', s')"
    by (cases "uwrite_step pp (pc, l, s)")
  have "tx_ready pp s" "pc' \<noteq> W_wait"
    using Suc.prems by (simp_all add: tx_busy_def c step)
  then have "tx_step pp ((pc, l, s), out) ((pc', l', s'), out)"
    using tx_user [of pp s pc l out] by (simp add: step)
  with Suc show ?case
    by (auto simp: c step intro: rtranclp.rtrancl_into_rtrancl)
qed simp

lemma rx_user_steps: "(rx_step pp)\<^sup>*\<^sup>* (c, out) ((uread_step pp ^^ k) c, out)"
  by (induction k) (auto intro: rtranclp.rtrancl_into_rtrancl rx_user)

lemma demo_tx_run: "fst ((uwrite_step 0 ^^ 4) (uwrite_enter 0x5000 2 demo_tx)) = W_done 2"
  by code_simp

lemma demo_tx_busy: "list_all (tx_busy 0 (uwrite_enter 0x5000 2 demo_tx)) [0..<4]"
  by code_simp

lemma demo_tx_ready: "m_wrtask (pipes demo_tx 0) \<noteq> NULL" "tx_ready 0 demo_tx"
  by code_simp+

lemma demo_rx_run: "fst ((uread_step 0 ^^ 4) (uread_enter 0 0x5000 1 demo_rx)) = R_done 1"
  by code_simp



theorem rx_read_one_witness:
  "\<exists>l' s'. (uread_step 0 ^^ 4) (uread_enter 0 0x5000 1 demo_rx) = (R_done 1, l', s') \<and>
    mem s' 0x5000 # pipe_bytes (pipes s' 0) = [65]"
proof -
  obtain l' s' where run: "(uread_step 0 ^^ 4) (uread_enter 0 0x5000 1 demo_rx) = (R_done 1, l', s')"
    using demo_rx_run by (metis prod.collapse)
  have steps: "(rx_step 0)\<^sup>*\<^sup>* (uread_enter 0 0x5000 1 demo_rx, []) ((R_done 1, l', s'), [])"
    using rx_user_steps [of 0 _ _ 4] run by metis
  have "m_wrtask (pipes demo_rx 0) = NULL" "m_nread (pipes demo_rx 0) = 0"
    by (simp_all add: demo_rx_def blank_defs ring_push_def)
  from rx_read_one [OF demo_wf(2) this steps, of 0 1]
  have "mem s' 0x5000 # pipe_bytes (pipes s' 0) = pipe_bytes (pipes demo_rx 0) @ []"
    by simp
  also have "pipe_bytes (pipes demo_rx 0) = [65]"
    by code_simp
  finally show ?thesis
    using run by simp
qed

theorem rx_read_two_never_returns_witness:
  "fst ((uread_step 0 ^^ 4) (uread_enter 0 0x5000 2 demo_rx)) \<noteq> R_done 2"
proof -
  obtain pc l' s' where run: "(uread_step 0 ^^ 4) (uread_enter 0 0x5000 2 demo_rx) = (pc, l', s')"
    by (metis prod.collapse)
  have steps: "(rx_step 0)\<^sup>*\<^sup>* (uread_enter 0 0x5000 2 demo_rx, []) ((pc, l', s'), [])"
    using rx_user_steps [of 0 _ _ 4] run by metis
  have "m_wrtask (pipes demo_rx 0) = NULL" "m_nread (pipes demo_rx 0) = 0"
    by (simp_all add: demo_rx_def blank_defs ring_push_def)
  from rx_read_two_never_returns [OF demo_wf(2) this _ _ steps, of 2] run show ?thesis
    by (simp add: zero_sless_u32)
qed

text \<open>A reader that waits for five bytes at 0x6000, and the writer of \<open>demo_tx\<close>.\<close>

definition demo_handover :: kst where
  "demo_handover = set_ctx 0x4400 3 0x6000 (set_ctx 0x4400 4 5
    (upd_pipe 0 (\<lambda>q. q\<lparr>m_rdtask := 0x4400\<rparr>) demo_tx))"

definition demo_uloc :: uloc where
  "demo_uloc = \<lparr>u_buf = 0x5000, u_nleft = 2, u_h = 0, u_rdtask = 0, u_navail = 0\<rparr>"

lemma demo_apart: "apart 0x6000 2 0x5000 2"
  by code_simp

theorem uwrite_direct_handover_witness:
  "\<exists>pc l' s'. uwrite_direct 0 demo_uloc demo_handover = (pc, l', s') \<and>
    mem_bytes (mem s') 0x6000 2 = [72, 105] \<and> pc = W_finish \<and> unat (ctx s' 0x4400 4) = 3"
proof -
  obtain pc l' s' where run: "uwrite_direct 0 demo_uloc demo_handover = (pc, l', s')"
    by (metis prod.collapse)
  have c: "ctx demo_handover 0x4400 3 = 0x6000" "ctx demo_handover 0x4400 4 = 5"
    "m_rdtask (pipes demo_handover 0) = 0x4400" "u_buf demo_uloc = 0x5000" "u_nleft demo_uloc = 2"
    by (simp_all add: demo_handover_def demo_uloc_def)
  have m: "mem_bytes (mem demo_handover) 0x5000 2 = [72, 105]"
    by code_simp
  have len: "2 = min (unat (ctx demo_handover 0x4400 4)) (unat (u_nleft demo_uloc))"
    by (simp add: c)
  have "mem_bytes (mem s') 0x6000 2 = [72, 105] \<and> unat (u_nleft l') = 0 \<and>
      unat (ctx s' 0x4400 4) = 3 \<and> (pc = W_finish \<longleftrightarrow> u_nleft l' = 0)"
    using uwrite_direct_handover [OF c(3) _ _ _ _ len _ run] demo_apart
    by (simp add: c m zero_sless_u32)
  then show ?thesis
    using run by (simp add: unat_eq_zero)
qed

theorem kread_outcomes_witness:
  "case kread_syspipe 0x4400 0 0x5000 1 blank_kst of Inl _ \<Rightarrow> False
    | Inr s' \<Rightarrow> m_rdtask (pipes s' 0) = 0x4400 \<and> t_state (tasks s' 0x4400) = SCHED_WAITING"
  using kread_outcomes [where s = blank_kst and tsk = "0x4400" and dev = 0 and dst = "0x5000" and ln = 1]
  by (simp add: blank_defs kread_syspipe_def valid_ram_region_def word_sle_eq)

theorem kwrite_outcomes_witness:
  "case kwrite_syspipe 0x4400 0 0x5000 1 blank_kst of Inl _ \<Rightarrow> False
    | Inr s' \<Rightarrow> m_wrtask (pipes s' 0) = 0x4400 \<and> t_state (tasks s' 0x4400) \<noteq> SCHED_WAITING"
proof -
  have "pipe_wf (pipes blank_kst 0)"
    using blank_pipe_wf [of 4] by (simp add: blank_kst_def)
  moreover obtain s' where run: "kwrite_syspipe 0x4400 0 0x5000 1 blank_kst = Inr s'"
    by (simp add: blank_kst_def blank_task_def blank_pipe_def kwrite_syspipe_def valid_mem_region_def
        valid_ram_region_def word_sle_eq Let_def)
  moreover have "pipe_room (pipes blank_kst 0) = 15"
    by code_simp
  moreover have "m_wrtask (pipes blank_kst 0) = NULL" "m_rdtask (pipes blank_kst 0) = NULL"
    "t_state (tasks blank_kst 0x4400) = SCHED_READY"
    by (simp_all add: blank_defs)
  ultimately show ?thesis
    using kwrite_outcomes [of blank_kst "0x4400" 0 1 "0x5000"] by (simp add: zero_sless_u32)
qed

end
