(* ===== verification/Setup.thy ===== *)
theory Setup
  imports PipeUser
begin

text \<open>
  Building the system (sw/zipos/ksetup.c, pipesetup.c, taskp.c, and \<open>kntasks\<close> and \<open>kinit\<close>
  of doorbell.c): the bump allocator, the creation of pipes, file descriptors and tasks, and
  \<open>ksetup()\<close>, which puts them together.

  The allocator's contract is the locale \<open>bump_allocator\<close>: blocks are word-aligned and a
  sequence of allocations that does not run over the top of the address space gives disjoint blocks.
\<close>

section \<open>The allocator (ksetup.c)\<close>

definition sys_malloc :: "u32 \<Rightarrow> kst \<Rightarrow> addr \<times> kst" where
  "sys_malloc sz s = (heap s, s\<lparr>heap := heap s + ((sz + 3) AND -4)\<rparr>)"

text \<open>The sizes of the structures on this 32-bit CPU, and the offset of \<open>user_data\<close> in a task.\<close>

abbreviation (input) sizeof_KDEVICE :: u32 where "sizeof_KDEVICE \<equiv> 12"
abbreviation (input) sizeof_KFILDES :: u32 where "sizeof_KFILDES \<equiv> 8"
abbreviation (input) sizeof_SYSPIPE :: u32 where "sizeof_SYSPIPE \<equiv> 40"
abbreviation (input) sizeof_TASK_S :: u32 where "sizeof_TASK_S \<equiv> 108"
abbreviation (input) offset_user_data :: u32 where "offset_user_data \<equiv> 104"
abbreviation (input) sizeof_ptr :: u32 where "sizeof_ptr \<equiv> 4"

definition kopen :: "u32 \<Rightarrow> addr \<Rightarrow> kst \<Rightarrow> addr \<times> kst" where
  "kopen fno dev s =
    (let (fd, s1) = sys_malloc sizeof_KFILDES s
     in (fd, s1\<lparr>fildes := (fildes s1)(fd := \<lparr>fd_id = fno, fd_dev = dev\<rparr>)\<rparr>))"

section \<open>Pipes (pipesetup.c)\<close>

definition clear_syspipe :: "addr \<Rightarrow> kst \<Rightarrow> kst" where
  "clear_syspipe p s =
    (let s1 = upd_pipe p (\<lambda>q. q\<lparr>m_head := 0, m_tail := 0, m_error := 0,
                m_buf := replicate (unat (m_mask q) + 1) 0\<rparr>) s;
         q = pipes s1 p;
         wake = (\<lambda>t n s. set_state t SCHED_READY
                  (if n = 0 then upd_task t (\<lambda>k. k\<lparr>t_errno := - EFAULT\<rparr>) (set_ctx t 1 n s)
                   else set_ctx t 1 n s));
         s2 = (if m_rdtask q \<noteq> NULL \<and> m_rdtask q \<noteq> INTERRUPT_READ_TASK
               then wake (m_rdtask q) (m_nread q) s1
               else if m_wrtask q \<noteq> NULL then wake (m_wrtask q) (m_nwritten q) s1
               else s1)
     in upd_pipe p (\<lambda>q. q\<lparr>m_rdtask := (if m_rdtask q \<noteq> INTERRUPT_READ_TASK then NULL else m_rdtask q),
          m_wrtask := NULL, m_nread := 0, m_nwritten := 0\<rparr>) s2)"

text \<open>
  The search for the ring size doubles an unsigned 32-bit number. It does not end when
  the doubling runs out of the word.
\<close>

partial_function (option) ring_len_loop :: "u32 \<Rightarrow> u32 \<Rightarrow> u32 option" where
  "ring_len_loop msk ln = (if msk < ln then ring_len_loop (push_bit 1 msk) ln else Some msk)"

definition new_syspipe :: "u32 \<Rightarrow> kst \<Rightarrow> (addr \<times> kst) option" where
  "new_syspipe ln s =
    do {
      msk \<leftarrow> ring_len_loop 16 ln;
      let (pipe, s1) = sys_malloc (sizeof_SYSPIPE - 1 + msk) s;
      let s2 = upd_pipe pipe (\<lambda>q. q\<lparr>m_mask := msk - 1, m_rdtask := NULL, m_wrtask := NULL\<rparr>) s1;
      Some (pipe, clear_syspipe pipe s2)
    }"

section \<open>Tasks (taskp.c)\<close>

text \<open>
  The clearing loop zeroes the structure (and what follows it, four times as far as the block
  reaches, memory that is not allocated yet). \<open>&tsk->user_data[ln]\<close> steps in words.
\<close>

definition new_task :: "u32 \<Rightarrow> addr \<Rightarrow> kst \<Rightarrow> addr \<times> kst" where
  "new_task ln entry s =
    (let (tsk, s1) = sys_malloc (sizeof_TASK_S + ln) s;
         sp = tsk + offset_user_data + 4 * ln;
         s2 = upd_task tsk (\<lambda>_. blank_task) s1;
         s3 = upd_task tsk (\<lambda>t. t\<lparr>t_context := (t_context t)(0 := sym s Sym_idle_task, 12 := sp, 13 := sp,
                  14 := 0x20, 15 := entry), t_user_heap := tsk + offset_user_data,
                  t_state := SCHED_READY\<rparr>) s2
     in (tsk, s3))"

section \<open>The application's tasks (doorbell.c)\<close>

abbreviation (input) RTCCLOCK_TASK :: nat where "RTCCLOCK_TASK \<equiv> 0"
abbreviation (input) DOORBELL_TASK :: nat where "DOORBELL_TASK \<equiv> 1"
abbreviation (input) DISPLAY_TASK :: nat where "DISPLAY_TASK \<equiv> 2"
abbreviation (input) MENU_TASK :: nat where "MENU_TASK \<equiv> 3"

abbreviation (input) FILENO_STDIN :: nat where "FILENO_STDIN \<equiv> 0"
abbreviation (input) FILENO_STDOUT :: nat where "FILENO_STDOUT \<equiv> 1"
abbreviation (input) FILENO_STDERR :: nat where "FILENO_STDERR \<equiv> 2"
abbreviation (input) FILENO_AUX :: nat where "FILENO_AUX \<equiv> 3"

definition kntasks :: nat where
  "kntasks = 4"

text \<open>\<open>tasklist[i] = new_task(ln, entry)\<close> and \<open>tasklist[i]->fd[n] = kopen(id, dev)\<close>.\<close>

definition start_task :: "nat \<Rightarrow> u32 \<Rightarrow> symbol \<Rightarrow> kst \<Rightarrow> kst" where
  "start_task i ln entry s =
    (let (t, s1) = new_task ln (sym s entry) s in s1\<lparr>tasklist := (tasklist s1)[i := t]\<rparr>)"

definition open_fd :: "nat \<Rightarrow> nat \<Rightarrow> addr \<Rightarrow> kst \<Rightarrow> kst" where
  "open_fd i n pipe s =
    (let (fd, s1) = kopen pipe (pipedev s) s
     in upd_task (tasklist s1 ! i) (\<lambda>t. t\<lparr>t_fd := (t_fd t)(n := fd)\<rparr>) s1)"

definition kinit :: "kst \<Rightarrow> kst" where
  "kinit s0 =
    (let s1 = start_task RTCCLOCK_TASK 64 Sym_rtctask s0;
         s2 = start_task DOORBELL_TASK 256 Sym_doorbell_task s1;
         s3 = open_fd DOORBELL_TASK FILENO_STDERR (txpipe s2) s2;
         s4 = open_fd DOORBELL_TASK FILENO_AUX (pwmpipe s3) s3;
         s5 = start_task DISPLAY_TASK 128 Sym_display_task s4;
         s6 = open_fd DISPLAY_TASK FILENO_STDIN (lcdpipe s5) s5;
         s7 = start_task MENU_TASK 512 Sym_menu_task s6;
         s8 = open_fd MENU_TASK FILENO_STDOUT (lcdpipe s7) s7
     in open_fd MENU_TASK FILENO_STDERR (txpipe s8) s8)"

section \<open>Kernel setup (ksetup.c)\<close>

abbreviation (input) SETUP_CONTEXT_LENGTH :: u32 where "SETUP_CONTEXT_LENGTH \<equiv> 79999"

text \<open>\<open>ksetup()\<close> up to the allocation of the task table, and the rest of it.\<close>

definition ksetup_pipes :: "kst \<Rightarrow> kst option" where
  "ksetup_pipes s0 =
    do {
      let s1 = io_wr IO_WATCHDOG 0 (io_wr IO_SPIO 0x0f0 s0);
      let s2 = s1\<lparr>LAST_TASK := kntasks, heap := sym s1 Sym_top_of_heap\<rparr>;
      let (dev, s3) = sys_malloc sizeof_KDEVICE s2;
      let s4 = s3\<lparr>pipedev := dev, devices := (devices s3)(dev := \<lparr>dev_write = Fn_kwrite_syspipe,
        dev_read = Fn_kread_syspipe, dev_close = Fn_NULL\<rparr>), txdev := dev, pwmdev := dev\<rparr>;
      (p1, s5) \<leftarrow> new_syspipe 64 s4;
      (p2, s6) \<leftarrow> new_syspipe 64 (s5\<lparr>rxpipe := p1\<rparr>);
      (p3, s7) \<leftarrow> new_syspipe 64 (upd_pipe p2 (\<lambda>q. q\<lparr>m_rdtask := INTERRUPT_READ_TASK\<rparr>) (s6\<lparr>txpipe := p2\<rparr>));
      (p4, s8) \<leftarrow> new_syspipe 64 (s7\<lparr>keypipe := p3\<rparr>);
      (p5, s9) \<leftarrow> new_syspipe 512 (s8\<lparr>lcdpipe := p4\<rparr>);
      (p6, s10) \<leftarrow> new_syspipe 64 (upd_pipe p5 (\<lambda>q. q\<lparr>m_rdtask := INTERRUPT_READ_TASK\<rparr>) (s9\<lparr>pwmpipe := p5\<rparr>));
      let s11 = s10\<lparr>cmdpipe := p6\<rparr>;
      let (tl, s12) = sys_malloc (sizeof_ptr * (1 + of_nat (LAST_TASK s11))) s11;
      Some (s12\<lparr>tasklist := replicate (1 + LAST_TASK s12) NULL\<rparr>)
    }"

definition ksetup :: "kst \<Rightarrow> kst option" where
  "ksetup s0 =
    do {
      s12 \<leftarrow> ksetup_pipes s0;
      let s13 = kinit s12;
      let (idle, s14) = new_task 8 (sym s13 Sym_idle_task) s13;
      let s15 = s14\<lparr>tasklist := (tasklist s14)[LAST_TASK s14 := idle]\<rparr>;
      Some (io_wr IO_SPIO 0x0f1 (io_wr SCOPE_CTRL 2
        (io_wr IO_TIMER (SETUP_CONTEXT_LENGTH OR TM_REPEAT) (io_wr IO_PIC INT_CLEARPIC s15))))
    }"

text \<open>Waiting for a button before the system starts, and the exit that a returning task falls into.\<close>

partial_function (option) button_poll :: "env \<Rightarrow> hist \<Rightarrow> hist option" where
  "button_poll env h = (let (v, h1) = rd env IO_SPIO h in if v AND 0x0f0 = 0 then button_poll env h1 else Some h1)"

definition button_blink :: "hist \<Rightarrow> hist" where
  "button_blink h = fold (\<lambda>i. wr IO_SPIO ((drop_bit 14 (of_nat i) AND 2) OR 0x020)) [0..<40000] h"

definition kwait_on_buttonpress :: "env \<Rightarrow> hist \<Rightarrow> hist option" where
  "kwait_on_buttonpress env h =
    map_option (\<lambda>h1. wr IO_SPIO 0x0f7 (button_blink (wr IO_SPIO 0x0f3 h1))) (button_poll env h)"

text \<open>A system call as the caller sees it.\<close>

definition syscall :: "env \<Rightarrow> u32 \<Rightarrow> u32 \<Rightarrow> u32 \<Rightarrow> u32 \<Rightarrow> hist \<Rightarrow> u32 \<times> hist" where
  "syscall env trap a b c h = (let v = env h (QCall trap a b c) in (v, Call trap a b c v # h))"

text \<open>\<open>write()\<close>, and \<open>read()\<close> of a single byte (ktraps.h).\<close>

definition sys_write :: "env \<Rightarrow> u32 \<Rightarrow> u8 list \<Rightarrow> hist \<Rightarrow> u32 \<times> hist" where
  "sys_write env fd bs h = (let v = env h (QPut fd bs) in (v, Put fd bs v # h))"

definition sys_read1 :: "env \<Rightarrow> u32 \<Rightarrow> hist \<Rightarrow> u8 \<times> hist" where
  "sys_read1 env fd h = (let v = ucast (env h (QGet fd)) in (v, Get fd v # h))"

definition sys_wait :: "env \<Rightarrow> u32 \<Rightarrow> u32 \<Rightarrow> hist \<Rightarrow> u32 \<times> hist" where
  "sys_wait env event_mask timeout = syscall env TRAPID_WAIT event_mask timeout 0"

definition sys_clear :: "env \<Rightarrow> u32 \<Rightarrow> u32 \<Rightarrow> hist \<Rightarrow> u32 \<times> hist" where
  "sys_clear env event timeout = syscall env TRAPID_CLEAR event timeout 0"

definition sys_post :: "env \<Rightarrow> u32 \<Rightarrow> hist \<Rightarrow> hist" where
  "sys_post env event h = snd (syscall env TRAPID_POST event 0 0 h)"

definition sys_time :: "env \<Rightarrow> hist \<Rightarrow> u32 \<times> hist" where
  "sys_time env = syscall env TRAPID_TIME 0 0 0"

lemma syscall_hist [simp]:
  "written r (snd (syscall env t a b c h)) = written r h" "sent fd (snd (syscall env t a b c h)) = sent fd h"
  by (simp_all add: syscall_def Let_def)

lemma sys_write_hist [simp]:
  "written r (snd (sys_write env fd bs h)) = written r h"
  "sent f (snd (sys_write env fd bs h)) = (if f = fd then sent f h @ bs else sent f h)"
  by (simp_all add: sys_write_def Let_def)

definition kuserexit :: "env \<Rightarrow> u32 \<Rightarrow> hist \<Rightarrow> hist" where
  "kuserexit env a h = snd (syscall env TRAPID_EXIT a 0 0 h)"

section \<open>The search for the ring size\<close>

lemma ring_len_from:
  assumes "j \<le> k" "k \<le> 31" "\<forall>i. j \<le> i \<and> i < k \<longrightarrow> 2 ^ i < unat ln" "unat ln \<le> 2 ^ k"
  shows "ring_len_loop (2 ^ j) ln = Some (2 ^ k)"
  using assms
proof (induction "k - j" arbitrary: j)
  case 0
  then have "\<not> 2 ^ j < ln"
    by (simp add: word_less_nat_alt unat_pow2 not_less)
  with 0 show ?case
    by (subst ring_len_loop.simps) simp
next
  case (Suc d)
  have "2 ^ j < ln"
    using Suc.prems Suc.hyps(2) by (simp add: word_less_nat_alt unat_pow2)
  moreover have "push_bit 1 (2 ^ j :: u32) = 2 ^ Suc j"
    by (simp add: push_bit_eq_mult ac_simps)
  moreover have "ring_len_loop (2 ^ Suc j) ln = Some (2 ^ k)"
    using Suc.prems Suc.hyps(2) by (intro Suc.hyps(1)) simp_all
  ultimately show ?case
    by (subst ring_len_loop.simps) (simp only: if_True)
qed

text \<open>A result of the search is the start doubled some number of times, and large enough.\<close>

lemma ring_len_result:
  "ring_len_loop msk ln = Some m \<Longrightarrow> (\<exists>n. m = push_bit n msk) \<and> ln \<le> m"
proof (induction msk ln m rule: ring_len_loop.raw_induct [rotated, consumes 1, case_names step])
  case (step loop msk ln m)
  show ?case
  proof (cases "msk < ln")
    case True
    then have "(\<exists>n. m = push_bit n (push_bit 1 msk)) \<and> ln \<le> m"
      using step by simp
    then show ?thesis
      by (auto intro: exI [of _ "Suc _"])
  next
    case False
    with step(2) show ?thesis
      by (auto intro: exI [of _ 0])
  qed
qed

section \<open>What the constructors build\<close>

lemma new_syspipe_pow2:
  assumes "ring_len_loop 16 ln = Some (2 ^ k)" "k < 31"
  shows "new_syspipe ln s = Some (heap s, s\<lparr>heap := heap s + ((39 + 2 ^ k + 3) AND -4),
    pipes := (pipes s)(heap s := blank_pipe (2 ^ k))\<rparr>)"
proof -
  have "unat (2 ^ k - 1 :: u32) + 1 = 2 ^ k"
    using unat_mask_plus_1 [where 'a = 32, of k] assms(2) by (simp add: mask_eq_exp_minus_1)
  then have "Suc (unat (2 ^ k - 1 :: u32)) = 2 ^ k"
    by simp
  then show ?thesis
    using assms(1)
    by (cases s; cases "pipes s (heap s)") (simp add: new_syspipe_def sys_malloc_def clear_syspipe_def blank_pipe_def Let_def del: replicate_Suc)
qed

definition ready_task :: "u32 \<Rightarrow> addr \<Rightarrow> addr \<Rightarrow> addr \<Rightarrow> task" where
  "ready_task ln entry idle tsk = blank_task\<lparr>
    t_context := (\<lambda>_. 0)(0 := idle, 12 := tsk + 104 + 4 * ln, 13 := tsk + 104 + 4 * ln, 14 := 0x20, 15 := entry),
    t_user_heap := tsk + 104\<rparr>"

lemma new_task_eq:
  "new_task ln entry s = (heap s, s\<lparr>heap := heap s + ((108 + ln + 3) AND -4),
    tasks := (tasks s)(heap s := ready_task ln entry (sym s Sym_idle_task) (heap s))\<rparr>)"
  by (simp add: new_task_def sys_malloc_def ready_task_def blank_task_def Let_def)

lemma kopen_eq:
  "kopen n dev s = (heap s, s\<lparr>heap := heap s + 8, fildes := (fildes s)(heap s := \<lparr>fd_id = n, fd_dev = dev\<rparr>)\<rparr>)"
  by (simp add: kopen_def sys_malloc_def Let_def)

lemma ring_len_64: "ring_len_loop 16 64 = Some (2 ^ 6)"
  and ring_len_512: "ring_len_loop 16 512 = Some (2 ^ 9)"
  by (simp_all add: ring_len_loop.simps)

lemmas new_syspipe_eqs =
  new_syspipe_pow2 [OF ring_len_64, simplified] new_syspipe_pow2 [OF ring_len_512, simplified]

section \<open>The allocator's contract\<close>

fun alloc_all :: "(u32 \<Rightarrow> 's \<Rightarrow> addr \<times> 's) \<Rightarrow> u32 list \<Rightarrow> 's \<Rightarrow> addr list \<times> 's" where
  "alloc_all alloc [] s = ([], s)"
| "alloc_all alloc (sz # szs) s =
    (let (p, s1) = alloc sz s; (ps, s2) = alloc_all alloc szs s1 in (p # ps, s2))"

text \<open>The bytes a list of requests takes, each rounded up to words.\<close>

definition round_up :: "u32 \<Rightarrow> nat" where
  "round_up sz = 4 * ((unat sz + 3) div 4)"

locale bump_allocator =
  fixes alloc :: "u32 \<Rightarrow> 's \<Rightarrow> addr \<times> 's"
    and brk :: "'s \<Rightarrow> nat"
  assumes alloc_at: "unat (fst (alloc sz s)) = brk s"
    and alloc_brk: "brk s + round_up sz < 2 ^ 32 \<Longrightarrow> brk (snd (alloc sz s)) = brk s + round_up sz"
begin

lemma blocks_in:
  "alloc_all alloc szs s = (ps, s') \<Longrightarrow> brk s + sum_list (map round_up szs) < 2 ^ 32 \<Longrightarrow>
    length ps = length szs \<and> brk s' = brk s + sum_list (map round_up szs) \<and>
    (\<forall>i<length szs. unat (ps ! i) = brk s + sum_list (map round_up (take i szs)))"
proof (induction szs arbitrary: s ps)
  case Nil
  then show ?case by simp
next
  case (Cons sz szs)
  obtain qs where ps: "ps = fst (alloc sz s) # qs" and rest: "alloc_all alloc szs (snd (alloc sz s)) = (qs, s')"
    using Cons.prems(1) by (auto split: prod.splits)
  have b: "brk (snd (alloc sz s)) = brk s + round_up sz"
    using Cons.prems(2) by (intro alloc_brk) simp
  have IH: "length qs = length szs" "brk s' = brk s + round_up sz + sum_list (map round_up szs)"
    "\<forall>i<length szs. unat (qs ! i) = brk s + round_up sz + sum_list (map round_up (take i szs))"
    using Cons.IH [OF rest] Cons.prems(2) by (simp_all add: b)
  show ?case
  proof (intro conjI allI impI)
    fix i assume "i < length (sz # szs)"
    then show "unat (ps ! i) = brk s + sum_list (map round_up (take i (sz # szs)))"
      using IH(3) by (cases i) (simp_all add: ps alloc_at)
  qed (simp_all add: IH ps)
qed

lemma blocks_disjoint:
  assumes run: "alloc_all alloc szs s = (ps, s')" and fits: "brk s + sum_list (map round_up szs) < 2 ^ 32"
    and ij: "i < j" "j < length szs"
  shows "unat (ps ! i) + unat (szs ! i) \<le> unat (ps ! j)"
proof -
  have at: "unat (ps ! i) = brk s + sum_list (map round_up (take i szs))"
    "unat (ps ! j) = brk s + sum_list (map round_up (take j szs))"
    using blocks_in [OF run fits] ij by simp_all
  obtain rest where split: "take j szs = take i szs @ szs ! i # rest"
    using ij id_take_nth_drop [of i "take j szs"] by (auto simp: min_def)
  then have "sum_list (map round_up (take i szs)) + round_up (szs ! i) \<le> sum_list (map round_up (take j szs))"
    using arg_cong [OF split, of "\<lambda>x. sum_list (map round_up x)"] by simp
  moreover have "unat (szs ! i) \<le> round_up (szs ! i)"
    by (simp add: round_up_def)
  ultimately show ?thesis
    using at by simp
qed

end

text \<open>Rounding up with the mask.\<close>

lemma round_up_mask:
  assumes "unat sz + 3 < 2 ^ 32"
  shows "unat ((sz + 3) AND -4) = round_up sz"
proof -
  have m: "(-4 :: u32) = NOT (mask 2)"
    by (simp add: not_eq_complement mask_eq_exp_minus_1)
  have two: "2 \<le> n \<Longrightarrow> Suc (Suc (n - 2)) = n" for n :: nat
    by simp
  have "(sz + 3) AND NOT (mask 2) = push_bit 2 (drop_bit 2 (sz + 3))"
    by (rule bit_eqI) (auto simp: bit_simps two not_less)
  then have w: "(sz + 3) AND -4 = 4 * ((sz + 3) div 4)"
    by (simp add: m push_bit_eq_mult drop_bit_eq_div ac_simps)
  have s: "unat (sz + 3) = unat sz + 3"
    using assms by (simp add: unat_plus_if')
  then have "unat ((sz + 3) div 4) = (unat sz + 3) div 4"
    by (simp add: unat_div)
  with s show ?thesis
    using assms unfolding w round_up_def by (simp add: unat_word_ariths)
qed

interpretation kheap: bump_allocator sys_malloc "\<lambda>s. unat (heap s)"
proof
  fix sz s
  show "unat (fst (sys_malloc sz s)) = unat (heap s)"
    by (simp add: sys_malloc_def)
  assume fits: "unat (heap s) + round_up sz < 2 ^ 32"
  then have "unat sz + 3 < 2 ^ 32"
    by (simp add: round_up_def) presburger
  then have "unat ((sz + 3) AND -4) = round_up sz"
    by (rule round_up_mask)
  with fits show "unat (heap (snd (sys_malloc sz s))) = unat (heap s) + round_up sz"
    by (simp add: sys_malloc_def unat_plus_if')
qed

section \<open>The state that setup builds\<close>

text \<open>Where \<open>ksetup()\<close> puts the pipes and the tasks, from the start of the heap on.\<close>

definition task_at :: "addr \<Rightarrow> addr list" where
  "task_at H = [H + 1104, H + 1276, H + 1656, H + 1900, H + 2536]"

definition pipe_at :: "addr \<Rightarrow> addr list" where
  "pipe_at H = [H + 12, H + 116, H + 220, H + 324, H + 428, H + 980]"

text \<open>What the steps of \<open>kinit()\<close> change, field by field.\<close>

lemma start_task_fields [simp]:
  "heap (start_task i ln e s) = heap s + ((108 + ln + 3) AND -4)"
  "tasklist (start_task i ln e s) = (tasklist s)[i := heap s]"
  "tasks (start_task i ln e s) = (tasks s)(heap s := ready_task ln (sym s e) (sym s Sym_idle_task) (heap s))"
  "pipes (start_task i ln e s) = pipes s" "fildes (start_task i ln e s) = fildes s"
  "devices (start_task i ln e s) = devices s" "pipedev (start_task i ln e s) = pipedev s"
  "sym (start_task i ln e s) = sym s" "LAST_TASK (start_task i ln e s) = LAST_TASK s"
  "rxpipe (start_task i ln e s) = rxpipe s" "txpipe (start_task i ln e s) = txpipe s"
  "keypipe (start_task i ln e s) = keypipe s" "lcdpipe (start_task i ln e s) = lcdpipe s"
  "pwmpipe (start_task i ln e s) = pwmpipe s" "cmdpipe (start_task i ln e s) = cmdpipe s"
  "milliseconds (start_task i ln e s) = milliseconds s"
  by (simp_all add: start_task_def new_task_eq Let_def)

lemma open_fd_fields [simp]:
  "heap (open_fd i n p s) = heap s + 8"
  "tasklist (open_fd i n p s) = tasklist s"
  "tasks (open_fd i n p s) = (tasks s)(tasklist s ! i :=
    (tasks s (tasklist s ! i))\<lparr>t_fd := (t_fd (tasks s (tasklist s ! i)))(n := heap s)\<rparr>)"
  "pipes (open_fd i n p s) = pipes s"
  "fildes (open_fd i n p s) = (fildes s)(heap s := \<lparr>fd_id = p, fd_dev = pipedev s\<rparr>)"
  "devices (open_fd i n p s) = devices s" "pipedev (open_fd i n p s) = pipedev s"
  "sym (open_fd i n p s) = sym s" "LAST_TASK (open_fd i n p s) = LAST_TASK s"
  "rxpipe (open_fd i n p s) = rxpipe s" "txpipe (open_fd i n p s) = txpipe s"
  "keypipe (open_fd i n p s) = keypipe s" "lcdpipe (open_fd i n p s) = lcdpipe s"
  "pwmpipe (open_fd i n p s) = pwmpipe s" "cmdpipe (open_fd i n p s) = cmdpipe s"
  "milliseconds (open_fd i n p s) = milliseconds s"
  by (simp_all add: open_fd_def kopen_eq Let_def)

lemma kinit_fields:
  "pipes (kinit s) = pipes s" "devices (kinit s) = devices s" "pipedev (kinit s) = pipedev s"
  "sym (kinit s) = sym s" "LAST_TASK (kinit s) = LAST_TASK s"
  "rxpipe (kinit s) = rxpipe s" "txpipe (kinit s) = txpipe s" "keypipe (kinit s) = keypipe s"
  "lcdpipe (kinit s) = lcdpipe s" "pwmpipe (kinit s) = pwmpipe s" "cmdpipe (kinit s) = cmdpipe s"
  "milliseconds (kinit s) = milliseconds s"
  "heap (kinit s) = heap s + 1432"
  "tasklist (kinit s) = (tasklist s)[0 := heap s, 1 := heap s + 172, 2 := heap s + 552, 3 := heap s + 796]"
  unfolding kinit_def Let_def by (simp_all add: ac_simps)

lemma kinit_tasks:
  assumes "length (tasklist s) = 5"
  shows "tasks (kinit s) (heap s) = ready_task 64 (sym s Sym_rtctask) (sym s Sym_idle_task) (heap s)"
    and "tasks (kinit s) (heap s + 172) =
      (ready_task 256 (sym s Sym_doorbell_task) (sym s Sym_idle_task) (heap s + 172))
        \<lparr>t_fd := (\<lambda>_. NULL)(2 := heap s + 536, 3 := heap s + 544)\<rparr>"
    and "tasks (kinit s) (heap s + 552) =
      (ready_task 128 (sym s Sym_display_task) (sym s Sym_idle_task) (heap s + 552))
        \<lparr>t_fd := (\<lambda>_. NULL)(0 := heap s + 788)\<rparr>"
    and "tasks (kinit s) (heap s + 796) =
      (ready_task 512 (sym s Sym_menu_task) (sym s Sym_idle_task) (heap s + 796))
        \<lparr>t_fd := (\<lambda>_. NULL)(1 := heap s + 1416, 2 := heap s + 1424)\<rparr>"
    and "fildes (kinit s) (heap s + 536) = \<lparr>fd_id = txpipe s, fd_dev = pipedev s\<rparr>"
    and "fildes (kinit s) (heap s + 544) = \<lparr>fd_id = pwmpipe s, fd_dev = pipedev s\<rparr>"
    and "fildes (kinit s) (heap s + 788) = \<lparr>fd_id = lcdpipe s, fd_dev = pipedev s\<rparr>"
    and "fildes (kinit s) (heap s + 1416) = \<lparr>fd_id = lcdpipe s, fd_dev = pipedev s\<rparr>"
    and "fildes (kinit s) (heap s + 1424) = \<lparr>fd_id = txpipe s, fd_dev = pipedev s\<rparr>"
  using assms unfolding kinit_def Let_def
  by (simp_all add: ready_task_def blank_task_def add.assoc)

lemma replicate_5: "replicate 5 x = [x, x, x, x, x]"
  by (simp add: eval_nat_numeral)

lemma ksetup_pipes_fields:
  "\<exists>x. ksetup_pipes s = Some x \<and> heap x = sym s Sym_top_of_heap + 1104 \<and> LAST_TASK x = 4 \<and>
    tasklist x = [NULL, NULL, NULL, NULL, NULL] \<and> sym x = sym s \<and> milliseconds x = milliseconds s \<and>
    pipedev x = sym s Sym_top_of_heap \<and>
    devices x (sym s Sym_top_of_heap) = \<lparr>dev_write = Fn_kwrite_syspipe, dev_read = Fn_kread_syspipe, dev_close = Fn_NULL\<rparr> \<and>
    [rxpipe x, txpipe x, keypipe x, lcdpipe x, pwmpipe x, cmdpipe x] = pipe_at (sym s Sym_top_of_heap) \<and>
    map (pipes x) (pipe_at (sym s Sym_top_of_heap)) =
      [blank_pipe 64, (blank_pipe 64)\<lparr>m_rdtask := INTERRUPT_READ_TASK\<rparr>, blank_pipe 64, blank_pipe 64,
       (blank_pipe 512)\<lparr>m_rdtask := INTERRUPT_READ_TASK\<rparr>, blank_pipe 64]"
  by (simp add: ksetup_pipes_def new_syspipe_eqs sys_malloc_def kntasks_def pipe_at_def Let_def
      replicate_5 add.assoc del: replicate_Suc)

section \<open>Properties\<close>

text \<open>
  The kernel heap: any sequence of \<open>sys_malloc\<close> calls whose total fits below the top of the
  address space returns blocks that do not overlap, each at or above the old heap pointer, and on
  a word boundary when the heap pointer was on one.
\<close>

theorem sys_malloc_disjoint:
  assumes "alloc_all sys_malloc szs s = (ps, s')"
    and "unat (heap s) + sum_list (map round_up szs) < 2 ^ 32" and "i < j" "j < length szs"
  shows "unat (ps ! i) + unat (szs ! i) \<le> unat (ps ! j) \<and> unat (heap s) \<le> unat (ps ! i) \<and>
    unat (ps ! j) + unat (szs ! j) \<le> unat (heap s') \<and>
    (unat (heap s) mod 4 = 0 \<longrightarrow> unat (ps ! i) mod 4 = 0)"
proof -
  note b = kheap.blocks_in [OF assms(1,2)]
  have "take (Suc j) szs = take j szs @ [szs ! j]"
    using assms(4) by (simp add: take_Suc_conv_app_nth)
  then have "sum_list (map round_up szs) =
      sum_list (map round_up (take j szs)) + round_up (szs ! j) + sum_list (map round_up (drop (Suc j) szs))"
    using arg_cong [OF append_take_drop_id [of "Suc j" szs], of "\<lambda>x. sum_list (map round_up x)"] by simp
  moreover have "unat (szs ! j) \<le> round_up (szs ! j)"
    by (simp add: round_up_def)
  ultimately have "unat (ps ! j) + unat (szs ! j) \<le> unat (heap s')"
    using b assms(4) by simp
  moreover have "4 dvd sum_list (map round_up (take i szs))"
    by (induction szs arbitrary: i) (auto simp: take_Cons round_up_def split: nat.splits)
  ultimately show ?thesis
    using kheap.blocks_disjoint [OF assms] b assms(3,4) by (simp add: mod_add_eq mod_eq_0_iff_dvd dvd_add_left_iff)
qed

text \<open>
  \<open>new_syspipe\<close> returns for every length up to \<open>2^30\<close>: the pipe is a well-formed
  empty ring whose size is the least power of two that is at least 16 and at least the length.
\<close>

theorem new_syspipe_builds:
  assumes "unat ln \<le> 2 ^ 30"
  shows "\<exists>k s'. new_syspipe ln s = Some (heap s, s') \<and> 4 \<le> k \<and> unat ln \<le> 2 ^ k \<and>
    (k = 4 \<or> 2 ^ (k - 1) < unat ln) \<and> pipes s' = (pipes s)(heap s := blank_pipe (2 ^ k)) \<and>
    pipe_wf (pipes s' (heap s)) \<and> pipe_bytes (pipes s' (heap s)) = []"
proof -
  define k where "k = (LEAST k. 4 \<le> k \<and> unat ln \<le> 2 ^ k)"
  have ex: "4 \<le> (30 :: nat) \<and> unat ln \<le> 2 ^ 30"
    using assms by simp
  have k: "4 \<le> k" "unat ln \<le> 2 ^ k" "k \<le> 30"
    using LeastI [of "\<lambda>k. 4 \<le> k \<and> unat ln \<le> 2 ^ k", OF ex]
      Least_le [of "\<lambda>k. 4 \<le> k \<and> unat ln \<le> 2 ^ k", OF ex]
    by (simp_all add: k_def)
  have below: "4 \<le> i \<Longrightarrow> i < k \<Longrightarrow> 2 ^ i < unat ln" for i
    using not_less_Least [of i "\<lambda>k. 4 \<le> k \<and> unat ln \<le> 2 ^ k"] by (simp add: k_def not_le)
  have "ring_len_loop (2 ^ 4) ln = Some (2 ^ k)"
    using k below by (intro ring_len_from) auto
  then have "ring_len_loop 16 ln = Some (2 ^ k)"
    by simp
  moreover have "k = 4 \<or> 2 ^ (k - 1) < unat ln"
    using below [of "k - 1"] k(1) by (cases "k = 4") simp_all
  ultimately show ?thesis
    using new_syspipe_pow2 [of ln k s] k blank_pipe_wf [of k]
    by (intro exI [of _ k]) (auto simp: pipe_bytes_def pipe_len_def blank_pipe_def)
qed

text \<open>
  C13. A length above \<open>2^31\<close> makes \<open>new_syspipe\<close> loop for ever: the doubling shifts the only
  bit out of the word and the search never gets there.
\<close>

theorem new_syspipe_diverges:
  assumes "2 ^ 31 < unat ln"
  shows "new_syspipe ln s = None"
proof -
  have "ring_len_loop 16 ln = None"
  proof (rule ccontr)
    assume "ring_len_loop 16 ln \<noteq> None"
    then obtain m n where m: "m = push_bit n (16 :: u32)" "ln \<le> m"
      using ring_len_result by blast
    have "unat m \<le> 2 ^ 31"
    proof (cases "n + 4 < 32")
      case True
      have "m = 2 ^ (n + 4)"
        by (simp add: m push_bit_eq_mult power_add)
      then have "unat m = 2 ^ (n + 4)"
        using unat_pow2 [where 'a = 32, of "n + 4"] True by simp
      also have "\<dots> \<le> (2 :: nat) ^ 31"
        using True by (intro power_increasing) simp_all
      finally show ?thesis .
    next
      case False
      have "m = push_bit (n + 4) 1"
        by (simp add: m push_bit_eq_mult power_add)
      also have "\<dots> = 0"
        using False by (intro bit_eqI) (simp add: bit_simps)
      finally show ?thesis by simp
    qed
    with m(2) assms show False
      by (simp add: word_le_nat_alt)
  qed
  then show ?thesis
    by (simp add: new_syspipe_def)
qed

text \<open>The state after setup, with the clock (which is not part of the property).\<close>

lemma ksetup_spec:
  "\<exists>s'. ksetup s = Some s' \<and> LAST_TASK s' = 4 \<and> length (tasklist s') = 5 \<and> distinct (tasklist s') \<and>
    list_all (\<lambda>t. t_state (tasks s' t) = SCHED_READY \<and> ctx s' t 14 = CC_GIE) (tasklist s') \<and>
    map (\<lambda>t. ctx s' t 15) (tasklist s') =
      map (sym s) [Sym_rtctask, Sym_doorbell_task, Sym_display_task, Sym_menu_task, Sym_idle_task] \<and>
    distinct [rxpipe s', txpipe s', keypipe s', lcdpipe s', pwmpipe s', cmdpipe s'] \<and>
    list_all (\<lambda>p. pipe_wf (pipes s' p) \<and> pipe_bytes (pipes s' p) = [])
      [rxpipe s', txpipe s', keypipe s', lcdpipe s', pwmpipe s', cmdpipe s'] \<and>
    m_rdtask (pipes s' (txpipe s')) = INTERRUPT_READ_TASK \<and>
    m_rdtask (pipes s' (pwmpipe s')) = INTERRUPT_READ_TASK \<and>
    map (\<lambda>(i, n). fildes s' (t_fd (tasks s' (tasklist s' ! i)) n)) [(1, 2), (1, 3), (2, 0), (3, 1), (3, 2)] =
      map (\<lambda>p. \<lparr>fd_id = p, fd_dev = pipedev s'\<rparr>) [txpipe s', pwmpipe s', lcdpipe s', lcdpipe s', txpipe s'] \<and>
    dev_read (devices s' (pipedev s')) = Fn_kread_syspipe \<and> dev_write (devices s' (pipedev s')) = Fn_kwrite_syspipe \<and>
    milliseconds s' = milliseconds s"
proof -
  obtain x where x: "ksetup_pipes s = Some x" "heap x = sym s Sym_top_of_heap + 1104" "LAST_TASK x = 4"
    "tasklist x = [NULL, NULL, NULL, NULL, NULL]" "sym x = sym s" "milliseconds x = milliseconds s" "pipedev x = sym s Sym_top_of_heap"
    "devices x (sym s Sym_top_of_heap) = \<lparr>dev_write = Fn_kwrite_syspipe, dev_read = Fn_kread_syspipe, dev_close = Fn_NULL\<rparr>"
    and p: "[rxpipe x, txpipe x, keypipe x, lcdpipe x, pwmpipe x, cmdpipe x] = pipe_at (sym s Sym_top_of_heap)"
    and q: "map (pipes x) (pipe_at (sym s Sym_top_of_heap)) =
      [blank_pipe 64, (blank_pipe 64)\<lparr>m_rdtask := INTERRUPT_READ_TASK\<rparr>, blank_pipe 64, blank_pipe 64,
       (blank_pipe 512)\<lparr>m_rdtask := INTERRUPT_READ_TASK\<rparr>, blank_pipe 64]"
    using ksetup_pipes_fields [of s] by (elim exE conjE) (rule that)
  have wf: "pipe_wf (blank_pipe 64)" "pipe_wf (blank_pipe 512)"
    using blank_pipe_wf [of 6] blank_pipe_wf [of 9] by simp_all
  have empty: "pipe_bytes (blank_pipe n) = []" for n
    by (simp add: pipe_bytes_def pipe_len_def blank_pipe_def)
  have len: "length (tasklist x) = 5"
    by (simp add: x)
  define H where "H = sym s Sym_top_of_heap"
  note k = kinit_fields [of x] kinit_tasks [OF len, unfolded x H_def [symmetric], unfolded add.assoc, simplified]
  obtain s' where run: "ksetup s = Some s'" and f: "LAST_TASK s' = 4" "tasklist s' = task_at H"
    "tasks s' = (tasks (kinit x))(H + 2536 := ready_task 8 (sym s Sym_idle_task) (sym s Sym_idle_task) (H + 2536))"
    "pipes s' = pipes x" "fildes s' = fildes (kinit x)" "devices s' = devices x" "pipedev s' = H"
    "rxpipe s' = rxpipe x" "txpipe s' = txpipe x" "keypipe s' = keypipe x" "lcdpipe s' = lcdpipe x"
    "pwmpipe s' = pwmpipe x" "cmdpipe s' = cmdpipe x"
    "milliseconds s' = milliseconds s"
    by (simp add: ksetup_def x kinit_fields new_task_eq H_def task_at_def add.assoc Let_def)
  have pipes: "rxpipe x = H + 12" "txpipe x = H + 116" "keypipe x = H + 220" "lcdpipe x = H + 324"
    "pwmpipe x = H + 428" "cmdpipe x = H + 980"
    using p by (simp_all add: pipe_at_def H_def)
  have at: "pipes x (H + 12) = blank_pipe 64"
    "pipes x (H + 116) = (blank_pipe 64)\<lparr>m_rdtask := INTERRUPT_READ_TASK\<rparr>"
    "pipes x (H + 220) = blank_pipe 64" "pipes x (H + 324) = blank_pipe 64"
    "pipes x (H + 428) = (blank_pipe 512)\<lparr>m_rdtask := INTERRUPT_READ_TASK\<rparr>"
    "pipes x (H + 980) = blank_pipe 64"
    using q by (simp_all add: pipe_at_def H_def)
  show ?thesis
  proof (intro exI conjI)
    show "ksetup s = Some s'" by (rule run)
  qed (simp_all add: f pipes at wf empty x(8) [folded H_def], simp_all add: task_at_def k pipes ready_task_def blank_task_def)
qed

text \<open>
  C8. What \<open>ksetup()\<close> hands to the scheduler: five different tasks, all ready, each at its
  entry point in user mode, the idle task last; six different empty pipes, the transmit and audio
  pipes owned by the interrupt handlers; and the open files of the doorbell, display and menu
  tasks, which lead to those pipes.
\<close>

theorem ksetup_builds:
  "\<exists>s'. ksetup s = Some s' \<and> LAST_TASK s' = 4 \<and> length (tasklist s') = 5 \<and> distinct (tasklist s') \<and>
    list_all (\<lambda>t. t_state (tasks s' t) = SCHED_READY \<and> ctx s' t 14 = CC_GIE) (tasklist s') \<and>
    map (\<lambda>t. ctx s' t 15) (tasklist s') =
      map (sym s) [Sym_rtctask, Sym_doorbell_task, Sym_display_task, Sym_menu_task, Sym_idle_task] \<and>
    distinct [rxpipe s', txpipe s', keypipe s', lcdpipe s', pwmpipe s', cmdpipe s'] \<and>
    list_all (\<lambda>p. pipe_wf (pipes s' p) \<and> pipe_bytes (pipes s' p) = [])
      [rxpipe s', txpipe s', keypipe s', lcdpipe s', pwmpipe s', cmdpipe s'] \<and>
    m_rdtask (pipes s' (txpipe s')) = INTERRUPT_READ_TASK \<and>
    m_rdtask (pipes s' (pwmpipe s')) = INTERRUPT_READ_TASK \<and>
    map (\<lambda>(i, n). fildes s' (t_fd (tasks s' (tasklist s' ! i)) n)) [(1, 2), (1, 3), (2, 0), (3, 1), (3, 2)] =
      map (\<lambda>p. \<lparr>fd_id = p, fd_dev = pipedev s'\<rparr>) [txpipe s', pwmpipe s', lcdpipe s', lcdpipe s', txpipe s'] \<and>
    dev_read (devices s' (pipedev s')) = Fn_kread_syspipe \<and> dev_write (devices s' (pipedev s')) = Fn_kwrite_syspipe"
  using ksetup_spec [of s] by (elim exE conjE) (intro exI conjI)

text \<open>
  The block \<open>new_task\<close> allocates is \<open>sizeof(struct TASK_S) + ln\<close> bytes, but the stack
  pointer it sets is \<open>ln\<close> words above \<open>user_data\<close>: for three or more words the stack starts
  outside the task's own block, in the memory of whatever is allocated next.
\<close>

theorem new_task_stack_outside:
  assumes "3 \<le> unat ln" "unat (heap s) + 4 * unat ln + 112 < 2 ^ 32"
    and "new_task ln entry s = (t, s')"
  shows "unat (ctx s' t 13) = unat t + 104 + 4 * unat ln \<and> unat (heap s') < unat (ctx s' t 13)"
proof -
  have t: "t = heap s" "ctx s' t 13 = heap s + 104 + 4 * ln" "heap s' = heap s + ((108 + ln + 3) AND -4)"
    using assms(3) by (auto simp: new_task_eq ready_task_def)
  have "unat (108 + ln) = 108 + unat ln"
    using assms by (simp add: unat_plus_if')
  then have r: "unat ((108 + ln + 3) AND -4) = 4 * ((unat ln + 111) div 4)"
    using assms round_up_mask [of "108 + ln"] by (simp add: round_up_def ac_simps)
  have "unat (4 * ln) = 4 * unat ln"
    using assms(2) by (simp add: unat_word_ariths)
  then have "unat (104 + 4 * ln) = 104 + 4 * unat ln"
    using assms(2) by (simp add: unat_word_ariths)
  then have sp: "unat (heap s + (104 + 4 * ln)) = unat (heap s) + (104 + 4 * unat ln)"
    using assms(2) by (subst unat_plus_if') simp
  have blk: "4 * ((unat ln + 111) div 4) \<le> unat ln + 111"
    by simp
  have "unat (heap s') = unat (heap s) + 4 * ((unat ln + 111) div 4)"
  proof -
    have "unat (heap s) + 4 * ((unat ln + 111) div 4) < 2 ^ 32"
      using blk assms(2) by linarith
    then show ?thesis
      unfolding t(3) using r by (subst unat_plus_if') simp
  qed
  moreover have "4 * ((unat ln + 111) div 4) < 104 + 4 * unat ln"
    using assms(1) by presburger
  ultimately show ?thesis
    using sp t(1,2) by (simp add: add.assoc)
qed

section \<open>Witnesses\<close>

theorem sys_malloc_disjoint_witness:
  "\<exists>ps s'. alloc_all sys_malloc [5, 8, 1] (blank_kst\<lparr>heap := 0x4800\<rparr>) = (ps, s') \<and>
    unat (ps ! 0) + 5 \<le> unat (ps ! 2)"
proof -
  obtain ps s' where run: "alloc_all sys_malloc [5, 8, 1] (blank_kst\<lparr>heap := 0x4800\<rparr>) = (ps, s')"
    by fastforce
  from sys_malloc_disjoint [OF run, of 0 2] run show ?thesis
    by (simp add: round_up_def)
qed

theorem new_syspipe_builds_witness:
  "\<exists>k s'. new_syspipe 512 blank_kst = Some (heap blank_kst, s') \<and> 512 \<le> (2 :: nat) ^ k \<and>
    pipe_wf (pipes s' (heap blank_kst))"
  using new_syspipe_builds [of 512 blank_kst] by auto

theorem new_syspipe_diverges_witness: "new_syspipe 0x80000001 blank_kst = None"
  by (rule new_syspipe_diverges) simp

theorem new_task_stack_outside_witness:
  "\<exists>t s'. new_task 64 0 (blank_kst\<lparr>heap := 0x4800\<rparr>) = (t, s') \<and> unat (heap s') < unat (ctx s' t 13)"
proof -
  obtain t s' where run: "new_task 64 0 (blank_kst\<lparr>heap := 0x4800\<rparr>) = (t, s')"
    by fastforce
  from new_task_stack_outside [OF _ _ run] run show ?thesis
    by simp
qed

end
