(* ===== verification/Sched.thy ===== *)
theory Sched
  imports Setup
begin

text \<open>
  The scheduler and the event distribution of sw/zipos/kernel.c: \<open>kschedule()\<close>, a round robin over
  the ready tasks with the idle task as the last resort, and \<open>kpost()\<close>, which advances the
  millisecond clock, expires timeouts and wakes the tasks whose events have come.

  The fairness of the scheduler follows from a contract, the locale \<open>cyclic_scheduler\<close>: every pick
  brings the choice closer, in the cyclic order, to each task that stays ready.
\<close>

section \<open>kschedule\<close>

text \<open>The index after that of \<open>prev\<close>, or 0 if it is not in the table.\<close>

function kfind_next :: "addr list \<Rightarrow> nat \<Rightarrow> addr \<Rightarrow> nat \<Rightarrow> nat" where
  "kfind_next tlist lst prev i =
    (if i \<le> lst then if prev = tlist ! i then i + 1 else kfind_next tlist lst prev (i + 1) else 0)"
  by pat_completeness auto
termination
  by (relation "measure (\<lambda>(tlist, lst, prev, i). lst + 1 - i)") auto

declare kfind_next.simps [simp del]

text \<open>The search loop: the first ready task from \<open>i\<close> on, below \<open>n\<close>.\<close>

function kfirst_ready :: "kst \<Rightarrow> addr list \<Rightarrow> nat \<Rightarrow> nat \<Rightarrow> nat" where
  "kfirst_ready s tlist n i =
    (if i < n then if t_state (tasks s (tlist ! i)) = SCHED_READY then i else kfirst_ready s tlist n (i + 1) else i)"
  by pat_completeness auto
termination
  by (relation "measure (\<lambda>(s, tlist, n, i). n - i)") auto

declare kfirst_ready.simps [simp del]

definition kschedule :: "nat \<Rightarrow> addr list \<Rightarrow> addr \<Rightarrow> kst \<Rightarrow> addr" where
  "kschedule lst tlist prev s =
    (let nxt = kfirst_ready s tlist lst (kfind_next tlist lst prev 0)
     in if nxt \<ge> lst then tlist ! kfirst_ready s tlist lst 0 else tlist ! nxt)"

section \<open>kpost\<close>

text \<open>The body of each of its three loops, for one task.\<close>

definition kpost_rebase :: "u32 \<Rightarrow> task \<Rightarrow> task" where
  "kpost_rebase ms t =
    (if t_timeout t \<noteq> 0
     then (let t1 = t_timeout t - 0x80000000; t2 = (if t1 = 0 then t1 + 1 else t1)
           in if t2 <s ms then t\<lparr>t_pending := t_pending t OR SWINT_TIMEOUT, t_timeout := 0\<rparr>
              else t\<lparr>t_timeout := t2\<rparr>)
     else t)"

definition kpost_expire :: "u32 \<Rightarrow> task \<Rightarrow> task" where
  "kpost_expire ms t =
    (if t_timeout t \<noteq> 0 \<and> t_timeout t < ms
     then t\<lparr>t_pending := t_pending t OR SWINT_TIMEOUT, t_timeout := 0\<rparr> else t)"

definition kpost_wake :: "u32 \<Rightarrow> task \<Rightarrow> task" where
  "kpost_wake events t =
    (let t1 = t\<lparr>t_pending := t_pending t OR events\<rparr>; sig = t_waitsig t1 AND t_pending t1
     in if t_state t1 = SCHED_WAITING \<and> sig \<noteq> 0
        then t1\<lparr>t_state := SCHED_READY, t_context := (t_context t1)(1 := sig),
          t_pending := t_pending t1 AND NOT sig, t_waitsig := 0\<rparr>
        else t1)"

definition for_tasks :: "nat \<Rightarrow> addr list \<Rightarrow> (task \<Rightarrow> task) \<Rightarrow> kst \<Rightarrow> kst" where
  "for_tasks lst tlist f s = fold (\<lambda>i. upd_task (tlist ! i) f) [0..<lst + 1] s"

definition kpost :: "addr list \<Rightarrow> u32 \<Rightarrow> u32 \<Rightarrow> kst \<Rightarrow> u32 \<times> kst" where
  "kpost tlist events ms0 s =
    (let ms1 = (if events AND INT_TIMER \<noteq> 0 then ms0 + 1 else ms0);
         (ms, s1) = (if ms1 <s 0
           then (let m = ms1 - 0x80000000 in (m, for_tasks (LAST_TASK s) tlist (kpost_rebase m) s))
           else (ms1, for_tasks (LAST_TASK s) tlist (kpost_expire ms1) s))
     in (ms, for_tasks (LAST_TASK s) tlist (kpost_wake events) s1))"

section \<open>The loops over the task table\<close>

lemma for_tasks_frame [frame]: "for_tasks lst tlist f s = s\<lparr>tasks := tasks (for_tasks lst tlist f s)\<rparr>"
proof -
  have "fold (\<lambda>i. upd_task (tlist ! i) f) xs s = s\<lparr>tasks := tasks (fold (\<lambda>i. upd_task (tlist ! i) f) xs s)\<rparr>" for xs
  proof (induction xs arbitrary: s)
    case (Cons i xs)
    have "upd_task (tlist ! i) f s\<lparr>tasks := ts\<rparr> = s\<lparr>tasks := ts\<rparr>" for ts
      by simp
    then show ?case
      unfolding fold_simps by (subst Cons.IH) simp
  qed simp
  then show ?thesis
    by (simp only: for_tasks_def)
qed

text \<open>With different entries, each task in the table gets the body once, and no other changes.\<close>

lemma fold_upd_task:
  assumes "distinct (map (\<lambda>i. tlist ! i) xs)"
  shows "tasks (fold (\<lambda>i. upd_task (tlist ! i) f) xs s) p =
    (if p \<in> (\<lambda>i. tlist ! i) ` set xs then f (tasks s p) else tasks s p)"
  using assms by (induction xs arbitrary: s) auto

lemma tasks_for_tasks:
  assumes "distinct tlist" "length tlist = lst + 1"
  shows "tasks (for_tasks lst tlist f s) p = (if p \<in> set tlist then f (tasks s p) else tasks s p)"
proof -
  have "map (\<lambda>i. tlist ! i) [0..<lst + 1] = tlist"
    using assms(2) by (metis map_nth)
  moreover from this have "(\<lambda>i. tlist ! i) ` set [0..<lst + 1] = set tlist"
    by (metis set_map)
  ultimately show ?thesis
    using assms(1) unfolding for_tasks_def by (subst fold_upd_task) simp_all
qed

lemma tasks_kpost:
  assumes "distinct tlist" "length tlist = LAST_TASK s + 1"
  shows "tasks (snd (kpost tlist events ms s)) p =
    (if p \<in> set tlist then
      (let m = (if events AND INT_TIMER \<noteq> 0 then ms + 1 else ms)
       in kpost_wake events ((if m <s 0 then kpost_rebase (m - 0x80000000) else kpost_expire m) (tasks s p)))
     else tasks s p)"
  using assms by (simp add: kpost_def Let_def tasks_for_tasks)

lemma kpost_frame [frame]: "snd (kpost tlist events ms s) = s\<lparr>tasks := tasks (snd (kpost tlist events ms s))\<rparr>"
  unfolding kpost_def Let_def
  by (cases "(if events AND INT_TIMER \<noteq> 0 then ms + 1 else ms) <s 0")
    (simp_all, (subst for_tasks_frame, subst (2) for_tasks_frame, simp)+)

section \<open>The searches of kschedule\<close>

lemma kfind_next_at:
  assumes "distinct tlist" "length tlist = lst + 1" "j \<le> i" "i \<le> lst"
  shows "kfind_next tlist lst (tlist ! i) j = i + 1"
  using assms
proof (induction tlist lst "tlist ! i" j rule: kfind_next.induct)
  case (1 tlist lst j)
  show ?case
  proof (cases "i = j")
    case True
    with 1 show ?thesis by (subst kfind_next.simps) simp
  next
    case False
    then have "tlist ! i \<noteq> tlist ! j"
      using 1 by (simp add: nth_eq_iff_index_eq)
    with 1 False show ?thesis by (subst kfind_next.simps) simp
  qed
qed

abbreviation ready_at :: "kst \<Rightarrow> addr list \<Rightarrow> nat \<Rightarrow> bool" where
  "ready_at s tlist i \<equiv> t_state (tasks s (tlist ! i)) = SCHED_READY"

lemma kfirst_ready_spec:
  "(\<forall>j. i \<le> j \<and> j < kfirst_ready s tlist n i \<and> j < n \<longrightarrow> \<not> ready_at s tlist j) \<and>
    (kfirst_ready s tlist n i < n \<longrightarrow> i \<le> kfirst_ready s tlist n i \<and> ready_at s tlist (kfirst_ready s tlist n i)) \<and>
    (kfirst_ready s tlist n i = max i n \<or> kfirst_ready s tlist n i < n)"
proof (induction s tlist n i rule: kfirst_ready.induct)
  case (1 s tlist n i)
  show ?case
  proof (cases "i < n \<and> \<not> ready_at s tlist i")
    case True
    then have eq: "kfirst_ready s tlist n i = kfirst_ready s tlist n (i + 1)"
      by (subst kfirst_ready.simps) simp
    have "i \<le> j \<Longrightarrow> j = i \<or> i + 1 \<le> j" for j
      by auto
    then show ?thesis
      using 1 True unfolding eq by (auto simp: max_def)
  next
    case False
    then have "kfirst_ready s tlist n i = i"
      by (subst kfirst_ready.simps) auto
    with False show ?thesis by auto
  qed
qed

text \<open>The index that a scheduling step picks when task number \<open>i\<close> was running.\<close>

definition kpick :: "kst \<Rightarrow> addr list \<Rightarrow> nat \<Rightarrow> nat \<Rightarrow> nat" where
  "kpick s tlist n i =
    (if kfirst_ready s tlist n (i + 1) \<ge> n then kfirst_ready s tlist n 0 else kfirst_ready s tlist n (i + 1))"

lemma kschedule_kpick:
  assumes "distinct tlist" "length tlist = n + 1" "i \<le> n"
  shows "kschedule n tlist (tlist ! i) s = tlist ! kpick s tlist n i"
  using kfind_next_at [OF assms(1,2) _ assms(3), of 0] by (simp add: kschedule_def kpick_def Let_def)

section \<open>Fair scheduling\<close>

text \<open>
  How many picks away task \<open>j\<close> can be when task \<open>i\<close> was running, with \<open>n\<close> tasks and the idle
  task at index \<open>n\<close>.
\<close>

definition cyc_dist :: "nat \<Rightarrow> nat \<Rightarrow> nat \<Rightarrow> nat" where
  "cyc_dist n i j = (if i < j then j - i else j + n + 1 - i)"

locale cyclic_scheduler =
  fixes n :: nat and ready :: "'s \<Rightarrow> nat \<Rightarrow> bool" and pick :: "'s \<Rightarrow> nat \<Rightarrow> nat"
  assumes pick_le: "pick s i \<le> n"
    and pick_idle: "pick s i = n \<Longrightarrow> j < n \<Longrightarrow> \<not> ready s j"
    and pick_ready: "pick s i < n \<Longrightarrow> ready s (pick s i)"
    and pick_closer: "i \<le> n \<Longrightarrow> j < n \<Longrightarrow> ready s j \<Longrightarrow> pick s i \<noteq> j \<Longrightarrow>
      cyc_dist n (pick s i) j < cyc_dist n i j"
begin

text \<open>A task that is ready at every pick is picked within its distance.\<close>

lemma picked_within:
  assumes "run 0 \<le> n" "\<And>k. run (Suc k) = pick (st k) (run k)" "j < n" "\<And>k. ready (st k) j"
  shows "\<exists>k. 0 < k \<and> k \<le> cyc_dist n (run 0) j \<and> run k = j"
  using assms(1,2,4)
proof (induction "cyc_dist n (run 0) j" arbitrary: run st rule: less_induct)
  case less
  note step = less.prems(2) and rdy = less.prems(3)
  show ?case
  proof (cases "run 1 = j")
    case True
    moreover have "1 \<le> cyc_dist n (run 0) j"
      using less.prems(1) by (auto simp: cyc_dist_def)
    ultimately show ?thesis by (intro exI [of _ 1]) simp
  next
    case False
    have r1: "run 1 = pick (st 0) (run 0)"
      using step [of 0] by simp
    have closer: "cyc_dist n (run 1) j < cyc_dist n (run 0) j"
      using pick_closer [OF less.prems(1) assms(3) rdy] False r1 by simp
    obtain k where "0 < k" "k \<le> cyc_dist n (run 1) j" "run (Suc k) = j"
      using less.hyps [of "\<lambda>k. run (Suc k)" "\<lambda>k. st (Suc k)"] closer r1 pick_le step rdy by auto
    with closer show ?thesis
      by (intro exI [of _ "Suc k"]) simp
  qed
qed

end

interpretation ksched: cyclic_scheduler n "\<lambda>s. ready_at s tlist" "\<lambda>s. kpick s tlist n" for n tlist
proof
  fix s i j
  note a = kfirst_ready_spec [of 0 s tlist n] and b = kfirst_ready_spec [of "i + 1" s tlist n]
  show "kpick s tlist n i \<le> n"
    using a by (auto simp: kpick_def)
  show "kpick s tlist n i = n \<Longrightarrow> j < n \<Longrightarrow> \<not> ready_at s tlist j"
    using a by (auto simp: kpick_def split: if_splits)
  show "kpick s tlist n i < n \<Longrightarrow> ready_at s tlist (kpick s tlist n i)"
    using a b by (auto simp: kpick_def split: if_splits)
  assume i: "i \<le> n" and j: "j < n" "ready_at s tlist j" and ne: "kpick s tlist n i \<noteq> j"
  show "cyc_dist n (kpick s tlist n i) j < cyc_dist n i j"
  proof (cases "kfirst_ready s tlist n (i + 1) < n")
    case True
    then have "kpick s tlist n i = kfirst_ready s tlist n (i + 1)"
      by (simp add: kpick_def)
    moreover have "i < j \<Longrightarrow> kfirst_ready s tlist n (i + 1) \<le> j"
      using b j True by (metis Suc_eq_plus1 Suc_leI not_le)
    ultimately show ?thesis
      using True b i j ne by (auto simp: cyc_dist_def)
  next
    case False
    then have pick: "kpick s tlist n i = kfirst_ready s tlist n 0"
      by (simp add: kpick_def)
    have "\<not> i < j"
      using b j False by (metis Suc_eq_plus1 Suc_leI order.strict_trans1 linorder_not_less)
    moreover have "kfirst_ready s tlist n 0 \<le> j"
      using a j by (metis not_le zero_le)
    ultimately show ?thesis
      using pick i j ne by (auto simp: cyc_dist_def)
  qed
qed

section \<open>Properties of the scheduler\<close>

lemma kschedule_spec:
  assumes "distinct tlist" "length tlist = n + 1"
  shows "\<exists>i\<le>n. kschedule n tlist prev s = tlist ! i \<and>
    (i < n \<and> t_state (tasks s (tlist ! i)) = SCHED_READY \<or>
     i = n \<and> (\<forall>j<n. t_state (tasks s (tlist ! j)) \<noteq> SCHED_READY))"
proof -
  let ?nxt = "kfirst_ready s tlist n (kfind_next tlist n prev 0)" and ?fst = "kfirst_ready s tlist n 0"
  note a = kfirst_ready_spec [of 0 s tlist n] and b = kfirst_ready_spec [of "kfind_next tlist n prev 0" s tlist n]
  show ?thesis
  proof (cases "?nxt \<ge> n")
    case True
    with a show ?thesis
      by (intro exI [of _ ?fst]) (auto simp: kschedule_def Let_def)
  next
    case False
    with b show ?thesis
      by (intro exI [of _ ?nxt]) (auto simp: kschedule_def Let_def)
  qed
qed

text \<open>
  \<open>kschedule\<close> never picks a task that cannot run, and runs the idle task only when nothing
  else can: its result is an entry of the task table, it is ready unless it is the idle task (the last
  entry), and it is the idle task only if no other task is ready.
\<close>

theorem kschedule_picks_ready:
  assumes "distinct tlist" "length tlist = n + 1"
  shows "\<exists>i\<le>n. kschedule n tlist prev s = tlist ! i \<and>
    (i < n \<and> t_state (tasks s (tlist ! i)) = SCHED_READY \<or>
     i = n \<and> (\<forall>j<n. t_state (tasks s (tlist ! j)) \<noteq> SCHED_READY))"
  using assms by (rule kschedule_spec)

text \<open>
  C3. Round robin: a task that is ready whenever the scheduler is called runs again after at
  most as many calls as there are entries in the table, whatever the other tasks do.
\<close>

theorem kschedule_fair:
  assumes "distinct tlist" "length tlist = n + 1" "i \<le> n" "j < n"
    and "cur 0 = tlist ! i" "\<And>k. cur (Suc k) = kschedule n tlist (cur k) (st k)"
    and "\<And>k. t_state (tasks (st k) (tlist ! j)) = SCHED_READY"
  shows "\<exists>k. 0 < k \<and> k \<le> n + 1 \<and> cur k = tlist ! j"
proof -
  define run where "run = rec_nat i (\<lambda>k r. kpick (st k) tlist n r)"
  have run: "run 0 = i" "run (Suc k) = kpick (st k) tlist n (run k)" for k
    by (simp_all add: run_def)
  have le: "run k \<le> n" for k
    using assms(3) ksched.pick_le by (cases k) (simp_all add: run)
  have cur: "cur k = tlist ! run k" for k
    by (induction k) (simp_all add: assms(5,6) run kschedule_kpick [OF assms(1,2) le])
  obtain k where "0 < k" "k \<le> cyc_dist n (run 0) j" "run k = j"
    using ksched.picked_within [where tlist = tlist and run = run and st = st, OF le run(2) assms(4,7)] by (elim exE conjE)
  moreover have "cyc_dist n (run 0) j \<le> n + 1"
    using assms(3,4) by (auto simp: run cyc_dist_def)
  ultimately show ?thesis
    using cur by (intro exI [of _ k]) simp
qed

section \<open>Properties of kpost\<close>

lemma wake_timeout [simp]: "t_timeout (kpost_wake events t) = t_timeout t"
  by (simp add: kpost_wake_def Let_def)

lemma expire_other:
  "t_state (kpost_rebase m t) = t_state t" "t_waitsig (kpost_rebase m t) = t_waitsig t"
  "t_context (kpost_rebase m t) = t_context t"
  "t_state (kpost_expire m t) = t_state t" "t_waitsig (kpost_expire m t) = t_waitsig t"
  "t_context (kpost_expire m t) = t_context t"
  by (simp_all add: kpost_rebase_def kpost_expire_def Let_def)

text \<open>The arithmetic of the clock's wrap, with the epochs of \<open>2^31\<close> milliseconds counted in a number.\<close>

lemma minus_half: "unat (x - 0x80000000 :: u32) = (if 2 ^ 31 \<le> unat x then unat x - 2 ^ 31 else unat x + 2 ^ 31)"
proof (cases "2 ^ 31 \<le> unat x")
  case True
  then show ?thesis
    by (simp add: unat_sub word_le_nat_alt)
next
  case False
  then show ?thesis
    by (simp add: unat_sub_if')
qed

text \<open>What the timer tick does to a running timeout, with absolute times: the clock is \<open>e * 2^31 + ms\<close>.\<close>

definition tick_timeout :: "u32 \<Rightarrow> task \<Rightarrow> task" where
  "tick_timeout m t = (if m <s 0 then kpost_rebase (m - 0x80000000) t else kpost_expire m t)"

lemma tick_timeout_spec:
  assumes ms: "unat ms < 2 ^ 31" and t: "t_timeout t \<noteq> 0"
  defines "wraps \<equiv> unat ms + 1 = 2 ^ 31"
  defines "d \<equiv> unat (t_timeout t)"
  shows "d < unat ms + 1 \<Longrightarrow>
      tick_timeout (ms + 1) t = t\<lparr>t_pending := t_pending t OR SWINT_TIMEOUT, t_timeout := 0\<rparr>"
    and "unat ms + 1 \<le> d \<Longrightarrow> \<exists>d'. tick_timeout (ms + 1) t = t\<lparr>t_timeout := d'\<rparr> \<and> d' \<noteq> 0 \<and>
      unat d' + (if wraps then 2 ^ 31 else 0) = (if wraps \<and> d = 2 ^ 31 then d + 1 else d)"
proof -
  have m: "unat (ms + 1) = unat ms + 1"
    using ms by (simp add: unat_plus_if')
  have neg: "ms + 1 <s 0 \<longleftrightarrow> wraps"
    using ms unfolding sless_zero_u32 m wraps_def by auto
  have z: "wraps \<Longrightarrow> ms + 1 - 0x80000000 = 0"
    using m minus_half [of "ms + 1"] by (simp add: wraps_def unat_eq_zero)
  have rebase: "t_timeout t - 0x80000000 = 0 \<longleftrightarrow> d = 2 ^ 31"
    by (auto simp: word_unat_eq_iff minus_half d_def)
  show "tick_timeout (ms + 1) t = t\<lparr>t_pending := t_pending t OR SWINT_TIMEOUT, t_timeout := 0\<rparr>"
    if "d < unat ms + 1"
  proof (cases wraps)
    case True
    then have "t_timeout t - 0x80000000 <s 0" "t_timeout t - 0x80000000 \<noteq> 0"
      using that rebase by (simp_all add: sless_zero_u32 minus_half wraps_def d_def)
    with True z neg t show ?thesis
      by (simp add: tick_timeout_def kpost_rebase_def)
  next
    case False
    with that neg t m show ?thesis
      by (simp add: tick_timeout_def kpost_expire_def word_less_nat_alt d_def)
  qed
  show "\<exists>d'. tick_timeout (ms + 1) t = t\<lparr>t_timeout := d'\<rparr> \<and> d' \<noteq> 0 \<and>
      unat d' + (if wraps then 2 ^ 31 else 0) = (if wraps \<and> d = 2 ^ 31 then d + 1 else d)"
    if "unat ms + 1 \<le> d"
  proof (cases wraps)
    case True
    let ?r = "t_timeout t - 0x80000000"
    let ?d = "if ?r = 0 then ?r + 1 else ?r"
    have r: "unat ?r = d - 2 ^ 31"
      using that True by (simp add: minus_half d_def wraps_def)
    have "d < 2 ^ 32"
      using unat_u32_less [of "t_timeout t"] by (simp add: d_def)
    then have "\<not> ?d <s 0" "?d \<noteq> 0" "unat ?d = (if d = 2 ^ 31 then 1 else d - 2 ^ 31)"
      using r rebase by (auto simp: sless_zero_u32)
    with True z neg t that show ?thesis
      by (intro exI [of _ ?d]) (simp add: tick_timeout_def kpost_rebase_def Let_def wraps_def)
  next
    case False
    with that neg t m show ?thesis
      by (intro exI [of _ "t_timeout t"]) (simp add: tick_timeout_def kpost_expire_def word_less_nat_alt d_def)
  qed
qed

text \<open>
  C5. Timeouts across the wrap of the millisecond clock. Absolute time is counted in epochs of
  \<open>2^31\<close> ms: the clock \<open>ms\<close> and a stored timeout mean \<open>e * 2^31 + ms\<close> and \<open>e * 2^31 + timeout\<close>.
  A timer tick advances the absolute time by one, into the next epoch when \<open>ms\<close> would become negative;
  a task's timeout expires (is cleared and \<open>SWINT_TIMEOUT\<close> becomes pending) exactly if its deadline
  is before the new time, and otherwise keeps its deadline. The one exception is a deadline
  exactly at the start of the new epoch, which moves one millisecond later, since 0 means no timeout.
\<close>

theorem kpost_deadlines:
  assumes "distinct tlist" "length tlist = LAST_TASK s + 1" "p \<in> set tlist"
    and "unat ms < 2 ^ 31" "events AND INT_TIMER \<noteq> 0" "t_timeout (tasks s p) \<noteq> 0"
    and "now = e * 2 ^ 31 + unat ms" "deadline = e * 2 ^ 31 + unat (t_timeout (tasks s p))"
  shows "\<exists>e' ms' t'. kpost tlist events ms s = (ms', snd (kpost tlist events ms s)) \<and>
    e' * 2 ^ 31 + unat ms' = now + 1 \<and> unat ms' < 2 ^ 31 \<and>
    tasks (snd (kpost tlist events ms s)) p = kpost_wake events t' \<and>
    (if deadline < now + 1
     then t' = (tasks s p)\<lparr>t_pending := t_pending (tasks s p) OR SWINT_TIMEOUT, t_timeout := 0\<rparr>
     else t' = (tasks s p)\<lparr>t_timeout := t_timeout t'\<rparr> \<and> t_timeout t' \<noteq> 0 \<and>
       e' * 2 ^ 31 + unat (t_timeout t') = (if deadline = (e + 1) * 2 ^ 31 \<and> e' = e + 1 then deadline + 1 else deadline))"
proof -
  let ?t = "tasks s p"
  define wraps where "wraps = (unat ms + 1 = 2 ^ 31)"
  define ms' where "ms' = (if wraps then 0 else ms + 1)"
  define e' where "e' = (if wraps then e + 1 else e)"
  have m: "unat (ms + 1) = unat ms + 1"
    using assms(4) by (simp add: unat_plus_if')
  have neg: "ms + 1 <s 0 \<longleftrightarrow> wraps"
    using assms(4) unfolding sless_zero_u32 m wraps_def by auto
  have "wraps \<Longrightarrow> ms + 1 - 0x80000000 = 0"
    using m minus_half [of "ms + 1"] by (simp add: wraps_def unat_eq_zero)
  then have res: "fst (kpost tlist events ms s) = ms'"
    using assms(5) neg by (simp add: kpost_def Let_def ms'_def)
  have time: "e' * 2 ^ 31 + unat ms' = now + 1" "unat ms' < 2 ^ 31"
    using assms(4,7) m by (auto simp: e'_def ms'_def wraps_def)
  have task: "tasks (snd (kpost tlist events ms s)) p = kpost_wake events (tick_timeout (ms + 1) ?t)"
    using assms(3,5) by (simp add: tasks_kpost [OF assms(1,2)] tick_timeout_def)
  note spec = tick_timeout_spec [OF assms(4,6), folded wraps_def]
  show ?thesis
  proof (cases "deadline < now + 1")
    case True
    then have "tick_timeout (ms + 1) ?t = ?t\<lparr>t_pending := t_pending ?t OR SWINT_TIMEOUT, t_timeout := 0\<rparr>"
      using assms(7,8) by (intro spec(1)) simp
    with True res time task show ?thesis
      by (intro exI [of _ e'] exI [of _ ms']) (auto simp: prod_eq_iff)
  next
    case False
    then obtain d' where "tick_timeout (ms + 1) ?t = ?t\<lparr>t_timeout := d'\<rparr>" "d' \<noteq> 0"
      "unat d' + (if wraps then 2 ^ 31 else 0) =
        (if wraps \<and> unat (t_timeout ?t) = 2 ^ 31 then unat (t_timeout ?t) + 1 else unat (t_timeout ?t))"
      using spec(2) assms(7,8) by auto
    with False res time task assms(8) show ?thesis
      by (intro exI [of _ e'] exI [of _ ms'] exI [of _ "?t\<lparr>t_timeout := d'\<rparr>"])
        (auto simp: prod_eq_iff e'_def split: if_splits)
  qed
qed


section \<open>Witnesses\<close>

text \<open>Three tasks; the second sleeps on the button, with a timeout at 5 ms.\<close>

definition demo_tl :: "addr list" where
  "demo_tl = [0x100, 0x200, 0x300]"

definition demo_sleep :: kst where
  "demo_sleep = upd_task 0x200 (\<lambda>t. t\<lparr>t_state := SCHED_WAITING, t_waitsig := INT_BUTTON OR SWINT_TIMEOUT,
    t_timeout := 5\<rparr>) (blank_kst\<lparr>LAST_TASK := 2\<rparr>)"

lemma demo_tl: "distinct demo_tl" "length demo_tl = 2 + 1" "demo_tl ! 0 = 0x100" "demo_tl ! Suc 0 = 0x200"
  "demo_tl ! 2 = 0x300" "0x200 \<in> set demo_tl"
  by (simp_all add: demo_tl_def)

lemma demo_sleep: "LAST_TASK demo_sleep = 2" "t_timeout (tasks demo_sleep 0x200) = 5"
  "t_state (tasks demo_sleep 0x200) = SCHED_WAITING" "t_state (tasks demo_sleep 0x100) = SCHED_READY"
  by (simp_all add: demo_sleep_def blank_defs)

theorem kschedule_picks_ready_witness:
  "kschedule 2 demo_tl 0x100 demo_sleep = 0x100 \<and> 0x100 \<in> set demo_tl"
proof -
  obtain i where "i \<le> 2" "kschedule 2 demo_tl 0x100 demo_sleep = demo_tl ! i"
    using kschedule_picks_ready [OF demo_tl(1,2)] by blast
  moreover have "kschedule 2 demo_tl 0x100 demo_sleep = 0x100"
    by code_simp
  ultimately show ?thesis
    by (metis demo_tl(2,3) nth_mem zero_less_Suc Suc_eq_plus1)
qed

theorem kschedule_fair_witness:
  "\<exists>k. 0 < k \<and> k \<le> 3 \<and> rec_nat 0x300 (\<lambda>k c. kschedule 2 demo_tl c blank_kst) k = 0x200"
  using kschedule_fair [OF demo_tl(1,2), where i = 2 and j = 1 and st = "\<lambda>_. blank_kst"
      and cur = "rec_nat 0x300 (\<lambda>k c. kschedule 2 demo_tl c blank_kst)"]
  by (simp add: demo_tl)

theorem kpost_deadlines_witness:
  "t_timeout (tasks (snd (kpost demo_tl INT_TIMER 5 demo_sleep)) 0x200) = 0 \<and>
    t_timeout (tasks (snd (kpost demo_tl INT_TIMER 0x7fffffff demo_sleep)) 0x200) = 0"
proof -
  have len: "length demo_tl = LAST_TASK demo_sleep + 1"
    by (simp add: demo_tl demo_sleep)
  have "t_timeout (tasks (snd (kpost demo_tl INT_TIMER ms demo_sleep)) 0x200) = 0"
    if "5 \<le> unat ms" "unat ms < 2 ^ 31" for ms
    using kpost_deadlines [OF demo_tl(1) len demo_tl(6) that(2), of INT_TIMER "unat ms" 0 5] that
    by (auto simp: demo_sleep)
  then show ?thesis
    by simp
qed


end
