(* ===== verification/Txfns.thy ===== *)
theory Txfns
  imports Setup
begin

text \<open>
  The polled UART output of sw/dev/txfns.c, which the kernel uses before its transmit pipe works,
  and \<open>pipe_panic()\<close> of sw/zipos/pipesetup.c. The routines work on the history of the run; the
  polling loop may never end, so they return an option. \<open>polls_end\<close> is the hypothesis under which it does:
  however the run went so far, the transmitter reports ready after some number of polls.
\<close>

section \<open>The routines\<close>

partial_function (option) uart_wait :: "env \<Rightarrow> hist \<Rightarrow> hist option" where
  "uart_wait env h = (let (v, h1) = rd env IO_PIC h in if v AND INT_UARTTX = 0 then uart_wait env h1 else Some h1)"

definition txchr :: "env \<Rightarrow> u8 \<Rightarrow> hist \<Rightarrow> hist option" where
  "txchr env val h =
    map_option (\<lambda>h1. wr IO_PIC INT_UARTTX (wr IO_UART (ucast val AND 0x0ff) h1))
      (uart_wait env (wr IO_PIC INT_UARTTX h))"

text \<open>A string is the list of its bytes; the loop stops at a NUL or at the end of the list.\<close>

fun txstr :: "env \<Rightarrow> u8 list \<Rightarrow> hist \<Rightarrow> hist option" where
  "txstr env [] h = Some h"
| "txstr env (c # str) h = (if c \<noteq> 0 then do { h1 \<leftarrow> txchr env c h; txstr env str h1 } else Some h)"

text \<open>A string literal.\<close>

definition cstring :: "string \<Rightarrow> u8 list" where
  "cstring s = map of_char s"

text \<open>The digit that both number printers compute; the shift of the signed \<open>val\<close> keeps its sign.\<close>

definition hexch :: "u32 \<Rightarrow> nat \<Rightarrow> u8" where
  "hexch val i =
    (let ch = (signed_drop_bit i val AND 0x0f) + 48
     in ucast (if 57 <s ch then ch - 48 + 65 - 10 else ch))"

definition txdigits :: "env \<Rightarrow> u32 \<Rightarrow> hist \<Rightarrow> hist option" where
  "txdigits env val h =
    fold (\<lambda>i r. Option.bind r (txchr env (hexch val i))) [28, 24, 20, 16, 12, 8, 4, 0] (Some h)"

definition txval :: "env \<Rightarrow> u32 \<Rightarrow> hist \<Rightarrow> hist option" where
  "txval env val h = do { h1 \<leftarrow> txstr env (cstring [CHR 0x0D, CHR 0x0A, CHR ''0'', CHR ''x'']) h; txdigits env val h1 }"

definition txhex :: "env \<Rightarrow> u32 \<Rightarrow> hist \<Rightarrow> hist option" where
  "txhex env val h = do { h1 \<leftarrow> txdigits env val h; txstr env (cstring [CHR 0x0D, CHR 0x0A]) h1 }"

text \<open>The last thing a corrupted pipe says. \<open>kpanic()\<close> does not return.\<close>

definition pipe_panic :: "env \<Rightarrow> addr \<Rightarrow> kst \<Rightarrow> unit res option" where
  "pipe_panic env pipe s =
    do {
      let p = pipes s pipe;
      h1 \<leftarrow> txstr env (cstring (''SYSPIPE PANIC!'' @ [CHR 0x0D, CHR 0x0A])) (wr IO_SPIO 0x0fa (io s));
      h2 \<leftarrow> txstr env (cstring ''ADDR: '') h1;
      h3 \<leftarrow> txhex env pipe h2;
      h4 \<leftarrow> txstr env (cstring ''MASK: '') h3;
      h5 \<leftarrow> txhex env (m_mask p) h4;
      h6 \<leftarrow> txstr env (cstring ''HEAD: '') h5;
      h7 \<leftarrow> txhex env (m_head p) h6;
      h8 \<leftarrow> txstr env (cstring ''TAIL: '') h7;
      h9 \<leftarrow> txhex env (m_tail p) h8;
      Some (Inl (KPANIC, s\<lparr>io := h9\<rparr>))
    }"

section \<open>What reaches the transmitter\<close>

lemma uart_wait_written: "uart_wait env h = Some h1 \<Longrightarrow> written r h1 = written r h"
proof (induction env h h1 rule: uart_wait.raw_induct [rotated, consumes 1, case_names step])
  case (step loop env h h1)
  then show ?case
    by (auto simp: Let_def rd_def split: if_splits)
qed

lemma txchr_written:
  "txchr env c h = Some h1 \<Longrightarrow> written IO_UART h1 = written IO_UART h @ [ucast c]"
  by (auto simp: txchr_def dest: uart_wait_written [where r = IO_UART])

lemma txstr_written:
  "txstr env str h = Some h1 \<Longrightarrow>
    written IO_UART h1 = written IO_UART h @ map ucast (takeWhile (\<lambda>c. c \<noteq> 0) str)"
  by (induction env str h rule: txstr.induct)
    (auto simp: txchr_written bind_eq_Some_conv split: if_splits)

text \<open>The loop over the digits as the sending of a string.\<close>

lemma txchr_txstr: "c \<noteq> 0 \<Longrightarrow> txstr env (c # str) h = Option.bind (txchr env c h) (txstr env str)"
  by simp

lemma bind_fold_txchr:
  "0 \<notin> set cs \<Longrightarrow> fold (\<lambda>c r. Option.bind r (txchr env c)) cs r = Option.bind r (txstr env cs)"
proof (induction cs arbitrary: r)
  case Nil
  then show ?case by (cases r) simp_all
next
  case (Cons c cs)
  then show ?case by (cases r) simp_all
qed

definition hexdigits :: "u32 \<Rightarrow> u8 list" where
  "hexdigits val = map (hexch val) [28, 24, 20, 16, 12, 8, 4, 0]"

lemma nibble:
  "i + 4 \<le> 32 \<Longrightarrow> unat (signed_drop_bit i val AND 0x0f :: u32) = unat val div 2 ^ i mod 16"
proof -
  assume i: "i + 4 \<le> 32"
  have m: "(0x0f :: u32) = mask 4"
    by (simp add: mask_eq_exp_minus_1)
  have "signed_drop_bit i val AND mask 4 = drop_bit i val AND mask 4"
    using i by (intro bit_eqI) (auto simp: bit_simps)
  then show ?thesis
    by (simp only: m unat_and_mask_eq_mod unat_drop_bit_eq) (simp add: drop_bit_eq_div)
qed

lemma unat_hexch:
  assumes "i + 4 \<le> 32"
  shows "unat (hexch val i) = (let d = unat val div 2 ^ i mod 16 in if d < 10 then 48 + d else 55 + d)"
proof -
  define d where "d = signed_drop_bit i val AND (0x0f :: u32)"
  have d: "unat d = unat val div 2 ^ i mod 16" and d16: "unat d < 16"
    using nibble [OF assms] by (simp_all add: d_def)
  have ch: "unat (d + 48) = unat d + 48"
    using d16 by (simp add: unat_plus_if')
  have cmp: "57 <s d + 48 \<longleftrightarrow> 10 \<le> unat d"
    using d16 by (subst sless_u32_small) (simp_all add: ch, linarith)
  have big: "unat (d + 48 - 48 + 65 - 10) = unat d + 55"
    using d16 by (simp add: unat_plus_if')
  show ?thesis
    using d16 big ch cmp unat_to_u8 unfolding hexch_def Let_def d_def [symmetric] d [symmetric] by auto
qed

lemma hexdigits_nonzero: "0 \<notin> set (hexdigits val)"
proof -
  have "i + 4 \<le> 32 \<Longrightarrow> hexch val i \<noteq> 0" for i
    using unat_hexch [of i val] by (auto simp: Let_def split: if_splits)
  then show ?thesis
    by (auto simp: hexdigits_def)
qed

lemma txdigits_txstr: "txdigits env val h = txstr env (hexdigits val) h"
  using bind_fold_txchr [OF hexdigits_nonzero, of env val "Some h"]
  by (simp add: txdigits_def hexdigits_def)

section \<open>When the polling ends\<close>

fun polls :: "env \<Rightarrow> nat \<Rightarrow> hist \<Rightarrow> hist" where
  "polls env 0 h = h"
| "polls env (Suc n) h = polls env n (snd (rd env IO_PIC h))"

definition polls_end :: "env \<Rightarrow> bool" where
  "polls_end env \<longleftrightarrow> (\<forall>h. \<exists>n. env (polls env n h) (QRd IO_PIC) AND INT_UARTTX \<noteq> 0)"

lemma uart_wait_polls:
  "env (polls env n h) (QRd IO_PIC) AND INT_UARTTX \<noteq> 0 \<Longrightarrow> uart_wait env h \<noteq> None"
proof (induction n arbitrary: h)
  case 0
  then show ?case
    by (subst uart_wait.simps) (simp add: rd_def Let_def)
next
  case (Suc n)
  then have "uart_wait env (snd (rd env IO_PIC h)) \<noteq> None"
    by simp
  then show ?case
    by (subst uart_wait.simps) (auto simp: rd_def Let_def)
qed

lemma txchr_returns: "polls_end env \<Longrightarrow> txchr env c h \<noteq> None"
  using uart_wait_polls unfolding polls_end_def txchr_def by fastforce

lemma txstr_returns: "polls_end env \<Longrightarrow> txstr env str h \<noteq> None"
proof (induction env str h rule: txstr.induct)
  case (2 env c str h)
  obtain h1 where "txchr env c h = Some h1"
    using txchr_returns [OF 2(2)] by blast
  with 2 show ?case by simp
qed simp

section \<open>Properties\<close>

text \<open>
  \<open>txstr\<close> sends its string: if the transmitter always becomes ready after finitely many polls,
  the routine returns, and it has written to the UART the bytes of the string up to its NUL, in
  order, each once, and nothing else.
\<close>

theorem txstr_sends:
  assumes "polls_end env"
  shows "\<exists>h1. txstr env str h = Some h1 \<and>
    written IO_UART h1 = written IO_UART h @ map ucast (takeWhile (\<lambda>c. c \<noteq> 0) str)"
  using txstr_returns [OF assms] txstr_written by fast

text \<open>The number that a list of hexadecimal digits stands for.\<close>

definition hexval :: "u32 \<Rightarrow> nat" where
  "hexval d = (if unat d < 58 then unat d - 48 else unat d - 55)"

definition unhex :: "u32 list \<Rightarrow> nat" where
  "unhex ds = foldl (\<lambda>a d. 16 * a + hexval d) 0 ds"

lemma hex_step: "16 * (v div 2 ^ (i + 4)) + v div 2 ^ i mod 16 = (v :: nat) div 2 ^ i"
proof -
  have "v div 2 ^ (i + 4) = v div 2 ^ i div 16"
    by (simp add: power_add div_mult2_eq)
  then show ?thesis
    by simp
qed

lemma unhex_hexdigits: "unhex (map ucast (hexdigits val)) = unat val"
proof -
  have digit: "hexval (ucast (hexch val i)) = unat val div 2 ^ i mod 16" if "i + 4 \<le> 32" for i
    using unat_hexch [OF that, of val] by (simp add: Let_def hexval_def split: if_splits)
  have top: "unat val div 2 ^ 28 mod 16 = unat val div 2 ^ 28"
    using unat_u32_less [of val] by simp
  note s = hex_step [of "unat val" 24, unfolded numeral_plus_numeral add_num_simps]
    hex_step [of "unat val" 20, unfolded numeral_plus_numeral add_num_simps]
    hex_step [of "unat val" 16, unfolded numeral_plus_numeral add_num_simps]
    hex_step [of "unat val" 12, unfolded numeral_plus_numeral add_num_simps]
    hex_step [of "unat val" 8, unfolded numeral_plus_numeral add_num_simps]
    hex_step [of "unat val" 4, unfolded numeral_plus_numeral add_num_simps]
    hex_step [of "unat val" 0, unfolded add_0]
  have "unhex (map ucast (hexdigits val)) =
    foldl (\<lambda>a i. 16 * a + unat val div 2 ^ i mod 16) 0 [28, 24, 20, 16, 12, 8, 4, 0]"
    unfolding unhex_def hexdigits_def map_map foldl_map comp_apply
    by (rule foldl_cong [OF refl refl]) (simp del: One_nat_def, elim disjE; simp add: digit)
  also have "\<dots> = unat val div 2 ^ 0"
    unfolding foldl_Cons foldl_Nil mult_0_right add_0 top s ..
  finally show ?thesis by simp
qed

text \<open>
  \<open>txhex\<close> prints a number so that it can be read back: what it sends is eight
  hexadecimal digits, CR and LF, and the digits stand for the number.
\<close>

theorem txhex_roundtrip:
  assumes "polls_end env"
  shows "\<exists>h1 ds. txhex env val h = Some h1 \<and> written IO_UART h1 = written IO_UART h @ ds @ [13, 10] \<and>
    length ds = 8 \<and> unhex ds = unat val"
proof -
  obtain h1 where h1: "txstr env (hexdigits val) h = Some h1"
    using txstr_returns [OF assms] by blast
  obtain h2 where h2: "txstr env (cstring [CHR 0x0D, CHR 0x0A]) h1 = Some h2"
    using txstr_returns [OF assms] by blast
  have "takeWhile (\<lambda>c. c \<noteq> 0) (hexdigits val) = hexdigits val"
    unfolding takeWhile_eq_all_conv using hexdigits_nonzero [of val] by metis
  then have "written IO_UART h2 = written IO_UART h @ map ucast (hexdigits val) @ [13, 10]"
    using txstr_written [OF h1] txstr_written [OF h2] by (simp add: cstring_def del: takeWhile_eq_all_conv)
  then show ?thesis
    using h1 h2 by (intro exI [of _ h2] exI [of _ "map ucast (hexdigits val)"])
      (simp add: txhex_def txdigits_txstr unhex_hexdigits, simp add: hexdigits_def)
qed

section \<open>Witnesses\<close>

text \<open>A transmitter that is ready at every second poll of the run.\<close>

definition demo_env :: env where
  "demo_env h q = (if even (length h) then 0 else INT_UARTTX)"

lemma demo_polls_end: "polls_end demo_env"
  unfolding polls_end_def
proof
  fix h
  show "\<exists>n. demo_env (polls demo_env n h) (QRd IO_PIC) AND INT_UARTTX \<noteq> 0"
    by (cases "even (length h)")
      (rule exI [of _ 1], simp add: demo_env_def rd_def Let_def, rule exI [of _ 0], simp add: demo_env_def)
qed

theorem txstr_sends_witness:
  "\<exists>h1. txstr demo_env (cstring ''HEAP: '') [] = Some h1 \<and> written IO_UART h1 = [72, 69, 65, 80, 58, 32]"
  using txstr_sends [OF demo_polls_end, of "cstring ''HEAP: ''" "[]"] by (simp add: cstring_def)

theorem txhex_roundtrip_witness:
  "\<exists>h1 ds. txhex demo_env 0x4800 [] = Some h1 \<and> written IO_UART h1 = ds @ [13, 10] \<and> unhex ds = 0x4800"
  using txhex_roundtrip [OF demo_polls_end, of "0x4800" "[]"] by auto

end
