(* ===== verification/Kernel.thy ===== *)
theory Kernel
  imports Sched Txfns
begin

text \<open>
  The kernel loop \<open>kernel_entry()\<close> of sw/zipos/kernel.c: the interrupt handling, the dispatch of
  system calls and faults, and the context switch, each a definition of its own, composed in the
  order of the code. The user code that runs between two passes (\<open>zip_rtu()\<close>) is the environment:
  \<open>kernel_handle\<close> starts from the registers and the interrupt word it leaves.

  A pass gives \<open>Inl\<close> where the code stops the processor, by \<open>kpanic()\<close> or \<open>zip_halt()\<close>; both do not return.
\<close>

section \<open>Interrupts\<close>

abbreviation (input) CONTEXT_LENGTH :: u32 where "CONTEXT_LENGTH \<equiv> 80000"
abbreviation (input) TICKS_PER_SECOND :: u32 where "TICKS_PER_SECOND \<equiv> 1000"

text \<open>The timer: count ticks, toggle the LED and post the clock event once per second, debounce.\<close>

definition kint_timer :: "env \<Rightarrow> u32 \<Rightarrow> kst \<Rightarrow> u32 \<times> kst" where
  "kint_timer env pic s =
    (if pic AND INT_TIMER \<noteq> 0
     then (let s1 = s\<lparr>ticks := ticks s + 1\<rparr>;
               (pic2, s2) =
                 (if TICKS_PER_SECOND \<le>s ticks s1
                  then (let (led, s') = io_rd env IO_SPIO (s1\<lparr>tickcount := tickcount s1 + 1, ticks := 0\<rparr>)
                        in (pic OR SWINT_CLOCK, io_wr IO_SPIO (((led AND 1) XOR 1) OR 0x010) s'))
                  else (pic, s1))
           in (pic2,
               if buttonstate s2 \<noteq> 0 then s2\<lparr>buttonstate := buttonstate s2 - 1\<rparr>
               else (let (v, s3) = io_rd env IO_SPIO s2
                     in if v AND 0x0f0 = 0 then s3\<lparr>enableset := enableset s3 OR INT_ENABLEV INT_BUTTON\<rparr> else s3)))
     else (pic, s))"

text \<open>A button: switched off until it is debounced; two particular buttons together stop the kernel.\<close>

definition kint_button :: "env \<Rightarrow> u32 \<Rightarrow> kst \<Rightarrow> (u32 \<times> kst) res" where
  "kint_button env pic s =
    (if pic AND INT_BUTTON \<noteq> 0
     then (let s1 = s\<lparr>enableset := enableset s AND NOT (INT_ENABLEV INT_BUTTON)\<rparr>;
               (v, s2) = io_rd env IO_SPIO s1
           in if v AND 0x0f0 = 0x030 then Inl (KPANIC, s2)
              else Inr (if buttonstate s2 \<noteq> 0 then pic AND NOT INT_BUTTON else pic, s2\<lparr>buttonstate := 50\<rparr>))
     else Inr (pic, s))"

text \<open>The receiver: a 7-bit character goes to the receive pipe, and back out if the transmitter is free.\<close>

definition kint_uartrx :: "env \<Rightarrow> u32 \<Rightarrow> kst \<Rightarrow> u32 \<times> kst" where
  "kint_uartrx env pic s =
    (if pic AND INT_UARTRX \<noteq> 0
     then (let (v, s1) = io_rd env IO_UART s
           in if v AND NOT 0x7f = 0
              then (let s2 = kpush_syspipe (rxpipe s1) (ucast v) s1
                    in if pic AND INT_UARTTX \<noteq> 0
                       then (pic AND NOT INT_UARTTX, io_wr IO_PIC INT_UARTTX (io_wr IO_UART v s2))
                       else (pic, s2))
              else (pic, s1))
     else (pic, s))"

text \<open>The transmitter: send the next byte of the transmit pipe, or switch the interrupt off.\<close>

definition kint_uarttx :: "u32 \<Rightarrow> kst \<Rightarrow> kst" where
  "kint_uarttx pic s =
    (if pic AND INT_UARTTX \<noteq> 0
     then (case kpop_syspipe (txpipe s) s of
        (Some ch, s1) \<Rightarrow> io_wr IO_PIC INT_UARTTX (io_wr IO_UART (ucast ch)
           (s1\<lparr>enableset := enableset s1 OR INT_ENABLEV INT_UARTTX\<rparr>))
      | (None, s1) \<Rightarrow> s1\<lparr>enableset := enableset s1 AND NOT (INT_DISABLEV INT_UARTTX)\<rparr>)
     else s)"

text \<open>The audio output, while it plays: the next sample, or off.\<close>

definition kint_audio :: "u32 \<Rightarrow> kst \<Rightarrow> kst" where
  "kint_audio pic s =
    (if audiostate s \<noteq> 0 \<and> pic AND INT_AUDIO \<noteq> 0
     then io_wr IO_PIC INT_AUDIO
       (case kpop_short_syspipe (pwmpipe s) s of
          (Some smp, s1) \<Rightarrow> io_wr IO_SPIO 0x022 (io_wr IO_PWM_AUDIO (ucast smp) s1)
        | (None, s1) \<Rightarrow> io_wr IO_SPIO 0x020
            ((io_wr IO_PWM_AUDIO 0x10000 (s1\<lparr>audiostate := 0\<rparr>))
              \<lparr>enableset := enableset s1 AND NOT (INT_ENABLEV INT_AUDIO)\<rparr>))
     else s)"

text \<open>The branch with an active interrupt; \<open>pic0\<close> is the word read from the controller.\<close>

definition kinterrupts :: "env \<Rightarrow> u32 \<Rightarrow> kst \<Rightarrow> kst res" where
  "kinterrupts env pic0 s =
    (let pic = pic0 AND 0x7fff;
         s1 = io_wr IO_PIC (INT_DISABLEV pic OR INT_CLEAR pic) (io_wr IO_SPIO 0x44 s);
         (pic1, s2) = kint_timer env pic s1
     in andthen (kint_button env pic1 s2) (\<lambda>(pic2, s3).
       let (pic3, s4) = kint_uartrx env pic2 s3;
           s5 = kint_audio pic3 (kint_uarttx pic3 s4);
           (ms, s6) = kpost (tasklist s5) pic3 (milliseconds s5) s5;
           s7 = s6\<lparr>milliseconds := ms, enableset := enableset s6 AND NOT 0x0ffff\<rparr>
       in Inr (io_wr IO_PIC (INT_ENABLE OR enableset s7) s7)))"

text \<open>The branch without: start the audio or the transmitter if their pipes have something.\<close>

definition kaudio_start :: "kst \<Rightarrow> kst" where
  "kaudio_start s =
    (if audiostate s = 0
     then (case kpop_short_syspipe (pwmpipe s) s of
        (Some smp, s1) \<Rightarrow> io_wr IO_SPIO 0x022
          ((io_wr IO_PIC INT_AUDIO (io_wr IO_PWM_AUDIO (0x310000 OR ucast smp) (s1\<lparr>audiostate := 1\<rparr>)))
            \<lparr>enableset := enableset s1 OR INT_ENABLEV INT_AUDIO\<rparr>)
      | (None, s1) \<Rightarrow> s1)
     else s)"

definition kuarttx_start :: "u32 \<Rightarrow> kst \<Rightarrow> kst" where
  "kuarttx_start pic s =
    (if pic AND INT_UARTTX \<noteq> 0
     then (case kpop_syspipe (txpipe s) s of
        (Some ch, s1) \<Rightarrow> io_wr IO_PIC INT_UARTTX (io_wr IO_UART (ucast ch)
           (s1\<lparr>enableset := enableset s1 OR INT_ENABLEV INT_UARTTX\<rparr>))
      | (None, s1) \<Rightarrow> s1\<lparr>enableset := enableset s1 AND NOT (INT_ENABLEV INT_UARTTX)\<rparr>)
     else s)"

definition kno_interrupt :: "u32 \<Rightarrow> kst \<Rightarrow> kst" where
  "kno_interrupt pic s =
    (let s1 = kuarttx_start pic (kaudio_start (io_wr IO_PIC INT_ENABLE s));
         s2 = s1\<lparr>enableset := enableset s1 AND NOT 0x0ffff\<rparr>
     in io_wr IO_PIC (INT_ENABLE OR enableset s2) s2)"

section \<open>System calls\<close>

text \<open>
  Each case works on the caller's saved registers (\<open>last_context\<close>), and says whether the
  caller gives up the processor (\<open>need_resched\<close>).
\<close>

definition ktrap_wait :: "kst \<Rightarrow> bool \<times> kst" where
  "ktrap_wait s =
    (let c = current s; t = tasks s c; ilist = ctx s c 2; timeout = ctx s c 3;
         got = ilist AND t_pending t; s1 = set_ctx c 1 got s
     in if t_pending t AND ilist \<noteq> 0
        then (False, upd_task c (\<lambda>t. t\<lparr>t_pending := t_pending t AND NOT got\<rparr>) s1)
        else (let s2 = upd_task c (\<lambda>t. t\<lparr>t_waitsig := ilist\<rparr>) s1
              in if timeout \<noteq> 0
                 then (True, (if 0 <s timeout
                    then upd_task c (\<lambda>t. t\<lparr>t_timeout := milliseconds s + timeout,
                           t_waitsig := t_waitsig t OR SWINT_TIMEOUT\<rparr>)
                    else (\<lambda>s. s)) (set_state c SCHED_WAITING s2))
                 else (False, s2)))"

text \<open>The timeout of this call is read from register 2, like the event mask.\<close>

definition ktrap_clear :: "kst \<Rightarrow> kst" where
  "ktrap_clear s =
    (let c = current s; got = ctx s c 2 AND t_pending (tasks s c); timeout = ctx s c 2;
         s1 = upd_task c (\<lambda>t. t\<lparr>t_pending := t_pending t AND NOT got\<rparr>) (set_ctx c 1 got s)
     in if timeout \<noteq> 0
        then (if timeout <s 0
              then upd_task c (\<lambda>t. t\<lparr>t_pending := t_pending t AND NOT SWINT_TIMEOUT\<rparr>) s1
              else upd_task c (\<lambda>t. t\<lparr>t_timeout := milliseconds s + timeout\<rparr>) s1)
        else s1)"

definition ktrap_post :: "kst \<Rightarrow> kst" where
  "ktrap_post s = snd (kpost (tasklist s) (ctx s (current s) 2 AND NOT 0x07fff) (milliseconds s) s)"

text \<open>A call through the function pointers of a device; through \<open>NULL\<close> it leaves the program.\<close>

definition call_rwfd :: "rwfdfun \<Rightarrow> addr \<Rightarrow> addr \<Rightarrow> addr \<Rightarrow> u32 \<Rightarrow> kst \<Rightarrow> kst res" where
  "call_rwfd f tsk dev buf ln s =
    (case f of Fn_NULL \<Rightarrow> Inl (KPANIC, s)
     | Fn_kread_syspipe \<Rightarrow> kread_syspipe tsk dev buf ln s
     | Fn_kwrite_syspipe \<Rightarrow> kwrite_syspipe tsk dev buf ln s)"

definition ktrap_rw :: "(kdevice \<Rightarrow> rwfdfun) \<Rightarrow> addr \<Rightarrow> kst \<Rightarrow> kst res" where
  "ktrap_rw sel fd s =
    (let c = current s in
     if fd = NULL \<or> fd_dev (fildes s fd) = NULL then Inr (set_ctx c 1 (- EBADF) s)
     else call_rwfd (sel (devices s (fd_dev (fildes s fd)))) c (fd_id (fildes s fd)) (ctx s c 3) (ctx s c 4) s)"

definition ktrap_read :: "kst \<Rightarrow> kst res" where
  "ktrap_read s =
    (let c = current s; n = ctx s c 2
     in ktrap_rw dev_read (if n < MAX_KFILDES then t_fd (tasks s c) (unat n) else NULL) s)"

definition ktrap_write :: "kst \<Rightarrow> kst res" where
  "ktrap_write s =
    (let c = current s; n = ctx s c 2
     in if n < MAX_KFILDES then ktrap_rw dev_write (t_fd (tasks s c) (unat n)) s else Inl (KPANIC, s))"

definition kdispatch :: "kst \<Rightarrow> (bool \<times> kst) res" where
  "kdispatch s =
    (let c = current s; trap = ctx s c 1; stay = (\<lambda>s. Inr (False, s))
     in if trap = TRAPID_WAIT then Inr (ktrap_wait s)
        else if trap = TRAPID_CLEAR then stay (ktrap_clear s)
        else if trap = TRAPID_POST then stay (ktrap_post s)
        else if trap = TRAPID_YIELD then Inr (True, s)
        else if trap = TRAPID_READ then andthen (ktrap_read s) stay
        else if trap = TRAPID_WRITE then andthen (ktrap_write s) stay
        else if trap = TRAPID_TIME then stay (set_ctx c 1 (tickcount s) s)
        else if trap = TRAPID_MALLOC then (let (p, s1) = sys_malloc (ctx s c 2) s in stay (set_ctx c 1 p s1))
        else if trap = TRAPID_FREE then stay s
        else if trap = TRAPID_EXIT then Inl (KPANIC, set_state c SCHED_EXIT s)
        else Inl (KPANIC, set_state c SCHED_ERR s))"

text \<open>
  After the interrupts: a system call, a fault, or neither. The result says whether to reschedule
  and whether the registers have been saved.
\<close>

definition kuser_state :: "env \<Rightarrow> kst \<Rightarrow> ((bool \<times> bool) \<times> kst) res" where
  "kuser_state env s =
    (let c = current s; zcc = uregs s 14
     in if zcc AND CC_TRAPBIT \<noteq> 0
        then andthen (kdispatch (set_ctx c 14 (zcc AND NOT CC_TRAPBIT) (save_context c s)))
          (\<lambda>(resched, s1). Inr ((resched, True), restore_context c s1))
        else if zcc AND (CC_BUSERR OR CC_DIVERR OR CC_FPUERR OR CC_ILL) \<noteq> 0
        then (let (v, s1) = io_rd env IO_BUSERR (set_state c SCHED_ERR s)
              in Inl (KPANIC, save_context c (upd_task c (\<lambda>t. t\<lparr>t_errno := v\<rparr>) s1)))
        else Inr ((False, False), s))"

section \<open>The switch\<close>

definition kswitch :: "(bool \<times> bool) \<times> kst \<Rightarrow> kst" where
  "kswitch = (\<lambda>((resched, saved), s).
    let c = current s;
        nxt = (if resched \<or> t_state (tasks s c) \<noteq> SCHED_READY \<or> c = tasklist s ! LAST_TASK s
               then kschedule (LAST_TASK s) (tasklist s) c s else c)
    in if nxt \<noteq> c
       then restore_context nxt ((if saved then s else save_context c s)\<lparr>current := nxt\<rparr>)
       else s\<lparr>current := nxt\<rparr>)"

section \<open>The loop\<close>

definition kernel_start :: "env \<Rightarrow> kst \<Rightarrow> kst option" where
  "kernel_start env s0 =
    do {
      s1 \<leftarrow> ksetup (s0\<lparr>nheartbeats := 0, tickcount := 0, milliseconds := 0, ticks := 0,
        audiostate := 0, buttonstate := 0\<rparr>);
      let c = tasklist s1 ! 0;
      let s2 = (restore_context c s1)\<lparr>current := c,
        enableset := INT_ENABLEV INT_BUTTON OR INT_ENABLEV INT_TIMER\<rparr>;
      let s3 = io_wr IO_PIC (INT_ENABLE OR enableset s2 OR 0x07fff) s2;
      h1 \<leftarrow> txstr env (cstring ''HEAP: '') (io s3);
      h2 \<leftarrow> txhex env (heap s3) h1;
      Some (s3\<lparr>io := h2\<rparr>)
    }"

definition kernel_resume :: "kst \<Rightarrow> kst" where
  "kernel_resume s = io_wr IO_WATCHDOG (CONTEXT_LENGTH * 2) (s\<lparr>nheartbeats := nheartbeats s + 1\<rparr>)"

definition kernel_handle :: "env \<Rightarrow> kst \<Rightarrow> kst res" where
  "kernel_handle env s =
    (let (pic, s1) = io_rd env IO_PIC s
     in andthen (if pic AND 0x8000 \<noteq> 0 then kinterrupts env pic s1 else Inr (kno_interrupt pic s1))
       (\<lambda>s2. andthen (kuser_state env (io_wr IO_SPIO 0x40 s2)) (\<lambda>r. Inr (kswitch r))))"

end
