(* ===== verification/KernelInv.thy ===== *)
theory KernelInv
  imports Kernel
begin

text \<open>
  The system as a transition system: user code between two passes of the kernel loop (its own
  registers and memory, its device accesses, and the user halves of read and write, step by step),
  and the passes of the kernel. The invariant says what every reachable state has in common; a
  general lemma on invariants is the locale \<open>invariant_system\<close>.
\<close>

section \<open>Steps and invariants\<close>

locale invariant_system =
  fixes init :: "'s \<Rightarrow> bool" and step :: "'s \<Rightarrow> 's \<Rightarrow> bool" and inv :: "'s \<Rightarrow> bool"
  assumes start: "init s \<Longrightarrow> inv s"
    and keep: "inv s \<Longrightarrow> step s s' \<Longrightarrow> inv s'"
begin

lemma reachable_inv: "init s \<Longrightarrow> step\<^sup>*\<^sup>* s s' \<Longrightarrow> inv s'"
  by (erule rtranclp_induct [where P = inv]) (blast intro: start keep)+

lemma always: "init s \<Longrightarrow> step\<^sup>*\<^sup>* s s' \<Longrightarrow> step s' s'' \<Longrightarrow> inv s' \<and> inv s''"
  by (blast intro: reachable_inv keep)

end

inductive sys_step :: "env \<Rightarrow> kst \<Rightarrow> kst \<Rightarrow> bool" for env :: env where
  user_code: "sys_step env s (s\<lparr>uregs := r, mem := m, io := h\<rparr>)"
| user_read: "uread_step p (pc, l, s) = (pc', l', s') \<Longrightarrow> sys_step env s s'"
| user_write: "uwrite_step p (pc, l, s) = (pc', l', s') \<Longrightarrow> unat (u_nleft l) < 2 ^ 31 \<Longrightarrow> sys_step env s s'"
| kernel_pass: "kernel_handle env s = Inr s1 \<Longrightarrow> sys_step env s (kernel_resume s1)"

inductive_cases sys_stepE: "sys_step env s s'"

definition sys_init :: "env \<Rightarrow> kst \<Rightarrow> bool" where
  "sys_init env s \<longleftrightarrow> (\<exists>s0 s1. kernel_start env s0 = Some s1 \<and> s = kernel_resume s1)"

definition table_ok :: "kst \<Rightarrow> bool" where
  "table_ok s \<longleftrightarrow> distinct (tasklist s) \<and> length (tasklist s) = LAST_TASK s + 1"

definition kpipes :: "kst \<Rightarrow> addr list" where
  "kpipes s = [rxpipe s, txpipe s, keypipe s, lcdpipe s, pwmpipe s, cmdpipe s]"

definition kernel_inv :: "kst \<Rightarrow> bool" where
  "kernel_inv s \<longleftrightarrow> table_ok s \<and> current s \<in> set (tasklist s) \<and>
    (t_state (tasks s (current s)) = SCHED_READY \<or> current s = tasklist s ! LAST_TASK s) \<and>
    unat (milliseconds s) < 2 ^ 31 \<and> list_all (\<lambda>p. pipe_wf (pipes s p)) (kpipes s)"

section \<open>What the operations keep\<close>

text \<open>The task table, the running task and the clock stay, and well-formed pipes stay well-formed.\<close>

definition keeps :: "kst \<Rightarrow> kst \<Rightarrow> bool" where
  "keeps s s' \<longleftrightarrow> tasklist s' = tasklist s \<and> LAST_TASK s' = LAST_TASK s \<and> current s' = current s \<and>
    milliseconds s' = milliseconds s \<and> kpipes s' = kpipes s \<and>
    (\<forall>q. pipe_wf (pipes s q) \<longrightarrow> pipe_wf (pipes s' q))"

lemma keeps_refl [simp]: "keeps s s"
  by (simp add: keeps_def)

lemma keeps_trans: "keeps s s1 \<Longrightarrow> keeps s1 s2 \<Longrightarrow> keeps s s2"
  by (simp add: keeps_def)

text \<open>Updates that do not matter.\<close>

lemma keeps_updates [simp]:
  "keeps s (tasks_update t s1) = keeps s s1" "keeps s (io_update h s1) = keeps s s1"
  "keeps s (uregs_update r s1) = keeps s s1" "keeps s (mem_update m s1) = keeps s s1"
  "keeps s (enableset_update e s1) = keeps s s1" "keeps s (audiostate_update a s1) = keeps s s1"
  "keeps s (buttonstate_update b s1) = keeps s s1" "keeps s (ticks_update n s1) = keeps s s1"
  "keeps s (tickcount_update n s1) = keeps s s1" "keeps s (nheartbeats_update n s1) = keeps s s1"
  "keeps s (heap_update n s1) = keeps s s1"
  by (simp_all add: keeps_def kpipes_def)

text \<open>The same before an operation.\<close>

lemma keeps_before [simp]:
  "keeps (tasks_update t s) s1 = keeps s s1" "keeps (io_update h s) s1 = keeps s s1"
  "keeps (uregs_update r s) s1 = keeps s s1" "keeps (ticks_update n s) s1 = keeps s s1"
  by (simp_all add: keeps_def kpipes_def)

lemma keeps_pipe: "(\<And>q. pipe_wf q \<Longrightarrow> pipe_wf (f q)) \<Longrightarrow> keeps s (upd_pipe p f s)"
  by (simp add: keeps_def kpipes_def)

lemma keeps_kpush: "keeps s (kpush_syspipe p v s)"
  by (subst kpush_frame) (simp add: keeps_def kpipes_def ring_push_wf)

lemma keeps_kpop: "keeps s (snd (kpop_syspipe p s))"
  by (subst kpop_frame) (simp add: keeps_def kpipes_def ring_drop_wf)

lemma keeps_kpop_short: "keeps s (snd (kpop_short_syspipe p s))"
  by (subst kpop_short_frame) (simp add: keeps_def kpipes_def ring_drop_wf)

lemma keeps_kpost: "keeps s (snd (kpost tlist ev ms s))"
  by (subst kpost_frame) simp

lemma keeps_timer: "keeps s (snd (kint_timer env pic s))"
  by (simp add: kint_timer_def io_rd_eq Let_def)

lemma keeps_button: "kint_button env pic s = Inr (pic', s') \<Longrightarrow> keeps s s'"
  by (auto simp: kint_button_def io_rd_eq Let_def split: if_splits)

lemma keeps_uartrx: "keeps s (snd (kint_uartrx env pic s))"
  using keeps_kpush [of "io_update (\<lambda>_. h) s" for h]
  by (auto simp: kint_uartrx_def io_rd_eq Let_def)

lemma kpop_cases:
  "kpop_syspipe p s = (r, s1) \<Longrightarrow> keeps s s1" "kpop_short_syspipe p s = (r', s1) \<Longrightarrow> keeps s s1"
  using keeps_kpop [of s p] keeps_kpop_short [of s p] by simp_all

lemma keeps_uarttx: "keeps s (kint_uarttx pic s)"
  by (auto simp: kint_uarttx_def split: prod.splits option.splits dest: kpop_cases)

lemma keeps_audio: "keeps s (kint_audio pic s)"
  by (auto simp: kint_audio_def split: prod.splits option.splits dest: kpop_cases)

lemma keeps_no_interrupt: "keeps s (kno_interrupt pic s)"
proof -
  have a: "keeps s (kaudio_start s)" for s
    by (auto simp: kaudio_start_def split: prod.splits option.splits dest: kpop_cases)
  have b: "keeps s (kuarttx_start pic s)" for s
    by (auto simp: kuarttx_start_def split: prod.splits option.splits dest: kpop_cases)
  have "keeps (io_wr IO_PIC INT_ENABLE s) (kuarttx_start pic (kaudio_start (io_wr IO_PIC INT_ENABLE s)))"
    by (rule keeps_trans [OF a b])
  then show ?thesis
    by (simp add: kno_interrupt_def Let_def)
qed

text \<open>The interrupt branch changes the clock, by what \<open>kpost\<close> returns.\<close>

lemma kpost_clock:
  assumes "unat ms < 2 ^ 31"
  shows "unat (fst (kpost tlist ev ms s)) < 2 ^ 31"
proof -
  have m: "unat (ms + 1) = unat ms + 1"
    using assms by (simp add: unat_plus_if')
  show ?thesis
    using assms m minus_half [of "ms + 1"] by (auto simp: kpost_def Let_def sless_zero_u32)
qed

definition keeps_clocked :: "kst \<Rightarrow> kst \<Rightarrow> bool" where
  "keeps_clocked s s' \<longleftrightarrow> keeps s (s'\<lparr>milliseconds := milliseconds s\<rparr>) \<and>
    (unat (milliseconds s) < 2 ^ 31 \<longrightarrow> unat (milliseconds s') < 2 ^ 31)"

lemma keeps_clockedI: "keeps s s' \<Longrightarrow> keeps_clocked s s'"
  by (simp add: keeps_clocked_def keeps_def kpipes_def)

lemma keeps_clocked_trans: "keeps_clocked s s1 \<Longrightarrow> keeps_clocked s1 s2 \<Longrightarrow> keeps_clocked s s2"
  by (simp add: keeps_clocked_def keeps_def kpipes_def)

text \<open>The stages of the interrupt branch, when it does not stop.\<close>

lemma kinterruptsE:
  assumes "kinterrupts env pic0 s = Inr s'"
  obtains pic1 s2 pic2 s3 pic3 s4 ms s6 where
    "kint_timer env (pic0 AND 0x7fff) (io_wr IO_PIC (INT_DISABLEV (pic0 AND 0x7fff) OR INT_CLEAR (pic0 AND 0x7fff))
      (io_wr IO_SPIO 0x44 s)) = (pic1, s2)"
    "kint_button env pic1 s2 = Inr (pic2, s3)" "kint_uartrx env pic2 s3 = (pic3, s4)"
    "kpost (tasklist (kint_audio pic3 (kint_uarttx pic3 s4))) pic3
      (milliseconds (kint_audio pic3 (kint_uarttx pic3 s4))) (kint_audio pic3 (kint_uarttx pic3 s4)) = (ms, s6)"
    "s' = io_wr IO_PIC (INT_ENABLE OR (enableset s6 AND NOT 0x0ffff))
      (s6\<lparr>milliseconds := ms, enableset := enableset s6 AND NOT 0x0ffff\<rparr>)"
proof -
  let ?pic = "pic0 AND 0x7fff"
  let ?s1 = "io_wr IO_PIC (INT_DISABLEV ?pic OR INT_CLEAR ?pic) (io_wr IO_SPIO 0x44 s)"
  obtain pic1 s2 where t: "kint_timer env ?pic ?s1 = (pic1, s2)"
    by fastforce
  obtain pic2 s3 where b: "kint_button env pic1 s2 = Inr (pic2, s3)"
  proof (cases "kint_button env pic1 s2")
    case (Inl e)
    with assms t show ?thesis
      unfolding kinterrupts_def Let_def by simp
  next
    case (Inr r)
    then show ?thesis
      by (cases r) (rule that, simp)
  qed
  obtain pic3 s4 where r: "kint_uartrx env pic2 s3 = (pic3, s4)"
    by fastforce
  obtain ms s6 where k: "kpost (tasklist (kint_audio pic3 (kint_uarttx pic3 s4))) pic3
      (milliseconds (kint_audio pic3 (kint_uarttx pic3 s4))) (kint_audio pic3 (kint_uarttx pic3 s4)) = (ms, s6)"
    by fastforce
  have "s' = io_wr IO_PIC (INT_ENABLE OR (enableset s6 AND NOT 0x0ffff))
      (s6\<lparr>milliseconds := ms, enableset := enableset s6 AND NOT 0x0ffff\<rparr>)"
    using assms t b r k unfolding kinterrupts_def Let_def by simp
  with t b r k show thesis
    by (rule that)
qed

lemma keeps_interrupts:
  assumes "kinterrupts env pic0 s = Inr s'"
  shows "keeps_clocked s s'"
proof -
  define s1 where "s1 = io_wr IO_PIC (INT_DISABLEV (pic0 AND 0x7fff) OR INT_CLEAR (pic0 AND 0x7fff)) (io_wr IO_SPIO 0x44 s)"
  obtain pic1 s2 pic2 s3 pic3 s4 ms s6 where t: "kint_timer env (pic0 AND 0x7fff) s1 = (pic1, s2)"
    and b: "kint_button env pic1 s2 = Inr (pic2, s3)" and r: "kint_uartrx env pic2 s3 = (pic3, s4)"
    and k': "kpost (tasklist (kint_audio pic3 (kint_uarttx pic3 s4))) pic3
      (milliseconds (kint_audio pic3 (kint_uarttx pic3 s4))) (kint_audio pic3 (kint_uarttx pic3 s4)) = (ms, s6)"
    and s': "s' = io_wr IO_PIC (INT_ENABLE OR (enableset s6 AND NOT 0x0ffff))
      (s6\<lparr>milliseconds := ms, enableset := enableset s6 AND NOT 0x0ffff\<rparr>)"
    unfolding s1_def by (rule kinterruptsE [OF assms])
  define s5 where "s5 = kint_audio pic3 (kint_uarttx pic3 s4)"
  have k: "kpost (tasklist s5) pic3 (milliseconds s5) s5 = (ms, s6)"
    using k' by (simp add: s5_def)
  have "keeps s s1"
    by (simp add: s1_def)
  moreover have "keeps s1 s2"
    using keeps_timer [of s1 env "pic0 AND 0x7fff"] t by simp
  moreover have "keeps s2 s3"
    using b by (rule keeps_button)
  moreover have "keeps s3 s4"
    using keeps_uartrx [of s3 env pic2] r by simp
  moreover have "keeps s4 s5"
    unfolding s5_def by (rule keeps_trans [OF keeps_uarttx keeps_audio])
  ultimately have s5: "keeps s s5"
    by (blast intro: keeps_trans)
  moreover have "keeps s5 s6"
    using keeps_kpost [of s5] k by (metis snd_conv)
  moreover have "unat (milliseconds s) < 2 ^ 31 \<Longrightarrow> unat ms < 2 ^ 31"
    using kpost_clock [of "milliseconds s5" "tasklist s5" pic3 s5] s5 k by (simp add: keeps_def)
  ultimately show ?thesis
    by (simp add: s' Let_def keeps_clocked_def keeps_def kpipes_def)
qed

lemma keeps_kread: "kread_syspipe t d b n s = Inr s' \<Longrightarrow> keeps s s'"
  by (auto simp: kread_syspipe_def Let_def keeps_def kpipes_def pipe_wf_def ring_size_def split: if_splits)

lemma keeps_kwrite: "kwrite_syspipe t d b n s = Inr s' \<Longrightarrow> keeps s s'"
  by (auto simp: kwrite_syspipe_def Let_def keeps_def kpipes_def pipe_wf_def ring_size_def split: if_splits)

lemma keeps_rw: "ktrap_rw sel fd s = Inr s' \<Longrightarrow> keeps s s'"
  by (auto simp: ktrap_rw_def call_rwfd_def Let_def dest: keeps_kread keeps_kwrite
      split: if_splits rwfdfun.splits)

lemma keeps_wait: "keeps s (snd (ktrap_wait s))"
  by (simp add: ktrap_wait_def Let_def)

lemma keeps_clear: "keeps s (ktrap_clear s)"
  by (simp add: ktrap_clear_def Let_def)

lemma keeps_dispatch:
  assumes "kdispatch s = Inr (b, s')"
  shows "keeps s s'"
proof -
  have "keeps s (snd (ktrap_wait s))" "keeps s (ktrap_clear s)" "keeps s (ktrap_post s)"
    unfolding ktrap_post_def by (rule keeps_wait keeps_clear keeps_kpost)+
  moreover have "ktrap_read s = Inr s' \<Longrightarrow> keeps s s'" "ktrap_write s = Inr s' \<Longrightarrow> keeps s s'" for s'
    by (auto simp: ktrap_read_def ktrap_write_def Let_def dest: keeps_rw split: if_splits)
  ultimately show ?thesis
    using assms unfolding kdispatch_def Let_def
    by (auto simp: andthen_eq_Inr sys_malloc_def split: if_splits)
qed

lemma keeps_user_state:
  assumes "kuser_state env s = Inr (b, s')"
  shows "keeps s s'"
proof (cases "uregs s 14 AND CC_TRAPBIT = 0")
  case True
  with assms show ?thesis
    by (auto simp: kuser_state_def io_rd_eq Let_def split: if_splits)
next
  case False
  let ?s = "set_ctx (current s) 14 (uregs s 14 AND NOT CC_TRAPBIT) (save_context (current s) s)"
  obtain r s1 where "kdispatch ?s = Inr (r, s1)" and s': "s' = restore_context (current s) s1"
    using assms False unfolding kuser_state_def Let_def
    by (cases "kdispatch ?s") (auto split: prod.splits)
  then have "keeps ?s s1"
    by (intro keeps_dispatch)
  then show ?thesis
    by (simp add: s')
qed

section \<open>What user code keeps\<close>

text \<open>User code also never blocks another task: a ready task stays ready.\<close>

definition keeps_ready :: "kst \<Rightarrow> kst \<Rightarrow> bool" where
  "keeps_ready s s' \<longleftrightarrow> keeps s s' \<and>
    (\<forall>t. t_state (tasks s t) = SCHED_READY \<longrightarrow> t_state (tasks s' t) = SCHED_READY)"

lemma keeps_ready_refl [simp]: "keeps_ready s s"
  by (simp add: keeps_ready_def)

lemma pipe_wf_nt:
  "pipe_wf q \<Longrightarrow> pipe_wf (q\<lparr>m_nread := n, m_tail := if t > m_mask q then 0 else t\<rparr>)"
  by (auto simp: pipe_wf_def ring_size_def word_less_nat_alt)

lemma keeps_ready_copy:
  assumes "uread_copy pp ln l s = (l', s')"
  shows "keeps_ready s s'"
proof -
  let ?p = "pipes s pp"
  have "s' = upd_pipe pp (\<lambda>q. q\<lparr>m_nread := m_nread ?p + ln,
      m_tail := if m_tail ?p + ln > m_mask ?p then 0 else m_tail ?p + ln\<rparr>)
      (s\<lparr>mem := mem_write (mem s) (u_buf l) (take (unat ln) (drop (unat (m_tail ?p)) (m_buf ?p)))\<rparr>)"
    using assms by (simp add: uread_copy_def Let_def)
  then show ?thesis
    using pipe_wf_nt [of ?p "m_tail ?p + ln" "m_nread ?p + ln"]
    by (simp add: keeps_ready_def keeps_def kpipes_def split: if_splits)
qed

lemma keeps_ready_uread:
  assumes "uread_step pp (pc, l, s) = (pc', l', s')"
  shows "keeps_ready s s'"
proof -
  have first: "keeps_ready s (snd (snd (uread_first pp l s)))"
    unfolding uread_first_def Let_def by (auto split: prod.splits dest: keeps_ready_copy)
  have second: "keeps_ready s (snd (snd (uread_second pp l s)))"
    unfolding uread_second_def Let_def by (auto split: prod.splits dest: keeps_ready_copy)
  have direct: "keeps_ready s (snd (snd (uread_direct pp l s)))"
    by (simp add: uread_direct_def Let_def keeps_ready_def) (auto simp: keeps_def kpipes_def)
  have block: "keeps_ready s (snd (snd (uread_block pp l s)))"
    by (simp add: uread_block_def Let_def keeps_ready_def)
  have release: "keeps_ready s (snd (snd (uread_release pp l s)))"
    by (simp add: uread_release_def Let_def keeps_ready_def) (auto simp: keeps_def kpipes_def)
  show ?thesis
    using assms first second direct block release by (cases pc) (auto simp: uread_step_def)
qed

lemma keeps_ready_fill:
  assumes "unat (u_nleft l) < 2 ^ 31"
  shows "keeps_ready s (snd (snd (uwrite_fill pp l s)))"
proof -
  let ?p = "pipes s pp"
  define navail where "navail = num_avail_syspipe ?p"
  define ln0 where "ln0 = m_mask ?p + 1 - m_head ?p"
  define ln1 where "ln1 = (if u_nleft l <s ln0 then u_nleft l else ln0)"
  define ln where "ln = (if navail <s ln1 then navail else ln1)"
  define bs where "bs = mem_bytes (mem s) (u_buf l) (unat ln)"
  let ?q = "?p\<lparr>m_buf := buf_write (m_buf ?p) (unat (m_head ?p)) bs, m_head := (m_head ?p + ln) AND m_mask ?p,
    m_nwritten := m_nwritten ?p + ln\<rparr>"
  have "pipe_wf ?q" if wf: "pipe_wf ?p"
  proof -
    have size: "ring_size ?p \<le> 2 ^ 30" "unat (m_head ?p) < ring_size ?p" "length (m_buf ?p) = ring_size ?p"
      using wf ring_size_bounds [of ?p] by (simp_all add: pipe_wf_def)
    have ln0: "unat ln0 = ring_size ?p - unat (m_head ?p)"
      unfolding ln0_def using wf size(2) by (rule space_to_end)
    have na: "unat navail < 2 ^ 30"
      using num_avail_room [OF wf] pipe_room_small [OF wf] by (simp add: navail_def)
    have "unat ln1 \<le> unat ln0"
      using assms size ln0 by (simp add: ln1_def sless_u32_small)
    moreover from this have "unat ln \<le> unat ln1"
      using na size ln0 by (simp add: ln_def sless_u32_small)
    ultimately have "unat (m_head ?p) + length bs \<le> length (m_buf ?p)"
      using ln0 size by (simp add: bs_def)
    moreover have "unat ((m_head ?p + ln) AND m_mask ?p) < ring_size ?p"
      using wf by (simp add: unat_index_plus pipe_wf_def ring_size_def)
    ultimately show ?thesis
      using wf by (simp add: pipe_wf_def ring_size_def)
  qed
  then have "keeps_ready s (upd_pipe pp (\<lambda>q. q\<lparr>m_buf := buf_write (m_buf ?p) (unat (m_head ?p)) bs,
      m_head := (m_head ?p + ln) AND m_mask ?p, m_nwritten := m_nwritten ?p + ln\<rparr>) s)"
    by (simp add: keeps_ready_def keeps_def kpipes_def)
  then show ?thesis
    unfolding uwrite_fill_def Let_def navail_def [symmetric] ln0_def [symmetric] ln1_def [symmetric]
      ln_def [symmetric] bs_def [symmetric] by simp
qed

lemma keeps_ready_uwrite:
  assumes "uwrite_step pp (pc, l, s) = (pc', l', s')" "unat (u_nleft l) < 2 ^ 31"
  shows "keeps_ready s s'"
proof -
  have direct: "keeps_ready s (snd (snd (uwrite_direct pp l s)))"
    by (simp add: uwrite_direct_def Let_def keeps_ready_def) (auto simp: keeps_def kpipes_def)
  have block: "keeps_ready s (snd (snd (uwrite_block pp l s)))"
    by (simp add: uwrite_block_def Let_def keeps_ready_def)
  have finish: "keeps_ready s (snd (snd (uwrite_finish pp l s)))"
    by (simp add: uwrite_finish_def Let_def keeps_ready_def) (simp add: keeps_def kpipes_def)
  show ?thesis
    using assms direct block finish keeps_ready_fill [OF assms(2), of s pp]
    by (cases pc) (auto simp: uwrite_step_def)
qed

section \<open>The invariant\<close>

lemma kernel_inv_ready:
  "keeps_ready s s' \<Longrightarrow> kernel_inv s \<Longrightarrow> kernel_inv s'"
  by (auto simp: keeps_ready_def keeps_def kernel_inv_def table_ok_def list_all_iff)

lemma kswitch_inv:
  assumes s: "table_ok s" "current s \<in> set (tasklist s)" "unat (milliseconds s) < 2 ^ 31"
    "list_all (\<lambda>p. pipe_wf (pipes s p)) (kpipes s)"
  shows "kernel_inv (kswitch (b, s))"
proof -
  obtain resched saved where b: "b = (resched, saved)" by fastforce
  let ?nxt = "if resched \<or> t_state (tasks s (current s)) \<noteq> SCHED_READY \<or> current s = tasklist s ! LAST_TASK s
    then kschedule (LAST_TASK s) (tasklist s) (current s) s else current s"
  obtain i where i: "i \<le> LAST_TASK s" "kschedule (LAST_TASK s) (tasklist s) (current s) s = tasklist s ! i"
    and "i < LAST_TASK s \<and> t_state (tasks s (tasklist s ! i)) = SCHED_READY \<or> i = LAST_TASK s"
    using kschedule_spec [of "tasklist s" "LAST_TASK s" "current s" s] s(1) by (auto simp: table_ok_def)
  then have nxt: "?nxt \<in> set (tasklist s)"
    "t_state (tasks s ?nxt) = SCHED_READY \<or> ?nxt = tasklist s ! LAST_TASK s"
    using s(1,2) by (auto simp: table_ok_def)
  have "kernel_inv s'" if "keeps s (s'\<lparr>current := current s\<rparr>)" "current s' = ?nxt"
      "\<forall>t. t_state (tasks s' t) = t_state (tasks s t)" for s'
    using that s nxt by (simp add: kernel_inv_def keeps_def table_ok_def kpipes_def list_all_iff)
  note I = this
  show ?thesis
    unfolding b by (rule I; simp add: kswitch_def Let_def keeps_def kpipes_def)
qed

lemma kernel_handle_inv:
  assumes "kernel_handle env s = Inr s'" "kernel_inv s"
  shows "kernel_inv s'"
proof -
  obtain pic s1 where rd: "io_rd env IO_PIC s = (pic, s1)" by fastforce
  have s1: "keeps s s1"
    using rd by (auto simp: io_rd_eq)
  obtain s2 b s3 where s2: "(if pic AND 0x8000 \<noteq> 0 then kinterrupts env pic s1 else Inr (kno_interrupt pic s1)) = Inr s2"
    and s3: "kuser_state env (io_wr IO_SPIO 0x40 s2) = Inr (b, s3)" and s': "s' = kswitch (b, s3)"
    using assms(1) rd unfolding kernel_handle_def Let_def by (auto simp: andthen_eq_Inr)
  have "keeps_clocked s1 s2"
    using s2 keeps_interrupts [of env pic s1 s2] keeps_no_interrupt [of s1 pic]
    by (auto simp: keeps_clockedI split: if_splits)
  moreover have "keeps s2 s3"
    using keeps_user_state [OF s3] by simp
  ultimately have "keeps_clocked s s3"
    using s1 by (blast intro: keeps_clocked_trans keeps_clockedI)
  then have "table_ok s3" "current s3 \<in> set (tasklist s3)" "unat (milliseconds s3) < 2 ^ 31"
    "list_all (\<lambda>p. pipe_wf (pipes s3 p)) (kpipes s3)"
    using assms(2) by (auto simp: keeps_clocked_def keeps_def kernel_inv_def table_ok_def kpipes_def)
  then show ?thesis
    unfolding s' by (rule kswitch_inv)
qed

lemma kernel_inv_resume: "kernel_inv (kernel_resume s) = kernel_inv s"
  by (simp add: kernel_resume_def kernel_inv_def table_ok_def kpipes_def)

lemma sys_step_inv:
  assumes "sys_step env s s'" "kernel_inv s"
  shows "kernel_inv s'"
  using assms
proof cases
  case (user_code r m h)
  then have "keeps_ready s s'"
    by (simp add: keeps_ready_def)
  with assms(2) show ?thesis by (blast intro: kernel_inv_ready)
next
  case user_read
  with assms(2) show ?thesis by (blast intro: kernel_inv_ready keeps_ready_uread)
next
  case user_write
  with assms(2) show ?thesis by (blast intro: kernel_inv_ready keeps_ready_uwrite)
next
  case kernel_pass
  with assms(2) show ?thesis by (simp add: kernel_inv_resume kernel_handle_inv)
qed

lemma sys_init_inv:
  assumes "sys_init env s"
  shows "kernel_inv s"
proof -
  obtain s0 s1 where k: "kernel_start env s0 = Some s1" and s: "s = kernel_resume s1"
    using assms by (auto simp: sys_init_def)
  define s0' where "s0' = s0\<lparr>nheartbeats := 0, tickcount := 0, milliseconds := 0, ticks := 0,
    audiostate := 0, buttonstate := 0\<rparr>"
  obtain s2 where s2: "ksetup s0' = Some s2" "LAST_TASK s2 = 4" "length (tasklist s2) = 5" "distinct (tasklist s2)"
    "list_all (\<lambda>t. t_state (tasks s2 t) = SCHED_READY \<and> ctx s2 t 14 = CC_GIE) (tasklist s2)"
    "list_all (\<lambda>p. pipe_wf (pipes s2 p) \<and> pipe_bytes (pipes s2 p) = []) (kpipes s2)" "milliseconds s2 = 0"
    using ksetup_spec [of s0'] by (elim exE conjE) (auto simp: kpipes_def s0'_def)
  have c: "tasklist s2 ! 0 \<in> set (tasklist s2)"
    using s2(3) by simp
  then have r: "t_state (tasks s2 (tasklist s2 ! 0)) = SCHED_READY"
    using s2(5) by (simp add: list_all_iff)
  have "keeps s2 (s1\<lparr>current := current s2\<rparr>) \<and> current s1 = tasklist s2 ! 0 \<and> tasks s1 = tasks s2"
    using k s2(1) unfolding kernel_start_def s0'_def [symmetric]
    by (auto simp: bind_eq_Some_conv Let_def)
  then have "kernel_inv s1"
    using s2 c r by (auto simp: kernel_inv_def table_ok_def keeps_def kpipes_def list_all_iff)
  then show ?thesis
    by (simp add: s kernel_inv_resume)
qed

interpretation zipos: invariant_system "sys_init env" "sys_step env" kernel_inv for env
  by unfold_locales (blast intro: sys_init_inv sys_step_inv)+

end
