(* ===== verification/KernelProps.thy ===== *)
theory KernelProps
  imports KernelInv
begin

text \<open>
  The properties of the kernel loop: the invariant of the whole system, the context switch, the
  system calls, the interrupt handlers, and the ways the kernel can stop.
\<close>

section \<open>The system\<close>

text \<open>
  C1. In every state the running system can reach, whatever the user code, the user halves of the
  pipe calls and the devices do between the kernel's passes: the task table is intact and free of
  duplicates, the running task is in it and is ready (or is the idle task), the millisecond
  clock is not negative, and all six system pipes are well-formed rings.
\<close>

theorem kernel_invariant:
  assumes "sys_init env s" "(sys_step env)\<^sup>*\<^sup>* s s'"
  shows "distinct (tasklist s') \<and> length (tasklist s') = LAST_TASK s' + 1 \<and> current s' \<in> set (tasklist s') \<and>
    (t_state (tasks s' (current s')) = SCHED_READY \<or> current s' = tasklist s' ! LAST_TASK s') \<and>
    unat (milliseconds s') < 2 ^ 31 \<and>
    list_all (\<lambda>p. pipe_wf (pipes s' p)) [rxpipe s', txpipe s', keypipe s', lcdpipe s', pwmpipe s', cmdpipe s']"
  using zipos.reachable_inv [OF assms] by (simp add: kernel_inv_def table_ok_def kpipes_def)

section \<open>The context switch\<close>

text \<open>Which task the end of a pass chooses, and what the switch to it does.\<close>

definition knext :: "bool \<Rightarrow> kst \<Rightarrow> addr" where
  "knext r s = (if r \<or> t_state (tasks s (current s)) \<noteq> SCHED_READY \<or> current s = tasklist s ! LAST_TASK s
    then kschedule (LAST_TASK s) (tasklist s) (current s) s else current s)"

lemma kswitch_same: "knext r s = current s \<Longrightarrow> kswitch ((r, saved), s) = s"
  unfolding kswitch_def knext_def [symmetric] Let_def prod.case by simp

lemma kswitch_other:
  "knext r s \<noteq> current s \<Longrightarrow> kswitch ((r, saved), s) =
    restore_context (knext r s) ((if saved then s else save_context (current s) s)\<lparr>current := knext r s\<rparr>)"
  unfolding kswitch_def knext_def [symmetric] Let_def prod.case by simp

lemma kswitch_current: "current (kswitch ((r, saved), s)) = knext r s"
  by (cases "knext r s = current s") (simp_all add: kswitch_same kswitch_other)

lemma kernel_start_returns:
  assumes "polls_end env"
  shows "\<exists>s. kernel_start env s0 = Some s"
proof -
  define s0' where "s0' = s0\<lparr>nheartbeats := 0, tickcount := 0, milliseconds := 0, ticks := 0,
    audiostate := 0, buttonstate := 0\<rparr>"
  obtain s1 where s1: "ksetup s0' = Some s1"
    using ksetup_spec [of s0'] by blast
  have str: "\<exists>h1. txstr env str h = Some h1" for str h
    using txstr_returns [OF assms] by blast
  have hex: "\<exists>h1. txhex env v h = Some h1" for v h
    using str unfolding txhex_def txdigits_txstr by (metis bind.bind_lunit)
  have "\<exists>h1 h2. txstr env (cstring ''HEAP: '') h = Some h1 \<and> txhex env v h1 = Some h2" for h v
    using str hex by blast
  then show ?thesis
    unfolding kernel_start_def s0'_def [symmetric] s1 by (fastforce simp: Let_def bind_eq_Some_conv)
qed

text \<open>
  C4. A task does not notice being switched out. When a pass leaves the running task \<open>c\<close> for
  another one, all 16 registers of \<open>c\<close> are in its structure, those of the other task are in the
  register file, and no third task is touched; and when a later pass, before which nobody
  wrote to the structure of \<open>c\<close>, switches back to \<open>c\<close>, its registers are as they were.
\<close>

theorem kswitch_saves_registers:
  assumes "s' = kswitch ((r, False), s)" "current s' \<noteq> current s"
    and "tasks t (current s) = tasks s' (current s)"
    and "t' = kswitch ((r2, saved), t)" "current t' = current s" "current t \<noteq> current s" "i < 16"
  shows "ctx s' (current s) i = uregs s i \<and> uregs s' i = ctx s (current s') i \<and>
    (\<forall>q. q \<noteq> current s \<longrightarrow> tasks s' q = tasks s q) \<and> uregs t' i = uregs s i"
proof -
  have n: "knext r s = current s'" "knext r2 t = current s"
    using assms(1,4,5) by (simp_all add: kswitch_current)
  have s': "s' = restore_context (current s') ((save_context (current s) s)\<lparr>current := current s'\<rparr>)"
    using kswitch_other [of r s False] assms(1,2) n by (simp del: state_updates)
  have t': "t' = restore_context (current s) ((if saved then t else save_context (current t) t)\<lparr>current := current s\<rparr>)"
    using kswitch_other [of r2 t saved] assms(4,6) n by (simp del: state_updates)
  have c: "ctx s' (current s) i = uregs s i"
    using assms(7) by (subst s') simp
  moreover have "uregs s' i = ctx s (current s') i"
    using assms(2,7) by (subst s') simp
  moreover have "q \<noteq> current s \<Longrightarrow> tasks s' q = tasks s q" for q
    by (subst s') simp
  moreover have "uregs t' i = ctx t (current s) i"
    using assms(6,7) by (subst t') simp
  ultimately show ?thesis
    using assms(3) by simp
qed

section \<open>System calls\<close>

text \<open>
  C9. \<open>wait(mask, timeout)\<close>: if one of the signals asked for is already pending the call returns at
  once with exactly those signals, which stop being pending, and the task keeps running; otherwise, for a timeout that
  is not 0, the task sleeps until one of the signals in its mask is posted (or, for a positive timeout,
  until the deadline the clock gives), and no signal it asked for is pending when it goes to sleep.
\<close>

theorem ktrap_wait_spec:
  assumes "ktrap_wait s = (resched, s')" "c = current s"
    and "sigs = ctx s c 2" "timeout = ctx s c 3" "pending = t_pending (tasks s c)"
    and "t_state (tasks s c) = SCHED_READY"
  shows "if sigs AND pending \<noteq> 0
    then \<not> resched \<and> t_state (tasks s' c) = SCHED_READY \<and> ctx s' c 1 = sigs AND pending \<and>
      t_pending (tasks s' c) = pending AND NOT sigs
    else ctx s' c 1 = 0 \<and> t_pending (tasks s' c) = pending \<and> (resched \<longleftrightarrow> timeout \<noteq> 0) \<and>
      (timeout \<noteq> 0 \<longrightarrow> t_state (tasks s' c) = SCHED_WAITING \<and> sigs AND t_pending (tasks s' c) = 0) \<and>
      (0 <s timeout \<longrightarrow> t_waitsig (tasks s' c) = sigs OR SWINT_TIMEOUT \<and>
        t_timeout (tasks s' c) = milliseconds s + timeout) \<and>
      (timeout <s 0 \<longrightarrow> t_waitsig (tasks s' c) = sigs \<and> t_timeout (tasks s' c) = t_timeout (tasks s c))"
proof -
  have "pending AND NOT (sigs AND pending) = pending AND NOT sigs"
    by (rule bit_eqI) (auto simp: bit_simps)
  moreover have "timeout <s 0 \<Longrightarrow> \<not> 0 <s timeout" "0 <s timeout \<Longrightarrow> timeout \<noteq> 0" "timeout <s 0 \<Longrightarrow> timeout \<noteq> 0"
    by (auto simp: sless_zero_u32 zero_sless_u32)
  ultimately show ?thesis
    using assms by (auto simp: ktrap_wait_def Let_def and.commute split: if_splits)
qed

text \<open>
  A timeout that was not waited for comes back. The signal \<open>SWINT_TIMEOUT\<close> that an expired timeout left pending is
  not cleared by the next \<open>wait\<close> with another timeout, and makes the very next \<open>kpost\<close>, whatever it
  posts, wake the task, long before its own deadline.
\<close>

theorem stale_timeout_wakes:
  assumes "distinct (tasklist s)" "length (tasklist s) = LAST_TASK s + 1" "current s \<in> set (tasklist s)"
    and "t_pending (tasks s (current s)) = SWINT_TIMEOUT"
    and "ctx s (current s) 2 AND SWINT_TIMEOUT = 0" "0 <s ctx s (current s) 3"
    and "events AND (ctx s (current s) 2) = 0" "events AND INT_TIMER = 0" "unat (milliseconds s) < 2 ^ 31"
  shows "t_state (tasks (snd (ktrap_wait s)) (current s)) = SCHED_WAITING \<and>
    (let s' = snd (kpost (tasklist s) events (milliseconds s) (snd (ktrap_wait s)))
     in t_state (tasks s' (current s)) = SCHED_READY \<and> ctx s' (current s) 1 AND NOT SWINT_TIMEOUT = 0)"
proof -
  let ?c = "current s" and ?w = "snd (ktrap_wait s)"
  have no: "SWINT_TIMEOUT AND ctx s ?c 2 = 0"
    using assms(5) by (simp add: and.commute)
  have pos: "ctx s ?c 3 \<noteq> 0"
    using assms(6) by (auto simp: zero_sless_u32)
  have w: "t_state (tasks ?w ?c) = SCHED_WAITING" "t_waitsig (tasks ?w ?c) = ctx s ?c 2 OR SWINT_TIMEOUT"
    "t_pending (tasks ?w ?c) = SWINT_TIMEOUT" "LAST_TASK ?w = LAST_TASK s"
    using assms(4,6) no pos by (simp_all add: ktrap_wait_def Let_def)
  have bit16: "bit (SWINT_TIMEOUT) 16"
    by (simp add: bit_iff_odd)
  let ?t = "kpost_expire (milliseconds s) (tasks ?w ?c)"
  have t: "t_state ?t = SCHED_WAITING" "t_waitsig ?t = ctx s ?c 2 OR SWINT_TIMEOUT" "t_pending ?t = SWINT_TIMEOUT"
    using w by (simp_all add: kpost_expire_def)
  define sig where "sig = (ctx s ?c 2 OR SWINT_TIMEOUT) AND (SWINT_TIMEOUT OR events)"
  have "bit sig 16"
    using bit16 by (simp add: sig_def bit_simps)
  then have sig: "sig \<noteq> 0"
    by auto
  have "\<not> (bit events n \<and> bit (ctx s ?c 2) n)" for n
    using assms(7) by (metis bit_and_iff bit_0_eq bot_apply bot_bool_def)
  then have only: "sig AND NOT SWINT_TIMEOUT = 0"
    by (auto simp: sig_def bit_eq_iff bit_simps)
  have m: "\<not> milliseconds s <s 0"
    using assms(9) by (simp add: sless_zero_u32)
  have "tasks (snd (kpost (tasklist s) events (milliseconds s) ?w)) ?c = kpost_wake events ?t"
    using assms(3,8) m tasks_kpost [of "tasklist s" ?w events "milliseconds s" ?c] assms(1,2) w(4) by simp
  moreover have "t_state (kpost_wake events ?t) = SCHED_READY \<and> t_context (kpost_wake events ?t) 1 = sig"
    using t sig unfolding kpost_wake_def Let_def sig_def by simp
  ultimately show ?thesis
    using w(1) only by (simp add: Let_def)
qed

text \<open>
  \<open>clear(mask, timeout)\<close> takes the mask for its timeout: the third argument has no effect
  at all, and clearing a set of events with a positive mask arms a timeout of as many milliseconds.
\<close>

theorem ktrap_clear_ignores_timeout:
  shows "ktrap_clear (set_ctx (current s) 3 x s) = set_ctx (current s) 3 x (ktrap_clear s) \<and>
    (0 <s ctx s (current s) 2 \<longrightarrow>
      t_timeout (tasks (ktrap_clear s) (current s)) = milliseconds s + ctx s (current s) 2) \<and>
    ctx (ktrap_clear s) (current s) 1 = ctx s (current s) 2 AND t_pending (tasks s (current s)) \<and>
    t_pending (tasks (ktrap_clear s) (current s)) AND ctx s (current s) 2 = 0"
proof -
  have neg: "0 <s x \<Longrightarrow> \<not> x <s 0" "0 <s x \<Longrightarrow> x \<noteq> 0" for x :: u32
    by (auto simp: sless_zero_u32 zero_sless_u32)
  have c: "(x AND (NOT y OR NOT x)) AND y = 0" "((x AND (NOT y OR NOT x)) AND z) AND y = 0" for x y z :: u32
    by (rule bit_eqI; auto simp: bit_simps)+
  have tw: "f(3 := x, Suc 0 := v) = f(Suc 0 := v, 3 := x)" for f :: "nat \<Rightarrow> u32" and v
    by (rule fun_upd_twist) simp
  have "ktrap_clear (set_ctx (current s) 3 x s) = set_ctx (current s) 3 x (ktrap_clear s)"
    by (cases s; cases "tasks s (current s)") (simp add: ktrap_clear_def Let_def tw)
  moreover have "0 <s ctx s (current s) 2 \<longrightarrow>
      t_timeout (tasks (ktrap_clear s) (current s)) = milliseconds s + ctx s (current s) 2"
    using neg [of "ctx s (current s) 2"] by (simp add: ktrap_clear_def Let_def)
  moreover have "ctx (ktrap_clear s) (current s) 1 = ctx s (current s) 2 AND t_pending (tasks s (current s)) \<and>
      t_pending (tasks (ktrap_clear s) (current s)) AND ctx s (current s) 2 = 0"
    by (simp add: ktrap_clear_def Let_def c)
  ultimately show ?thesis
    by blast
qed

text \<open>
  A user task cannot forge hardware events, nor move the clock: \<open>post(events)\<close> hands out exactly the
  software events of its argument, those from bit 15 up.
\<close>

theorem ktrap_post_software_only:
  assumes "distinct (tasklist s)" "length (tasklist s) = LAST_TASK s + 1" "p \<in> set (tasklist s)"
    and "unat (milliseconds s) < 2 ^ 31" "t_timeout (tasks s p) = 0"
  shows "kpost (tasklist s) (ctx s (current s) 2 AND NOT 0x07fff) (milliseconds s) s = (milliseconds s, ktrap_post s) \<and>
    tasks (ktrap_post s) p = kpost_wake (push_bit 15 (drop_bit 15 (ctx s (current s) 2))) (tasks s p)"
proof -
  let ?e = "ctx s (current s) 2 AND NOT 0x07fff"
  have m: "\<not> milliseconds s <s 0"
    using assms(4) by (simp add: sless_zero_u32)
  have mask: "(0x07fff :: u32) = mask 15"
    by (simp add: mask_eq_exp_minus_1)
  have e: "?e = push_bit 15 (drop_bit 15 (ctx s (current s) 2))"
    unfolding mask by (rule bit_eqI) (auto simp: bit_simps)
  have "(INT_TIMER :: u32) = 2 ^ 4"
    by simp
  then have four: "bit (INT_TIMER :: u32) n \<Longrightarrow> n = 4" for n
    by (simp only: bit_exp_iff)
  have "?e AND INT_TIMER = 0"
    unfolding e by (rule bit_eqI) (auto simp only: bit_and_iff bit_push_bit_iff bit_0_eq bot_apply bot_bool_def dest: four)
  moreover define ev where "ev = ?e"
  ultimately have ev: "ev AND INT_TIMER = 0"
    by simp
  have exp: "kpost_expire (milliseconds s) (tasks s p) = tasks s p"
    using assms(5) by (simp add: kpost_expire_def)
  have "tasks (snd (kpost (tasklist s) ev (milliseconds s) s)) p = kpost_wake ev (tasks s p)"
    using tasks_kpost [OF assms(1,2), of ev "milliseconds s" p] assms(3) ev m exp by simp
  moreover have "fst (kpost (tasklist s) ev (milliseconds s) s) = milliseconds s"
    using ev m by (simp add: kpost_def Let_def)
  ultimately show ?thesis
    unfolding ktrap_post_def e [symmetric] ev_def [symmetric] by (simp add: prod_eq_iff)
qed


text \<open>
  Reads and writes reach the pipe behind the descriptor: in the system as set up (devices
  whose functions are the pipe's), a read or write through an open descriptor is exactly the
  kernel half of the pipe call, on the pipe the descriptor was opened with and with the caller's buffer
  and count.
\<close>

theorem kdispatch_reaches_pipe:
  assumes "c = current s" "ctx s c 2 < MAX_KFILDES" "fd = t_fd (tasks s c) (unat (ctx s c 2))"
    and "fd \<noteq> NULL" "dev = fd_dev (fildes s fd)" "dev \<noteq> NULL"
    and "dev_read (devices s dev) = Fn_kread_syspipe" "dev_write (devices s dev) = Fn_kwrite_syspipe"
  shows "(ctx s c 1 = TRAPID_READ \<longrightarrow> kdispatch s =
      andthen (kread_syspipe c (fd_id (fildes s fd)) (ctx s c 3) (ctx s c 4) s) (\<lambda>s. Inr (False, s))) \<and>
    (ctx s c 1 = TRAPID_WRITE \<longrightarrow> kdispatch s =
      andthen (kwrite_syspipe c (fd_id (fildes s fd)) (ctx s c 3) (ctx s c 4) s) (\<lambda>s. Inr (False, s)))"
  using assms by (simp add: kdispatch_def ktrap_read_def ktrap_write_def ktrap_rw_def call_rwfd_def Let_def)

section \<open>Interrupts\<close>

text \<open>
  The transmitter neither loses nor reorders bytes: in either branch of a pass, the bytes written
  to the UART so far followed by the transmit pipe's contents are the same before and after its
  handler; with something in the pipe it sends exactly the first byte, and with nothing it sends nothing.
\<close>

theorem kuarttx_in_order:
  assumes "pipe_wf (pipes s (txpipe s))" "pic AND INT_UARTTX \<noteq> 0"
    and "s' = kint_uarttx pic s \<or> s' = kuarttx_start pic s"
  shows "written IO_UART (io s') @ map ucast (pipe_bytes (pipes s' (txpipe s'))) =
      written IO_UART (io s) @ map ucast (pipe_bytes (pipes s (txpipe s))) \<and>
    length (written IO_UART (io s')) = length (written IO_UART (io s)) + min 1 (length (pipe_bytes (pipes s (txpipe s))))"
proof -
  let ?q = "txpipe s"
  obtain r s1 where pop: "kpop_syspipe ?q s = (r, s1)"
    by fastforce
  have same: "io s1 = io s" "txpipe s1 = txpipe s"
    using arg_cong [OF kpop_frame [of ?q s], of io] arg_cong [OF kpop_frame [of ?q s], of txpipe] pop by simp_all
  have r: "r = (case pipe_bytes (pipes s ?q) of [] \<Rightarrow> None | x # _ \<Rightarrow> Some x)"
    using kpop_result [OF assms(1)] pop by simp
  have p: "pipes s1 ?q = ring_drop 1 (pipes s ?q)"
    using pipes_kpop [of ?q s] pop by simp
  show ?thesis
  proof (cases "pipe_bytes (pipes s ?q)")
    case Nil
    then have "pipe_bytes (pipes s1 ?q) = []"
      using ring_drop_empty [OF assms(1) Nil, of 1] p by simp
    with Nil assms(2,3) pop r same show ?thesis
      by (auto simp: kint_uarttx_def kuarttx_start_def)
  next
    case (Cons x xs)
    then have "pipe_bytes (pipes s1 ?q) = xs"
      using ring_drop_one [OF assms(1) Cons] p by simp
    with Cons assms(2,3) pop r same show ?thesis
      by (auto simp: kint_uarttx_def kuarttx_start_def)
  qed
qed

text \<open>
  The seconds counter counts timer interrupts: with the tick count below 1000, every timer interrupt
  adds one to \<open>1000 * tickcount + ticks\<close> and keeps the tick count below 1000; the clock event is posted
  exactly when a second is complete. No other interrupt changes the count.
\<close>

theorem kint_timer_counts:
  assumes "unat (ticks s) < 1000" "unat (tickcount s) + 1 < 2 ^ 32" "pic AND SWINT_CLOCK = 0"
    and "kint_timer env pic s = (pic', s')"
  shows "1000 * unat (tickcount s') + unat (ticks s') =
      1000 * unat (tickcount s) + unat (ticks s) + (if pic AND INT_TIMER \<noteq> 0 then 1 else 0) \<and>
    unat (ticks s') < 1000 \<and> (pic' AND SWINT_CLOCK \<noteq> 0 \<longleftrightarrow> tickcount s' \<noteq> tickcount s) \<and>
    pic' AND NOT SWINT_CLOCK = pic AND NOT SWINT_CLOCK"
proof -
  have t: "unat (ticks s + 1) = unat (ticks s) + 1" "unat (tickcount s + 1) = unat (tickcount s) + 1"
    using assms(1,2) by (simp_all add: unat_plus_if')
  have cmp: "TICKS_PER_SECOND \<le>s ticks s + 1 \<longleftrightarrow> unat (ticks s) = 999"
    using assms(1) by (subst sless_eq_u32_small) (simp_all add: t, linarith)
  have "(pic OR SWINT_CLOCK) AND SWINT_CLOCK = SWINT_CLOCK"
    "(pic OR SWINT_CLOCK) AND NOT SWINT_CLOCK = pic AND NOT SWINT_CLOCK"
    by (rule bit_eqI; auto simp: bit_simps)+
  then show ?thesis
    using assms t cmp by (auto simp: kint_timer_def io_rd_eq Let_def split: if_splits)
qed

text \<open>
  The receiver: a received 7-bit character is appended to the receive pipe if there is room (and the
  pipe's error flag is raised if there is none), any other value is dropped, and the character is echoed
  exactly if the transmitter is idle as well.
\<close>

theorem kint_uartrx_receives:
  assumes "pipe_wf (pipes s (rxpipe s))" "pic AND INT_UARTRX \<noteq> 0" "v = env (io s) (QRd IO_UART)"
    and "kint_uartrx env pic s = (pic', s')"
  shows "pipe_bytes (pipes s' (rxpipe s)) = pipe_bytes (pipes s (rxpipe s)) @
      (if unat v < 128 \<and> 0 < pipe_room (pipes s (rxpipe s)) then [ucast v] else []) \<and>
    (unat v < 128 \<and> pipe_room (pipes s (rxpipe s)) = 0 \<longrightarrow> m_error (pipes s' (rxpipe s)) = 1) \<and>
    written IO_UART (io s') = written IO_UART (io s) @ (if unat v < 128 \<and> pic AND INT_UARTTX \<noteq> 0 then [v] else [])"
proof -
  have m: "(0x7f :: u32) = mask 7"
    by (simp add: mask_eq_exp_minus_1)
  have "v AND NOT (mask 7) = 0 \<longleftrightarrow> v AND mask 7 = v"
    unfolding bit_eq_iff by (auto simp only: bit_and_iff bit_not_iff bit_0_eq bot_apply bot_bool_def
      possible_bit_def dest: bit_imp_le_length)
  also have "\<dots> \<longleftrightarrow> unat v mod 2 ^ 7 = unat v"
    unfolding word_unat_eq_iff unat_and_mask_eq_mod ..
  also have "\<dots> \<longleftrightarrow> unat v < 128"
  proof -
    have "(2 :: nat) ^ 7 = 128"
      by simp
    then show ?thesis
      by (metis mod_less mod_less_divisor zero_less_numeral)
  qed
  finally have seven: "v AND NOT 0x7f = 0 \<longleftrightarrow> unat v < 128"
    unfolding m .
  have io_push: "io (kpush_syspipe p x t) = io t" "rxpipe (kpush_syspipe p x t) = rxpipe t" for p x t
    by (subst kpush_frame, simp)+
  have bytes: "pipe_bytes (ring_push x (pipes s (rxpipe s))) = pipe_bytes (pipes s (rxpipe s)) @
      (if 0 < pipe_room (pipes s (rxpipe s)) then [x] else [])" for x
    using ring_push_room [OF assms(1), of x] ring_push_full [OF assms(1), of x] by simp
  show ?thesis
    using assms(2-4) seven bytes ring_push_full [OF assms(1), of "ucast v"]
    by (auto simp: kint_uartrx_def io_rd_eq Let_def io_push split: if_splits)
qed

text \<open>
  C12. What a pass leaves in the interrupt controller: in both branches the last word written to it is
  the master enable with exactly the interrupts of \<open>enableset\<close>, whose low 16 bits are clear,
  so that the write acknowledges nothing that has not been handled.
\<close>

theorem pass_enables_interrupts:
  assumes "(if pic AND 0x8000 \<noteq> 0 then kinterrupts env pic s else Inr (kno_interrupt pic s)) = Inr s'"
  shows "last (written IO_PIC (io s')) = INT_ENABLE OR enableset s' \<and> enableset s' AND 0xffff = 0"
proof -
  have low: "(x AND NOT 0xffff) AND 0xffff = (0 :: u32)" for x
    by (rule bit_eqI) (auto simp: bit_simps)
  show ?thesis
  proof (cases "pic AND 0x8000 = 0")
    case True
    with assms low show ?thesis
      by (auto simp: kno_interrupt_def Let_def)
  next
    case False
    then have run: "kinterrupts env pic s = Inr s'"
      using assms by simp
    show ?thesis
      by (rule kinterruptsE [OF run]) (use low in simp)
  qed
qed

section \<open>Witnesses\<close>

text \<open>Three tasks, the idle task last; the pipes are at address 0 and have 16 bytes.\<close>

definition kdemo :: kst where
  "kdemo = blank_kst\<lparr>tasklist := [0x100, 0x200, 0x300], LAST_TASK := 2, current := 0x100\<rparr>"

lemma kdemo_wf: "pipe_wf (pipes kdemo p)"
  using blank_pipe_wf [of 4] by (simp add: kdemo_def blank_kst_def)

theorem kernel_invariant_witness:
  "\<exists>s0 s. kernel_start demo_env s0 = Some s \<and> distinct (tasklist (kernel_resume s)) \<and>
    current (kernel_resume s) \<in> set (tasklist (kernel_resume s))"
proof -
  obtain s where s: "kernel_start demo_env blank_kst = Some s"
    using kernel_start_returns [OF demo_polls_end] by blast
  then have "sys_init demo_env (kernel_resume s)"
    by (auto simp: sys_init_def)
  from kernel_invariant [OF this rtranclp.rtrancl_refl] s show ?thesis by blast
qed

theorem kswitch_saves_registers_witness:
  "\<exists>(s :: kst) (s' :: kst) (t' :: kst). uregs s 3 = 7 \<and> current s' = 0x200 \<and> uregs s' 3 = 0 \<and> uregs t' 3 = 7 \<and> current t' = 0x100"
proof -
  define s where "s = kdemo\<lparr>uregs := (\<lambda>i. if i = 3 then 7 else 0)\<rparr>"
  define s' where "s' = kswitch ((True, False), s)"
  define t where "t = set_state 0x200 SCHED_WAITING s'"
  define t' where "t' = kswitch ((True, True), t)"
  have n: "knext True s = 0x200"
    by (simp add: knext_def kschedule_def s_def kdemo_def kfind_next.simps kfirst_ready.simps)
  then have s': "s' = restore_context 0x200 ((save_context 0x100 s)\<lparr>current := 0x200\<rparr>)"
    using kswitch_other [of True s False] by (simp add: s'_def s_def kdemo_def del: state_updates)
  have n2: "knext True t = 0x100"
    by (simp add: knext_def kschedule_def t_def s' s_def kdemo_def kfind_next.simps kfirst_ready.simps)
  have c: "current s = 0x100" "current s' = 0x200" "current t' = 0x100"
    using n n2 by (simp_all add: s_def s'_def t'_def kswitch_current kdemo_def del: state_updates)
  moreover from this have "current t = 0x200"
    by (simp add: t_def)
  ultimately have c: "current s = 0x100" "current s' = 0x200" "current t' = 0x100" "current t = 0x200"
    by simp_all
  have "ctx s' (current s) 3 = uregs s 3 \<and> uregs s' 3 = ctx s (current s') 3 \<and>
    (\<forall>q. q \<noteq> current s \<longrightarrow> tasks s' q = tasks s q) \<and> uregs t' 3 = uregs s 3"
    by (rule kswitch_saves_registers [OF s'_def _ _ t'_def]) (use c in \<open>simp_all add: t_def\<close>)
  moreover have "uregs s 3 = 7" "ctx s 0x200 3 = 0"
    by (simp_all add: s_def kdemo_def blank_defs)
  ultimately show ?thesis
    using c by metis
qed

theorem ktrap_wait_spec_witness:
  "\<exists>s'. ktrap_wait (set_ctx 0x100 2 6 (upd_task 0x100 (\<lambda>t. t\<lparr>t_pending := 5\<rparr>) kdemo)) = (False, s') \<and>
    ctx s' 0x100 1 = 4 \<and> t_pending (tasks s' 0x100) = 1"
proof -
  let ?s = "set_ctx 0x100 2 6 (upd_task 0x100 (\<lambda>t. t\<lparr>t_pending := 5\<rparr>) kdemo)"
  have c: "current ?s = 0x100" "ctx ?s 0x100 2 = 6" "t_pending (tasks ?s 0x100) = 5" "t_state (tasks ?s 0x100) = SCHED_READY"
    by (simp_all add: kdemo_def)
  obtain r s' where w: "ktrap_wait ?s = (r, s')"
    by fastforce
  from ktrap_wait_spec [OF this refl refl refl refl] c w show ?thesis
    by simp
qed

theorem stale_timeout_wakes_witness:
  "\<exists>s. t_pending (tasks s (current s)) = SWINT_TIMEOUT \<and> t_state (tasks (snd (ktrap_wait s)) (current s)) = SCHED_WAITING"
proof -
  let ?s = "set_ctx 0x100 2 4 (set_ctx 0x100 3 60000 (upd_task 0x100 (\<lambda>t. t\<lparr>t_pending := SWINT_TIMEOUT\<rparr>) kdemo))"
  have c: "current ?s = 0x100"
    by (simp add: kdemo_def)
  have "t_state (tasks (snd (ktrap_wait ?s)) (current ?s)) = SCHED_WAITING"
    by (rule stale_timeout_wakes [of ?s "0x8000", THEN conjunct1])
      (simp_all add: kdemo_def zero_sless_u32 blank_kst_def)
  then show ?thesis
    using c by (intro exI [of _ ?s]) simp
qed

theorem ktrap_clear_ignores_timeout_witness:
  "t_timeout (tasks (ktrap_clear (set_ctx 0x100 2 8 kdemo)) 0x100) = 8"
proof -
  let ?s = "set_ctx 0x100 2 8 kdemo"
  have c: "current ?s = 0x100" "ctx ?s 0x100 2 = 8" "milliseconds ?s = 0"
    by (simp_all add: kdemo_def blank_kst_def)
  with ktrap_clear_ignores_timeout [of ?s 0] show ?thesis
    by (simp only: c) (simp add: zero_sless_u32)
qed

theorem ktrap_post_software_only_witness:
  "tasks (ktrap_post (set_ctx 0x100 2 0x8010 kdemo)) 0x200 = kpost_wake 0x8000 (tasks kdemo 0x200)"
  using ktrap_post_software_only [of "set_ctx 0x100 2 0x8010 kdemo" "0x200"]
  by (simp add: kdemo_def blank_kst_def blank_task_def)


theorem kdispatch_reaches_pipe_witness:
  "\<exists>s. ctx s (current s) 1 = TRAPID_READ \<and> kdispatch s = andthen (kread_syspipe 0x100 0 0x6000 5 s) (\<lambda>s. Inr (False, s))"
proof -
  define s where "s = set_ctx 0x100 4 5 (set_ctx 0x100 3 0x6000 (set_ctx 0x100 1 TRAPID_READ (kdemo\<lparr>
    tasks := (\<lambda>_. blank_task\<lparr>t_fd := (\<lambda>_. 0x4800)\<rparr>),
    fildes := (\<lambda>_. \<lparr>fd_id = 0, fd_dev = 0x4900\<rparr>),
    devices := (\<lambda>_. \<lparr>dev_write = Fn_kwrite_syspipe, dev_read = Fn_kread_syspipe, dev_close = Fn_NULL\<rparr>)\<rparr>)))"
  have "current s = 0x100" "ctx s 0x100 1 = TRAPID_READ" "ctx s 0x100 2 = 0" "ctx s 0x100 3 = 0x6000" "ctx s 0x100 4 = 5"
    "t_fd (tasks s 0x100) 0 = 0x4800" "fildes s 0x4800 = \<lparr>fd_id = 0, fd_dev = 0x4900\<rparr>"
    "dev_read (devices s 0x4900) = Fn_kread_syspipe" "dev_write (devices s 0x4900) = Fn_kwrite_syspipe"
    by (simp_all add: s_def kdemo_def blank_defs)
  with kdispatch_reaches_pipe [of "0x100" s "0x4800" "0x4900"] show ?thesis
    by (intro exI [of _ s]) simp
qed

theorem kuarttx_in_order_witness:
  "\<exists>s'. s' = kint_uarttx INT_UARTTX kdemo \<and> written IO_UART (io s') = [] \<and> pipe_bytes (pipes s' 0) = []"
proof -
  have t: "txpipe kdemo = 0" "io kdemo = []" "pipe_bytes (pipes kdemo 0) = []"
    by (simp_all add: kdemo_def blank_kst_def pipe_bytes_def pipe_len_def blank_pipe_def)
  have "txpipe (kint_uarttx INT_UARTTX kdemo) = 0"
    using keeps_uarttx [of kdemo INT_UARTTX] t(1) by (simp add: keeps_def kpipes_def)
  with kuarttx_in_order [of kdemo INT_UARTTX "kint_uarttx INT_UARTTX kdemo"] t kdemo_wf show ?thesis
    by simp
qed

theorem kint_timer_counts_witness:
  "\<exists>pic' s'. kint_timer demo_env INT_TIMER (kdemo\<lparr>ticks := 999, tickcount := 5\<rparr>) = (pic', s') \<and>
    1000 * unat (tickcount s') + unat (ticks s') = 6000"
proof -
  obtain pic' s' where "kint_timer demo_env INT_TIMER (kdemo\<lparr>ticks := 999, tickcount := 5\<rparr>) = (pic', s')"
    by fastforce
  with kint_timer_counts [OF _ _ _ this] show ?thesis
    by simp
qed

theorem kint_uartrx_receives_witness:
  "\<exists>pic' s'. kint_uartrx (\<lambda>h q. 65) INT_UARTRX kdemo = (pic', s') \<and> pipe_bytes (pipes s' 0) = [65]"
proof -
  obtain pic' s' where r: "kint_uartrx (\<lambda>h q. 65) INT_UARTRX kdemo = (pic', s')"
    by fastforce
  have t: "rxpipe kdemo = 0" "pipe_bytes (pipes kdemo 0) = []" "0 < pipe_room (pipes kdemo 0)"
    by (simp_all add: kdemo_def blank_kst_def pipe_bytes_def pipe_len_def pipe_room_def ring_size_def blank_pipe_def)
  from kint_uartrx_receives [OF kdemo_wf _ refl r] r t show ?thesis
    by simp
qed

theorem pass_enables_interrupts_witness:
  "last (written IO_PIC (io (kno_interrupt 0 kdemo))) = INT_ENABLE OR enableset (kno_interrupt 0 kdemo)"
  using pass_enables_interrupts [of 0 demo_env kdemo] by simp

end
