(* ===== verification/Rtc.thy ===== *)
theory Rtc
  imports Setup
begin

text \<open>
  The software clock of sw/dev/rtcsim.c: the time of day and the date as binary-coded decimals in a
  word, \<open>rtcnext\<close>, \<open>rtcdatenext\<close>, and the task that advances them with the kernel's clock event.

  A time of day is the type \<open>tod\<close>, with its natural order; \<open>bcd_tod\<close> is its code word. What
  \<open>rtcnext\<close> does is stated over \<open>tod\<close>; the date is stated as the code computes it.
\<close>

section \<open>The code\<close>

definition rtcnext :: "u32 \<Rightarrow> u32" where
  "rtcnext now0 =
    (let now = now0 + 1 in
     if now AND 0x0f \<ge> 0x0a
     then let now = now + 0x06 in
       if now AND 0x0f0 > 0x050
       then let now = now + 0x0a0 in
         if now AND 0x0f00 \<ge> 0x0a00
         then let now = now + 0x0600 in
           if now AND 0x0f000 > 0x05000
           then let now = now + 0x0a000;
                    now = (if now AND 0x0f0000 \<ge> 0x0a0000 then now + 0x060000 else now)
                in if now \<ge> 0x0240000 then 0 else now
           else now
         else now
       else now
     else now)"

text \<open>
  The array of month lengths; \<open>None\<close> is an access out of its bounds, which C leaves undefined.
\<close>

definition days_per_month :: "int \<Rightarrow> int option" where
  "days_per_month i =
    (if 0 \<le> i \<and> i < 12 then Some ([31, 28, 31, 30, 31, 30, 31, 31, 30, 31, 30, 31] ! nat i) else None)"

text \<open>Day and month as the code decodes them.\<close>

definition rtc_day :: "u32 \<Rightarrow> int" where
  "rtc_day today = uint ((today AND 0x0f) + (drop_bit 4 today AND 0x03) * 10)"

definition rtc_month :: "u32 \<Rightarrow> int" where
  "rtc_month today = uint ((drop_bit 8 today AND 0x0f) + (if today AND 0x0100 \<noteq> 0 then 10 else 0))"

text \<open>The leap year test: \<open>dy\<close> after it, in a February that is over.\<close>

definition rtc_february :: "u32 \<Rightarrow> int \<Rightarrow> int" where
  "rtc_february today dy =
    (let tst = (if today AND 0x0ff0000 = 0 then drop_bit 24 today AND 0x03f else drop_bit 20 today AND 0x0ff) AND 0x013
     in if tst = 0 \<or> tst = 0x012 then (if dy \<ge> 29 then 1 else dy) else 1)"

text \<open>The carry through the digits of the year.\<close>

definition rtc_year_carry :: "u32 \<Rightarrow> u32" where
  "rtc_year_carry t0 =
    (let t = t0 + 0x010000 in
     if t AND 0x0f0000 \<ge> 0x0a0000
     then let t = t + 0x060000 in
       if t AND 0x0f00000 \<ge> 0x0a00000
       then let t = t + 0x0600000 in
         if t AND 0x0f000000 \<ge> 0x0a000000
         then let t = t + 0x06000000 in
           if t AND 0x0f0000000 \<ge> 0x0a0000000 then t + 0x060000000 else t
         else t
       else t
     else t)"

definition rtcdatenext :: "u32 \<Rightarrow> u32 option" where
  "rtcdatenext today =
    (let mo = rtc_month today; dy0 = rtc_day today + 1;
         over = (if mo > 12 then Some True else map_option (\<lambda>n. dy0 > n) (days_per_month (mo - 1)))
     in map_option (\<lambda>over.
       let dy = (if over then if mo = 2 then rtc_february today dy0 else 1 else dy0)
       in if dy = 1
          then let t = (today AND NOT 0x0ff) OR 1
               in if mo + 1 > 12 then rtc_year_carry ((t AND NOT 0x0ff00) OR 0x0100) else t
          else let t = today + 1 in if t AND 0x0f \<ge> 0x0a then t + 0x06 else t) over)"

section \<open>The task\<close>

record rtc =
  rtcclock :: u32
  rtcalarm :: u32
  rtcdate :: u32

definition rtc_start :: "rtc \<Rightarrow> rtc" where
  "rtc_start r = r\<lparr>rtcdate := 0x20170408, rtcclock := 0\<rparr>"

text \<open>One round of the task's loop. The semaphore macros of rtcsim.h are empty.\<close>

definition rtctask_step :: "env \<Rightarrow> rtc \<times> hist \<Rightarrow> (rtc \<times> hist) option" where
  "rtctask_step env = (\<lambda>(r, h).
    let (event, h1) = syscall env TRAPID_WAIT SWINT_CLOCK (- 1) 0 h
    in if event AND SWINT_CLOCK \<noteq> 0
       then let v = rtcnext (rtcclock r);
                r1 = r\<lparr>rtcclock := v\<rparr>;
                e1 = (if v = rtcalarm r then SWINT_PPS OR SWINT_ALARM else SWINT_PPS)
            in (if v = 0
                then map_option (\<lambda>d. (r1\<lparr>rtcdate := d\<rparr>, snd (syscall env TRAPID_POST (e1 OR SWINT_PPD) 0 0 h1)))
                       (rtcdatenext (rtcdate r1))
                else Some (r1, snd (syscall env TRAPID_POST e1 0 0 h1)))
       else Some (r, h1))"

section \<open>Times of day\<close>

datatype tod = Tod (hour: nat) (minute: nat) (sec: nat)

instantiation tod :: linorder
begin

definition less_eq_tod :: "tod \<Rightarrow> tod \<Rightarrow> bool" where
  "less_eq_tod a b \<longleftrightarrow> hour a < hour b \<or> hour a = hour b \<and>
    (minute a < minute b \<or> minute a = minute b \<and> sec a \<le> sec b)"

definition less_tod :: "tod \<Rightarrow> tod \<Rightarrow> bool" where
  "less_tod a b \<longleftrightarrow> hour a < hour b \<or> hour a = hour b \<and>
    (minute a < minute b \<or> minute a = minute b \<and> sec a < sec b)"

instance
proof
  fix x y z :: tod
  show "x < y \<longleftrightarrow> x \<le> y \<and> \<not> y \<le> x" "x \<le> x" "x \<le> y \<or> y \<le> x"
    by (auto simp: less_eq_tod_def less_tod_def)
  show "x \<le> y \<Longrightarrow> y \<le> z \<Longrightarrow> x \<le> z"
    by (auto simp: less_eq_tod_def)
  show "x \<le> y \<Longrightarrow> y \<le> x \<Longrightarrow> x = y"
    by (auto simp: less_eq_tod_def intro: tod.expand)
qed

end

definition tod_ok :: "tod \<Rightarrow> bool" where
  "tod_ok t \<longleftrightarrow> hour t < 24 \<and> minute t < 60 \<and> sec t < 60"

definition tod_next :: "tod \<Rightarrow> tod" where
  "tod_next t =
    (if sec t < 59 then Tod (hour t) (minute t) (sec t + 1)
     else if minute t < 59 then Tod (hour t) (minute t + 1) 0
     else if hour t < 23 then Tod (hour t + 1) 0 0 else Tod 0 0 0)"

definition tod_seconds :: "tod \<Rightarrow> nat" where
  "tod_seconds t = 3600 * hour t + 60 * minute t + sec t"

text \<open>Two decimal digits, and the code word of a time.\<close>

definition bcd2 :: "nat \<Rightarrow> nat" where
  "bcd2 n = 16 * (n div 10) + n mod 10"

definition bcd_tod :: "tod \<Rightarrow> u32" where
  "bcd_tod t = of_nat (65536 * bcd2 (hour t) + 256 * bcd2 (minute t) + bcd2 (sec t))"

section \<open>The digits of a word\<close>

lemma nat_and_field: "(x :: nat) AND push_bit k (mask m) = x div 2 ^ k mod 2 ^ m * 2 ^ k"
proof -
  have "x AND push_bit k (mask m) = push_bit k (take_bit m (drop_bit k x))"
    by (rule bit_eqI) (auto simp: bit_simps)
  then show ?thesis
    by (simp add: push_bit_eq_mult take_bit_eq_mod drop_bit_eq_div)
qed

lemma unat_and_digits:
  "unat ((x :: u32) AND 0x0f) = unat x mod 16"
  "unat (x AND 0x0f0) = unat x div 16 mod 16 * 16"
  "unat (x AND 0x0f00) = unat x div 256 mod 16 * 256"
  "unat (x AND 0x0f000) = unat x div 4096 mod 16 * 4096"
  "unat (x AND 0x0f0000) = unat x div 65536 mod 16 * 65536"
  using nat_and_field [of "unat x" 0 4] nat_and_field [of "unat x" 4 4] nat_and_field [of "unat x" 8 4]
    nat_and_field [of "unat x" 12 4] nat_and_field [of "unat x" 16 4]
  by (simp_all add: unsigned_and_eq mask_eq_exp_minus_1 push_bit_eq_mult)

lemma digit_tests:
  assumes "n < 2 ^ 32"
  shows "(0x0a :: u32) \<le> of_nat n AND 0x0f \<longleftrightarrow> 10 \<le> n mod 16"
    and "(0x050 :: u32) < of_nat n AND 0x0f0 \<longleftrightarrow> 5 < n div 16 mod 16"
    and "(0x0a00 :: u32) \<le> of_nat n AND 0x0f00 \<longleftrightarrow> 10 \<le> n div 256 mod 16"
    and "(0x05000 :: u32) < of_nat n AND 0x0f000 \<longleftrightarrow> 5 < n div 4096 mod 16"
    and "(0x0a0000 :: u32) \<le> of_nat n AND 0x0f0000 \<longleftrightarrow> 10 \<le> n div 65536 mod 16"
    and "(0x0240000 :: u32) \<le> of_nat n \<longleftrightarrow> 0x0240000 \<le> n"
  using unat_of_nat_u32 [OF assms] unat_and_digits [of "of_nat n"]
  by (simp_all add: word_le_nat_alt word_less_nat_alt)

lemma of_nat_plus_numeral: "(of_nat n :: u32) + 1 = of_nat (n + 1)" "(of_nat n :: u32) + numeral k = of_nat (n + numeral k)"
  by simp_all

text \<open>The paths through \<open>rtcnext\<close>, one per carry.\<close>

lemma rtcnext_paths:
  assumes "n < 0x1000000"
  shows "(n + 1) mod 16 < 10 \<Longrightarrow> rtcnext (of_nat n) = of_nat (n + 1)"
    and "10 \<le> (n + 1) mod 16 \<Longrightarrow> (n + 7) div 16 mod 16 \<le> 5 \<Longrightarrow> rtcnext (of_nat n) = of_nat (n + 7)"
    and "10 \<le> (n + 1) mod 16 \<Longrightarrow> 5 < (n + 7) div 16 mod 16 \<Longrightarrow> (n + 167) div 256 mod 16 < 10 \<Longrightarrow>
      rtcnext (of_nat n) = of_nat (n + 167)"
    and "10 \<le> (n + 1) mod 16 \<Longrightarrow> 5 < (n + 7) div 16 mod 16 \<Longrightarrow> 10 \<le> (n + 167) div 256 mod 16 \<Longrightarrow>
      (n + 1703) div 4096 mod 16 \<le> 5 \<Longrightarrow> rtcnext (of_nat n) = of_nat (n + 1703)"
    and "10 \<le> (n + 1) mod 16 \<Longrightarrow> 5 < (n + 7) div 16 mod 16 \<Longrightarrow> 10 \<le> (n + 167) div 256 mod 16 \<Longrightarrow>
      5 < (n + 1703) div 4096 mod 16 \<Longrightarrow>
      rtcnext (of_nat n) = (let k = (if 10 \<le> (n + 42663) div 65536 mod 16 then n + 435879 else n + 42663)
        in if 0x0240000 \<le> k then 0 else of_nat k)"
proof -
  have b: "n + 1 < 2 ^ 32" "n + 7 < 2 ^ 32" "n + 167 < 2 ^ 32" "n + 1703 < 2 ^ 32" "n + 42663 < 2 ^ 32" "n + 435879 < 2 ^ 32"
    using assms by simp_all
  note t = digit_tests(1) [OF b(1)] digit_tests(2) [OF b(2)] digit_tests(3) [OF b(3)] digit_tests(4) [OF b(4)]
    digit_tests(5,6) [OF b(5)] digit_tests(6) [OF b(6)]
  have r: "rtcnext (of_nat n) =
    (if 10 \<le> (n + 1) mod 16
     then if 5 < (n + 7) div 16 mod 16
       then if 10 \<le> (n + 167) div 256 mod 16
         then if 5 < (n + 1703) div 4096 mod 16
           then if 10 \<le> (n + 42663) div 65536 mod 16
             then if 0x0240000 \<le> n + 435879 then 0 else of_nat (n + 435879)
             else if 0x0240000 \<le> n + 42663 then 0 else of_nat (n + 42663)
           else of_nat (n + 1703)
         else of_nat (n + 167)
       else of_nat (n + 7)
     else of_nat (n + 1))"
    unfolding rtcnext_def Let_def of_nat_plus_numeral add.assoc numeral_plus_numeral one_plus_numeral add_num_simps
    unfolding if_distrib [of "\<lambda>k. if 0x0240000 \<le> k then 0 else k"] t ..
  show "(n + 1) mod 16 < 10 \<Longrightarrow> rtcnext (of_nat n) = of_nat (n + 1)"
    unfolding r by (simp del: of_nat_add of_nat_Suc)
  show "10 \<le> (n + 1) mod 16 \<Longrightarrow> (n + 7) div 16 mod 16 \<le> 5 \<Longrightarrow> rtcnext (of_nat n) = of_nat (n + 7)"
    unfolding r by (simp del: of_nat_add of_nat_Suc)
  show "10 \<le> (n + 1) mod 16 \<Longrightarrow> 5 < (n + 7) div 16 mod 16 \<Longrightarrow> (n + 167) div 256 mod 16 < 10 \<Longrightarrow>
      rtcnext (of_nat n) = of_nat (n + 167)"
    unfolding r by (simp del: of_nat_add of_nat_Suc)
  show "10 \<le> (n + 1) mod 16 \<Longrightarrow> 5 < (n + 7) div 16 mod 16 \<Longrightarrow> 10 \<le> (n + 167) div 256 mod 16 \<Longrightarrow>
      (n + 1703) div 4096 mod 16 \<le> 5 \<Longrightarrow> rtcnext (of_nat n) = of_nat (n + 1703)"
    unfolding r by (simp del: of_nat_add of_nat_Suc)
  show "10 \<le> (n + 1) mod 16 \<Longrightarrow> 5 < (n + 7) div 16 mod 16 \<Longrightarrow> 10 \<le> (n + 167) div 256 mod 16 \<Longrightarrow>
      5 < (n + 1703) div 4096 mod 16 \<Longrightarrow>
      rtcnext (of_nat n) = (let k = (if 10 \<le> (n + 42663) div 65536 mod 16 then n + 435879 else n + 42663)
        in if 0x0240000 \<le> k then 0 else of_nat k)"
    unfolding r Let_def by (simp del: of_nat_add of_nat_Suc)
qed

lemma bcd2_digits [simp]: "b < 10 \<Longrightarrow> bcd2 (10 * a + b) = 16 * a + b"
  by (simp add: bcd2_def)

lemma last_digit: "n = a + k * (b + 16 * c) \<Longrightarrow> a < k \<Longrightarrow> b < 16 \<Longrightarrow> n div k mod 16 = (b :: nat)"
  by (simp add: div_add1_eq)

text \<open>
  The digits after each carry, for a time with the decimal digits \<open>h1 h0 : m1 m0 : s1 s0\<close>.
\<close>

lemma rtcnext_digits:
  assumes "h0 < 10" "m0 < 10" "s0 < 10" "m1 < 6" "s1 < 6" "10 * h1 + h0 < 24"
    and n: "n = 65536 * (16 * h1 + h0) + 256 * (16 * m1 + m0) + (16 * s1 + s0)"
  shows "rtcnext (of_nat n) =
    (if s0 < 9 then of_nat (n + 1)
     else if s1 < 5 then of_nat (n + 7)
     else if m0 < 9 then of_nat (n + 167)
     else if m1 < 5 then of_nat (n + 1703)
     else if 10 * h1 + h0 = 23 then 0
     else if h0 < 9 then of_nat (n + 42663) else of_nat (n + 435879))"
proof -
  have small: "n < 0x1000000" "h1 \<le> 2"
    using assms by simp_all
  have d1: "(n + 1) mod 16 = s0 + 1"
    using last_digit [of "n + 1" 0 1 "s0 + 1" "4096 * (16 * h1 + h0) + 16 * (16 * m1 + m0) + s1"] assms by simp
  have d2: "(n + 7) div 16 mod 16 = s1 + 1" if "s0 = 9"
    using last_digit [of "n + 7" 0 16 "s1 + 1" "256 * (16 * h1 + h0) + (16 * m1 + m0)"] assms that by simp
  have d3: "(n + 167) div 256 mod 16 = m0 + 1" if "s0 = 9" "s1 = 5"
    using last_digit [of "n + 167" 0 256 "m0 + 1" "16 * (16 * h1 + h0) + m1"] assms that by simp
  have d4: "(n + 1703) div 4096 mod 16 = m1 + 1" if "s0 = 9" "s1 = 5" "m0 = 9"
    using last_digit [of "n + 1703" 0 4096 "m1 + 1" "16 * h1 + h0"] assms that by simp
  have d5: "(n + 42663) div 65536 mod 16 = h0 + 1" if "s0 = 9" "s1 = 5" "m0 = 9" "m1 = 5"
    using last_digit [of "n + 42663" 0 65536 "h0 + 1" h1] assms that by simp
  note paths = rtcnext_paths [OF small(1)]
  consider "s0 < 9" | "s0 = 9" "s1 < 5" | "s0 = 9" "s1 = 5" "m0 < 9" | "s0 = 9" "s1 = 5" "m0 = 9" "m1 < 5"
    | "s0 = 9" "s1 = 5" "m0 = 9" "m1 = 5"
    using assms by linarith
  then show ?thesis
  proof cases
    case 1
    then show ?thesis using paths(1) d1 by (simp del: of_nat_add of_nat_Suc)
  next
    case 2
    then show ?thesis using paths(2) d1 d2 by (simp del: of_nat_add of_nat_Suc)
  next
    case 3
    then show ?thesis using paths(3) d1 d2 d3 by (simp del: of_nat_add of_nat_Suc)
  next
    case 4
    then show ?thesis using paths(4) d1 d2 d3 d4 by (simp del: of_nat_add of_nat_Suc)
  next
    case 5
    then have k: "n + 42663 = 65536 * (16 * h1 + h0 + 1)" "h0 = 9 \<Longrightarrow> n + 435879 = 65536 * (16 * (h1 + 1))"
      using n by simp_all
    have "0x0240000 \<le> n + 42663 \<longleftrightarrow> 10 * h1 + h0 = 23" if "h0 < 9"
      using assms(6) small(2) that unfolding k by (cases "h1 = 2") auto
    moreover have "\<not> 0x0240000 \<le> n + 435879" "10 * h1 + h0 \<noteq> 23" if "h0 = 9"
      using assms(6) that unfolding k(2) [OF that] by simp_all
    moreover have "10 \<le> h0 + 1 \<longleftrightarrow> h0 = 9"
      using assms(1) by auto
    ultimately show ?thesis
      using 5 paths(5) d1 d2 d3 d4 d5 assms(1) by (cases "h0 = 9") (simp_all del: of_nat_add of_nat_Suc)
  qed
qed

lemma rtcnext_bcd:
  assumes "tod_ok t"
  shows "rtcnext (bcd_tod t) = bcd_tod (tod_next t)"
proof -
  obtain h m s where t: "t = Tod h m s" and b: "h < 24" "m < 60" "s < 60"
    using assms by (cases t) (auto simp: tod_ok_def)
  define h1 h0 m1 m0 s1 s0 where "h1 = h div 10" "h0 = h mod 10" "m1 = m div 10" "m0 = m mod 10"
    "s1 = s div 10" "s0 = s mod 10"
  then have hms: "h = 10 * h1 + h0" "m = 10 * m1 + m0" "s = 10 * s1 + s0"
    and dig: "h0 < 10" "m0 < 10" "s0 < 10" "m1 < 6" "s1 < 6"
    using b by simp_all
  define n where "n = 65536 * (16 * h1 + h0) + 256 * (16 * m1 + m0) + (16 * s1 + s0)"
  have n: "bcd_tod t = of_nat n"
    using dig by (simp add: t bcd_tod_def hms n_def del: of_nat_add of_nat_mult)
  have "10 * h1 + h0 < 24"
    using b hms by simp
  note run = rtcnext_digits [OF dig this n_def]
  have succ: "bcd2 (10 * a + d + 1) = (if d = 9 then 16 * a + 16 else 16 * a + d + 1)" if "d < 10" for a d
    using bcd2_digits [of 0 "a + 1"] bcd2_digits [of "d + 1" a] that by (auto simp: algebra_simps)
  have z: "bcd2 0 = 0"
    by (simp add: bcd2_def)
  note sums = succ [OF dig(1), of h1] succ [OF dig(2), of m1] succ [OF dig(3), of s1]
  note bcd = t tod_next_def bcd_tod_def hms n_def z
  consider "s0 < 9" | "s0 = 9" "s1 < 5" | "s0 = 9" "s1 = 5" "m0 < 9" | "s0 = 9" "s1 = 5" "m0 = 9" "m1 < 5"
    | "s0 = 9" "s1 = 5" "m0 = 9" "m1 = 5" "h0 = 9" | "s0 = 9" "s1 = 5" "m0 = 9" "m1 = 5" "h0 < 9"
    using dig by linarith
  then show ?thesis
  proof cases
    case 6
    then show ?thesis
      using sums b(1) dig unfolding n unfolding run unfolding bcd by (simp add: z del: of_nat_add of_nat_mult of_nat_Suc)
  next
    case 5
    then show ?thesis
      using sums b(1) hms(1) dig unfolding n unfolding run unfolding bcd by (simp add: z ac_simps del: of_nat_add of_nat_mult of_nat_Suc)
  qed (use sums dig in \<open>unfold n, unfold run, unfold bcd, simp_all add: z del: of_nat_add of_nat_mult of_nat_Suc, simp_all add: ac_simps del: of_nat_add of_nat_mult of_nat_Suc\<close>)
qed

section \<open>The order of times\<close>

lemma bcd2_less: "b < 100 \<Longrightarrow> bcd2 b < 160" "a < b \<Longrightarrow> bcd2 a < bcd2 b"
proof -
  show "b < 100 \<Longrightarrow> bcd2 b < 160"
    by (simp add: bcd2_def) (use div_le_mono [of b 99 10] in simp)
  have "bcd2 n = n + 6 * (n div 10)" for n
    unfolding bcd2_def using div_mult_mod_eq [of n 10] by simp
  then show "a < b \<Longrightarrow> bcd2 a < bcd2 b"
    using div_le_mono [of a b 10] by (simp add: add_less_le_mono)
qed

lemma unat_bcd_tod:
  assumes "tod_ok t"
  shows "unat (bcd_tod t) = 65536 * bcd2 (hour t) + 256 * bcd2 (minute t) + bcd2 (sec t)"
proof -
  have "bcd2 (hour t) < 160" "bcd2 (minute t) < 160" "bcd2 (sec t) < 160"
    using assms by (simp_all add: tod_ok_def bcd2_less(1))
  then show ?thesis
    unfolding bcd_tod_def by (subst unat_of_nat_u32) simp_all
qed

lemma bcd_tod_less:
  assumes "tod_ok t" "tod_ok u" "t < u"
  shows "bcd_tod t < bcd_tod u"
proof -
  have "bcd2 (minute t) < 160" "bcd2 (sec t) < 160"
    using assms by (simp_all add: tod_ok_def bcd2_less(1))
  note small = this
  consider "bcd2 (hour t) < bcd2 (hour u)" | "hour t = hour u" "bcd2 (minute t) < bcd2 (minute u)"
    | "hour t = hour u" "minute t = minute u" "bcd2 (sec t) < bcd2 (sec u)"
    using assms(3) bcd2_less(2) by (auto simp: less_tod_def)
  then have "unat (bcd_tod t) < unat (bcd_tod u)"
    using assms(1,2) small by cases (simp_all add: unat_bcd_tod)
  then show ?thesis
    by (simp add: word_less_nat_alt)
qed

section \<open>The running clock\<close>

definition tod_of :: "nat \<Rightarrow> tod" where
  "tod_of n = Tod (n div 3600 mod 24) (n div 60 mod 60) (n mod 60)"

lemma tod_of_ok [simp]: "tod_ok (tod_of n)"
  by (simp add: tod_of_def tod_ok_def)

lemma tod_next_of: "tod_next (tod_of n) = tod_of (n + 1)"
proof -
  have carry: "(k + 1) div 60 = (if k mod 60 = 59 then k div 60 + 1 else k div 60)"
    "(k + 1) mod 60 = (if k mod 60 = 59 then 0 else k mod 60 + 1)" for k :: nat
    by (simp_all add: div_Suc mod_Suc)
  have c24: "(k + 1) mod 24 = (if k mod 24 = 23 then 0 else k mod 24 + 1)" for k :: nat
    by (simp add: mod_Suc)
  have h: "k div 3600 = k div 60 div 60" for k :: nat
    by (simp add: div_mult2_eq [symmetric])
  have lt: "n mod 60 < 60" "n div 60 mod 60 < 60" "n div 60 div 60 mod 24 < 24"
    by simp_all
  show ?thesis
    unfolding tod_next_def tod_of_def h using lt
    by (cases "n mod 60 = 59"; cases "n div 60 mod 60 = 59"; cases "n div 60 div 60 mod 24 = 23")
      (simp_all add: carry c24 del: One_nat_def add_Suc_right)
qed

lemma bcd_tod_of_0: "bcd_tod (tod_of n) = 0 \<longleftrightarrow> n mod 86400 = 0"
proof -
  have decomp: "n mod (a * b) = 0 \<longleftrightarrow> n div a mod b = 0 \<and> n mod a = 0" if "0 < a" for a b :: nat
    using that mod_mult2_eq [of n a b] by simp
  have "unat (bcd_tod (tod_of n)) = 0 \<longleftrightarrow> n div 60 div 60 mod 24 = 0 \<and> n div 60 mod 60 = 0 \<and> n mod 60 = 0"
    by (subst unat_bcd_tod) (auto simp: tod_of_def tod_ok_def bcd2_def div_mult2_eq [symmetric])
  also have "\<dots> \<longleftrightarrow> n mod 86400 = 0"
    using decomp [of 60 1440] decomp [of 60 24] mod_mult2_eq [of "n div 60" 60 24] by auto
  finally show ?thesis
    by (metis unat_0 unat_eq_zero)
qed

text \<open>The days of April 2017, from 0: the date the task starts with is day 7.\<close>

definition april :: "nat \<Rightarrow> u32" where
  "april d = 0x20170400 + of_nat (bcd2 (d + 1))"

lemma april_next: "d < 30 \<Longrightarrow> rtcdatenext (april d) = Some (april ((d + 1) mod 30))"
proof -
  have "list_all (\<lambda>d. rtcdatenext (april d) = Some (april ((d + 1) mod 30))) [0..<30]"
    by code_simp
  then show "d < 30 \<Longrightarrow> ?thesis"
    by (simp add: list_all_iff)
qed

fun clock_events :: "hist \<Rightarrow> nat" where
  "clock_events [] = 0"
| "clock_events (Call trap a b c v # h) =
    clock_events h + (if trap = TRAPID_WAIT \<and> v AND SWINT_CLOCK \<noteq> 0 then 1 else 0)"
| "clock_events (_ # h) = clock_events h"

fun rtc_run :: "env \<Rightarrow> nat \<Rightarrow> rtc \<times> hist \<Rightarrow> (rtc \<times> hist) option" where
  "rtc_run env 0 c = Some c"
| "rtc_run env (Suc k) c = Option.bind (rtctask_step env c) (rtc_run env k)"

definition rtc_inv :: "rtc \<times> hist \<Rightarrow> bool" where
  "rtc_inv = (\<lambda>(r, h). rtcclock r = bcd_tod (tod_of (clock_events h)) \<and>
    rtcdate r = april ((7 + clock_events h div 86400) mod 30))"

lemma rtctask_step_inv:
  assumes "rtc_inv c"
  shows "\<exists>c'. rtctask_step env c = Some c' \<and> rtc_inv c'"
proof -
  obtain r h where c: "c = (r, h)"
    by fastforce
  define n where "n = clock_events h"
  have inv: "rtcclock r = bcd_tod (tod_of n)" "rtcdate r = april ((7 + n div 86400) mod 30)"
    using assms by (simp_all add: c rtc_inv_def n_def)
  define event where "event = env h (QCall TRAPID_WAIT SWINT_CLOCK (- 1) 0)"
  have nxt: "rtcnext (rtcclock r) = bcd_tod (tod_of (n + 1))"
    by (simp only: inv rtcnext_bcd [OF tod_of_ok] tod_next_of)
  have day: "(n + 1) div 86400 = (if (n + 1) mod 86400 = 0 then n div 86400 + 1 else n div 86400)"
    by (simp add: div_Suc)
  have date: "rtcdatenext (rtcdate r) = Some (april ((7 + (n div 86400 + 1)) mod 30))"
    using april_next [of "(7 + n div 86400) mod 30"] by (simp add: inv mod_Suc_eq)
  show ?thesis
    using nxt day date inv bcd_tod_of_0 [of "n + 1"]
    by (cases "event AND SWINT_CLOCK = 0"; cases "(n + 1) mod 86400 = 0")
      (simp_all add: c rtctask_step_def syscall_def Let_def event_def [symmetric] rtc_inv_def n_def [symmetric] del: One_nat_def)
qed

lemma rtc_run_inv: "rtc_inv c \<Longrightarrow> \<exists>c'. rtc_run env k c = Some c' \<and> rtc_inv c'"
proof (induction k arbitrary: c)
  case (Suc k)
  then show ?case
    using rtctask_step_inv [OF Suc.prems, of env] by auto
qed simp

section \<open>Properties\<close>

text \<open>
  C14. \<open>rtcnext\<close> on a time of day in binary-coded decimals is the next second of that time, through all
  carries and midnight, and comparing two such words as numbers, as the application does,
  compares the times.
\<close>

theorem rtcnext_refines:
  assumes "tod_ok t" "tod_ok u"
  shows "rtcnext (bcd_tod t) = bcd_tod (tod_next t) \<and> (bcd_tod t < bcd_tod u \<longleftrightarrow> t < u) \<and> (bcd_tod t = bcd_tod u \<longleftrightarrow> t = u)"
proof (cases t u rule: linorder_cases)
  case less
  then show ?thesis
    using rtcnext_bcd [OF assms(1)] bcd_tod_less [OF assms less] by (simp add: less_imp_neq)
next
  case greater
  then show ?thesis
    using rtcnext_bcd [OF assms(1)] bcd_tod_less [OF assms(2,1) greater] by (simp add: less_imp_neq [symmetric] less_not_sym)
qed (simp add: rtcnext_bcd [OF assms(2)])

text \<open>
  C15. The clock task keeps time but not the date: after any number of rounds the clock shows
  the seconds of the clock events it was given, modulo a day, while the date goes through the 30 days of
  April 2017 over and over, because a new month is never written to the date.
\<close>

theorem rtctask_keeps_time:
  "\<exists>r' h'. rtc_run env k (rtc_start r, []) = Some (r', h') \<and>
    rtcclock r' = bcd_tod (tod_of (clock_events h')) \<and>
    rtcdate r' = april ((7 + clock_events h' div 86400) mod 30)"
proof -
  have "rtc_inv (rtc_start r, [])"
    by (simp add: rtc_inv_def rtc_start_def tod_of_def bcd_tod_def bcd2_def april_def)
  from rtc_run_inv [OF this, of env k] show ?thesis
    by (auto simp: rtc_inv_def)
qed

text \<open>
  Where \<open>rtcdatenext\<close> reads outside its table: exactly for a month whose low digit is 0, such as
  October (month 0x10), it reads \<open>days_per_month[-1]\<close>.
\<close>

theorem rtcdatenext_out_of_bounds:
  "rtcdatenext today = None \<longleftrightarrow> today AND 0x0f00 = 0"
proof -
  let ?lo = "drop_bit 8 today AND 0x0f" and ?hi = "if today AND 0x0100 \<noteq> 0 then 10 else (0 :: u32)"
  have "unat (drop_bit 8 today) = unat today div 256"
    unfolding unat_drop_bit_eq unfolding drop_bit_eq_div by simp
  then have lo: "unat ?lo = unat today div 256 mod 16"
    by (simp only: unat_and_digits(1))
  then have "unat ?lo < 16"
    by simp
  then have "unat (?lo + ?hi) = unat ?lo + unat ?hi"
    by (simp add: unat_plus_if')
  moreover define k where "k = unat ?lo"
  ultimately have "rtc_month today = int (k + unat ?hi)"
    unfolding rtc_month_def uint_int_unat by (simp only:)
  moreover have "rtcdatenext today = None \<longleftrightarrow> rtc_month today \<le> 0"
    by (auto simp: rtcdatenext_def Let_def days_per_month_def)
  moreover have "today AND 0x0f00 = 0 \<longleftrightarrow> k = 0"
    unfolding k_def using unat_and_digits(3) [of today] lo by (metis mult_is_0 unat_eq_zero zero_neq_numeral)
  moreover have "today AND 0x0100 = 0" if "today AND 0x0f00 = 0"
  proof -
    have "today AND 0x0100 = (today AND 0x0f00) AND 0x0100"
      by (simp add: and.assoc)
    with that show ?thesis
      by simp
  qed
  ultimately show ?thesis
    by auto
qed

section \<open>Witnesses\<close>

theorem rtcnext_refines_witness:
  "rtcnext 0x235959 = 0 \<and> (0x095959 :: u32) < 0x100000"
  using rtcnext_refines [of "Tod 23 59 59" "Tod 10 0 0"] rtcnext_refines [of "Tod 9 59 59" "Tod 10 0 0"]
  by (simp add: tod_ok_def bcd_tod_def bcd2_def tod_next_def)

end
