(* ===== verification/Udiv.thy ===== *)
theory Udiv
  imports Prelude "HOL-Library.Signed_Division"
begin

text \<open>
  The 64-bit division of the C library, sw/zlib/udiv.c and umod.c: a CPU with a 32-bit divider
  computes the 64-bit quotient by counting leading zeros and either one 32-bit division or a shift-and-subtract
  loop. \<open>None\<close> is the divide-by-zero trap of the 32-bit divider. The theory proves the routines
  equivalent to the division of 64-bit words, unsigned and signed.
\<close>

section \<open>The code\<close>

primrec bitrev_loop :: "nat \<Rightarrow> u32 \<Rightarrow> u32 \<Rightarrow> u32" where
  "bitrev_loop 0 r b = r"
| "bitrev_loop (Suc n) r b = bitrev_loop n (push_bit 1 r OR (b AND 1)) (drop_bit 1 b)"

definition zip_bitrev :: "u32 \<Rightarrow> u32" where
  "zip_bitrev a = bitrev_loop 32 0 a"

text \<open>One of the halving steps of \<open>cltz\<close>.\<close>

definition cltz_step :: "u32 \<Rightarrow> nat \<Rightarrow> nat \<times> u32 \<Rightarrow> nat \<times> u32" where
  "cltz_step msk k = (\<lambda>(cnt, hv). if hv AND msk = 0 then (cnt + k, drop_bit k hv) else (cnt, hv))"

definition cltz_steps :: "nat \<Rightarrow> u32 \<Rightarrow> nat" where
  "cltz_steps cnt0 hv0 =
    (let (cnt, hv) = cltz_step 0x03 2 (cltz_step 0x0f 4 (cltz_step 0x0ff 8 (cltz_step 0x0ffff 16 (cnt0, hv0))))
     in if hv AND 0x01 = 0 then cnt + 1 else cnt)"

definition cltz :: "u64 \<Rightarrow> int" where
  "cltz v =
    (let hv0 = ucast (drop_bit 32 v) :: u32;
         (cnt, hv) = (if hv0 = 0 then (32, ucast (v AND 0x0ffffffff)) else (0, hv0))
     in int (cltz_steps cnt (zip_bitrev hv)))"

text \<open>The 32-bit divide instruction.\<close>

definition div32 :: "u32 \<Rightarrow> u32 \<Rightarrow> u32 option" where
  "div32 a b = (if b = 0 then None else Some (a div b))"

lemma unat_drop_bit_1: "unat (drop_bit (Suc 0) m) = unat m div 2"
  by (simp add: unat_drop_bit_div)

function udiv_loop :: "u64 \<Rightarrow> u64 \<Rightarrow> u64 \<Rightarrow> u64 \<Rightarrow> u64" where
  "udiv_loop a b m r =
    (if m > 0
     then let (a', r') = (if a \<ge> b then (a - b, r OR m) else (a, r))
          in udiv_loop a' (drop_bit 1 b) (drop_bit 1 m) r'
     else r)"
  by pat_completeness auto

termination
  by (relation "measure (\<lambda>(a, b, m, r). unat m)") (simp_all add: unat_drop_bit_1 word_less_nat_alt)

declare udiv_loop.simps [simp del]

definition udivdi3 :: "u64 \<Rightarrow> u64 \<Rightarrow> u64 option" where
  "udivdi3 a b =
    (if a < b then Some 0
     else if drop_bit 32 b = 0 \<and> drop_bit 32 a = 0 then map_option ucast (div32 (ucast a) (ucast b))
     else let la = cltz a; lb = cltz b; a1 = push_bit (nat la) a
       in if lb - la < 32 \<and> push_bit (nat la) b AND 0x0ffffffff = 0
          then map_option ucast (div32 (ucast (drop_bit 32 a1)) (ucast (drop_bit 32 (push_bit (nat la) b))))
          else Some (udiv_loop a1 (push_bit (nat lb) b) (push_bit (nat (lb - la)) 1) 0))"

definition divdi3 :: "u64 \<Rightarrow> u64 \<Rightarrow> u64 option" where
  "divdi3 a b =
    (let (s, a) = (if a <s 0 then (1, - a) else (0, a)) :: u32 \<times> u64;
         (s, b) = (if b <s 0 then (s XOR 1, - b) else (s, b))
     in map_option (\<lambda>r. if s \<noteq> 0 then - r else r) (udivdi3 a b))"

definition umoddi3 :: "u64 \<Rightarrow> u64 \<Rightarrow> u64 option" where
  "umoddi3 a b = map_option (\<lambda>r. a - r * b) (udivdi3 a b)"

section \<open>Counting leading zeros\<close>

lemma bit_bitrev_loop:
  "n \<le> 32 \<Longrightarrow> i < 32 \<Longrightarrow> bit (bitrev_loop n r b) i = (if i < n then bit b (n - 1 - i) else bit r (i - n))"
proof (induction n arbitrary: r b)
  case (Suc n)
  consider "i < n" | "i = n" | "n < i"
    by linarith
  then show ?case
  proof cases
    case 1
    then have "1 + (n - 1 - i) = n - i"
      by simp
    with 1 Suc show ?thesis
      by (simp add: bit_drop_bit_eq)
  next
    case 2
    have "bit (push_bit 1 r OR (b AND 1)) 0 = bit b 0"
      by (simp add: bit_0 even_or_iff even_and_iff)
    with 2 Suc show ?thesis by simp
  next
    case 3
    then obtain j where j: "i = Suc (n + j)"
      using less_iff_Suc_add by auto
    have "bit (push_bit 1 r OR (b AND 1)) (Suc j) = bit r j" if "Suc j < 32"
      unfolding bit_or_iff bit_and_iff bit_1_iff bit_push_bit_iff using that by simp
    with j Suc show ?thesis by simp
  qed
qed simp

lemma bit_zip_bitrev: "i < 32 \<Longrightarrow> bit (zip_bitrev a) i = bit a (31 - i)"
  by (simp add: zip_bitrev_def bit_bitrev_loop)

text \<open>What the steps keep: the low \<open>cnt\<close> bits of the word are clear, and one of the next \<open>w\<close> is set.\<close>

definition tz_inv :: "nat \<Rightarrow> u32 \<Rightarrow> nat \<Rightarrow> nat \<times> u32 \<Rightarrow> bool" where
  "tz_inv c0 x w = (\<lambda>(cnt, hv). \<exists>n. cnt = c0 + n \<and> hv = drop_bit n x \<and> (\<forall>i<n. \<not> bit x i) \<and> (\<exists>i<w. bit hv i))"

lemma and_mask_0_iff: "(x :: 'a::len word) AND mask k = 0 \<longleftrightarrow> (\<forall>i<k. \<not> bit x i)"
  by (auto simp: bit_eq_iff bit_simps dest: bit_imp_le_length)

lemma cltz_step_inv:
  assumes "tz_inv c0 x (2 * k) c" "msk = mask k"
  shows "tz_inv c0 x k (cltz_step msk k c)"
proof -
  obtain n i where i: "i < 2 * k" "bit (drop_bit n x) i" and hv: "c = (c0 + n, drop_bit n x)" "\<forall>i<n. \<not> bit x i"
    using assms(1) by (auto simp: tz_inv_def)
  show ?thesis
  proof (cases "drop_bit n x AND mask k = 0")
    case True
    then have low: "\<forall>i<k. \<not> bit (drop_bit n x) i"
      by (simp add: and_mask_0_iff)
    then have "k \<le> i"
      using i by (meson leI)
    then have "bit (drop_bit (n + k) x) (i - k)" "i - k < k"
      using i by (simp_all add: bit_drop_bit_eq)
    moreover have "\<not> bit x j" if "j < n + k" for j
    proof (cases "j < n")
      case False
      then have "bit x j = bit (drop_bit n x) (j - n)"
        by (simp add: bit_drop_bit_eq)
      with low that False show ?thesis by simp
    qed (use hv in simp)
    moreover have "cltz_step msk k c = (c0 + (n + k), drop_bit (n + k) x)"
      using True by (simp add: hv cltz_step_def assms(2) add.commute)
    ultimately show ?thesis
      unfolding tz_inv_def by (simp only: prod.case) (intro exI [of _ "n + k"] conjI allI impI refl exI [of _ "i - k"])
  next
    case False
    then show ?thesis
      using hv by (auto simp: cltz_step_def tz_inv_def and_mask_0_iff assms(2))
  qed
qed

lemma cltz_steps_count:
  assumes "hv \<noteq> 0"
  shows "\<exists>n<32. cltz_steps c0 (zip_bitrev hv) = c0 + n \<and> bit hv (31 - n) \<and> (\<forall>j. 31 - n < j \<longrightarrow> \<not> bit hv j)"
proof -
  let ?x = "zip_bitrev hv"
  obtain i where i: "bit hv i" "i < 32"
    using assms(1) by (auto simp: bit_eq_iff dest: bit_imp_le_length)
  then have "bit ?x (31 - i)"
    by (simp add: bit_zip_bitrev)
  then have "tz_inv c0 ?x (2 * 16) (c0, ?x)"
    by (auto simp: tz_inv_def intro!: exI [of _ "31 - i"])
  then have "tz_inv c0 ?x (2 * 8) (cltz_step 0x0ffff 16 (c0, ?x))"
    using cltz_step_inv [of c0 ?x 16] by (simp add: mask_eq_exp_minus_1)
  then have "tz_inv c0 ?x (2 * 4) (cltz_step 0x0ff 8 (cltz_step 0x0ffff 16 (c0, ?x)))"
    using cltz_step_inv [of c0 ?x 8] by (simp add: mask_eq_exp_minus_1)
  then have "tz_inv c0 ?x (2 * 2) (cltz_step 0x0f 4 (cltz_step 0x0ff 8 (cltz_step 0x0ffff 16 (c0, ?x))))"
    using cltz_step_inv [of c0 ?x 4] by (simp add: mask_eq_exp_minus_1)
  then have "tz_inv c0 ?x (2 * 1) (cltz_step 0x03 2 (cltz_step 0x0f 4 (cltz_step 0x0ff 8 (cltz_step 0x0ffff 16 (c0, ?x)))))"
    using cltz_step_inv [of c0 ?x 2] by (simp add: mask_eq_exp_minus_1)
  then have "tz_inv c0 ?x 1 (cltz_step 0x01 1 (cltz_step 0x03 2 (cltz_step 0x0f 4 (cltz_step 0x0ff 8 (cltz_step 0x0ffff 16 (c0, ?x))))))"
    using cltz_step_inv [of c0 ?x 1] by (simp add: mask_eq_exp_minus_1)
  moreover have "cltz_steps c0 ?x = fst (cltz_step 0x01 1 (cltz_step 0x03 2 (cltz_step 0x0f 4 (cltz_step 0x0ff 8 (cltz_step 0x0ffff 16 (c0, ?x))))))"
    unfolding cltz_steps_def Let_def cltz_step_def [of 1] by (simp split: prod.splits)
  ultimately obtain n where n: "cltz_steps c0 ?x = c0 + n" "\<forall>i<n. \<not> bit ?x i" "bit ?x n"
    by (auto simp: tz_inv_def bit_drop_bit_eq)
  have small: "n < 32"
    using n(3) by (auto dest: bit_imp_le_length)
  have "\<not> bit hv j" if "31 - n < j" for j
  proof
    assume "bit hv j"
    then have "j < 32"
      by (auto dest: bit_imp_le_length)
    with \<open>bit hv j\<close> have "bit ?x (31 - j)"
      by (simp add: bit_zip_bitrev)
    with n(2) that \<open>j < 32\<close> show False
      by auto
  qed
  with n small bit_zip_bitrev [OF small, of hv] show ?thesis
    by blast
qed

text \<open>The number of leading zeros, for a number that is not 0. For 0 the function gives 63.\<close>

lemma unat_bit_bounds:
  fixes v :: "'a::len word"
  assumes "bit v n" "\<forall>j>n. \<not> bit v j"
  shows "2 ^ n \<le> unat v" "unat v < 2 ^ (n + 1)"
proof -
  show "2 ^ n \<le> unat v"
  proof (rule ccontr)
    assume "\<not> 2 ^ n \<le> unat v"
    then have "take_bit n (unat v) = unat v"
      by (simp add: take_bit_nat_eq_self)
    moreover have "bit (unat v) n"
      using assms(1) by (simp add: bit_unsigned_iff)
    ultimately show False
      by (metis bit_take_bit_iff less_irrefl)
  qed
  have "drop_bit (n + 1) v = 0"
    using assms(2) by (intro bit_eqI) (simp add: bit_drop_bit_eq)
  then have "unat v div 2 ^ (n + 1) = 0"
    by (metis unat_0 unat_drop_bit_div)
  then show "unat v < 2 ^ (n + 1)"
    by (simp add: div_eq_0_iff)
qed

lemma cltz_bounds:
  assumes "v \<noteq> 0"
  shows "\<exists>n<64. cltz v = int n \<and> 2 ^ (63 - n) \<le> unat v \<and> unat v < 2 ^ (64 - n)"
proof -
  let ?h = "ucast (drop_bit 32 v) :: u32" and ?l = "ucast (v AND 0x0ffffffff) :: u32"
  have h: "bit ?h i \<longleftrightarrow> i < 32 \<and> bit v (i + 32)" for i
    by (auto simp: bit_simps add.commute)
  have m: "(0x0ffffffff :: u64) = mask 32"
    by (simp add: mask_eq_exp_minus_1)
  have l: "bit ?l i \<longleftrightarrow> i < 32 \<and> bit v i" for i
    unfolding m by (auto simp: bit_simps)
  have v: "bit v j \<Longrightarrow> j < 64" for j
    by (auto dest: bit_imp_le_length)
  show ?thesis
  proof (cases "?h = 0")
    case True
    then have hi: "\<not> bit v j" if "32 \<le> j" for j
      using h [of "j - 32"] v [of j] that by (auto simp: True)
    have "?l \<noteq> 0"
    proof
      assume "?l = 0"
      then have "\<not> bit v j" for j
        using l [of j] hi [of j] by (cases "j < 32") auto
      then have "v = 0"
        by (simp add: bit_eq_iff)
      with assms show False ..
    qed
    from cltz_steps_count [OF this, of 32] obtain n where n: "n < 32" "cltz_steps 32 (zip_bitrev ?l) = 32 + n" "bit ?l (31 - n)"
      "\<forall>j. 31 - n < j \<longrightarrow> \<not> bit ?l j"
      by blast
    have "cltz v = int (32 + n)"
      using True n(2) by (simp add: cltz_def)
    moreover have top: "bit v (31 - n)"
      using n(3) l by blast
    have low: "\<forall>j>31 - n. \<not> bit v j"
      using n(4) l hi by (meson not_le)
    have "Suc (31 - n) = 32 - n"
      using n(1) by simp
    with unat_bit_bounds [OF top low] have "2 ^ (31 - n) \<le> unat v" "unat v < 2 ^ (32 - n)"
      by simp_all
    ultimately show ?thesis
      using n(1) by (intro exI [of _ "32 + n"]) simp
  next
    case False
    from cltz_steps_count [OF this, of 0] obtain n where n: "n < 32" "cltz_steps 0 (zip_bitrev ?h) = n" "bit ?h (31 - n)"
      "\<forall>j. 31 - n < j \<longrightarrow> \<not> bit ?h j"
      by auto
    have "cltz v = int n"
      using False n(2) by (simp add: cltz_def)
    moreover have "bit v (63 - n)"
      using n(1,3) h [of "31 - n"] by simp
    moreover have "\<forall>j>63 - n. \<not> bit v j"
    proof (intro allI impI notI)
      fix j
      assume "63 - n < j" "bit v j"
      with n(1,4) h [of "j - 32"] v [of j] show False by auto
    qed
    moreover have e: "63 - n + 1 = 64 - n"
      using n(1) by simp
    ultimately have "2 ^ (63 - n) \<le> unat v" "unat v < 2 ^ (64 - n)"
      using unat_bit_bounds [of v "63 - n", unfolded e] by simp_all
    then show ?thesis
      using n(1) \<open>cltz v = int n\<close> by (intro exI [of _ n]) simp
  qed
qed

section \<open>The shift-and-subtract loop\<close>

lemma unat_or_pow2:
  assumes "unat (r :: u64) mod 2 ^ (k + 1) = 0" "k < 64"
  shows "unat (r OR 2 ^ k) = unat r + 2 ^ k"
proof -
  have "take_bit (k + 1) (unat r) = 0"
    using assms(1) by (simp add: take_bit_eq_mod)
  then have "\<not> bit (unat r) k"
    by (metis bit_0_eq bit_take_bit_iff bot_apply bot_bool_def less_add_one)
  then have "unat r + 2 ^ k = unat r OR 2 ^ k"
    by (intro disjunctive_add) (auto simp: bit_exp_iff)
  then show ?thesis
    using assms(2) by (simp add: unsigned_or_eq unat_pow2)
qed

lemma mod_pow_Suc: "(x :: nat) mod 2 ^ Suc k = 0 \<Longrightarrow> x mod 2 ^ k = 0"
  by (metis dvd_eq_mod_eq_0 le_imp_power_dvd dvd_trans lessI less_imp_le)

lemma pow2_half:
  assumes "Suc k < 64"
  shows "(2 ^ Suc k :: u64) > 0" "drop_bit 1 (2 ^ Suc k :: u64) = 2 ^ k"
proof -
  have m: "unat (2 ^ Suc k :: u64) = 2 ^ Suc k" "unat (2 ^ k :: u64) = 2 ^ k"
    using unat_pow2 [of "Suc k", where 'a = 64] unat_pow2 [of k, where 'a = 64] assms by simp_all
  then show "(2 ^ Suc k :: u64) > 0"
    by (simp only: word_less_nat_alt unat_0) simp
  have "(2 :: nat) ^ Suc k div 2 = 2 ^ k"
    by simp
  with m unat_drop_bit_1 [of "2 ^ Suc k :: u64"] show "drop_bit 1 (2 ^ Suc k :: u64) = 2 ^ k"
    by (simp add: word_unat_eq_iff del: power_Suc)
qed

lemma udiv_loop_quotient:
  assumes "unat b = d * 2 ^ k" "0 < d" "unat a < 2 * unat b" "k < 64" "unat r mod 2 ^ (k + 1) = 0"
  shows "unat (udiv_loop a b (2 ^ k) r) = unat r + unat a div d"
  using assms
proof (induction k arbitrary: a b r)
  case 0
  have q: "unat a div d = (if d \<le> unat a then 1 else 0)"
    using 0 by (auto intro: div_nat_eqI)
  have "unat (r OR 1) = unat r + 1"
    using unat_or_pow2 [of r 0] 0(5) by simp
  with 0 q show ?case
    by (subst udiv_loop.simps) (simp add: udiv_loop.simps [of _ _ 0] word_le_nat_alt)
next
  case (Suc k)
  have pos: "(2 ^ Suc k :: u64) > 0" and half: "drop_bit 1 (2 ^ Suc k :: u64) = 2 ^ k"
    using pow2_half [OF Suc.prems(4)] by simp_all
  have b: "unat (drop_bit 1 b) = d * 2 ^ k"
    using Suc.prems(1) unat_drop_bit_1 [of b] by simp
  show ?case
  proof (cases "b \<le> a")
    case True
    then have ab: "unat (a - b) = unat a - unat b" "unat b \<le> unat a"
      by (simp_all add: unat_sub word_le_nat_alt)
    have r: "unat (r OR 2 ^ Suc k) = unat r + 2 ^ Suc k"
      by (rule unat_or_pow2) (use Suc.prems in simp_all)
    have "unat (udiv_loop (a - b) (drop_bit 1 b) (2 ^ k) (r OR 2 ^ Suc k)) = unat (r OR 2 ^ Suc k) + unat (a - b) div d"
      using Suc.prems ab r b mod_pow_Suc [of "unat r" "Suc k"] by (intro Suc.IH) (simp_all)
    moreover have "unat a div d = 2 ^ Suc k + unat (a - b) div d"
    proof -
      have "unat a = unat (a - b) + 2 ^ Suc k * d"
        using ab Suc.prems(1) by (simp add: mult.commute)
      with Suc.prems(2) show ?thesis
        by simp
    qed
    ultimately show ?thesis
      using True pos half r by (subst udiv_loop.simps) (simp del: power_Suc)
  next
    case False
    then have "unat a < unat b"
      by (simp add: word_le_nat_alt)
    then have "unat (udiv_loop a (drop_bit 1 b) (2 ^ k) r) = unat r + unat a div d"
      using Suc.prems b mod_pow_Suc [of "unat r" "Suc k"] by (intro Suc.IH) simp_all
    then show ?thesis
      using False pos half by (subst udiv_loop.simps) (simp del: power_Suc)
  qed
qed

text \<open>With a divisor of 0 the loop sets every bit of the quotient.\<close>

lemma udiv_loop_0:
  assumes "k < 64" "unat r mod 2 ^ (k + 1) = 0"
  shows "unat (udiv_loop a 0 (2 ^ k) r) + 1 = unat r + 2 ^ (k + 1)"
  using assms
proof (induction k arbitrary: a r)
  case 0
  have "unat (r OR 1) = unat r + 1"
    using unat_or_pow2 [of r 0] 0(2) by simp
  then show ?case
    by (subst udiv_loop.simps) (simp add: udiv_loop.simps [of _ _ 0])
next
  case (Suc k)
  have r: "unat (r OR 2 ^ Suc k) = unat r + 2 ^ Suc k"
    by (rule unat_or_pow2) (use Suc.prems in simp_all)
  have "unat (udiv_loop a 0 (2 ^ k) (r OR 2 ^ Suc k)) + 1 = unat (r OR 2 ^ Suc k) + 2 ^ (k + 1)"
    using Suc.prems r mod_pow_Suc [of "unat r" "Suc k"] by (intro Suc.IH) simp_all
  moreover have "(2 ^ Suc k :: u64) > 0" "drop_bit 1 (2 ^ Suc k :: u64) = 2 ^ k"
    using pow2_half [of k] Suc.prems(1) by simp_all
  ultimately show ?case
    using r by (subst udiv_loop.simps) (simp del: power_Suc, simp)
qed

section \<open>Unsigned division\<close>

lemma unat_push_bit_u64: "unat (v :: u64) * 2 ^ n < 2 ^ 64 \<Longrightarrow> unat (push_bit n v) = unat v * 2 ^ n"
  unfolding unsigned_push_bit_eq by (simp add: push_bit_eq_mult take_bit_nat_eq_self)

lemma unat_u64_less: "unat (v :: u64) < 2 ^ 64"
  by (rule order_less_le_trans [OF unsigned_less]) simp

lemma unat_low: "drop_bit 32 (v :: u64) = 0 \<longleftrightarrow> unat v < 2 ^ 32"
proof -
  have "drop_bit 32 v = 0 \<longleftrightarrow> unat v div 2 ^ 32 = 0"
    by (metis unat_drop_bit_div unat_eq_zero)
  then show ?thesis
    by (simp add: div_eq_0_iff)
qed

lemma div32_64:
  assumes "unat (a :: u64) < 2 ^ 32" "unat (b :: u64) < 2 ^ 32" "b \<noteq> 0"
  shows "map_option ucast (div32 (ucast a) (ucast b)) = Some (a div b)"
proof -
  have u: "unat (ucast a :: u32) = unat a" "unat (ucast b :: u32) = unat b"
    using assms by (simp_all add: unat_ucast_id)
  then have "(ucast b :: u32) \<noteq> 0"
    using assms(3) by (metis unat_0 unat_eq_zero)
  moreover have "unat (ucast (ucast a div ucast b :: u32) :: u64) = unat (a div b)"
  proof -
    have "unat a div unat b < 2 ^ 64"
      by (rule order_le_less_trans [OF div_le_dividend]) (use assms(1) in simp)
    then show ?thesis
      by (subst unat_ucast_id) (simp_all add: unat_div_distrib u)
  qed
  ultimately show ?thesis
    by (simp add: div32_def word_unat_eq_iff)
qed

lemma udivdi3_correct:
  assumes "b \<noteq> 0"
  shows "udivdi3 a b = Some (a div b)"
proof -
  consider "a < b" | "b \<le> a" "unat a < 2 ^ 32" "unat b < 2 ^ 32" | "b \<le> a" "\<not> (unat b < 2 ^ 32 \<and> unat a < 2 ^ 32)"
    by force
  then show ?thesis
  proof cases
    case 1
    then have "a div b = 0"
      by (simp add: word_unat_eq_iff unat_div_distrib word_less_nat_alt)
    with 1 show ?thesis
      by (simp add: udivdi3_def)
  next
    case 2
    then show ?thesis
      using div32_64 [OF 2(2,3) assms] leD [OF 2(1)] by (simp add: udivdi3_def unat_low)
  next
    case 3
    then have high: "\<not> (drop_bit 32 b = 0 \<and> drop_bit 32 a = 0)"
      by (simp only: unat_low) simp
    have ba: "unat b \<le> unat a" "0 < unat b"
      using 3(1) assms by (simp_all add: word_le_nat_alt unat_gt_0)
    then have "a \<noteq> 0"
      by auto
    obtain la where la: "la < 64" "cltz a = int la" "2 ^ (63 - la) \<le> unat a" "unat a < 2 ^ (64 - la)"
      using cltz_bounds [OF \<open>a \<noteq> 0\<close>] by blast
    obtain lb where lb: "lb < 64" "cltz b = int lb" "2 ^ (63 - lb) \<le> unat b" "unat b < 2 ^ (64 - lb)"
      using cltz_bounds [OF assms] by blast
    have "(2 :: nat) ^ (63 - lb) < 2 ^ (64 - la)"
      using lb(3) ba(1) la(4) by linarith
    then have le: "la \<le> lb"
      using la(1) lb(1) by simp
    have shift: "unat v * 2 ^ n < 2 ^ 64" if "unat v < 2 ^ (64 - n)" "n < 64" for v :: u64 and n
    proof -
      have "unat v * 2 ^ n < 2 ^ (64 - n) * 2 ^ n"
        using that(1) by simp
      also have "(2 :: nat) ^ (64 - n) * 2 ^ n = 2 ^ 64"
        using that(2) by (simp flip: power_add)
      finally show ?thesis .
    qed
    have a1: "unat (push_bit la a) = unat a * 2 ^ la"
      by (rule unat_push_bit_u64 [OF shift [OF la(4,1)]])
    have b1: "unat (push_bit la b) = unat b * 2 ^ la"
      by (rule unat_push_bit_u64 [OF shift]) (use ba la in auto)
    have b2: "unat (push_bit lb b) = unat b * 2 ^ lb"
      by (rule unat_push_bit_u64 [OF shift [OF lb(4,1)]])
    let ?B = "unat b * 2 ^ la" and ?A = "unat a * 2 ^ la"
    have quot: "?A div ?B = unat a div unat b"
      by simp
    show ?thesis
    proof (cases "cltz b - cltz a < 32 \<and> push_bit (nat (cltz a)) b AND 0x0ffffffff = 0")
      case True
      have "(0x0ffffffff :: u64) = mask 32"
        by (simp add: mask_eq_exp_minus_1)
      then have "?B mod 2 ^ 32 = 0"
        using True b1 unat_and_mask_eq_mod [of "push_bit la b" 32] la(2) by simp
      then have split: "?B = 2 ^ 32 * (?B div 2 ^ 32)"
        by (metis mult_div_mod_eq add.right_neutral)
      have ia: "unat (drop_bit 32 (push_bit la a)) = ?A div 2 ^ 32" "unat (drop_bit 32 (push_bit la b)) = ?B div 2 ^ 32"
        by (simp_all only: unat_drop_bit_div a1 b1)
      have small: "unat (drop_bit 32 v) < 2 ^ 32" for v :: u64
        using unat_u64_less [of v] by (simp add: unat_drop_bit_div less_mult_imp_div_less)
      have "?B div 2 ^ 32 \<noteq> 0"
        using split ba(2) by (metis mult_0_right mult_is_0 not_gr_zero power_not_zero zero_neq_numeral)
      then have "drop_bit 32 (push_bit la b) \<noteq> 0"
        using ia(2) by auto
      from div32_64 [OF small small this, of "push_bit la a"]
      have "udivdi3 a b = Some (drop_bit 32 (push_bit la a) div drop_bit 32 (push_bit la b))"
        using 3(1) True la(2) high by (auto simp: udivdi3_def not_less)
      moreover have "?A div 2 ^ 32 div (?B div 2 ^ 32) = ?A div ?B"
        using div_mult2_eq [of ?A "2 ^ 32" "?B div 2 ^ 32"] split by simp
      ultimately show ?thesis
        using ia quot by (simp add: word_unat_eq_iff unat_div_distrib)
    next
      case False
      have m: "push_bit (nat (cltz b - cltz a)) (1 :: u64) = 2 ^ (lb - la)"
        using le la(2) lb(2) by (simp add: push_bit_eq_mult nat_diff_distrib)
      have run: "udivdi3 a b = Some (udiv_loop (push_bit la a) (push_bit lb b) (2 ^ (lb - la)) 0)"
        using 3(1) False la(2) lb(2) m high by (auto simp: udivdi3_def not_less)
      have "(2 :: nat) ^ 63 = 2 ^ (63 - lb) * 2 ^ lb"
        using lb(1) by (simp flip: power_add)
      then have top: "2 ^ 63 \<le> unat b * 2 ^ lb"
        using mult_le_mono1 [OF lb(3), of "2 ^ lb"] by simp
      have "unat (udiv_loop (push_bit la a) (push_bit lb b) (2 ^ (lb - la)) 0) = unat (0 :: u64) + unat (push_bit la a) div ?B"
      proof (rule udiv_loop_quotient)
        show "unat (push_bit lb b) = ?B * 2 ^ (lb - la)"
          using le by (simp add: b2 flip: power_add)
        show "unat (push_bit la a) < 2 * unat (push_bit lb b)"
          using top unat_u64_less [of "push_bit la a"] by (simp add: b2)
      qed (use ba(2) lb(1) in simp_all)
      then show ?thesis
        unfolding run using a1 quot by (simp add: word_unat_eq_iff unat_div_distrib)
    qed
  qed
qed

section \<open>Signed division\<close>

lemma word_abs: "(if x <s 0 then - x else x) = word_of_int \<bar>sint x\<bar>" for x :: u64
  by (simp add: word_sless_alt abs_if)

lemma uint_abs: "uint (word_of_int \<bar>sint x\<bar> :: u64) = \<bar>sint x\<bar>" for x :: u64
  using sint_range_size [of x] unfolding uint_word_of_int by (intro mod_pos_pos_trivial) (auto simp: word_size)

lemma divdi3_correct:
  assumes "b \<noteq> 0"
  shows "divdi3 a b = Some (word_of_int (sint a sdiv sint b))"
proof -
  have sb: "sint b \<noteq> 0"
    using assms by (metis signed_eq_0_iff)
  let ?q = "\<bar>sint a\<bar> div \<bar>sint b\<bar>"
  have nz: "(word_of_int \<bar>sint b\<bar> :: u64) \<noteq> 0"
    using sb uint_abs [of b] by (metis abs_eq_0 uint_0_eq)
  have "udivdi3 (if a <s 0 then - a else a) (if b <s 0 then - b else b) = Some (word_of_int \<bar>sint a\<bar> div word_of_int \<bar>sint b\<bar>)"
    unfolding word_abs by (rule udivdi3_correct [OF nz])
  also have "(word_of_int \<bar>sint a\<bar> div word_of_int \<bar>sint b\<bar> :: u64) = word_of_int ?q"
    unfolding word_div_def by (simp add: uint_abs)
  finally have q: "udivdi3 (if a <s 0 then - a else a) (if b <s 0 then - b else b) = Some (word_of_int ?q)" .
  have s: "sint a sdiv sint b = (if (sint a < 0) \<noteq> (sint b < 0) then - ?q else ?q)"
    using sb by (auto simp: signed_divide_int_def sgn_if)
  show ?thesis
    using q by (auto simp: divdi3_def s word_sless_alt split: if_splits)
qed

lemma sdiv_range:
  fixes k l m :: int
  assumes "- m \<le> k" "k < m" "k \<noteq> - m \<or> l \<noteq> - 1"
  shows "- m \<le> k sdiv l" "k sdiv l < m"
proof -
  consider "l = 0" | "l = 1" | "l = - 1" | "k = 0" | "1 < \<bar>l\<bar>" "0 < \<bar>k\<bar>"
    by linarith
  then have "- m \<le> k sdiv l \<and> k sdiv l < m"
  proof cases
    case 5
    have "0 \<le> \<bar>k\<bar> div \<bar>l\<bar>"
      using 5 by (simp add: pos_imp_zdiv_nonneg_iff)
    with int_div_less_self [OF 5(2,1)] assms show ?thesis
      by (auto simp: signed_divide_int_def sgn_if)
  qed (use assms in auto)
  then show "- m \<le> k sdiv l" "k sdiv l < m"
    by simp_all
qed

section \<open>Properties\<close>

text \<open>
  C16. The 64-bit unsigned division and remainder of the library are those of 64-bit words, for every
  dividend and every divisor that is not 0; in particular the shift-and-subtract loop ends with the exact quotient.
\<close>

theorem udivdi3_divides:
  assumes "b \<noteq> 0"
  shows "udivdi3 a b = Some (a div b) \<and> umoddi3 a b = Some (a mod b)"
  using udivdi3_correct [OF assms, of a] minus_div_mult_eq_mod [of a b] by (simp add: umoddi3_def)

text \<open>
  The signed division truncates towards 0, as C requires, wrapping in the one case that overflows
  (the most negative number divided by -1).
\<close>

theorem divdi3_truncates:
  assumes "b \<noteq> 0"
  shows "divdi3 a b = Some (word_of_int (sint a sdiv sint b)) \<and>
    (sint a \<noteq> - (2 ^ 63) \<or> sint b \<noteq> - 1 \<longrightarrow> map_option sint (divdi3 a b) = Some (sint a sdiv sint b))"
proof (intro conjI impI)
  show run: "divdi3 a b = Some (word_of_int (sint a sdiv sint b))"
    by (rule divdi3_correct [OF assms])
  assume no: "sint a \<noteq> - (2 ^ 63) \<or> sint b \<noteq> - 1"
  have r: "- (2 ^ 63) \<le> sint a" "sint a < 2 ^ 63"
    using sint_range_size [of a] by (simp_all add: word_size)
  from sdiv_range [OF r no] have "sint (word_of_int (sint a sdiv sint b) :: u64) = sint a sdiv sint b"
    unfolding sint_sbintrunc' by (intro signed_take_bit_int_eq_self) simp_all
  with run show "map_option sint (divdi3 a b) = Some (sint a sdiv sint b)"
    by simp
qed

text \<open>
  Division by 0: the CPU's divide trap is only reached for a dividend below 2^32. For any other the loop
  runs and gives a number with all low bits set.
\<close>

theorem udivdi3_by_zero:
  "udivdi3 a 0 = (if unat a < 2 ^ 32 then None else Some (mask (64 - nat (cltz a))))"
proof (cases "unat a < 2 ^ 32")
  case True
  then show ?thesis
    by (simp add: udivdi3_def unat_low div32_def)
next
  case False
  then have "a \<noteq> 0"
    by auto
  obtain la where la: "la < 64" "cltz a = int la" "2 ^ (63 - la) \<le> unat a" "unat a < 2 ^ (64 - la)"
    using cltz_bounds [OF \<open>a \<noteq> 0\<close>] by blast
  have "(2 :: nat) ^ 32 < 2 ^ (64 - la)"
    using False la(4) by linarith
  then have "32 < 64 - la"
    by (rule power_less_imp_less_exp [rotated]) simp
  then have small: "la < 32"
    by simp
  have lb: "cltz 0 = 63"
    by (simp add: cltz_def cltz_steps_def cltz_step_def zip_bitrev_def numeral_eq_Suc)
  have "unat (udiv_loop (push_bit la a) 0 (2 ^ (63 - la)) 0) + 1 = 2 ^ (64 - la)"
  proof -
    have e: "63 - la + 1 = 64 - la"
      using la(1) by simp
    show ?thesis
      using udiv_loop_0 [of "63 - la" 0 "push_bit la a", unfolded e] la(1) by simp
  qed
  from arg_cong [OF this, of "of_nat :: nat \<Rightarrow> u64"]
  have "udiv_loop (push_bit la a) 0 (2 ^ (63 - la)) 0 = mask (64 - la)"
    by (simp add: mask_eq_exp_minus_1 eq_diff_eq add.commute)
  moreover have "push_bit (63 - la) (1 :: u64) = 2 ^ (63 - la)"
    by (simp add: push_bit_eq_mult)
  moreover have "drop_bit 32 a \<noteq> 0"
    using False by (simp add: unat_low)
  moreover have "nat (63 - int la) = 63 - la"
    by (simp add: nat_diff_distrib)
  ultimately show ?thesis
    using False small la(2) lb by (simp add: udivdi3_def)
qed

section \<open>Witnesses\<close>

theorem udivdi3_divides_witness:
  "udivdi3 0x500000000007 0x100000003 = Some (0x500000000007 div 0x100000003) \<and>
    umoddi3 0x500000000007 0x100000003 = Some (0x500000000007 mod 0x100000003)"
  by (rule udivdi3_divides) simp

theorem divdi3_truncates_witness:
  "divdi3 (- 7) 2 = Some (- 3)"
  using divdi3_truncates [of 2 "- 7"] by simp

theorem udivdi3_by_zero_witness:
  "udivdi3 7 0 = None"
  using udivdi3_by_zero [of 7] by simp

end
