(* ===== verification/Drivers.thy ===== *)
theory Drivers
  imports Txfns
begin

text \<open>
  The device drivers of sw/dev and the stand-alone programs that use them: the keypad (keypad.c), the
  character display on the GPIO pins (display.c), and helloworld.c, blinky.c, uartecho.c, kptest.c and
  doorbell.c. The endless loop of a program is one definition per round.

  The keypad's wiring is the register logic of rtl/spio.v: a write sets the selected column outputs, and
  with a key held down its row reads low exactly while its column is driven low.
\<close>

section \<open>The keypad (keypad.c)\<close>

definition keymap :: "int list" where
  "keymap = [0x01, 0x02, 0x03, 0x0a, 0x04, 0x05, 0x06, 0x0b, 0x07, 0x08, 0x09, 0x0c, 0x00, 0x0f, 0x0e, 0x0d]"

definition keypad_column :: "env \<Rightarrow> hist \<Rightarrow> int \<times> hist" where
  "keypad_column env h =
    (let (col, h) = rd env IO_SPIO (wr IO_SPIO 0x0cf00 h)
     in if col AND 0x0f00 \<noteq> 0x0f00
        then let (col, h) = rd env IO_SPIO (wr IO_SPIO 0x0ef00 h)
             in (if col AND 0x0f00 \<noteq> 0x0f00 then 0 else 1, h)
        else let (col, h) = rd env IO_SPIO (wr IO_SPIO 0x7f00 h)
             in (if col AND 0x0f00 \<noteq> 0x0f00 then 3 else 2, h))"

definition keypad_row :: "u32 \<Rightarrow> int" where
  "keypad_row row0 =
    (let row = (drop_bit 8 row0 AND 0x0f) XOR 0x0f
     in if row = 1 then 0 else if row = 2 then 1 else if row = 4 then 2 else if row = 8 then 3 else - 1)"

definition keypadread :: "env \<Rightarrow> hist \<Rightarrow> int \<times> hist" where
  "keypadread env h =
    (let (v, h) = rd env IO_SPIO h;
         row = v AND 0x0f00;
         (key, h) =
           (if row \<noteq> 0x0f00
            then let (col, h) = keypad_column env h;
                     (v2, h) = rd env IO_SPIO (wr IO_SPIO 0x0f00 h)
                 in if row = v2 AND 0x0f00
                    then let r = keypad_row row
                         in (if r \<ge> 0 then keymap ! nat (r OR push_bit 2 col) else - 1, h)
                    else (- 1, h)
            else (- 1, h));
         (pic, h) = rd env IO_PIC h
     in (key, wr IO_PIC (if pic AND INT_ENABLE \<noteq> 0 then INT_ENABLE OR INT_KEYPAD else INT_KEYPAD) h))"

text \<open>The loop waits two milliseconds between polls under ZipOS, and not at all without it.\<close>

partial_function (option) release_loop :: "bool \<Rightarrow> env \<Rightarrow> hist \<Rightarrow> hist option" where
  "release_loop zipos env h =
    (let (v, h1) = rd env IO_SPIO h
     in if v AND 0x0f00 \<noteq> 0x0f00
        then release_loop zipos env (if zipos then snd (sys_wait env 0 2 h1) else h1)
        else Some h1)"

definition keypad_wait_for_release :: "bool \<Rightarrow> env \<Rightarrow> hist \<Rightarrow> hist option" where
  "keypad_wait_for_release zipos env h = release_loop zipos env (wr IO_SPIO 0x0f00 h)"

definition keypad_task_start :: "env \<Rightarrow> hist \<Rightarrow> hist" where
  "keypad_task_start env h = snd (sys_clear env INT_KEYPAD 0 h)"

definition keypad_task_round :: "env \<Rightarrow> hist \<Rightarrow> hist" where
  "keypad_task_round env h =
    (let h = snd (sys_wait env INT_KEYPAD (- 1) h);
         (key, h) = keypadread env h;
         h = (if key \<ge> 0 then snd (sys_write env 1 [word_of_int key] h) else h)
     in snd (sys_clear env INT_KEYPAD 0 h))"

section \<open>The display (display.c)\<close>

text \<open>The delay loop has no effect but its time.\<close>

primrec dispwait_loop :: "nat \<Rightarrow> hist \<Rightarrow> hist" where
  "dispwait_loop 0 h = h"
| "dispwait_loop (Suc i) h = dispwait_loop i h"

definition dispwait :: "hist \<Rightarrow> hist" where
  "dispwait h = dispwait_loop 18 h"

definition dispbit :: "u32 \<Rightarrow> hist \<Rightarrow> hist" where
  "dispbit ich h =
    (let gpiov = GPOCLRV (GPO_MOSI OR GPO_SCK OR GPO_SS);
         gpiov = (if ich AND 0x80 \<noteq> 0 then gpiov OR GPOSETV GPO_MOSI else gpiov)
     in dispwait (wr IO_GPIO (GPOSETV GPO_SCK) (dispwait (wr IO_GPIO gpiov h))))"

primrec dispbits :: "nat \<Rightarrow> u32 \<Rightarrow> hist \<Rightarrow> hist" where
  "dispbits 0 ich h = h"
| "dispbits (Suc n) ich h = dispbits n (push_bit 1 ich) (dispbit ich h)"

definition dispchar :: "u8 \<Rightarrow> hist \<Rightarrow> hist" where
  "dispchar ch h =
    (if ch = 0 then h
     else dispwait (wr IO_GPIO (GPOSETV GPO_SS) (dispwait (wr IO_GPIO (GPOCLRV GPO_SCK) (dispbits 8 (ucast ch) h)))))"

definition display_task_round :: "env \<Rightarrow> hist \<Rightarrow> hist" where
  "display_task_round env h = (let (ch, h) = sys_read1 env 0 h in dispchar ch h)"

section \<open>Stand-alone programs\<close>

partial_function (option) pic_wait :: "env \<Rightarrow> u32 \<Rightarrow> hist \<Rightarrow> hist option" where
  "pic_wait env msk h = (let (v, h1) = rd env IO_PIC h in if v AND msk = 0 then pic_wait env msk h1 else Some h1)"

subsection \<open>helloworld.c\<close>

definition hello_msg :: "u8 list" where
  "hello_msg = cstring (''Hello, world!'' @ [CHR 0x0D, CHR 0x0A])"

fun hello_send :: "env \<Rightarrow> u8 list \<Rightarrow> hist \<Rightarrow> hist option" where
  "hello_send env [] h = Some h"
| "hello_send env (c # cs) h =
    do { h1 \<leftarrow> pic_wait env INT_UARTTX h; hello_send env cs (wr IO_PIC INT_UARTTX (wr IO_UART (ucast c) h1)) }"

definition hello_leds :: "u32 \<Rightarrow> u32" where
  "hello_leds ledset0 =
    (let l = push_bit 1 ledset0 AND 15; l = (if l = 0 then 1 else l) in l OR 0xf0)"

definition hello_start :: "hist \<Rightarrow> u32 \<times> hist" where
  "hello_start h =
    (0, wr IO_WATCHDOG 0 (wr IO_SPIO 0x0fc (wr SCOPE_CTRL (2 OR 0x80000000) (wr IO_PIC 0x07fffffff h))))"

definition hello_round :: "env \<Rightarrow> u32 \<times> hist \<Rightarrow> (u32 \<times> hist) option" where
  "hello_round env = (\<lambda>(ledset0, h0). do {
    let h1 = wr IO_PIC (INT_ENABLEV INT_BUTTON) (wr IO_PIC 0x07fffffff (wr IO_TIMER TM_ONE_SECOND h0));
    h2 \<leftarrow> hello_send env hello_msg h1;
    h3 \<leftarrow> pic_wait env INT_TIMER h2;
    let ledset = hello_leds ledset0;
    let (btn, h4) = rd env IO_SPIO h3;
    let h5 = wr IO_SPIO (if btn AND 0x10 \<noteq> 0 then ledset XOR 0x0f
               else if btn AND 0x20 \<noteq> 0 then ledset AND 0x0f5 else ledset) h4;
    Some (ledset, wr IO_WATCHDOG 0 h5) })"

subsection \<open>blinky.c\<close>

record blinky =
  bl_count :: u32
  bl_ptr :: "u8 list"

definition blinky_msg :: "u8 list" where
  "blinky_msg = cstring (''Hello, World!'' @ [CHR 0x0D, CHR 0x0A])"

definition blinky_ack :: "hist \<Rightarrow> hist" where
  "blinky_ack = wr IO_PIC (INT_ENABLEV INT_TIMER OR INT_CLEAR INT_TIMER)"

definition blinky_start :: "hist \<Rightarrow> blinky \<times> hist" where
  "blinky_start h = (\<lparr>bl_count = 0, bl_ptr = blinky_msg\<rparr>,
    blinky_ack (wr IO_TIMER (TM_REPEAT OR (TM_ONE_SECOND div 4)) (wr IO_SPIO 0x0fa h)))"

definition blinky_led :: "u32 \<Rightarrow> u32" where
  "blinky_led ledv0 = (let l = push_bit 1 ledv0 AND 0x0f in if l = 0 then 1 else l)"

definition blinky_round :: "env \<Rightarrow> blinky \<times> hist \<Rightarrow> blinky \<times> hist" where
  "blinky_round env = (\<lambda>(b, h0).
    let (picv, h1) = rd env IO_PIC h0;
        (b, h) =
          (if picv AND INT_TIMER \<noteq> 0
           then let (ledv, h2) = rd env IO_SPIO h1;
                    h3 = wr IO_SPIO (blinky_led ledv OR 0x0f0) h2;
                    (b1, h4) = (case bl_ptr b of [] \<Rightarrow> (b, h3)
                      | c # cs \<Rightarrow> (b\<lparr>bl_ptr := cs\<rparr>, wr IO_UART (ucast c) h3))
                in (if 4 * 60 <s bl_count b1 then b1\<lparr>bl_count := 0, bl_ptr := blinky_msg\<rparr>
                    else b1\<lparr>bl_count := bl_count b1 + 1\<rparr>, h4)
           else (b, h1))
    in (b, blinky_ack h))"

subsection \<open>uartecho.c\<close>

definition uartecho_start :: "hist \<Rightarrow> hist" where
  "uartecho_start = wr IO_PIC INT_CLEARPIC"

definition uartecho_round :: "env \<Rightarrow> hist \<Rightarrow> hist option" where
  "uartecho_round env h = do {
    h1 \<leftarrow> pic_wait env INT_UARTRX (wr IO_PIC INT_UARTRX h);
    let (v, h2) = rd env IO_UART h1;
    let ch = v AND 0x0ff;
    h3 \<leftarrow> pic_wait env INT_UARTTX (wr IO_PIC INT_UARTTX h2);
    Some (wr IO_UART ch h3) }"

subsection \<open>kptest.c\<close>

definition kptest_start :: "env \<Rightarrow> hist \<Rightarrow> hist option" where
  "kptest_start env h =
    txstr env (cstring (''Press any keypad button for test.'' @ [CHR 0x0D, CHR 0x0A]))
      (wr IO_TIMER (100000 OR TM_REPEAT) (wr IO_SPIO 0x0f0 (wr IO_PIC 0x07fffffff h)))"

definition kptest_print :: "env \<Rightarrow> int \<Rightarrow> hist \<Rightarrow> hist option" where
  "kptest_print env ch h =
    (if ch < 0 \<or> ch = - 1 then Some h
     else if ch < 10 then txchr env (word_of_int (ch + 48)) h
     else if ch = 15 then txstr env (cstring [CHR ''F'', CHR 0x0D, CHR 0x0A]) h
     else if ch < 15 then txchr env (word_of_int (ch + 65 - 10)) h
     else txstr env (cstring (''Unknown key pressed'' @ [CHR 0x0D, CHR 0x0A])) h)"

definition kptest_round :: "env \<Rightarrow> hist \<Rightarrow> hist option" where
  "kptest_round env h0 = do {
    h1 \<leftarrow> pic_wait env INT_KEYPAD h0;
    h2 \<leftarrow> fold (\<lambda>i r. Option.bind r (pic_wait env INT_TIMER)) [0..<5] (Some (wr IO_PIC (INT_KEYPAD OR INT_TIMER) h1));
    let (ch, h3) = keypadread env (wr IO_SPIO 0x011 h2);
    h4 \<leftarrow> kptest_print env ch h3;
    h5 \<leftarrow> keypad_wait_for_release False env h4;
    Some (wr IO_SPIO 0x010 h5) }"

subsection \<open>doorbell.c\<close>

text \<open>The sound samples (samples.c) are the parameter \<open>smp\<close>; the state is the seconds counter and the rest of the message.\<close>

definition bell_msg :: "u8 list" where
  "bell_msg = cstring (''Doorbell!'' @ [CHR 0x0D, CHR 0x0A, CHR 0x0D, CHR 0x0A])"

partial_function (option) bell_wait :: "env \<Rightarrow> u32 \<times> u8 list \<times> hist \<Rightarrow> (u32 \<times> u8 list \<times> hist) option" where
  "bell_wait env st = (case st of (seconds, mptr, h) \<Rightarrow>
    let (pic, h1) = rd env IO_PIC h;
        seconds1 = (if pic AND INT_TIMER \<noteq> 0 then seconds + 1 else seconds);
        (mptr1, h2) = (case mptr of [] \<Rightarrow> ([], h1)
          | c # cs \<Rightarrow> if pic AND INT_UARTTX \<noteq> 0 then (cs, wr IO_UART (ucast c) h1) else (mptr, h1));
        h3 = wr IO_PIC (pic AND 0x07fff) h2
    in if pic AND INT_AUDIO = 0 then bell_wait env (seconds1, mptr1, h3) else Some (seconds1, mptr1, h3))"

fun bell_play :: "env \<Rightarrow> u16 list \<Rightarrow> u32 \<times> u8 list \<times> hist \<Rightarrow> (u32 \<times> u8 list \<times> hist) option" where
  "bell_play env [] st = Some st"
| "bell_play env (smp # smps) (seconds, mptr, h) = do {
    (seconds, mptr, h) \<leftarrow> bell_wait env (seconds, mptr, wr IO_SPIO 0x022 h);
    bell_play env smps (seconds, mptr, wr IO_PIC INT_AUDIO (wr IO_PWM_AUDIO (ucast smp) h)) }"

partial_function (option) bell_rest :: "env \<Rightarrow> u32 \<Rightarrow> hist \<Rightarrow> hist option" where
  "bell_rest env seconds h =
    (if seconds <s 10
     then let (pic, h1) = rd env IO_PIC h
          in bell_rest env (if pic AND INT_TIMER \<noteq> 0 then seconds + 1 else seconds) (wr IO_PIC (pic AND 0x07fff) h1)
     else Some h)"

definition bell_start :: "hist \<Rightarrow> hist" where
  "bell_start h = wr IO_PWM_AUDIO 0x0110000 (wr IO_SPIO 0x0f4 (wr IO_PIC 0x07fffffff (wr IO_WATCHDOG 0 h)))"

definition bell_round :: "env \<Rightarrow> u16 list \<Rightarrow> hist \<Rightarrow> hist option" where
  "bell_round env smp h = do {
    let h1 = wr IO_SPIO 0x0f1 (wr IO_PWM_AUDIO 0x0310000 (wr IO_SPIO 0x0f0 (wr IO_TIMER (TM_ONE_SECOND OR TM_REPEAT) h)));
    (seconds, _, h2) \<leftarrow> bell_play env smp (0, bell_msg, h1);
    h3 \<leftarrow> bell_rest env seconds (wr IO_PWM_AUDIO 0 (wr IO_SPIO 0x088 (wr IO_SPIO 0x044 h2)));
    Some (wr IO_SPIO 0x0ff h3) }"

section \<open>The keypad hardware\<close>

text \<open>The column outputs after a run (rtl/spio.v), and a keypad with one key held down, or none.\<close>

fun kp_col :: "hist \<Rightarrow> 4 word" where
  "kp_col [] = 0"
| "kp_col (Wr r v # h) =
    (if r = IO_SPIO
     then let m = ucast (drop_bit 8 v) in (kp_col h AND NOT m) OR (ucast (drop_bit 12 v) AND m)
     else kp_col h)"
| "kp_col (_ # h) = kp_col h"

definition keypad_hw :: "(nat \<times> nat) option \<Rightarrow> env \<Rightarrow> bool" where
  "keypad_hw key env \<longleftrightarrow> (\<forall>h. env h (QRd IO_SPIO) AND 0x0f00 =
    (case key of None \<Rightarrow> 0x0f00
     | Some (r, c) \<Rightarrow> if bit (kp_col h) c then 0x0f00 else 0x0f00 AND NOT (push_bit (8 + r) 1)))"

lemma kp_col_wr:
  "(ucast (drop_bit 8 v) :: 4 word) = - 1 \<Longrightarrow> kp_col (wr IO_SPIO v h) = ucast (drop_bit 12 v)"
  by (simp add: wr_def Let_def)

lemma kp_col_writes [simp]:
  "kp_col (wr IO_SPIO 0x0cf00 h) = 12" "kp_col (wr IO_SPIO 0x0ef00 h) = 14"
  "kp_col (wr IO_SPIO 0x7f00 h) = 7" "kp_col (wr IO_SPIO 0x0f00 h) = 0"
  "kp_col (wr IO_PIC v h) = kp_col h" "kp_col (Rd r v # h) = kp_col h"
proof -
  show "kp_col (wr IO_SPIO 0x0cf00 h) = 12"
    by (subst kp_col_wr) code_simp+
  show "kp_col (wr IO_SPIO 0x0ef00 h) = 14"
    by (subst kp_col_wr) code_simp+
  show "kp_col (wr IO_SPIO 0x7f00 h) = 7"
    by (subst kp_col_wr) code_simp+
  show "kp_col (wr IO_SPIO 0x0f00 h) = 0"
    by (subst kp_col_wr) code_simp+
qed (simp_all add: wr_def)

lemma less_4: "(n :: nat) < 4 \<Longrightarrow> n = 0 \<or> n = 1 \<or> n = 2 \<or> n = 3"
  by auto

lemma keypad_column_held:
  assumes e: "\<And>k. env k (QRd IO_SPIO) AND 0x0f00 = (if bit (kp_col k) c then 0x0f00 else w)"
    and "w \<noteq> 0x0f00" "c < 4"
  shows "\<exists>h'. keypad_column env h = (int c, h')"
proof -
  from less_4 [OF assms(3)] show ?thesis
    using assms(2) by (elim disjE) (simp_all add: keypad_column_def rd_def Let_def e)
qed

lemma keypad_row_held:
  assumes "r < 4"
  shows "keypad_row (0x0f00 AND NOT (push_bit (8 + r) 1)) = int r" "0x0f00 AND NOT (push_bit (8 + r) 1) \<noteq> (0x0f00 :: u32)"
  using less_4 [OF assms] by (elim disjE; simp add: keypad_row_def Let_def)+

lemma keypadread_held:
  assumes "keypad_hw (Some (r, c)) env" "r < 4" "c < 4" "kp_col h = 0"
  shows "\<exists>h'. keypadread env h = (keymap ! (r + 4 * c), h') \<and> kp_col h' = 0"
proof -
  define w where "w = 0x0f00 AND NOT (push_bit (8 + r) (1 :: u32))"
  have e: "env k (QRd IO_SPIO) AND 0x0f00 = (if bit (kp_col k) c then 0x0f00 else w)" for k
    using assms(1) by (simp add: keypad_hw_def w_def)
  have w: "w \<noteq> 0x0f00" and row: "keypad_row w = int r"
    unfolding w_def by (rule keypad_row_held [OF assms(2)])+
  obtain h' where col: "keypad_column env (snd (rd env IO_SPIO h)) = (int c, h')"
    using keypad_column_held [where env = env and c = c and w = w, OF e w assms(3)] by blast
  have idx: "nat (int r OR push_bit 2 (int c)) = r + 4 * c"
    using less_4 [OF assms(2)] less_4 [OF assms(3)] by (elim disjE) simp_all
  have first: "env h (QRd IO_SPIO) AND 0x0f00 = w" "\<And>k. env (wr IO_SPIO 0x0f00 k) (QRd IO_SPIO) AND 0x0f00 = w"
    using e assms(4) by simp_all
  show ?thesis
    using first w col row idx by (simp add: keypadread_def rd_def Let_def)
qed

lemma keypadread_free:
  assumes "keypad_hw None env"
  shows "fst (keypadread env h) = - 1"
  using assms by (simp add: keypadread_def keypad_hw_def rd_def Let_def)

section \<open>The display's serial port\<close>

text \<open>
  What the display receives: it follows the output pins through the words written to the GPIO
  register (rtl/wbgpio.v: the upper half selects the pins, the lower half sets them) and takes the data
  line at each rising edge of the clock while it is selected.
\<close>

definition gpio_next :: "u16 \<Rightarrow> u32 \<Rightarrow> u16" where
  "gpio_next g w = (let m = ucast (drop_bit 16 w) in (g AND NOT m) OR (ucast w AND m))"

fun spi_bits :: "u16 \<Rightarrow> u32 list \<Rightarrow> bool list" where
  "spi_bits g [] = []"
| "spi_bits g (w # ws) =
    (let g' = gpio_next g w
     in (if bit g' 3 \<and> \<not> bit g 3 \<and> \<not> bit g' 4 then [bit g' 2] else []) @ spi_bits g' ws)"

lemma dispwait_id [simp]: "dispwait h = h"
  by (simp add: dispwait_def numeral_eq_Suc)

lemma bit_gpio_next: "n < 16 \<Longrightarrow> bit (gpio_next g w) n \<longleftrightarrow> (if bit w (16 + n) then bit w n else bit g n)"
  by (auto simp: gpio_next_def Let_def bit_simps)

definition bit_words :: "bool \<Rightarrow> u32 list" where
  "bit_words b = [if b then 0x1c0004 else 0x1c0000, 0x080008]"

lemma dispbit_writes: "written IO_GPIO (dispbit ich h) = written IO_GPIO h @ bit_words (bit ich 7)"
proof -
  have "ich AND 0x80 = 0 \<longleftrightarrow> \<not> bit ich 7"
    using and_exp_eq_0_iff_not_bit [of ich 7] by simp
  then show ?thesis
    by (simp add: dispbit_def Let_def bit_words_def GPOCLRV_def GPOSETV_def)
qed

lemma dispbits_writes:
  "n \<le> 8 \<Longrightarrow> written IO_GPIO (dispbits n ich h) =
    written IO_GPIO h @ concat (map (\<lambda>i. bit_words (bit ich (7 - i))) [0..<n])"
proof (induction n arbitrary: ich h)
  case (Suc n)
  have "bit (push_bit 1 ich) (7 - i) = bit ich (7 - Suc i)" if "i < n" for i
  proof -
    have "i < 7"
      using that Suc.prems by simp
    then have "1 \<le> 7 - i" "possible_bit TYPE(u32) (7 - i)"
      by (simp_all add: possible_bit_def)
    then show ?thesis
      unfolding bit_push_bit_iff by simp
  qed
  then have "map (\<lambda>i. bit_words (bit (push_bit 1 ich) (7 - i))) [0..<n] = map (\<lambda>i. bit_words (bit ich (7 - Suc i))) [0..<n]"
    by simp
  also have "\<dots> = map (\<lambda>i. bit_words (bit ich (7 - i))) [1..<Suc n]"
    unfolding One_nat_def map_Suc_upt [symmetric] map_map comp_def ..
  finally show ?case
    using Suc by (simp add: dispbit_writes upt_conv_Cons del: upt_Suc)
qed simp

lemma spi_bits_word:
  "spi_bits g (bit_words b @ ws) = b # spi_bits (gpio_next (gpio_next g (hd (bit_words b))) 0x080008) ws"
  by (simp add: bit_words_def Let_def bit_gpio_next bit_numeral_word_iff)

section \<open>Properties\<close>

text \<open>
  C17. \<open>keypadread\<close> finds the key: with exactly one key held down it returns that key's entry of the key map, and it leaves
  all columns low again, ready for the next read; with no key down it returns -1.
\<close>

theorem keypadread_finds_key:
  assumes "keypad_hw key env" "kp_col h = 0" "key = Some (r, c) \<Longrightarrow> r < 4 \<and> c < 4"
  shows "(key = None \<longrightarrow> fst (keypadread env h) = - 1) \<and>
    (key = Some (r, c) \<longrightarrow> fst (keypadread env h) = keymap ! (r + 4 * c) \<and> kp_col (snd (keypadread env h)) = 0)"
  using keypadread_free [of env h] keypadread_held [of r c env h] assms by fastforce

text \<open>
  \<open>dispchar\<close> shifts its character out: from whatever state of the pins, the display receives the eight bits of
  the character, most significant first, in 18 register writes; the NUL character is not sent.
\<close>

theorem dispchar_shifts_out:
  "\<exists>ws. written IO_GPIO (dispchar ch h) = written IO_GPIO h @ ws \<and>
    (if ch = 0 then ws = [] else length ws = 18 \<and> spi_bits g ws = map (bit ch) [7, 6, 5, 4, 3, 2, 1, 0])"
proof (cases "ch = 0")
  case False
  let ?ws = "concat (map (\<lambda>i. bit_words (bit (ucast ch :: u32) (7 - i))) [0..<8]) @ [GPOCLRV GPO_SCK, GPOSETV GPO_SS]"
  have "written IO_GPIO (dispchar ch h) = written IO_GPIO h @ ?ws"
    using False by (simp add: dispchar_def dispbits_writes)
  moreover have "bit (ucast ch :: u32) n = bit ch n" if "n < 8" for n
    using that by (simp add: bit_ucast_iff)
  then have "spi_bits g ?ws = map (bit ch) [7, 6, 5, 4, 3, 2, 1, 0]"
    by (simp add: upt_conv_Cons spi_bits_word GPOCLRV_def GPOSETV_def Let_def bit_gpio_next)
  moreover have "length ?ws = 18"
    by (simp add: upt_conv_Cons bit_words_def)
  ultimately show ?thesis
    using False by auto
qed (simp add: dispchar_def)

section \<open>Witnesses\<close>

text \<open>A keypad with the key in row 2 and column 1 held down.\<close>

definition demo_keypad :: env where
  "demo_keypad h q = (if bit (kp_col h) 1 then 0x0f00 else 0x0b00)"

theorem keypadread_finds_key_witness:
  "fst (keypadread demo_keypad []) = 6"
proof -
  have "keypad_hw (Some (2, 1)) demo_keypad"
    by (simp add: keypad_hw_def demo_keypad_def)
  from keypadread_finds_key [OF this, of "[]" 2 1] show ?thesis
    by (simp add: keymap_def)
qed

end
