(* ===== verification/Buffers.thy ===== *)
theory Buffers
  imports Strings Setup
begin

text \<open>
  Local character arrays as lists of their bytes, and the string routines on them. An access outside
  the array gives \<open>None\<close>, so a result \<open>Some\<close> says that the array is large enough.
  The routines are those of string.c: \<open>bput_strcpy\<close> relates them to the routines on memory.
\<close>

definition bput :: "nat \<Rightarrow> u8 list \<Rightarrow> u8 list \<Rightarrow> u8 list option" where
  "bput i bs buf = (if i + length bs \<le> length buf then Some (buf_write buf i bs) else None)"

definition bset :: "nat \<Rightarrow> u8 \<Rightarrow> u8 list \<Rightarrow> u8 list option" where
  "bset i v buf = (if i < length buf then Some (buf[i := v]) else None)"

text \<open>The index of the first NUL at or after \<open>i\<close>.\<close>

definition bnul :: "nat \<Rightarrow> u8 list \<Rightarrow> nat option" where
  "bnul i buf =
    (let n = length (takeWhile (\<lambda>c. c \<noteq> 0) (drop i buf)) in if i + n < length buf then Some (i + n) else None)"

text \<open>\<open>strcpy(&buf[i], s)\<close>, \<open>strcat(&buf[i], s)\<close> and \<open>strlen(&buf[i])\<close> for a string without NUL.\<close>

definition bstrcpy :: "nat \<Rightarrow> u8 list \<Rightarrow> u8 list \<Rightarrow> u8 list option" where
  "bstrcpy i str = bput i (str @ [0])"

definition bstrcat :: "nat \<Rightarrow> u8 list \<Rightarrow> u8 list \<Rightarrow> u8 list option" where
  "bstrcat i str buf = do { e \<leftarrow> bnul i buf; bput e (str @ [0]) buf }"

definition bstrlen :: "nat \<Rightarrow> u8 list \<Rightarrow> nat option" where
  "bstrlen i buf = map_option (\<lambda>e. e - i) (bnul i buf)"

lemma list_update_numeral: "(x # xs)[numeral k := v] = x # xs[pred_numeral k := v]"
  by (simp add: numeral_eq_Suc)

lemma bput_length: "bput i bs buf = Some b \<Longrightarrow> length b = length buf"
  unfolding bput_def buf_write_def by (cases "i + length bs \<le> length buf") (simp_all, auto)

lemma bnul_append: "0 \<notin> set s \<Longrightarrow> bnul 0 (s @ 0 # r) = Some (length s)"
proof -
  assume "0 \<notin> set s"
  then have "takeWhile (\<lambda>c. c \<noteq> 0) (s @ 0 # r) = s"
    by (subst takeWhile_append2) auto
  then show ?thesis
    by (simp add: bnul_def Let_def)
qed

lemma bput_0: "length bs \<le> length buf \<Longrightarrow> bput 0 bs buf = Some (bs @ drop (length bs) buf)"
  by (simp add: bput_def buf_write_def)

lemma bput_at: "length bs \<le> length r \<Longrightarrow> bput (length s) bs (s @ r) = Some (s @ bs @ drop (length bs) r)"
  by (simp add: bput_def buf_write_def)

lemma bput_middle: "length l = i \<Longrightarrow> length m = length bs \<Longrightarrow> bput i bs (l @ m @ r) = Some (l @ bs @ r)"
  by (auto simp: bput_def buf_write_def)

text \<open>On an array that lies in memory, \<open>strcpy\<close> of string.c does what \<open>bstrcpy\<close> says.\<close>

lemma mem_bytes_append_split:
  "mem_bytes m a (i + n) = mem_bytes m a i @ mem_bytes m (a + of_nat i) n"
  by (simp add: mem_bytes_def addrs_append)

lemma bput_strcpy:
  assumes src: "cstr m src s" and fit: "i + length s + 1 \<le> n" "n < 2 ^ 32"
    and apart: "apart (dst + of_nat i) (length s + 1) src (length s + 1)"
  shows "\<exists>m'. strcpy m (dst + of_nat i) src = Some (dst + of_nat i, m') \<and>
    bstrcpy i s (mem_bytes m dst n) = Some (mem_bytes m' dst n)"
proof -
  let ?bs = "s @ [0]" and ?d = "dst + of_nat i"
  let ?m = "mem_write m ?d ?bs"
  obtain k where n: "n = i + (length ?bs + k)"
    using fit(1) le_Suc_ex [of "i + length ?bs" n] by (auto simp: add.assoc)
  have run: "strcpy m ?d src = Some (?d, ?m)"
    unfolding strcpy_def strcpy_loop_cstr [OF src apart] by simp
  have d: "distinct (addrs dst n)"
    using fit(2) by (simp add: distinct_addrs)
  have split: "addrs dst n = addrs dst i @ addrs ?d (length ?bs) @ addrs (?d + of_nat (length ?bs)) k"
    unfolding n by (simp only: addrs_append)
  have low: "mem_bytes ?m dst i = mem_bytes m dst i"
    using d unfolding split by (intro mem_bytes_write_apart) (auto simp: apart_def)
  have high: "mem_bytes ?m (?d + of_nat (length ?bs)) k = mem_bytes m (?d + of_nat (length ?bs)) k"
    using d unfolding split by (intro mem_bytes_write_apart) (auto simp: apart_def)
  have mid: "mem_bytes ?m ?d (length ?bs) = ?bs"
    using fit by (intro mem_bytes_write) simp
  have "mem_bytes ?m dst n = mem_bytes m dst i @ ?bs @ mem_bytes m (?d + of_nat (length ?bs)) k"
    unfolding n mem_bytes_append_split low mid high ..
  moreover have "bstrcpy i s (mem_bytes m dst n) = Some (mem_bytes m dst i @ ?bs @ mem_bytes m (?d + of_nat (length ?bs)) k)"
    unfolding bstrcpy_def n mem_bytes_append_split by (rule bput_middle) simp_all
  ultimately have "bstrcpy i s (mem_bytes m dst n) = Some (mem_bytes ?m dst n)"
    by (simp only:)
  with run show ?thesis
    by (intro exI [of _ ?m] conjI)
qed

end
