(* ===== verification/Doorbell.thy ===== *)
theory Doorbell
  imports Buffers Drivers Rtc
begin

text \<open>
  The application, sw/zipos/doorbell.c: the messages on the display and the UART, the doorbell task
  (light and sound), and the menu task with its three menus.

  The tasks share variables: \<open>rtcclock\<close> is advanced by the clock task, \<open>dawn\<close> and \<open>dusk\<close> are set by
  the menu task. A task reads what the others wrote: the parameter \<open>shr\<close> gives the three values as a
  function of the history. The local arrays start with whatever is on the stack, the parameter \<open>stk\<close>. A
  result \<open>None\<close> is a wait that never ends or an access outside an array.
\<close>

section \<open>Messages\<close>

abbreviation (input) HALF_HOUR_S :: u32 where "HALF_HOUR_S \<equiv> 30"

definition basemsg :: "u8 list" where
  "basemsg = cstring ([CHR 0x1B] @ ''[jTime: xx:xx:xx'' @ [CHR 0x1B] @ ''[1;0H '')"

definition nighttime :: "u8 list" where
  "nighttime = cstring ''Night time''"

definition daylight :: "u8 list" where
  "daylight = cstring ''Daylight!''"

definition dbellstr :: "u8 list" where
  "dbellstr = cstring ''Doorbell!''"

text \<open>\<open>((now>>k)&0x0f)+'0'\<close>\<close>

definition digit :: "u32 \<Rightarrow> nat \<Rightarrow> u8" where
  "digit now k = ucast ((drop_bit k now AND 0x0f) + 48)"

definition stack_array :: "(nat \<Rightarrow> u8) \<Rightarrow> nat \<Rightarrow> u8 list" where
  "stack_array stk n = map stk [0..<n]"

text \<open>\<open>write(fd, buf, strlen(buf))\<close>\<close>

definition write_str :: "env \<Rightarrow> u32 \<Rightarrow> u8 list \<Rightarrow> hist \<Rightarrow> hist option" where
  "write_str env fd buf h = do { n \<leftarrow> bstrlen 0 buf; Some (snd (sys_write env fd (take n buf) h)) }"

definition put_time :: "u32 \<Rightarrow> u8 list \<Rightarrow> u8 list option" where
  "put_time now dmsg =
    do {
      dmsg \<leftarrow> bset 9 (digit now 20) dmsg;
      dmsg \<leftarrow> bset 10 (digit now 16) dmsg;
      dmsg \<leftarrow> bset 12 (digit now 12) dmsg;
      dmsg \<leftarrow> bset 13 (digit now 8) dmsg;
      dmsg \<leftarrow> bset 15 (digit now 4) dmsg;
      bset 16 (digit now 0) dmsg
    }"

definition shownow :: "env \<Rightarrow> (nat \<Rightarrow> u8) \<Rightarrow> u32 \<Rightarrow> u32 \<Rightarrow> u32 \<Rightarrow> hist \<Rightarrow> hist option" where
  "shownow env stk dawn dusk now h =
    do {
      dmsg \<leftarrow> bstrcpy 0 basemsg (stack_array stk 40);
      dmsg \<leftarrow> put_time now dmsg;
      dmsg \<leftarrow> bstrcat 0 (if now < dawn \<or> now > dusk then nighttime else daylight) dmsg;
      write_str env 1 dmsg h
    }"

definition showbell :: "env \<Rightarrow> (nat \<Rightarrow> u8) \<Rightarrow> u32 \<Rightarrow> hist \<Rightarrow> hist option" where
  "showbell env stk now h =
    do {
      dmsg \<leftarrow> bstrcpy 0 basemsg (stack_array stk 40);
      dmsg \<leftarrow> put_time now dmsg;
      dmsg \<leftarrow> bstrcat 0 dbellstr dmsg;
      write_str env 1 dmsg h
    }"

definition uartchr :: "env \<Rightarrow> u8 \<Rightarrow> hist \<Rightarrow> hist" where
  "uartchr env v h =
    (let (n, h1) = sys_write env 2 [v] h
     in if n \<noteq> 1 then snd (sys_write env 2 (cstring (''APPLE-PANIC'' @ [CHR 0x0D, CHR 0x0A])) h1) else h1)"

definition uartstr :: "env \<Rightarrow> u8 list \<Rightarrow> hist \<Rightarrow> hist" where
  "uartstr env str h =
    (let (n, h1) = sys_write env 2 str h
     in if of_nat (length str) \<noteq> n then snd (sys_write env 2 (cstring (''PIPE-PANIC'' @ [CHR 0x0D, CHR 0x0A])) h1) else h1)"

definition uarthex :: "env \<Rightarrow> u32 \<Rightarrow> hist \<Rightarrow> hist" where
  "uarthex env num h =
    uartstr env (cstring [CHR 0x0D, CHR 0x0A])
      (fold (\<lambda>ds. let ch = signed_drop_bit ds num AND 0x0f
                   in uartchr env (ucast (if 10 \<le>s ch then 65 + ch - 10 else ch + 48)))
        [28, 24, 20, 16, 12, 8, 4, 0] h)"

section \<open>The doorbell task\<close>

record shared =
  dawn :: u32
  dusk :: u32
  clock :: u32

definition belllight :: "shared \<Rightarrow> hist \<Rightarrow> hist" where
  "belllight v = wr IO_SPIO (if clock v < dawn v \<or> clock v > dusk v then 0x088 else 0x80)"

text \<open>The sound data is the parameter \<open>smp\<close>; \<open>write()\<close> sends its shorts as bytes, high byte first.\<close>

definition short_bytes :: "u16 list \<Rightarrow> u8 list" where
  "short_bytes ws = concat (map (\<lambda>w. [ucast (drop_bit 8 w), ucast w]) ws)"

abbreviation (input) BELL_EVENTS :: u32 where "BELL_EVENTS \<equiv> INT_BUTTON OR SWINT_PPS"

text \<open>One pass of the loop over the sound data: the samples played, the seconds, the event, and the history after it.\<close>

definition bell_sound_step ::
  "env \<Rightarrow> (hist \<Rightarrow> shared) \<Rightarrow> u16 list \<Rightarrow> nat \<times> u32 \<times> u32 \<times> hist \<Rightarrow> nat \<times> u32 \<times> u32 \<times> hist" where
  "bell_sound_step env shr smp = (\<lambda>(pos, seconds, _, h).
    let len = min 512 (length smp - pos);
        h1 = snd (sys_write env 3 (short_bytes (take len (drop pos smp))) h);
        pos1 = pos + len;
        (event, h2) = sys_wait env BELL_EVENTS 0 h1
    in if event AND INT_BUTTON \<noteq> 0
       then if pos1 > 1024 then (0, 0, event, sys_post env SWINT_DOORBELL h2) else (pos1, seconds, event, h2)
       else if event AND SWINT_PPS \<noteq> 0 then (pos1, seconds + 1, event, belllight (shr h2) h2)
       else (pos1, seconds, event, h2))"

partial_function (option) bell_sound ::
  "env \<Rightarrow> (hist \<Rightarrow> shared) \<Rightarrow> u16 list \<Rightarrow> nat \<times> u32 \<times> u32 \<times> hist \<Rightarrow> (u32 \<times> u32 \<times> hist) option" where
  "bell_sound env shr smp st =
    (if fst st < length smp then bell_sound env shr smp (bell_sound_step env shr smp st) else Some (snd st))"

text \<open>After the sound: the light stays on for \<open>HALF_HOUR_S\<close> seconds or until the button is pressed again.\<close>

definition bell_after_step :: "env \<Rightarrow> (hist \<Rightarrow> shared) \<Rightarrow> u32 \<times> u32 \<times> hist \<Rightarrow> u32 \<times> u32 \<times> hist" where
  "bell_after_step env shr = (\<lambda>(seconds, _, h).
    let (event, h1) = sys_wait env BELL_EVENTS (- 1) h
    in if event AND INT_BUTTON = 0 then (seconds + 1, event, belllight (shr h1) h1) else (seconds, event, h1))"

lemma sless_30: "(x :: u32) <s 30 \<Longrightarrow> sint (x + 1) = sint x + 1"
proof -
  assume "x <s 30"
  then have x: "- (2 ^ 31) \<le> sint x" "sint x < 30"
    using sint_range_size [of x] by (simp_all add: word_sless_alt word_size)
  have "sint (x + 1) = signed_take_bit 31 (sint x + 1)"
    by (simp add: sint_word_ariths)
  also have "\<dots> = sint x + 1"
    using x by (intro signed_take_bit_int_eq_self) simp_all
  finally show ?thesis .
qed

function bell_after :: "env \<Rightarrow> (hist \<Rightarrow> shared) \<Rightarrow> u32 \<times> u32 \<times> hist \<Rightarrow> u32 \<times> hist" where
  "bell_after env shr st =
    (if fst st <s HALF_HOUR_S
     then let st1 = bell_after_step env shr st
          in if fst (snd st1) AND INT_BUTTON = 0 then bell_after env shr st1 else snd st1
     else snd st)"
  by pat_completeness auto

termination
proof (relation "measure (\<lambda>(_, _, st). nat (30 - sint (fst st)))")
  fix env :: env and shr st st1
  assume a: "fst st <s (30 :: u32)" and st1: "st1 = bell_after_step env shr st" and b: "fst (snd st1) AND INT_BUTTON = 0"
  obtain seconds ev h where st: "st = (seconds, ev, h)"
    by (cases st)
  have "fst st1 = seconds + 1"
    using b by (auto simp: st1 st bell_after_step_def Let_def split: prod.splits if_splits)
  moreover have "sint seconds < 30"
    using a by (simp add: st word_sless_alt)
  ultimately show "((env, shr, st1), env, shr, st) \<in> measure (\<lambda>(_, _, st). nat (30 - sint (fst st)))"
    using a by (simp add: st sless_30)
qed simp

declare bell_after.simps [simp del]

partial_function (option) bell_ring ::
  "env \<Rightarrow> (hist \<Rightarrow> shared) \<Rightarrow> u16 list \<Rightarrow> u32 \<times> hist \<Rightarrow> hist option" where
  "bell_ring env shr smp st =
    (if fst st AND INT_BUTTON \<noteq> 0
     then do {
       st1 \<leftarrow> bell_sound env shr smp (0, 0, fst st, belllight (shr (snd st)) (snd st));
       bell_ring env shr smp (bell_after env shr st1)
     }
     else Some (snd st))"

definition doorbell_round :: "env \<Rightarrow> (hist \<Rightarrow> shared) \<Rightarrow> u16 list \<Rightarrow> hist \<Rightarrow> hist option" where
  "doorbell_round env shr smp h =
    (let (event, h1) = sys_wait env BELL_EVENTS (- 1) (wr IO_SPIO 0x080 h)
     in bell_ring env shr smp (event, if event AND INT_BUTTON \<noteq> 0 then sys_post env SWINT_DOORBELL h1 else h1))"

section \<open>The menus\<close>

definition menustr :: "u8 list" where
  "menustr = cstring ([CHR 0x1B] @ ''[1;0H     :    '')"

definition entered_menu_str :: "nat \<Rightarrow> u32 \<Rightarrow> int \<Rightarrow> u8 list \<Rightarrow> u8 list option" where
  "entered_menu_str str now pos buf =
    do {
      buf \<leftarrow> bstrcpy str menustr buf;
      buf \<leftarrow> (if pos > 0 then bset (str + 9) (digit now 20) buf else Some buf);
      buf \<leftarrow> (if pos > 1 then bset (str + 10) (digit now 16) buf else Some buf);
      buf \<leftarrow> (if pos > 2 then bset (str + 12) (digit now 12) buf else Some buf);
      buf \<leftarrow> (if pos > 3 then bset (str + 13) (digit now 8) buf else Some buf);
      buf \<leftarrow> (if pos > 4
        then do { buf \<leftarrow> bset (str + 15) (digit now 4) buf; buf \<leftarrow> bset (str + 14) 58 buf;
                  bset (str + 16) (if pos > 5 then digit now 0 else 120) buf }
        else Some buf);
      bset (str + 17) 0 buf
    }"

definition timmenu :: "u8 list" where
  "timmenu = cstring ([CHR 0x1B] @ ''[jSet current time:'')"

definition show_time_menu :: "env \<Rightarrow> (nat \<Rightarrow> u8) \<Rightarrow> u32 \<Rightarrow> int \<Rightarrow> hist \<Rightarrow> hist option" where
  "show_time_menu env stk when posn h =
    do {
      dmsg \<leftarrow> bstrcpy 0 timmenu (stack_array stk 64);
      dmsg \<leftarrow> entered_menu_str 20 when posn dmsg;
      write_str env 1 dmsg h
    }"

definition dawnmenu :: "u8 list" where
  "dawnmenu = cstring ([CHR 0x1B] @ ''[jSet sunrise: '')"

definition show_dawn_menu :: "env \<Rightarrow> (nat \<Rightarrow> u8) \<Rightarrow> u32 \<Rightarrow> int \<Rightarrow> hist \<Rightarrow> hist option" where
  "show_dawn_menu env stk when posn h =
    do {
      dmsg \<leftarrow> bstrcpy 0 dawnmenu (stack_array stk 64);
      dmsg \<leftarrow> entered_menu_str 16 when posn dmsg;
      write_str env 1 dmsg h
    }"

text \<open>The sunset menu does not copy its title (the constant \<open>duskmenu\<close> is not used).\<close>

definition show_dusk_menu :: "env \<Rightarrow> (nat \<Rightarrow> u8) \<Rightarrow> u32 \<Rightarrow> int \<Rightarrow> hist \<Rightarrow> hist option" where
  "show_dusk_menu env stk when posn h =
    do {
      dmsg \<leftarrow> entered_menu_str 15 when posn (stack_array stk 64);
      write_str env 1 dmsg h
    }"

definition menu_readkey :: "env \<Rightarrow> hist \<Rightarrow> (int \<times> hist) option" where
  "menu_readkey env h =
    do {
      let (_, h1) = sys_wait env 0 3 h;
      let (key, h2) = keypadread env h1;
      h3 \<leftarrow> keypad_wait_for_release True env h2;
      Some (key, snd (sys_clear env INT_KEYPAD 0 h3))
    }"

text \<open>
  What a key does at position \<open>p\<close>: the position with which the loop over the digits goes on (before its
  increment), or \<open>None\<close> for leaving the menu; and the time entered so far.
\<close>

definition menu_key :: "int \<Rightarrow> int \<Rightarrow> u32 \<Rightarrow> int option \<times> u32" where
  "menu_key key p new =
    (if 0 \<le> key \<and> key < 10
     then let sh = nat ((5 - p) * 4)
          in (Some p, (new AND NOT (push_bit sh 0x0f)) OR push_bit sh (word_of_int key))
     else if key = 12 then (Some (if p \<ge> 0 then p - 1 else p), new)
     else if p > 4 then (Some p, new)
     else (None, new))"

text \<open>
  Waiting for a key, which all three menus do in the same way, except that a key does not restart the
  timeout of the sunset menu (\<open>restart\<close>).
\<close>

text \<open>A key that has been pressed: its effect, and the timeout.\<close>

definition menu_press :: "bool \<Rightarrow> env \<Rightarrow> int \<Rightarrow> int \<Rightarrow> u32 \<Rightarrow> hist \<Rightarrow> (int option \<times> int \<times> u32 \<times> hist) option" where
  "menu_press restart env p timeout new h =
    do {
      (key, h1) \<leftarrow> menu_readkey env h;
      let (p1, new1) = menu_key key p new;
      Some (p1, if restart then 60 else timeout, new1, h1)
    }"

partial_function (option) menu_wait ::
  "bool \<Rightarrow> env \<Rightarrow> int \<Rightarrow> int \<Rightarrow> u32 \<Rightarrow> hist \<Rightarrow> (int option \<times> int \<times> u32 \<times> hist) option" where
  "menu_wait restart env p timeout new h =
    (let w = sys_wait env (SWINT_PPS OR INT_KEYPAD) (- 1) h;
         timeout1 = (if fst w AND SWINT_PPS \<noteq> 0 then timeout - 1 else timeout)
     in if fst w AND SWINT_PPS \<noteq> 0 \<and> timeout1 = 0 then Some (None, timeout1, new, snd w)
        else if fst w AND INT_KEYPAD \<noteq> 0 then menu_press restart env p timeout1 new (snd w)
        else menu_wait restart env p timeout1 new (snd w))"

partial_function (option) menu_digits ::
  "bool \<Rightarrow> env \<Rightarrow> (u32 \<Rightarrow> int \<Rightarrow> hist \<Rightarrow> hist option) \<Rightarrow> int \<Rightarrow> int \<Rightarrow> u32 \<Rightarrow> hist \<Rightarrow> (u32 option \<times> hist) option" where
  "menu_digits restart env sh p timeout new h =
    (if p < 6
     then do {
       h1 \<leftarrow> sh new p h;
       (p1, timeout1, new1, h2) \<leftarrow> menu_wait restart env p timeout new h1;
       (case p1 of None \<Rightarrow> Some (None, h2)
        | Some p1 \<Rightarrow> menu_digits restart env sh (p1 + 1) timeout1 new1 h2)
     }
     else Some (Some new, h))"

definition time_menu :: "env \<Rightarrow> (nat \<Rightarrow> u8) \<Rightarrow> shared \<Rightarrow> hist \<Rightarrow> (shared \<times> hist) option" where
  "time_menu env stk v h =
    do {
      (new, h1) \<leftarrow> menu_digits True env (show_time_menu env stk) 0 60 0 h;
      (case new of None \<Rightarrow> Some (v, h1)
       | Some newclock \<Rightarrow>
           let (_, h2) = sys_clear env SWINT_PPS 0 h1;
               v1 = v\<lparr>clock := newclock\<rparr>;
               (w, h3) = sys_wait env SWINT_PPS 1 h2
           in Some (if w \<noteq> 0 then v1\<lparr>clock := newclock\<rparr> else v1, h3))
    }"

definition dawn_menu :: "env \<Rightarrow> (nat \<Rightarrow> u8) \<Rightarrow> shared \<Rightarrow> hist \<Rightarrow> (shared \<times> hist) option" where
  "dawn_menu env stk v h =
    do {
      (new, h1) \<leftarrow> menu_digits True env (show_dawn_menu env stk) 0 60 0 h;
      Some (case new of None \<Rightarrow> v | Some newdawn \<Rightarrow> v\<lparr>dawn := newdawn\<rparr>, h1)
    }"

definition dusk_menu :: "env \<Rightarrow> (nat \<Rightarrow> u8) \<Rightarrow> shared \<Rightarrow> hist \<Rightarrow> (shared \<times> hist) option" where
  "dusk_menu env stk v h =
    do {
      (new, h1) \<leftarrow> menu_digits False env (show_dusk_menu env stk) 0 60 0 h;
      Some (case new of None \<Rightarrow> v | Some newdusk \<Rightarrow> v\<lparr>dusk := newdusk\<rparr>, h1)
    }"

definition unknownstr :: "u8 list" where
  "unknownstr = cstring ([CHR 0x1B] @ ''[jUnknown Cmd Key'' @ [CHR 0x1B] @ ''[1;0HA/Tm B/Dwn C/Dsk'')"

definition unknown_menu :: "env \<Rightarrow> hist \<Rightarrow> hist" where
  "unknown_menu env h = snd (sys_write env 1 unknownstr h)"

section \<open>The menu task\<close>

text \<open>
  The task's variables \<open>belltime\<close> and \<open>when\<close>, and the shared ones; \<open>adv\<close> is what the clock task has made of
  \<open>rtcclock\<close> when this task looks at it.
\<close>

record menu =
  shv :: shared
  belltime :: u32
  "when" :: u32

abbreviation (input) MENU_EVENTS :: u32 where "MENU_EVENTS \<equiv> SWINT_DOORBELL OR SWINT_PPS OR INT_KEYPAD"

definition seen :: "(hist \<Rightarrow> u32 \<Rightarrow> u32) \<Rightarrow> hist \<Rightarrow> shared \<Rightarrow> shared" where
  "seen adv h v = v\<lparr>clock := adv h (clock v)\<rparr>"

definition menu_start :: "(hist \<Rightarrow> u32 \<Rightarrow> u32) \<Rightarrow> hist \<Rightarrow> menu" where
  "menu_start adv h =
    (let v = seen adv h \<lparr>dawn = 0x060000, dusk = 0x180000, clock = 0\<rparr> in \<lparr>shv = v, belltime = 0, when = clock v\<rparr>)"

definition menu_display :: "env \<Rightarrow> (hist \<Rightarrow> u32 \<Rightarrow> u32) \<Rightarrow> (nat \<Rightarrow> u8) \<Rightarrow> u32 \<Rightarrow> menu \<times> hist \<Rightarrow> (menu \<times> hist) option" where
  "menu_display env adv stk event = (\<lambda>(m, h).
    if event AND SWINT_DOORBELL \<noteq> 0
    then do {
      h1 \<leftarrow> showbell env stk (when m) h;
      let (t, h2) = sys_time env h1;
      Some (m\<lparr>belltime := t\<rparr>, h2)
    }
    else if event AND SWINT_PPS \<noteq> 0
    then let (now, h1) = sys_time env h
         in if now - belltime m < HALF_HOUR_S then map_option (\<lambda>h2. (m, h2)) (showbell env stk (when m) h1)
            else let v = seen adv h1 (shv m)
                 in map_option (\<lambda>h2. (m\<lparr>shv := v, when := clock v\<rparr>, h2)) (shownow env stk (dawn v) (dusk v) (clock v) h1)
    else Some (m, h))"

definition menu_command :: "env \<Rightarrow> (hist \<Rightarrow> u32 \<Rightarrow> u32) \<Rightarrow> (nat \<Rightarrow> u8) \<Rightarrow> int \<Rightarrow> menu \<times> hist \<Rightarrow> (menu \<times> hist) option" where
  "menu_command env adv stk key = (\<lambda>(m, h).
    if key = 10
    then do {
      (v, h1) \<leftarrow> time_menu env stk (shv m) h;
      let v1 = seen adv h1 v;
      Some (m\<lparr>shv := v1, when := clock v1\<rparr>, h1)
    }
    else if key = 11 then do { (v, h1) \<leftarrow> dawn_menu env stk (shv m) h; Some (m\<lparr>shv := v\<rparr>, h1) }
    else if key = 12 then do { (v, h1) \<leftarrow> dusk_menu env stk (shv m) h; Some (m\<lparr>shv := v\<rparr>, h1) }
    else Some (m, snd (sys_wait env 0 3000 (unknown_menu env h))))"

definition menu_round :: "env \<Rightarrow> (hist \<Rightarrow> u32 \<Rightarrow> u32) \<Rightarrow> (nat \<Rightarrow> u8) \<Rightarrow> menu \<times> hist \<Rightarrow> (menu \<times> hist) option" where
  "menu_round env adv stk = (\<lambda>(m, h).
    do {
      let (event, h1) = sys_wait env MENU_EVENTS (- 1) h;
      (m2, h2) \<leftarrow> menu_display env adv stk event (m, h1);
      if event AND INT_KEYPAD \<noteq> 0
      then do {
        (key, h3) \<leftarrow> menu_readkey env h2;
        (m4, h4) \<leftarrow> menu_command env adv stk key (m2, h3);
        Some (m4, snd (sys_clear env INT_KEYPAD 0 h4))
      }
      else Some (m2, h2)
    })"

section \<open>What the display shows\<close>

text \<open>Two decimal digits as characters; the clock's face for a time of day.\<close>

definition two_digits :: "nat \<Rightarrow> u8 list" where
  "two_digits n = [of_nat (48 + n div 10), of_nat (48 + n mod 10)]"

definition clock_face :: "tod \<Rightarrow> u8 list" where
  "clock_face t = two_digits (hour t) @ [58] @ two_digits (minute t) @ [58] @ two_digits (sec t)"

lemma unat_digit: "unat (digit now k) = 48 + unat now div 2 ^ k mod 16"
proof -
  have "unat (drop_bit k now AND 0x0f) = unat now div 2 ^ k mod 16"
    by (simp add: unat_and_digits(1) unat_drop_bit_div)
  moreover have "unat now div 2 ^ k mod 16 < 16"
    by simp
  ultimately have "unat ((drop_bit k now AND 0x0f) + 48) = 48 + unat now div 2 ^ k mod 16"
    by (subst unat_add_lem [THEN iffD1]) simp_all
  then show ?thesis
    unfolding digit_def by (subst unat_to_u8) simp_all
qed

lemma digit_nonzero [simp]: "digit now k \<noteq> 0" "0 \<noteq> digit now k"
  using unat_digit [of now k] by auto

lemma digit_eq: "unat now div 2 ^ k mod 16 = n \<Longrightarrow> digit now k = of_nat (48 + n)"
  by (metis unat_digit of_nat_unat ucast_id)

lemma digits_bcd:
  assumes "tod_ok t"
  shows "[digit (bcd_tod t) 20, digit (bcd_tod t) 16] = two_digits (hour t)"
    "[digit (bcd_tod t) 12, digit (bcd_tod t) 8] = two_digits (minute t)"
    "[digit (bcd_tod t) 4, digit (bcd_tod t) 0] = two_digits (sec t)"
proof -
  define h1 h0 m1 m0 s1 s0 where d: "h1 = hour t div 10" "h0 = hour t mod 10" "m1 = minute t div 10"
    "m0 = minute t mod 10" "s1 = sec t div 10" "s0 = sec t mod 10"
  have small: "h1 < 3" "h0 < 10" "m1 < 6" "m0 < 10" "s1 < 6" "s0 < 10"
    using assms by (simp_all add: d tod_ok_def less_mult_imp_div_less)
  have n: "unat (bcd_tod t) = 65536 * (16 * h1 + h0) + 256 * (16 * m1 + m0) + (16 * s1 + s0)"
    using assms by (simp add: unat_bcd_tod bcd2_def d)
  have "unat (bcd_tod t) div 2 ^ 20 mod 16 = h1"
    unfolding n using small by (intro last_digit [where a = "65536 * h0 + 256 * (16 * m1 + m0) + (16 * s1 + s0)" and c = 0]) simp_all
  moreover have "unat (bcd_tod t) div 2 ^ 16 mod 16 = h0"
    unfolding n using small by (intro last_digit [where a = "256 * (16 * m1 + m0) + (16 * s1 + s0)" and c = h1]) simp_all
  moreover have "unat (bcd_tod t) div 2 ^ 12 mod 16 = m1"
    unfolding n using small by (intro last_digit [where a = "256 * m0 + (16 * s1 + s0)" and c = "16 * h1 + h0"]) simp_all
  moreover have "unat (bcd_tod t) div 2 ^ 8 mod 16 = m0"
    unfolding n using small by (intro last_digit [where a = "16 * s1 + s0" and c = "m1 + 16 * (16 * h1 + h0)"]) simp_all
  moreover have "unat (bcd_tod t) div 2 ^ 4 mod 16 = s1"
    unfolding n using small by (intro last_digit [where a = s0 and c = "m0 + 16 * (m1 + 16 * (16 * h1 + h0))"]) simp_all
  moreover have "unat (bcd_tod t) div 2 ^ 0 mod 16 = s0"
    unfolding n using small by (intro last_digit [where a = 0 and c = "s1 + 16 * (16 * m1 + m0 + 16 * 16 * (16 * h1 + h0))"]) simp_all
  ultimately show "[digit (bcd_tod t) 20, digit (bcd_tod t) 16] = two_digits (hour t)"
    "[digit (bcd_tod t) 12, digit (bcd_tod t) 8] = two_digits (minute t)"
    "[digit (bcd_tod t) 4, digit (bcd_tod t) 0] = two_digits (sec t)"
    by (simp_all only: digit_eq two_digits_def d)
qed

text \<open>The first line of the display: the clock.\<close>

definition time_line :: "u32 \<Rightarrow> u8 list" where
  "time_line now = take 9 basemsg @ [digit now 20, digit now 16, 58, digit now 12, digit now 8, 58, digit now 4, digit now 0] @
    drop 17 basemsg"

lemma put_time_line: "put_time now (basemsg @ r) = Some (time_line now @ r)"
proof -
  have b: "basemsg = [27, 91, 106, 84, 105, 109, 101, 58, 32, 120, 120, 58, 120, 120, 58, 120, 120, 27, 91, 49, 59, 48, 72, 32]"
    by code_simp
  show ?thesis
    by (simp add: put_time_def time_line_def b bset_def list_update_numeral)
qed

lemma time_line_nul: "0 \<notin> set (time_line now)"
proof -
  have "0 \<notin> set basemsg"
    by code_simp
  then have "0 \<notin> set (take 9 basemsg)" "0 \<notin> set (drop 17 basemsg)"
    by (auto dest: in_set_takeD in_set_dropD)
  then show ?thesis
    by (simp add: time_line_def)
qed

lemma message_sent:
  assumes "length str \<le> 15" "0 \<notin> set str"
  shows "\<exists>h'. do {
      dmsg \<leftarrow> bstrcpy 0 basemsg (stack_array stk 40);
      dmsg \<leftarrow> put_time now dmsg;
      dmsg \<leftarrow> bstrcat 0 str dmsg;
      write_str env 1 dmsg h
    } = Some h' \<and> sent 1 h' = sent 1 h @ time_line now @ str"
proof -
  let ?r = "drop 25 (stack_array stk 40)"
  have len: "length basemsg = 24" "length (stack_array stk 40) = 40"
    by (code_simp, simp add: stack_array_def)
  have "bstrcpy 0 basemsg (stack_array stk 40) = Some (basemsg @ 0 # ?r)"
    using len by (simp add: bstrcpy_def bput_0)
  moreover have tl: "length (time_line now) = 24"
    using len by (simp add: time_line_def)
  have "bput (length (time_line now)) (str @ [0]) (time_line now @ 0 # ?r)
      = Some (time_line now @ (str @ [0]) @ drop (length (str @ [0])) (0 # ?r))"
    using len assms(1) by (intro bput_at) simp
  then have "bstrcat 0 str (time_line now @ 0 # ?r) = Some ((time_line now @ str) @ 0 # drop (length str) ?r)"
    by (simp add: bstrcat_def bnul_append [OF time_line_nul])
  moreover have "bstrlen 0 ((time_line now @ str) @ 0 # drop (length str) ?r) = Some (length (time_line now @ str))"
    using assms(2) time_line_nul [of now] unfolding bstrlen_def by (subst bnul_append) simp_all
  ultimately show ?thesis
    by (simp add: put_time_line write_str_def)
qed

lemma time_line_bcd:
  "tod_ok t \<Longrightarrow> time_line (bcd_tod t) = take 9 basemsg @ clock_face t @ drop 17 basemsg"
  using digits_bcd [of t] by (simp add: time_line_def clock_face_def two_digits_def)

section \<open>The menus\<close>

text \<open>What a menu has entered after the keys of a list, all of them digits.\<close>

definition menu_keys :: "int list \<Rightarrow> int \<times> u32 \<Rightarrow> int \<times> u32" where
  "menu_keys = fold (\<lambda>key (p, new). case menu_key key p new of (Some p1, new1) \<Rightarrow> (p1 + 1, new1) | (None, new1) \<Rightarrow> (p, new1))"

lemma menu_key_backspace: "0 \<le> p \<Longrightarrow> menu_key 12 p new = (Some (p - 1), new)"
  by (simp add: menu_key_def)

lemma menu_key_leaves: "\<not> (0 \<le> key \<and> key < 10) \<Longrightarrow> key \<noteq> 12 \<Longrightarrow> p \<le> 4 \<Longrightarrow> menu_key key p new = (None, new)"
  by (auto simp: menu_key_def)

text \<open>Digits packed four bits each, the first one highest; entering a digit writes the next place.\<close>

definition packed :: "int list \<Rightarrow> nat" where
  "packed = foldl (\<lambda>a k. 16 * a + nat k) 0"

lemma packed_snoc: "packed (ks @ [k]) = 16 * packed ks + nat k"
  by (simp add: packed_def)

lemma packed_less: "\<forall>k\<in>set ks. 0 \<le> k \<and> k < 10 \<Longrightarrow> packed ks < 16 ^ length ks"
proof (induction ks rule: rev_induct)
  case (snoc k ks)
  then have "packed ks + 1 \<le> 16 ^ length ks" "nat k < 16"
    by (auto simp: Suc_le_eq)
  then show ?case
    by (simp add: packed_snoc)
qed (simp add: packed_def)

lemma place_digit:
  assumes v: "v < 16 ^ n" and n: "n < 6" and k: "0 \<le> k" "k < 16"
  shows "(of_nat (v * 16 ^ (6 - n)) AND NOT (push_bit (4 * (5 - n)) 0x0f)) OR push_bit (4 * (5 - n)) (word_of_int k)
    = (of_nat ((16 * v + nat k) * 16 ^ (5 - n)) :: u32)"
proof -
  let ?sh = "4 * (5 - n)"
  have pow: "(16 :: nat) ^ m = 2 ^ (4 * m)" for m
    by (simp add: power_mult)
  have e: "6 - n = Suc (5 - n)"
    using n by simp
  have w: "(of_nat (v * 16 ^ (6 - n)) :: u32) = push_bit (?sh + 4) (of_nat v)"
    unfolding e pow by (simp add: push_bit_eq_mult power_add algebra_simps)
  have kw: "(word_of_int k :: u32) = of_nat (nat k)"
    using k by simp
  have zero: "push_bit (?sh + 4) (of_nat v :: u32) AND push_bit ?sh m = 0" if "m AND NOT (mask 4) = 0" for m :: u32
  proof (rule bit_word_eqI)
    fix i
    assume "i < LENGTH(32)"
    have "\<not> bit m (i - ?sh)" if "?sh + 4 \<le> i"
    proof -
      have "\<not> bit (m AND NOT (mask 4)) (i - ?sh)"
        using \<open>m AND NOT (mask 4) = 0\<close> by simp
      with that \<open>i < LENGTH(32)\<close> show ?thesis
        by (auto simp: bit_simps)
    qed
    then show "bit (push_bit (?sh + 4) (of_nat v :: u32) AND push_bit ?sh m) i = bit (0 :: u32) i"
      by (auto simp: bit_simps)
  qed
  have mask15: "(0x0f :: u32) AND NOT (mask 4) = 0"
    by (simp add: mask_eq_exp_minus_1)
  have maskk: "(word_of_int k :: u32) AND NOT (mask 4) = 0"
  proof -
    have "unat (word_of_int k :: u32) = nat k"
      using k unfolding kw by (subst unat_of_nat_u32) simp_all
    then have "unat (word_of_int k AND mask 4 :: u32) = unat (word_of_int k :: u32)"
      using k by (simp add: unat_and_mask_eq_mod)
    then have "(word_of_int k AND mask 4 :: u32) = word_of_int k"
      by (simp only: word_unat_eq_iff)
    then show ?thesis
      by (metis and.assoc bit.conj_cancel_right and_zero_eq)
  qed
  have "push_bit (?sh + 4) (of_nat v :: u32) AND NOT (push_bit ?sh 0x0f) = push_bit (?sh + 4) (of_nat v)"
    using zero [OF mask15] by (metis (no_types) word_bw_comms(1) and_eq_not_not_or bit.conj_disj_distrib bit.disj_cancel_right and.right_neutral or.left_neutral or.commute)
  then have "(of_nat (v * 16 ^ (6 - n)) AND NOT (push_bit ?sh 0x0f)) OR push_bit ?sh (word_of_int k)
      = push_bit (?sh + 4) (of_nat v) OR push_bit ?sh (word_of_int k :: u32)"
    by (simp only: w)
  also have "\<dots> = push_bit (?sh + 4) (of_nat v) + push_bit ?sh (word_of_int k)"
    by (rule disjunctive_add [symmetric]) (use zero [OF maskk] in \<open>metis bit_and_iff bit_0_eq bot_apply bot_bool_def\<close>)
  also have "\<dots> = of_nat ((16 * v + nat k) * 16 ^ (5 - n))"
    unfolding pow kw by (simp add: push_bit_eq_mult power_add algebra_simps)
  finally show ?thesis .
qed

lemma menu_key_digit:
  assumes "0 \<le> k" "k < 10" "n < 6"
  shows "menu_key k (int n) new =
    (Some (int n), (new AND NOT (push_bit (4 * (5 - n)) 0x0f)) OR push_bit (4 * (5 - n)) (word_of_int k))"
proof -
  have "nat ((5 - int n) * 4) = 4 * (5 - n)"
  proof -
    have "(5 - int n) * 4 = int (4 * (5 - n))"
      using assms(3) by simp
    then show ?thesis
      by (simp only: nat_int)
  qed
  then show ?thesis
    using assms by (simp only: menu_key_def Let_def) simp
qed

lemma menu_keys_digits:
  "\<forall>k\<in>set keys. 0 \<le> k \<and> k < 10 \<or> k = 12 \<Longrightarrow> length (filter (\<lambda>k. k \<noteq> 12) keys) \<le> 6 \<Longrightarrow>
    menu_keys keys (0, 0) =
      (let ds = filter (\<lambda>k. k \<noteq> 12) keys in (int (length ds), of_nat (packed ds * 16 ^ (6 - length ds))))"
proof (induction keys rule: rev_induct)
  case Nil
  then show ?case
    by (simp add: menu_keys_def packed_def)
next
  case (snoc k keys)
  let ?ds = "filter (\<lambda>k. k \<noteq> 12) keys"
  have step: "menu_keys (keys @ [k]) (0, 0) = (case menu_keys keys (0, 0) of (p, new) \<Rightarrow>
      (case menu_key k p new of (Some p1, new1) \<Rightarrow> (p1 + 1, new1) | (None, new1) \<Rightarrow> (p, new1)))"
    by (simp add: menu_keys_def)
  have ih: "menu_keys keys (0, 0) = (int (length ?ds), of_nat (packed ?ds * 16 ^ (6 - length ?ds)))"
    using snoc by (simp add: Let_def split: if_splits)
  show ?case
  proof (cases "k = 12")
    case True
    have "filter (\<lambda>k. k \<noteq> 12) (keys @ [k]) = ?ds"
      by (simp add: True)
    then show ?thesis
      unfolding step ih Let_def using True by (simp add: menu_key_backspace)
  next
    case False
    then have k: "0 \<le> k" "k < 10" and n: "length ?ds < 6"
      using snoc.prems by auto
    have "packed ?ds < 16 ^ length ?ds"
      using snoc.prems(1) by (intro packed_less) auto
    then have "menu_key k (int (length ?ds)) (of_nat (packed ?ds * 16 ^ (6 - length ?ds)))
        = (Some (int (length ?ds)), of_nat (packed (?ds @ [k]) * 16 ^ (5 - length ?ds)))"
      using k n unfolding menu_key_digit [OF k n] packed_snoc by (subst place_digit) simp_all
    then show ?thesis
      using False by (simp add: step ih Let_def)
  qed
qed

text \<open>The second line of a menu with \<open>pos\<close> digits entered.\<close>

definition entered_text :: "u32 \<Rightarrow> int \<Rightarrow> u8 list" where
  "entered_text now pos =
    take 9 menustr @
    [if pos > 0 then digit now 20 else 32, if pos > 1 then digit now 16 else 32, 58,
     if pos > 2 then digit now 12 else 32, if pos > 3 then digit now 8 else 32] @
    (if pos > 4 then [58, digit now 4, if pos > 5 then digit now 0 else 120] else [32, 32])"

lemma bset_append: "bset (length l + i) v (l @ r) = map_option ((@) l) (bset i v r)"
  by (simp add: bset_def list_update_append)

lemma entered_menu_str_text:
  assumes "length r = 18"
  shows "\<exists>r'. entered_menu_str (length l) now pos (l @ r @ rest) = Some (l @ entered_text now pos @ 0 # r')"
proof -
  have m: "menustr = [27, 91, 49, 59, 48, 72, 32, 32, 32, 32, 32, 58, 32, 32, 32, 32]"
    by code_simp
  have "length (drop 17 r) = Suc 0"
    using assms by simp
  then obtain y where y: "drop 17 r = [y]"
    by (metis length_0_conv length_Suc_conv)
  have copy: "bstrcpy (length l) menustr (l @ r @ rest) = Some (l @ (menustr @ [0, y]) @ rest)"
  proof -
    have len: "length (menustr @ [0]) = 17" and d: "drop 17 (r @ rest) = [y] @ rest"
      using assms y by (simp_all add: m)
    show ?thesis
      unfolding bstrcpy_def using bput_at [of "menustr @ [0]" "r @ rest" l] unfolding len d by (simp add: assms)
  qed
  note run = entered_menu_str_def copy [unfolded m] bset_append m entered_text_def
  consider "pos \<le> 0" | "pos = 1" | "pos = 2" | "pos = 3" | "pos = 4" | "pos = 5" | "pos > 5"
    by linarith
  then show ?thesis
    by cases (simp_all add: run, simp_all add: bset_def list_update_numeral list_update_append)
qed

lemma takeWhile_nul [simp]: "0 \<notin> set s \<Longrightarrow> takeWhile (\<lambda>c. c \<noteq> 0) s = (s :: u8 list)"
  unfolding takeWhile_eq_all_conv by auto

lemma bnul_takeWhile: "bnul 0 (s @ 0 # r) = Some (length (takeWhile (\<lambda>c. c \<noteq> 0) s))"
proof (cases "0 \<in> set s")
  case True
  have "takeWhile (\<lambda>c. c \<noteq> 0) (s @ 0 # r) = takeWhile (\<lambda>c. c \<noteq> 0) s"
    by (rule takeWhile_append1 [OF True]) simp
  moreover have "length (takeWhile (\<lambda>c. c \<noteq> 0) s) < length s + 1"
    by (simp add: length_takeWhile_le le_imp_less_Suc)
  ultimately show ?thesis
    by (simp add: bnul_def Let_def)
next
  case False
  with bnul_append [OF False, of r] show ?thesis
    by simp
qed

lemma write_str_sent:
  "\<exists>h'. write_str env 1 (s @ 0 # r) h = Some h' \<and> sent 1 h' = sent 1 h @ takeWhile (\<lambda>c. c \<noteq> 0) s"
proof -
  have "length (takeWhile (\<lambda>c. c \<noteq> 0) s) \<le> length s"
    by (rule length_takeWhile_le)
  then show ?thesis
    by (simp add: write_str_def bstrlen_def bnul_takeWhile flip: takeWhile_eq_take)
qed

lemma entered_text_nul: "0 \<notin> set (entered_text now pos)"
proof -
  have "0 \<notin> set (take 9 menustr)"
    by code_simp
  then show ?thesis
    by (simp add: entered_text_def)
qed

lemma menu_shown:
  assumes "length str = n" "0 \<notin> set str" "n \<le> 40"
  shows "\<exists>h'. do {
      dmsg \<leftarrow> bstrcpy 0 str (stack_array stk 64);
      dmsg \<leftarrow> entered_menu_str n now pos dmsg;
      write_str env 1 dmsg h
    } = Some h' \<and> sent 1 h' = sent 1 h @ str @ entered_text now pos"
proof -
  define r where "r = 0 # drop (Suc n) (stack_array stk 64)"
  have r: "r = take 18 r @ drop 18 r" "length (take 18 r) = 18"
    by (rule append_take_drop_id [symmetric]) (use assms(3) in \<open>simp add: r_def stack_array_def\<close>)
  have "bstrcpy 0 str (stack_array stk 64) = Some (str @ r)"
    using assms(1,3) by (simp add: bstrcpy_def bput_0 stack_array_def r_def)
  moreover obtain r' where "entered_menu_str n now pos (str @ r) = Some ((str @ entered_text now pos) @ 0 # r')"
    using entered_menu_str_text [OF r(2), of str now pos "drop 18 r"] assms(1) r(1) by auto
  moreover have "takeWhile (\<lambda>c. c \<noteq> 0) (str @ entered_text now pos) = str @ entered_text now pos"
    by (rule takeWhile_nul) (use assms(2) entered_text_nul [of now pos] in simp)
  ultimately show ?thesis
    using write_str_sent [of env "str @ entered_text now pos" r' h] assms(2) entered_text_nul [of now pos] by simp
qed

lemma untitled_menu_shown:
  "\<exists>h'. do {
      dmsg \<leftarrow> entered_menu_str 15 now pos (stack_array stk 64);
      write_str env 1 dmsg h
    } = Some h' \<and> sent 1 h' = sent 1 h @ takeWhile (\<lambda>c. c \<noteq> 0) (stack_array stk 15 @ entered_text now pos)"
proof -
  define r where "r = drop 15 (stack_array stk 64)"
  have s: "stack_array stk 64 = stack_array stk 15 @ r" "length (stack_array stk 15) = 15"
  proof -
    have "take 15 (stack_array stk 64) = stack_array stk 15"
      by (simp add: stack_array_def take_map)
    then show "stack_array stk 64 = stack_array stk 15 @ r"
      unfolding r_def by (metis append_take_drop_id)
  qed (simp add: stack_array_def)
  have r: "r = take 18 r @ drop 18 r" "length (take 18 r) = 18"
    by (rule append_take_drop_id [symmetric]) (simp add: r_def stack_array_def)
  obtain r' where "entered_menu_str 15 now pos (stack_array stk 15 @ r) = Some ((stack_array stk 15 @ entered_text now pos) @ 0 # r')"
    using entered_menu_str_text [OF r(2), of "stack_array stk 15" now pos "drop 18 r"] s(2) r(1) by auto
  then show ?thesis
    using write_str_sent [of env "stack_array stk 15 @ entered_text now pos" r' h] by (simp add: s(1))
qed

section \<open>Properties\<close>

text \<open>
  C18. The display line of the clock: whatever is on the stack, \<open>shownow\<close> stays inside its array and sends
  the two digits each of hours, minutes and seconds, and says night exactly before sunrise and after sunset.
\<close>

theorem shownow_display:
  assumes "tod_ok t" "tod_ok rise" "tod_ok fall"
  shows "\<exists>h'. shownow env stk (bcd_tod rise) (bcd_tod fall) (bcd_tod t) h = Some h' \<and>
    sent 1 h' = sent 1 h @ take 9 basemsg @ clock_face t @ drop 17 basemsg @
      cstring (if t < rise \<or> fall < t then ''Night time'' else ''Daylight!'')"
proof -
  have less: "bcd_tod a < bcd_tod b \<longleftrightarrow> a < b" if "tod_ok a" "tod_ok b" for a b
    using bcd_tod_less that by (metis less_imp_not_less linorder_cases)
  let ?str = "if t < rise \<or> fall < t then nighttime else daylight"
  have len: "length nighttime \<le> 15" "length daylight \<le> 15" "0 \<notin> set nighttime" "0 \<notin> set daylight"
    by code_simp+
  then have "length ?str \<le> 15" "0 \<notin> set ?str"
    by simp_all
  from message_sent [OF this, of stk "bcd_tod t" env h] show ?thesis
    using assms by (simp add: shownow_def less time_line_bcd nighttime_def daylight_def if_distrib cong: if_cong)
qed

text \<open>
  Entering a number in a menu: the digit keys fill the six places from the left, and the key C, meant as
  backspace, changes nothing: the loop takes back the step it makes. All other keys leave the menu without a result,
  except in the last place.
\<close>

theorem menu_entry:
  assumes "\<forall>k\<in>set keys. 0 \<le> k \<and> k < 10 \<or> k = 12" "ds = filter (\<lambda>k. k \<noteq> 12) keys" "length ds \<le> 6"
  shows "menu_keys keys (0, 0) = (int (length ds), of_nat (packed ds * 16 ^ (6 - length ds))) \<and>
    menu_keys keys (0, 0) = menu_keys ds (0, 0) \<and>
    (\<forall>key p new. \<not> (0 \<le> key \<and> key < 10) \<and> key \<noteq> 12 \<and> p \<le> 4 \<longrightarrow> fst (menu_key key p new) = None)"
proof -
  have "\<forall>k\<in>set ds. 0 \<le> k \<and> k < 10 \<or> k = 12" "filter (\<lambda>k. k \<noteq> 12) ds = ds"
    using assms(1,2) by auto
  then show ?thesis
    using assms menu_keys_digits [of keys] menu_keys_digits [of ds] by (simp add: Let_def menu_key_leaves)
qed

text \<open>
  What the menus show: the time and the sunrise menu show their title and the digits entered so far; the sunset menu has
  no title, it shows the first 15 bytes that were on the stack, and the digits only if none of these is NUL. All
  three stay inside their arrays.
\<close>

theorem menus_display:
  "(\<exists>h1. show_time_menu env stk now pos h = Some h1 \<and> sent 1 h1 = sent 1 h @ timmenu @ entered_text now pos) \<and>
   (\<exists>h2. show_dawn_menu env stk now pos h = Some h2 \<and> sent 1 h2 = sent 1 h @ dawnmenu @ entered_text now pos) \<and>
   (\<exists>h3. show_dusk_menu env stk now pos h = Some h3 \<and>
     sent 1 h3 = sent 1 h @ takeWhile (\<lambda>c. c \<noteq> 0) (stack_array stk 15 @ entered_text now pos))"
  (is "?time \<and> ?dawn \<and> ?dusk")
proof (intro conjI)
  show ?time
    unfolding show_time_menu_def by (rule menu_shown; code_simp)
  show ?dawn
    unfolding show_dawn_menu_def by (rule menu_shown; code_simp)
  show ?dusk
    unfolding show_dusk_menu_def by (rule untitled_menu_shown)
qed

section \<open>Witnesses\<close>

theorem shownow_display_witness:
  "\<exists>h'. shownow (\<lambda>_ _. 0) (\<lambda>_. 7) (bcd_tod (Tod 6 0 0)) (bcd_tod (Tod 18 0 0)) (bcd_tod (Tod 23 59 8)) [] = Some h' \<and>
    sent 1 h' = cstring ([CHR 0x1B] @ ''[jTime: 23:59:08'' @ [CHR 0x1B] @ ''[1;0H Night time'')"
proof -
  have "take 9 basemsg @ clock_face (Tod 23 59 8) @ drop 17 basemsg @ cstring ''Night time''
      = cstring ([CHR 0x1B] @ ''[jTime: 23:59:08'' @ [CHR 0x1B] @ ''[1;0H Night time'')"
    by code_simp
  then show ?thesis
    using shownow_display [of "Tod 23 59 8" "Tod 6 0 0" "Tod 18 0 0" "\<lambda>_ _. 0" "\<lambda>_. 7" "[]"]
    by (simp add: tod_ok_def less_tod_def)
qed

theorem menu_entry_witness: "menu_keys [1, 12, 2, 3, 12, 12, 0] (0, 0) = (4, 0x123000)"
  using menu_entry [of "[1, 12, 2, 3, 12, 12, 0]" "[1, 2, 3, 0]"] by (simp add: packed_def)

end
