(* ===== verification/Ttybus.thy ===== *)
theory Ttybus
  imports Buffers
begin

text \<open>
  The host side of the debugging bus, sw/host/ttybus.cpp: bus words and addresses as characters that carry
  six bits each, with a table of the last values as compression, over a serial port or a socket.

  The device is the list of what will arrive on it (\<open>t_rx\<close>). A read on a serial port, which is opened
  without blocking, returns -1 when nothing is there; one on a socket waits. An operation returns \<open>None\<close> if
  it waits for ever, and otherwise an exception or its value, and the new state.
  The command under construction, which the code keeps in \<open>m_buf\<close> up to the next device write, is a list of
  its own; \<open>t_buf\<close> is \<open>m_buf\<close> as the receive side uses it.
\<close>

section \<open>State and device\<close>

datatype arrival = Bytes "u8 list" | Pause | Hangup

record tty =
  t_rx :: "arrival list"
  t_nonblock :: bool
  t_tx :: "u8 list"
  t_total_nread :: u64
  t_interrupt_flag :: bool
  t_addr_set :: bool
  t_bus_err :: bool
  t_lastaddr :: u32
  t_buflen :: u32
  t_buf :: "u8 list"
  t_wrloaded :: bool
  t_rdaddr :: u32
  t_wraddr :: u32
  t_readtbl :: "u32 \<Rightarrow> u32"
  t_writetbl :: "u32 \<Rightarrow> u32"

text \<open>\<open>BUSERR\<close> is thrown; \<open>exit\<close> ends the program; \<open>OutOfBounds\<close> is an access outside \<open>m_buf\<close>.\<close>

datatype exn = BUSERR u32 | Exit | OutOfBounds

type_synonym 'a tm = "tty \<Rightarrow> ((exn + 'a) \<times> tty) option"

definition tret :: "'a \<Rightarrow> 'a tm" where
  "tret a s = Some (Inr a, s)"

definition tthrow :: "exn \<Rightarrow> 'a tm" where
  "tthrow e s = Some (Inl e, s)"

definition tupd :: "(tty \<Rightarrow> tty) \<Rightarrow> unit tm" where
  "tupd f s = Some (Inr (), f s)"

definition tbind :: "'a tm \<Rightarrow> ('a \<Rightarrow> 'b tm) \<Rightarrow> 'b tm" where
  "tbind m f s = (case m s of None \<Rightarrow> None | Some (Inl e, s1) \<Rightarrow> Some (Inl e, s1) | Some (Inr a, s1) \<Rightarrow> f a s1)"

lemma tm_simps [simp]:
  "tret a s = Some (Inr a, s)"
  "tthrow e s = Some (Inl e, s)"
  "tupd g s = Some (Inr (), g s)"
  "tbind m f s = (case m s of None \<Rightarrow> None | Some (Inl e, s1) \<Rightarrow> Some (Inl e, s1) | Some (Inr a, s1) \<Rightarrow> f a s1)"
  by (simp_all add: tret_def tthrow_def tupd_def tbind_def)

text \<open>
  \<open>LLCOMMSI::read\<close>: the count (or -1) and the bytes; a closed connection gives 0 for ever.
\<close>

fun dev_read :: "bool \<Rightarrow> nat \<Rightarrow> arrival list \<Rightarrow> (int \<times> u8 list \<times> arrival list) option" where
  "dev_read nb len [] = (if nb then Some (- 1, [], []) else None)"
| "dev_read nb len (Bytes bs # rx) =
    (if bs = [] then dev_read nb len rx
     else Some (int (length (take len bs)), take len bs, if length bs \<le> len then rx else Bytes (drop len bs) # rx))"
| "dev_read nb len (Pause # rx) = (if nb then Some (- 1, [], rx) else dev_read nb len rx)"
| "dev_read nb len (Hangup # rx) = Some (0, [], Hangup # rx)"

fun dev_available :: "arrival list \<Rightarrow> bool" where
  "dev_available [] = False"
| "dev_available (Bytes bs # rx) = (bs \<noteq> [] \<or> dev_available rx)"
| "dev_available (Pause # rx) = False"
| "dev_available (Hangup # rx) = True"

definition dev_write :: "u8 list \<Rightarrow> tty \<Rightarrow> tty" where
  "dev_write bs s = s\<lparr>t_tx := t_tx s @ bs\<rparr>"

section \<open>Six bits per character\<close>

definition charenc :: "u32 \<Rightarrow> u8" where
  "charenc sixbitval =
    (if sixbitval <s 10 then 48 + ucast sixbitval
     else if sixbitval <s 10 + 26 then 65 - 10 + ucast sixbitval
     else if sixbitval <s 10 + 26 + 26 then 97 - 10 - 26 + ucast sixbitval
     else if sixbitval = 0x3e then 64
     else if sixbitval = 0x3f then 37
     else 0)"

definition chardec :: "u8 \<Rightarrow> u32" where
  "chardec b =
    (if b \<ge> 48 \<and> b \<le> 57 then ucast b - 48
     else if b \<ge> 65 \<and> b \<le> 90 then ucast b - 65 + 10
     else if b \<ge> 97 \<and> b \<le> 122 then ucast b - 97 + 36
     else if b = 64 then 0x03e
     else if b = 37 then 0x03f
     else 0x0100)"

definition encode :: "u32 \<Rightarrow> u32 \<Rightarrow> u8 list" where
  "encode hb val =
    [charenc (push_bit 2 hb OR (drop_bit 30 val AND 0x03)),
     charenc (drop_bit 24 val AND 0x3f), charenc (drop_bit 18 val AND 0x3f), charenc (drop_bit 12 val AND 0x3f),
     charenc (drop_bit 6 val AND 0x3f), charenc (val AND 0x3f)]"

definition shift_in :: "u32 \<Rightarrow> u8 \<Rightarrow> u32" where
  "shift_in r b = push_bit 6 r OR (chardec b AND 0x03f)"

definition decodestr :: "u8 list \<Rightarrow> u32" where
  "decodestr buf = foldl shift_in (chardec (buf ! 0) AND 0x03) [buf ! 1, buf ! 2, buf ! 3, buf ! 4, buf ! 5]"

definition decodehex :: "u8 \<Rightarrow> u32" where
  "decodehex hx =
    (if hx \<ge> 48 \<and> hx \<le> 57 then ucast hx - 48
     else if hx \<ge> 65 \<and> hx \<le> 90 then ucast hx - 65 + 10
     else if hx \<ge> 97 \<and> hx \<le> 122 then ucast hx - 97 + 10
     else 0)"

section \<open>Reading code characters\<close>

text \<open>The loop that is to squeeze out the characters that carry no code.\<close>

primrec lcl_scan :: "nat \<Rightarrow> nat \<Rightarrow> nat \<Rightarrow> int \<Rightarrow> u8 list \<Rightarrow> int \<times> u8 list" where
  "lcl_scan 0 sp dp ret buf = (ret, buf)"
| "lcl_scan (Suc n) sp dp ret buf =
    (if chardec (buf ! sp) AND NOT 0x3f \<noteq> 0 then lcl_scan n (sp + 1) dp (ret - 1) buf
     else lcl_scan n (sp + 1) (dp + 1) ret (buf[sp := buf ! dp]))"

text \<open>\<open>lclreadcode(&m_buf[i], len)\<close>\<close>

definition lclreadcode :: "int \<Rightarrow> int \<Rightarrow> int tm" where
  "lclreadcode i len s =
    (case dev_read (t_nonblock s) (nat len) (t_rx s) of
       None \<Rightarrow> None
     | Some (nr, bs, rx) \<Rightarrow>
         let s1 = s\<lparr>t_rx := rx, t_total_nread := t_total_nread s + word_of_int nr\<rparr>
         in if bs = [] then Some (Inr nr, s1)
            else if i < 0 then Some (Inl OutOfBounds, s1)
            else (case bput (nat i) bs (t_buf s) of
                None \<Rightarrow> Some (Inl OutOfBounds, s1)
              | Some buf \<Rightarrow> let (ret, buf) = lcl_scan (length bs) (nat i) (nat i) nr buf in Some (Inr ret, s1\<lparr>t_buf := buf\<rparr>)))"

text \<open>\<open>do nr += lclreadcode(&m_buf[nr], nw-nr); while(nr < nw)\<close>\<close>

partial_function (option) fill :: "int \<Rightarrow> int \<Rightarrow> unit tm" where
  "fill nw nr s =
    do {
      (r, s1) \<leftarrow> lclreadcode nr (nw - nr) s;
      (case r of
         Inl e \<Rightarrow> Some (Inl e, s1)
       | Inr n \<Rightarrow> if nr + n < nw then fill nw (nr + n) s1 else Some (Inr (), s1))
    }"

text \<open>\<open>do nr = lclreadcode(&m_buf[0], 1); while(nr < 1)\<close>\<close>

partial_function (option) read_one :: "unit tm" where
  "read_one s =
    do {
      (r, s1) \<leftarrow> lclreadcode 0 1 s;
      (case r of
         Inl e \<Rightarrow> Some (Inl e, s1)
       | Inr n \<Rightarrow> if n < 1 then read_one s1 else Some (Inr (), s1))
    }"

section \<open>Reading a word\<close>

text \<open>The value of a compressed address of \<open>nw\<close> characters.\<close>

definition short_addr :: "int \<Rightarrow> u8 list \<Rightarrow> u32" where
  "short_addr nw buf = foldl shift_in (chardec (buf ! 1)) (take (nat nw - 2) (drop 2 buf))"

definition addr_chars :: "u32 \<Rightarrow> int" where
  "addr_chars sixbits = (if 0x08 = sixbits AND 0x3c then 6 else uint (sixbits AND 0x03) + 2)"

definition addr_value :: "u32 \<Rightarrow> u8 list \<Rightarrow> u32" where
  "addr_value sixbits buf =
    (if 0x08 = sixbits AND 0x3c then decodestr buf else short_addr (addr_chars sixbits) buf)"

definition is_addr :: "u32 \<Rightarrow> bool" where
  "is_addr sixbits \<longleftrightarrow> 0x08 = sixbits AND 0x3c \<or> 0x0c = sixbits AND 0x03c"

definition set_addr :: "u32 \<Rightarrow> tty \<Rightarrow> tty" where
  "set_addr val s = s\<lparr>t_addr_set := True, t_lastaddr := push_bit 2 val\<rparr>"

definition bus_status :: "u32 \<Rightarrow> unit tm" where
  "bus_status sixbits =
    (if sixbits = 3 \<or> sixbits = 5 then tbind (tupd (\<lambda>s. s\<lparr>t_bus_err := True\<rparr>)) (\<lambda>_. tthrow (BUSERR 0))
     else if sixbits = 4 then tupd (\<lambda>s. s\<lparr>t_interrupt_flag := True\<rparr>)
     else tret ())"

text \<open>One pass of the loop that looks for the start of a data word: the code character that starts it, if any.\<close>

definition readword_scan :: "u32 \<Rightarrow> (u32 option \<times> u32) tm" where
  "readword_scan val =
    tbind read_one (\<lambda>_ s.
      let sixbits = chardec (t_buf s ! 0)
      in if sixbits AND NOT 0x03f \<noteq> 0 then Some (Inr (None, val), s)
         else if sixbits < 6 then tbind (bus_status sixbits) (\<lambda>_. tret (None, val)) s
         else if is_addr sixbits
         then tbind (fill (addr_chars sixbits) 1) (\<lambda>_ s.
             let val = addr_value sixbits (t_buf s) in Some (Inr (None, val), set_addr val s)) s
         else Some (Inr (Some sixbits, val), s))"

partial_function (option) readword_start :: "u32 \<Rightarrow> (u32 \<times> u32) tm" where
  "readword_start val s =
    do {
      (r, s1) \<leftarrow> readword_scan val s;
      (case r of
         Inl e \<Rightarrow> Some (Inl e, s1)
       | Inr x \<Rightarrow> (case fst x of None \<Rightarrow> readword_start (snd x) s1 | Some c \<Rightarrow> Some (Inr (c, snd x), s1)))
    }"

definition advance :: "u32 \<Rightarrow> tty \<Rightarrow> tty" where
  "advance sixbits s = s\<lparr>t_lastaddr := t_lastaddr s + (if sixbits AND 1 \<noteq> 0 then 4 else 0)\<rparr>"

definition table_read :: "u32 \<Rightarrow> u32 \<Rightarrow> u32 tm" where
  "table_read sixbits idx s = Some (Inr (t_readtbl s ((t_rdaddr s - idx) AND 0x03ff)), advance sixbits s)"

definition raw_value :: "u8 list \<Rightarrow> u32" where
  "raw_value buf = foldl shift_in (drop_bit 1 (chardec (buf ! 0)) AND 0x03) [buf ! 1, buf ! 2, buf ! 3, buf ! 4, buf ! 5]"

definition raw_read :: "u32 \<Rightarrow> tty \<Rightarrow> tty" where
  "raw_read sixbits s =
    advance sixbits (s\<lparr>t_readtbl := (t_readtbl s)(t_rdaddr s := raw_value (t_buf s)), t_rdaddr := (t_rdaddr s + 1) AND 0x03ff\<rparr>)"

text \<open>The end of \<open>readword\<close> and of \<open>readidle\<close>: the word that the code character starts.\<close>

definition word_value :: "int \<Rightarrow> u32 \<Rightarrow> u32 \<Rightarrow> u32 tm" where
  "word_value nr sixbits val =
    (if 0x06 = sixbits AND 0x03e then table_read sixbits 1
     else if 0x10 = sixbits AND 0x030
     then tbind (fill 2 nr) (\<lambda>_ s.
         let idx = (push_bit 6 (drop_bit 1 (chardec (t_buf s ! 0)) AND 0x07) OR (chardec (t_buf s ! 1) AND 0x03f)) + 2 + 8
         in table_read sixbits idx s)
     else if 0x20 = sixbits AND 0x030 then table_read sixbits ((drop_bit 1 sixbits AND 0x07) + 2)
     else if 0x38 = sixbits AND 0x038
     then tbind (fill 6 nr) (\<lambda>_ s. Some (Inr (raw_value (t_buf s)), raw_read sixbits s))
     else tret val)"

definition readword :: "u32 tm" where
  "readword = tbind (readword_start 0) (\<lambda>(sixbits, val). word_value 1 sixbits val)"

section \<open>Discarding what has arrived\<close>

text \<open>
  \<open>readidle\<close> reads a character in the condition of its loop and another one, over it, in the body.
\<close>

definition readidle_body :: "(int \<times> u32) option tm" where
  "readidle_body =
    tbind (lclreadcode 0 1) (\<lambda>nr s.
      let sixbits = chardec (t_buf s ! 0)
      in if sixbits AND NOT 0x03f \<noteq> 0 then Some (Inr None, s)
         else if sixbits < 6 then tbind (bus_status sixbits) (\<lambda>_. tret None) s
         else if is_addr sixbits then tbind (fill (addr_chars sixbits) nr) (\<lambda>_. tret None) s
         else Some (Inr (Some (nr, sixbits)), s))"

definition readidle_step :: "(bool \<times> (int \<times> u32) option) tm" where
  "readidle_step s =
    (if \<not> dev_available (t_rx s) then Some (Inr (False, None), s)
     else tbind (lclreadcode 0 1) (\<lambda>nr.
       if nr > 0 then tbind readidle_body (\<lambda>c. tret (c = None, c)) else tret (False, None)) s)"

partial_function (option) readidle_loop :: "(int \<times> u32) option tm" where
  "readidle_loop s =
    do {
      (r, s1) \<leftarrow> readidle_step s;
      (case r of
         Inl e \<Rightarrow> Some (Inl e, s1)
       | Inr x \<Rightarrow> if fst x then readidle_loop s1 else Some (Inr (snd x), s1))
    }"

definition readidle :: "unit tm" where
  "readidle =
    tbind readidle_loop (\<lambda>c. case c of None \<Rightarrow> tret () | Some (nr, sixbits) \<Rightarrow> tbind (word_value nr sixbits 0) (\<lambda>_. tret ()))"

section \<open>Addresses\<close>

definition bufalloc :: "u32 \<Rightarrow> tty \<Rightarrow> tty" where
  "bufalloc len s =
    (if len \<le>s t_buflen s then s
     else let n = (len AND - 0x3f) + 0x40 in s\<lparr>t_buflen := n, t_buf := replicate (unat n) 0\<rparr>)"

text \<open>The low \<open>n\<close> groups of six bits.\<close>

definition groups :: "nat \<Rightarrow> u32 \<Rightarrow> u8 list" where
  "groups n v = map (\<lambda>i. charenc (drop_bit (6 * i) v AND 0x03f)) (rev [0..<n])"

text \<open>
  The difference of two addresses is computed unsigned, and shifted without its sign.
\<close>

definition diff_addr :: "u32 \<Rightarrow> u8 list" where
  "diff_addr diffaddr =
    (if - 32 \<le>s diffaddr \<and> diffaddr <s 32 then charenc 0x09 # groups 1 diffaddr
     else if - 2048 \<le>s diffaddr \<and> diffaddr <s 2048 then charenc 0x0b # groups 2 diffaddr
     else if - (push_bit 17 1) \<le>s diffaddr \<and> diffaddr <s push_bit 17 1 then charenc 0x0d # groups 3 diffaddr
     else if - (push_bit 23 1) \<le>s diffaddr \<and> diffaddr <s push_bit 23 1 then charenc 0x0d # groups 4 diffaddr
     else [])"

definition abs_addr :: "u32 \<Rightarrow> u8 list \<Rightarrow> u8 list" where
  "abs_addr addr cmd =
    (if addr \<le> 0x03f \<and> (cmd = [] \<or> length cmd \<ge> 2) then charenc 0x08 # groups 1 addr
     else if addr \<le> 0x0fff \<and> (cmd = [] \<or> length cmd \<ge> 3) then charenc 0x0a # groups 2 addr
     else if addr \<le> 0x03ffff \<and> (cmd = [] \<or> length cmd \<ge> 4) then charenc 0x0c # groups 3 addr
     else if addr \<le> 0x0ffffff \<and> (cmd = [] \<or> length cmd \<ge> 5) then charenc 0x0e # groups 4 addr
     else if cmd = [] then encode 0 addr
     else cmd)"

definition encode_address :: "u32 \<Rightarrow> u8 list tm" where
  "encode_address a s =
    (if a AND 3 \<noteq> 0 then Some (Inl (BUSERR a), s)
     else if t_addr_set s \<and> a = t_lastaddr s then Some (Inr [], s)
     else let cmd = (if t_addr_set s then diff_addr (drop_bit 2 (a - t_lastaddr s)) else [])
          in Some (Inr (abs_addr (drop_bit 2 a) cmd), s\<lparr>t_rdaddr := 0\<rparr>))"

section \<open>Writing\<close>

text \<open>The search for \<open>val\<close> among the last values written; 0 when it is not found.\<close>

fun wr_search :: "nat \<Rightarrow> u32 \<Rightarrow> tty \<Rightarrow> u32 \<Rightarrow> u32" where
  "wr_search 0 i s val = 0"
| "wr_search (Suc n) i s val =
    (let tstaddr = (t_wraddr s - i) AND 0x0ff
     in if \<not> t_wrloaded s \<and> tstaddr > t_wraddr s then 0
        else if t_writetbl s tstaddr = val then (t_wraddr s - tstaddr) AND 0x0ff
        else wr_search n (i + 1) s val)"

definition write_word :: "u32 \<Rightarrow> u32 \<Rightarrow> tty \<Rightarrow> u8 list \<times> tty" where
  "write_word p val s =
    (let caddr = wr_search 255 1 s val; inc = (if p \<noteq> 0 then 1 else 0);
         (cmd, s1) =
           (if caddr \<noteq> 0
            then ([charenc (push_bit 1 (drop_bit 6 caddr AND 0x03) + inc + 0x010), charenc (caddr AND 0x3f)], s)
            else let wraddr = (t_wraddr s + 1) AND 0x0ff
                 in (charenc (push_bit 1 (drop_bit 30 val AND 0x03) + inc + 0x018) # groups 5 val,
                     s\<lparr>t_writetbl := (t_writetbl s)(t_wraddr s := val), t_wraddr := wraddr,
                       t_wrloaded := (wraddr = 0 \<or> t_wrloaded s)\<rparr>))
     in (cmd, if p = 1 then s1\<lparr>t_lastaddr := t_lastaddr s1 + 4\<rparr> else s1))"

fun write_words :: "u32 \<Rightarrow> u32 list \<Rightarrow> tty \<Rightarrow> u8 list \<times> tty" where
  "write_words p [] s = ([], s)"
| "write_words p (val # vals) s =
    (let (cmd, s1) = write_word p val s; (cmds, s2) = write_words p vals s1 in (cmd @ cmds, s2))"

abbreviation (input) MAXWRLEN :: nat where "MAXWRLEN \<equiv> 32"
abbreviation (input) MAXRDLEN :: nat where "MAXRDLEN \<equiv> 64"

text \<open>The words go out in blocks; after each the code takes in what has arrived.\<close>

function write_blocks :: "u32 \<Rightarrow> u8 list \<Rightarrow> u32 list \<Rightarrow> unit tm" where
  "write_blocks p cmd [] s = Some (Inr (), s)"
| "write_blocks p cmd (v # vs) s =
    (let vals = v # vs; ln = min (length vals) MAXWRLEN; (cmds, s1) = write_words p (take ln vals) s;
         cmd1 = cmd @ cmds @ (if ln = length vals then [10] else [])
     in tbind readidle (\<lambda>_. write_blocks p [] (drop ln vals)) (dev_write cmd1 s1))"
  by pat_completeness auto

termination
  by (relation "measure (\<lambda>(p, cmd, vals, s). length vals)") auto

definition writev :: "u32 \<Rightarrow> u32 \<Rightarrow> u32 list \<Rightarrow> unit tm" where
  "writev a p buf =
    tbind (tupd (bufalloc ((of_nat (length buf) + 2) * 6))) (\<lambda>_.
    tbind (encode_address a) (\<lambda>cmd.
    tbind (tupd (\<lambda>s. s\<lparr>t_lastaddr := a, t_addr_set := True\<rparr>)) (\<lambda>_.
    tbind (write_blocks p cmd buf) (\<lambda>_. readidle))))"

definition writez :: "u32 \<Rightarrow> u32 list \<Rightarrow> unit tm" where
  "writez a buf = writev a 0 buf"

definition writei :: "u32 \<Rightarrow> u32 list \<Rightarrow> unit tm" where
  "writei a buf = writev a 1 buf"

definition writeio :: "u32 \<Rightarrow> u32 \<Rightarrow> unit tm" where
  "writeio a v = tbind (writev a 0 [v]) (\<lambda>_. tupd (\<lambda>s. s\<lparr>t_lastaddr := a, t_addr_set := True\<rparr>))"

section \<open>Reading\<close>

definition readcmd :: "bool \<Rightarrow> u32 \<Rightarrow> u8 list" where
  "readcmd inc len =
    (let i = (if inc then 1 else 0) in
     if len \<le>s 8 then [charenc (0x20 + push_bit 1 ((len - 1) AND 0x07) + i)]
     else [charenc (0x30 + (signed_drop_bit 5 (len - 9) AND 0x0e) + i), charenc ((len - 9) AND 0x03f)])"

primrec readwords :: "nat \<Rightarrow> (u32 list \<times> exn option) tm" where
  "readwords 0 s = Some (Inr ([], None), s)"
| "readwords (Suc n) s =
    (case readword s of
       None \<Rightarrow> None
     | Some (Inl e, s1) \<Rightarrow> Some (Inr ([], Some e), s1)
     | Some (Inr v, s1) \<Rightarrow> tbind (readwords n) (\<lambda>(vs, e). tret (v # vs, e)) s1)"

text \<open>
  Blocks of commands and their answers; the words read so far, and the exception that ended it. With no
  read-ahead the inner loop of the code issues one command per block.
\<close>

function read_blocks :: "bool \<Rightarrow> nat \<Rightarrow> u8 list \<Rightarrow> (u32 list \<times> exn option) tm" where
  "read_blocks inc len cmd s =
    (if len = 0 then Some (Inr ([], None), s)
     else let nrd = min len (MAXRDLEN div 2)
          in tbind (readwords nrd) (\<lambda>(vs, e).
               if e \<noteq> None then tret (vs, e)
               else tbind (read_blocks inc (len - nrd) []) (\<lambda>(ws, e). tret (vs @ ws, e)))
             (dev_write (cmd @ readcmd inc (of_nat nrd) @ [10]) s))"
  by pat_completeness auto

termination
  by (relation "measure (\<lambda>(inc, len, cmd, s). len)") auto

declare read_blocks.simps [simp del]

definition readv :: "u32 \<Rightarrow> bool \<Rightarrow> nat \<Rightarrow> u32 list tm" where
  "readv a inc len =
    (if len = 0 then tret []
     else tbind (encode_address a) (\<lambda>cmd.
       tbind (read_blocks inc len cmd) (\<lambda>(vs, e) s.
         case e of
           Some (BUSERR _) \<Rightarrow> Some (Inl (BUSERR (a + (if inc then push_bit 2 (of_nat (length vs)) else 0))), s)
         | Some e \<Rightarrow> Some (Inl e, s)
         | None \<Rightarrow>
             if t_lastaddr s \<noteq> a + (if inc then push_bit 2 (of_nat len) else 0) then Some (Inl Exit, s)
             else Some (Inr vs, s))))"

definition readi :: "u32 \<Rightarrow> nat \<Rightarrow> u32 list tm" where
  "readi a len = readv a True len"

definition readz :: "u32 \<Rightarrow> nat \<Rightarrow> u32 list tm" where
  "readz a len = readv a False len"

definition readio :: "u32 \<Rightarrow> u32 tm" where
  "readio a s =
    (case readv a False 1 s of
       None \<Rightarrow> None
     | Some (Inl (BUSERR _), s1) \<Rightarrow> Some (Inl (BUSERR a), s1)
     | Some (Inl e, s1) \<Rightarrow> Some (Inl e, s1)
     | Some (Inr vs, s1) \<Rightarrow>
         if t_lastaddr s1 \<noteq> a then Some (Inl Exit, s1\<lparr>t_addr_set := False\<rparr>) else Some (Inr (hd vs), s1))"

section \<open>Waiting for an interrupt\<close>

definition tty_usleep :: "unit tm" where
  "tty_usleep s =
    (case t_rx s of
       Pause # rx \<Rightarrow> Some (Inr (), s\<lparr>t_rx := rx\<rparr>)
     | _ \<Rightarrow>
       if dev_available (t_rx s)
       then (case dev_read (t_nonblock s) 16 (t_rx s) of
           None \<Rightarrow> None
         | Some (nr, bs, rx) \<Rightarrow>
             if nr = 0 then Some (Inl Exit, s)
             else Some (Inr (), s\<lparr>t_rx := rx, t_interrupt_flag := (t_interrupt_flag s \<or> 52 \<in> set bs)\<rparr>))
       else Some (Inr (), s))"

partial_function (option) tty_wait :: "unit tm" where
  "tty_wait s =
    do {
      (r, s1) \<leftarrow> tty_usleep s;
      (case r of
         Inl e \<Rightarrow> Some (Inl e, s1)
       | Inr _ \<Rightarrow> if t_interrupt_flag s1 then Some (Inr (), s1) else tty_wait s1)
    }"

section \<open>The code of six-bit groups\<close>

lemma chardec_charenc:
  assumes "v < 64"
  shows "chardec (charenc v) = v"
proof -
  have "\<forall>n\<in>set [0..<64]. chardec (charenc (word_of_nat n)) = word_of_nat n"
    by (simp add: upt_rec charenc_def chardec_def word_sless_alt)
  moreover have "unat v \<in> set [0..<64]"
    using assms by (simp add: word_less_nat_alt)
  ultimately have "chardec (charenc (word_of_nat (unat v))) = word_of_nat (unat v)"
    by (rule bspec)
  then show ?thesis
    by simp
qed

lemma and_3f: "(v AND 0x3f :: u32) = take_bit 6 v"
  by (simp add: take_bit_eq_mask mask_eq_exp_minus_1)

lemma and_3f_less: "(v AND 0x3f :: u32) < 64"
proof -
  have "unat (v AND 0x3f) < 2 ^ 6"
    unfolding and_3f by (rule order_le_less_trans [OF eq_refl [OF unsigned_take_bit_eq]]) (rule take_bit_nat_less_exp)
  then show ?thesis
    by (simp add: word_less_nat_alt)
qed

lemma chardec_group [simp]: "chardec (charenc (v AND 0x3f)) = v AND 0x3f"
  by (rule chardec_charenc [OF and_3f_less])

lemma shift_in_group:
  "shift_in (drop_bit (k + 6) v) (charenc (drop_bit k v AND 0x3f)) = drop_bit k v"
  unfolding shift_in_def chardec_group unfolding and_3f
  by (rule bit_word_eqI) (auto simp: bit_simps)

lemma groups_Suc: "groups (Suc n) v = charenc (drop_bit (6 * n) v AND 0x03f) # groups n v"
  by (simp add: groups_def)

lemma groups_0 [simp]: "groups 0 v = []"
  by (simp add: groups_def)

lemma shift_in_groups: "foldl shift_in (drop_bit (6 * n) v) (groups n v) = v"
proof (induction n)
  case (Suc n)
  then show ?case
    using shift_in_group [of "6 * n" v] by (simp add: groups_Suc add.commute)
qed simp

lemma groups_value:
  assumes "unat v < 2 ^ (6 * n)"
  shows "foldl shift_in 0 (groups n v) = v"
proof -
  have "drop_bit (6 * n) v = 0"
    using assms by (simp add: word_unat_eq_iff unat_drop_bit_div)
  then show ?thesis
    using shift_in_groups [of n v] by simp
qed

lemma length_groups [simp]: "length (groups n v) = n"
  by (simp add: groups_def)

lemma groups_5: "groups 5 v =
    [charenc (drop_bit 24 v AND 0x3f), charenc (drop_bit 18 v AND 0x3f), charenc (drop_bit 12 v AND 0x3f),
     charenc (drop_bit 6 v AND 0x3f), charenc (v AND 0x3f)]"
  by (simp add: groups_def upt_rec)

lemma top_bits: "drop_bit 30 (v :: u32) AND 3 = drop_bit 30 v"
proof -
  have "(3 :: u32) = mask 2"
    by (simp add: mask_eq_exp_minus_1)
  moreover have "drop_bit 30 v AND mask 2 = drop_bit 30 v"
    by (rule bit_word_eqI) (auto simp: bit_simps dest: bit_imp_le_length)
  ultimately show ?thesis
    by (simp only:)
qed

lemma top_bits_less: "drop_bit 30 (v :: u32) < 4"
proof -
  have "unat v div 2 ^ 30 < 4"
    using unat_u32_less [of v] by (simp add: less_mult_imp_div_less)
  then show ?thesis
    by (simp add: word_less_nat_alt unat_drop_bit_div)
qed

section \<open>A decoder for what is written\<close>

text \<open>
  The receiver of the write stream: its own table and index, and one word with the rest of the characters.
\<close>

type_synonym wdec = "(u32 \<Rightarrow> u32) \<times> u32"

definition wr_decode1 :: "u8 list \<Rightarrow> wdec \<Rightarrow> (u32 \<times> u8 list \<times> wdec) option" where
  "wr_decode1 cs = (\<lambda>(tbl, w).
    if cs = [] then None
    else let x = chardec (hd cs)
      in if x AND 0x38 = 0x10 \<and> 2 \<le> length cs
         then let c = push_bit 6 (drop_bit 1 x AND 3) OR chardec (cs ! 1)
              in Some (tbl ((w - c) AND 0xff), drop 2 cs, (tbl, w))
         else if x AND 0x38 = 0x18 \<and> 6 \<le> length cs
         then let v = foldl shift_in (drop_bit 1 x AND 3) (take 5 (tl cs))
              in Some (v, drop 6 cs, (tbl(w := v), (w + 1) AND 0xff))
         else None)"

fun wr_decode :: "nat \<Rightarrow> u8 list \<Rightarrow> wdec \<Rightarrow> (u32 list \<times> u8 list \<times> wdec) option" where
  "wr_decode 0 cs T = Some ([], cs, T)"
| "wr_decode (Suc n) cs T =
    do { (v, cs1, T1) \<leftarrow> wr_decode1 cs T; (vs, cs2, T2) \<leftarrow> wr_decode n cs1 T1; Some (v # vs, cs2, T2) }"

text \<open>The two tables agree where they have been written.\<close>

definition same_tables :: "tty \<Rightarrow> wdec \<Rightarrow> bool" where
  "same_tables s T \<longleftrightarrow> snd T = t_wraddr s \<and> t_wraddr s < 0x100 \<and>
    (\<forall>i. t_wrloaded s \<and> i < 0x100 \<or> i < t_wraddr s \<longrightarrow> fst T i = t_writetbl s i)"

lemma and_ff: "(v AND 0xff :: u32) = take_bit 8 v"
  by (simp add: take_bit_eq_mask mask_eq_exp_minus_1)

lemma uint_minus_and_ff: "uint ((a - b) AND 0xff :: u32) = (uint a - uint b) mod 256"
proof -
  have "uint ((a - b) AND 0xff :: u32) = uint (a - b) mod 2 ^ 8"
    unfolding and_ff unsigned_take_bit_eq unfolding take_bit_eq_mod ..
  also have "\<dots> = (uint a - uint b) mod 2 ^ 8"
    unfolding uint_word_ariths by (rule mod_mod_cancel) (simp add: le_imp_power_dvd)
  finally show ?thesis
    by simp
qed

lemma ring_back: "(w - ((w - t) AND 0xff)) AND 0xff = (t AND 0xff :: u32)"
proof -
  have "uint ((w - ((w - t) AND 0xff)) AND 0xff) = (uint w - (uint w - uint t)) mod 256"
    unfolding uint_minus_and_ff by (simp only: mod_diff_right_eq)
  also have "\<dots> = uint t mod 2 ^ 8"
    by simp
  also have "\<dots> = uint (t AND 0xff)"
    unfolding and_ff unsigned_take_bit_eq unfolding take_bit_eq_mod ..
  finally show ?thesis
    by (simp only: word_uint_eq_iff)
qed

lemma wr_search_found:
  "wr_search n i s val = c \<Longrightarrow> c \<noteq> 0 \<Longrightarrow> t_wraddr s < 0x100 \<Longrightarrow>
    c < 0x100 \<and> t_writetbl s ((t_wraddr s - c) AND 0xff) = val \<and>
    (t_wrloaded s \<or> (t_wraddr s - c) AND 0xff < t_wraddr s)"
proof (induction n arbitrary: i)
  case (Suc n)
  let ?t = "(t_wraddr s - i) AND 0x0ff"
  show ?case
  proof (cases "\<not> t_wrloaded s \<and> ?t > t_wraddr s")
    case False
    show ?thesis
    proof (cases "t_writetbl s ?t = val")
      case True
      then have c: "c = (t_wraddr s - ?t) AND 0x0ff"
        using Suc.prems(1) False by (simp add: Let_def)
      have bk: "(t_wraddr s - c) AND 0xff = ?t"
        unfolding c by (rule trans [OF ring_back]) (simp add: and.assoc)
      have "c \<le> 0xff"
        unfolding c by (rule word_and_le1)
      then have "c < 0x100"
        by (simp add: word_less_nat_alt word_le_nat_alt)
      moreover have "?t \<noteq> t_wraddr s"
        using Suc.prems(2) c by auto
      ultimately show ?thesis
        unfolding bk using True False by auto
    next
      case False': False
      then show ?thesis
        using Suc False by (simp add: Let_def)
    qed
  qed (use Suc.prems in \<open>simp add: Let_def\<close>)
qed simp

lemma code_class:
  assumes "v < 4" "i = 0 \<or> i = 1"
  shows "chardec (charenc (push_bit 1 v + i + 0x010)) AND 0x38 = 0x10"
    "drop_bit 1 (chardec (charenc (push_bit 1 v + i + 0x010))) AND 3 = v"
    "chardec (charenc (push_bit 1 v + i + 0x018)) AND 0x38 = 0x18"
    "drop_bit 1 (chardec (charenc (push_bit 1 v + i + 0x018))) AND 3 = v"
proof -
  have "unat v \<in> {0, 1, 2, 3}"
    using assms(1) by (auto simp: word_less_nat_alt)
  then have "v = 0 \<or> v = 1 \<or> v = 2 \<or> v = 3"
    by (auto simp: word_unat_eq_iff)
  with assms(2) show "chardec (charenc (push_bit 1 v + i + 0x010)) AND 0x38 = 0x10"
    "drop_bit 1 (chardec (charenc (push_bit 1 v + i + 0x010))) AND 3 = v"
    "chardec (charenc (push_bit 1 v + i + 0x018)) AND 0x38 = 0x18"
    "drop_bit 1 (chardec (charenc (push_bit 1 v + i + 0x018))) AND 3 = v"
    by (elim disjE; simp add: chardec_charenc)+
qed

lemma ring_next: "w < 0x100 \<Longrightarrow> (w + 1) AND 0xff = (if w = 0xff then 0 else w + 1 :: u32)"
proof -
  assume w: "w < 0x100"
  have m: "(0xff :: u32) = mask 8"
    by (simp add: mask_eq_exp_minus_1)
  have less: "unat w < 256"
    using w by (simp add: word_less_nat_alt)
  have "unat ((w + 1) AND 0xff) = (unat w + 1) mod 256"
    unfolding m by (subst unat_plus_and_mask) simp_all
  moreover have "unat (w + 1) = unat w + 1"
    using less by (simp add: unat_plus_if')
  ultimately show ?thesis
    using less by (auto simp: word_unat_eq_iff mod_add_one_step)
qed

lemma split_caddr: "c < 0x100 \<Longrightarrow> push_bit 6 (drop_bit 6 c AND 3) OR (c AND 0x3f) = (c :: u32)"
proof -
  assume "c < 0x100"
  then have "unat c < 2 ^ 8"
    by (simp add: word_less_nat_alt)
  then have "take_bit 8 c = c"
    by (simp add: word_unat_eq_iff unsigned_take_bit_eq take_bit_nat_eq_self)
  then have c: "bit c n \<Longrightarrow> n < 8" for n
    by (metis bit_take_bit_iff)
  have three: "(3 :: u32) = mask 2"
    by (simp add: mask_eq_exp_minus_1)
  show ?thesis
    unfolding and_3f three by (rule bit_word_eqI) (auto simp: bit_simps dest: c)
qed

lemma three_less: "(v :: u32) AND 3 < 4"
  by (rule order_le_less_trans [OF word_and_le1]) simp

lemma wr_decode1_short:
  "chardec a AND 0x38 = 0x10 \<Longrightarrow> drop_bit 1 (chardec a) AND 3 = h \<Longrightarrow>
    wr_decode1 (a # b # rest) (tbl, w) = Some (tbl ((w - (push_bit 6 h OR chardec b)) AND 0xff), rest, (tbl, w))"
  by (simp add: wr_decode1_def Let_def)

lemma write_word_decodes:
  assumes "same_tables s T" "write_word p val s = (cmd, s1)"
  shows "\<exists>T1. wr_decode1 (cmd @ rest) T = Some (val, rest, T1) \<and> same_tables s1 T1"
proof -
  obtain tbl w where T: "T = (tbl, w)"
    by (cases T)
  have w: "w = t_wraddr s" "w < 0x100"
    and same: "\<And>i. t_wrloaded s \<and> i < 0x100 \<or> i < w \<Longrightarrow> tbl i = t_writetbl s i"
    using assms(1) by (auto simp: same_tables_def T)
  define c where "c = wr_search 255 1 s val"
  let ?i = "if p \<noteq> 0 then 1 else 0 :: u32"
  have i: "?i = 0 \<or> ?i = 1"
    by simp
  show ?thesis
  proof (cases "c = 0")
    case True
    note cls = code_class [OF top_bits_less [of val] i]
    have "wr_decode1 (cmd @ rest) T = Some (val, rest, (tbl(w := val), (w + 1) AND 0xff))"
      using assms(2) True cls shift_in_groups [of 5 val]
      by (auto simp: write_word_def Let_def c_def [symmetric] wr_decode1_def T top_bits)
    moreover have s1: "t_writetbl s1 = (t_writetbl s)(w := val)" "t_wraddr s1 = (w + 1) AND 0xff"
      "t_wrloaded s1 = (t_wraddr s1 = 0 \<or> t_wrloaded s)"
      using assms(2) True
      by (auto simp: write_word_def Let_def c_def [symmetric] w(1) [symmetric] split: if_split_asm)
    moreover have "same_tables s1 (tbl(w := val), (w + 1) AND 0xff)"
    proof (cases "w = 0xff")
      case True
      have "i < 0x100 \<Longrightarrow> i \<noteq> 0xff \<Longrightarrow> i < 0xff" for i :: u32
        by (simp add: word_less_nat_alt word_unat_eq_iff)
      with True show ?thesis
        using same by (auto simp: same_tables_def s1 ring_next)
    next
      case False
      then have "i < w + 1 \<Longrightarrow> i \<noteq> w \<Longrightarrow> i < w" "w + 1 < 0x100" "w + 1 \<noteq> 0" for i
        using w(2) by (auto simp: word_less_nat_alt word_unat_eq_iff unat_plus_if')
      with False show ?thesis
        using same w(2) by (auto simp: same_tables_def s1 ring_next)
    qed
    ultimately show ?thesis
      by blast
  next
    case False
    from wr_search_found [OF c_def [symmetric] False] w have c: "c < 0x100" "t_writetbl s ((w - c) AND 0xff) = val"
      "t_wrloaded s \<or> (w - c) AND 0xff < w"
      by simp_all
    have "(w - c) AND 0xff < 0x100"
      by (rule order_le_less_trans [OF word_and_le1]) simp
    with c have val: "tbl ((w - c) AND 0xff) = val"
      using same by auto
    note cls = code_class [OF three_less [of "drop_bit 6 c"] i]
    have "cmd @ rest = charenc (push_bit 1 (drop_bit 6 c AND 3) + ?i + 0x010) # charenc (c AND 0x3f) # rest"
      using assms(2) False unfolding write_word_def Let_def c_def [symmetric] by (simp split: if_split_asm)
    then have "wr_decode1 (cmd @ rest) T = Some (val, rest, T)"
      unfolding T by (simp only: wr_decode1_short [OF cls(1,2)] chardec_group split_caddr [OF c(1)] val)
    moreover have "t_writetbl s1 = t_writetbl s" "t_wraddr s1 = t_wraddr s" "t_wrloaded s1 = t_wrloaded s"
      using assms(2) False by (auto simp: write_word_def Let_def c_def [symmetric] split: if_split_asm)
    ultimately show ?thesis
      using assms(1) by (auto simp: same_tables_def)
  qed
qed

lemma write_words_decode:
  "same_tables s T \<Longrightarrow> write_words p vals s = (cmd, s1) \<Longrightarrow>
    \<exists>T1. wr_decode (length vals) (cmd @ rest) T = Some (vals, rest, T1) \<and> same_tables s1 T1"
proof (induction vals arbitrary: s T cmd)
  case (Cons v vals)
  obtain c1 s2 c2 where run: "write_word p v s = (c1, s2)" "write_words p vals s2 = (c2, s1)" "cmd = c1 @ c2"
    using Cons.prems(2) by (auto simp: Let_def split: prod.splits)
  from write_word_decodes [OF Cons.prems(1) run(1), of "c2 @ rest"] obtain T1 where
    "wr_decode1 (cmd @ rest) T = Some (v, c2 @ rest, T1)" "same_tables s2 T1"
    by (auto simp: run(3))
  with Cons.IH [OF _ run(2), of T1] show ?case
    by auto
qed simp

section \<open>A decoder for addresses\<close>

text \<open>The number that \<open>n\<close> groups stand for when the highest bit is a sign.\<close>

definition signed_groups :: "nat \<Rightarrow> u32 \<Rightarrow> u32" where
  "signed_groups n v = signed_take_bit (6 * n - 1) v"

text \<open>
  The receiver of an address: a first character below 4 starts a full address, and 0x8 to 0xf are the
  absolute (even) and relative (odd) addresses of one to four groups.
\<close>

definition dec_address :: "u32 \<Rightarrow> u8 list \<Rightarrow> u32" where
  "dec_address adr cmd =
    (if cmd = [] then adr
     else let x = chardec (hd cmd); n = unat (drop_bit 1 (x AND 0x07)) + 1; v = foldl shift_in 0 (take n (tl cmd))
      in if x < 4 then decodestr cmd
         else if x AND 1 = 0 then v
         else adr + signed_groups n v)"

lemma signed_groups_small: "unat v < 2 ^ (6 * n - 1) \<Longrightarrow> signed_groups n v = v"
proof -
  assume v: "unat v < 2 ^ (6 * n - 1)"
  have "\<not> bit v i" if "6 * n - 1 \<le> i" for i
  proof -
    have "take_bit (6 * n - 1) v = v"
      using v by (simp add: word_unat_eq_iff unsigned_take_bit_eq take_bit_nat_eq_self)
    with that show ?thesis
      by (metis bit_take_bit_iff not_le)
  qed
  then show ?thesis
    unfolding signed_groups_def by (intro bit_word_eqI) (auto simp: bit_signed_take_bit_iff min_def not_le)
qed

lemma dec_abs:
  "unat v < 64 \<Longrightarrow> dec_address l (charenc 0x08 # groups 1 v) = v"
  "unat v < 64 ^ 2 \<Longrightarrow> dec_address l (charenc 0x0a # groups 2 v) = v"
  "unat v < 64 ^ 3 \<Longrightarrow> dec_address l (charenc 0x0c # groups 3 v) = v"
  "unat v < 64 ^ 4 \<Longrightarrow> dec_address l (charenc 0x0e # groups 4 v) = v"
  using groups_value [of v 1] groups_value [of v 2] groups_value [of v 3] groups_value [of v 4]
  by (simp_all add: dec_address_def chardec_charenc Let_def)

lemma dec_diff:
  "unat v < 2 ^ 5 \<Longrightarrow> dec_address l (charenc 0x09 # groups 1 v) = l + v"
  "unat v < 2 ^ 11 \<Longrightarrow> dec_address l (charenc 0x0b # groups 2 v) = l + v"
  "unat v < 2 ^ 17 \<Longrightarrow> dec_address l (charenc 0x0d # groups 3 v) = l + v"
  using groups_value [of v 1] groups_value [of v 2] groups_value [of v 3]
    signed_groups_small [of v 1] signed_groups_small [of v 2] signed_groups_small [of v 3]
  by (simp_all add: dec_address_def chardec_charenc Let_def flip: numeral_2_eq_2)

lemma decodestr_encode: "hb < 16 \<Longrightarrow> decodestr (encode hb val) = val"
proof -
  assume "hb < 16"
  then have "take_bit 4 hb = hb"
    by (simp add: word_unat_eq_iff word_less_nat_alt unsigned_take_bit_eq take_bit_nat_eq_self)
  then have hb: "bit hb n \<Longrightarrow> n < 4" for n
    by (metis bit_take_bit_iff)
  let ?x = "push_bit 2 hb OR drop_bit 30 val"
  have three: "(3 :: u32) = mask 2"
    by (simp add: mask_eq_exp_minus_1)
  have "?x AND 0x3f = ?x"
    unfolding and_3f by (rule bit_word_eqI) (auto simp: bit_simps dest: hb bit_imp_le_length)
  then have "chardec (charenc ?x) = ?x"
    by (metis chardec_group)
  moreover have "?x AND 3 = drop_bit 30 val"
    unfolding three by (rule bit_word_eqI) (auto simp: bit_simps dest: bit_imp_le_length)
  ultimately have top: "chardec (charenc (push_bit 2 hb OR (drop_bit 30 val AND 0x03))) AND 3 = drop_bit 30 val"
    by (simp add: top_bits)
  show ?thesis
    using shift_in_groups [of 5 val] top by (simp add: decodestr_def encode_def groups_5)
qed

lemma encode_address_decodes_aux:
  assumes d: "unat d < 2 ^ 30" and addr: "unat addr < 2 ^ 24" and set_addr: "cmd = [] \<or> cmd = diff_addr d \<and> (l + d = addr \<or> unat addr < unat d)"
  shows "dec_address l (abs_addr addr cmd) = addr"
proof -
  have pos: "- 32 \<le>s d" "- 2048 \<le>s d" "- (push_bit 17 1) \<le>s d" "- (push_bit 23 1) \<le>s d"
    using d by (simp_all add: word_sle_eq sint_u32_nat del: of_nat_unat)
  have cmp: "d <s 32 \<longleftrightarrow> unat d < 2 ^ 5" "d <s 2048 \<longleftrightarrow> unat d < 2 ^ 11" "d <s push_bit 17 1 \<longleftrightarrow> unat d < 2 ^ 17"
    using d by (simp_all add: sless_u32_small)
  have le: "addr \<le> 0x03f \<longleftrightarrow> unat addr < 64" "addr \<le> 0x0fff \<longleftrightarrow> unat addr < 64 ^ 2"
    "addr \<le> 0x03ffff \<longleftrightarrow> unat addr < 64 ^ 3" "addr \<le> 0x0ffffff"
    using addr by (auto simp: word_le_nat_alt)
  have diff: "diff_addr d = (if unat d < 2 ^ 5 then charenc 0x09 # groups 1 d
      else if unat d < 2 ^ 11 then charenc 0x0b # groups 2 d
      else if unat d < 2 ^ 17 then charenc 0x0d # groups 3 d
      else if d <s push_bit 23 1 then charenc 0x0d # groups 4 d else [])"
    by (simp only: diff_addr_def pos cmp simp_thms)
  show ?thesis
  proof (cases "unat d < 2 ^ 17 \<and> cmd \<noteq> []")
    case True
    then have cmd: "cmd = (if unat d < 2 ^ 5 then charenc 0x09 # groups 1 d
        else if unat d < 2 ^ 11 then charenc 0x0b # groups 2 d else charenc 0x0d # groups 3 d)" and l: "l + d = addr \<or> unat addr < unat d"
      using set_addr by (simp_all only: diff) simp_all
    show ?thesis
    proof (cases "l + d = addr")
      case False
      with l have "abs_addr addr cmd = abs_addr addr []"
        using True unfolding cmd by (auto simp: abs_addr_def le)
      then show ?thesis
        using addr by (simp add: abs_addr_def le dec_abs del: One_nat_def)
    next
      case sum: True
      have "dec_address l cmd = addr"
        using True sum dec_diff [of d l] unfolding cmd by (simp split: if_splits)
      then show ?thesis
        using addr by (simp add: abs_addr_def le dec_abs del: One_nat_def)
    qed
  next
    case False
    then have "cmd = [] \<or> length cmd = 5"
      using set_addr unfolding diff by (cases "d <s push_bit 23 1") auto
    then have "abs_addr addr cmd = abs_addr addr []"
      by (auto simp: abs_addr_def le)
    also have "dec_address l \<dots> = addr"
      using addr by (simp add: abs_addr_def le dec_abs del: One_nat_def)
    finally show ?thesis .
  qed
qed

lemma unat_aligned: "a AND 3 = 0 \<Longrightarrow> push_bit 2 (drop_bit 2 a) = (a :: u32)"
proof -
  assume "a AND 3 = 0"
  have three: "(3 :: u32) = mask 2"
    by (simp add: mask_eq_exp_minus_1)
  have "2 \<le> n \<Longrightarrow> Suc (Suc (n - 2)) = n" for n
    by simp
  then have "push_bit 2 (drop_bit 2 a) = a AND NOT (mask 2)"
    by (intro bit_word_eqI) (auto simp: bit_simps)
  also have "\<dots> = a"
  proof -
    have "a = (a AND mask 2) OR (a AND NOT (mask 2))"
      by (rule bit_word_eqI) (auto simp: bit_simps)
    then show ?thesis
      using \<open>a AND 3 = 0\<close> unfolding three by simp
  qed
  finally show ?thesis .
qed

lemma aligned_unat: "a AND 3 = 0 \<Longrightarrow> unat (a :: u32) = 4 * unat (drop_bit 2 a)"
proof -
  assume "a AND 3 = 0"
  have "(3 :: u32) = mask 2"
    by (simp add: mask_eq_exp_minus_1)
  with \<open>a AND 3 = 0\<close> have "unat a mod 2 ^ 2 = 0"
    by (metis unat_and_mask_eq_mod unsigned_0)
  then show ?thesis
    unfolding unat_drop_bit_div using mult_div_mod_eq [of 4 "unat a"] by simp
qed

lemma aligned_diff:
  assumes "a AND 3 = 0" "l AND 3 = 0"
  shows "drop_bit 2 l + drop_bit 2 (a - l) = drop_bit 2 a \<or> unat (drop_bit 2 a) < unat (drop_bit 2 (a - l :: u32))"
proof (cases "unat l \<le> unat a")
  case True
  note q = aligned_unat [OF assms(1)] aligned_unat [OF assms(2)]
  have "unat (a - l) = unat a - unat l"
    using True by (simp add: unat_sub word_le_nat_alt)
  then have "unat (drop_bit 2 (a - l)) = (4 * unat (drop_bit 2 a) - 4 * unat (drop_bit 2 l)) div 4"
    unfolding unat_drop_bit_div [of 2 "a - l"] q by simp
  then have "unat (drop_bit 2 (a - l)) = unat (drop_bit 2 a) - unat (drop_bit 2 l)"
    by simp
  moreover have "unat (drop_bit 2 l) \<le> unat (drop_bit 2 a)"
    using True q by simp
  ultimately have "unat (drop_bit 2 l + drop_bit 2 (a - l)) = unat (drop_bit 2 a)"
    using unat_u32_less [of "drop_bit 2 a"] by (simp add: unat_word_ariths)
  then show ?thesis
    by (simp add: word_unat_eq_iff)
next
  case False
  note q = aligned_unat [OF assms(1)] aligned_unat [OF assms(2)]
  have "unat (a - l) = unat a + 2 ^ 32 - unat l"
    using False unat_u32_less [of l] by (simp add: unat_sub_if' word_le_nat_alt)
  moreover have "unat l < 2 ^ 32"
    using unat_u32_less [of l] by simp
  moreover from this have "unat (drop_bit 2 l) + 1 \<le> 2 ^ 30"
    using q by simp
  ultimately have "4 * unat (drop_bit 2 a) + 4 \<le> unat (a - l)"
    using q by simp
  then have "unat (drop_bit 2 a) < unat (a - l) div 4"
    by linarith
  then show ?thesis
    by (simp add: unat_drop_bit_div [of 2 "a - l"])
qed

section \<open>Characters that arrive\<close>

text \<open>
  However the operating system cuts the characters into reads: a read gives a non-empty piece of what is coming.
\<close>

definition arriving :: "u8 list \<Rightarrow> arrival list \<Rightarrow> bool" where
  "arriving bs rx \<longleftrightarrow> (\<exists>chunks. rx = map Bytes chunks \<and> concat chunks = bs)"

lemma dev_read_arriving:
  "concat chunks = b # bs \<Longrightarrow> 0 < len \<Longrightarrow>
    \<exists>n rx'. dev_read nb len (map Bytes chunks) = Some (int n, take n (b # bs), rx') \<and>
      1 \<le> n \<and> n \<le> len \<and> n \<le> length (b # bs) \<and> arriving (drop n (b # bs)) rx'"
proof (induction chunks)
  case (Cons c chunks)
  show ?case
  proof (cases "c = []")
    case False
    let ?n = "min (length c) len"
    let ?rx = "if length c \<le> len then map Bytes chunks else Bytes (drop len c) # map Bytes chunks"
    have whole: "b # bs = c @ concat chunks"
      using Cons.prems(1) by simp
    have "dev_read nb len (map Bytes (c # chunks)) = Some (int ?n, take ?n (b # bs), ?rx)"
      unfolding whole using False by (simp add: min_def)
    moreover have "arriving (drop ?n (b # bs)) ?rx"
      unfolding whole arriving_def
      by (cases "length c \<le> len") (auto simp: min_def intro: exI [of _ chunks] exI [of _ "drop len c # chunks"])
    moreover have "1 \<le> ?n" "?n \<le> length (b # bs)"
      using False Cons.prems(2) unfolding whole by (cases c; simp)+
    ultimately show ?thesis
      by (metis min.cobounded2)
  qed (use Cons in simp)
qed simp

lemma lcl_scan_codes:
  "\<forall>i<n. chardec (buf ! (k + i)) AND NOT 0x3f = 0 \<Longrightarrow> lcl_scan n k k ret buf = (ret, buf)"
proof (induction n arbitrary: k)
  case (Suc n)
  then have "chardec (buf ! k) AND NOT 0x3f = 0" "\<forall>i<n. chardec (buf ! (k + 1 + i)) AND NOT 0x3f = 0"
    by (metis add.right_neutral zero_less_Suc, metis Suc_less_eq add_Suc_right add_Suc plus_1_eq_Suc add.commute)
  with Suc.IH [of "k + 1"] show ?case
    by simp
qed simp

text \<open>The receive side changes nothing else.\<close>

definition received :: "tty \<Rightarrow> tty \<Rightarrow> bool" where
  "received s s1 \<longleftrightarrow> length (t_buf s1) = length (t_buf s) \<and>
    s1 = s\<lparr>t_rx := t_rx s1, t_total_nread := t_total_nread s1, t_buf := t_buf s1\<rparr>"

lemma received_refl [simp]: "received s s"
  by (simp add: received_def)

lemma received_trans: "received s s1 \<Longrightarrow> received s1 s2 \<Longrightarrow> received s s2"
  by (cases s, cases s1, cases s2) (auto simp: received_def)

lemma received_fields:
  assumes "received s s1"
  shows "t_lastaddr s1 = t_lastaddr s" "t_readtbl s1 = t_readtbl s" "t_rdaddr s1 = t_rdaddr s"
  using assms by (cases s, cases s1, simp add: received_def)+

lemma length_buf_write_in: "i + length bs \<le> length buf \<Longrightarrow> length (buf_write buf i bs) = length buf"
  by (simp add: buf_write_def)

lemma buf_write_twice:
  "i + length xs + length ys \<le> length buf \<Longrightarrow>
    buf_write (buf_write buf i xs) (i + length xs) ys = buf_write buf i (xs @ ys)"
  by (simp add: buf_write_def ac_simps)

lemma nth_buf_write_in: "i + length bs \<le> length buf \<Longrightarrow> k < length bs \<Longrightarrow> buf_write buf i bs ! (i + k) = bs ! k"
  by (simp add: buf_write_def nth_append)

lemma lclreadcode_arriving:
  assumes "arriving (b # bs) (t_rx s)" "0 < len" "0 \<le> i" "nat i + nat len \<le> length (t_buf s)"
    and codes: "\<forall>c\<in>set (take (nat len) (b # bs)). chardec c AND NOT 0x3f = 0"
  shows "\<exists>n s1. 1 \<le> n \<and> n \<le> nat len \<and> n \<le> length (b # bs) \<and> lclreadcode i len s = Some (Inr (int n), s1) \<and>
    received s s1 \<and> arriving (drop n (b # bs)) (t_rx s1) \<and> t_buf s1 = buf_write (t_buf s) (nat i) (take n (b # bs))"
proof -
  obtain chunks where rx: "t_rx s = map Bytes chunks" "concat chunks = b # bs"
    using assms(1) by (auto simp: arriving_def)
  obtain n rx' where n: "dev_read (t_nonblock s) (nat len) (t_rx s) = Some (int n, take n (b # bs), rx')"
    "1 \<le> n" "n \<le> nat len" "n \<le> length (b # bs)" "arriving (drop n (b # bs)) rx'"
    using dev_read_arriving [OF rx(2), of "nat len" "t_nonblock s"] assms(2) rx(1) by auto
  let ?new = "take n (b # bs)"
  have len: "length ?new = n" "?new \<noteq> []"
    using n(2,4) by (simp, cases n, simp_all)
  have fit: "nat i + length ?new \<le> length (t_buf s)"
    using n(3) assms(4) len(1) by simp
  have ok: "chardec (buf_write (t_buf s) (nat i) ?new ! (nat i + k)) AND NOT 0x3f = 0" if "k < n" for k
  proof -
    have "?new ! k \<in> set (take (nat len) (b # bs))"
      using that n(3) len(1) by (metis min.absorb1 nth_mem set_take_subset subsetD take_take)
    then show ?thesis
      using codes nth_buf_write_in [OF fit, of k] that len(1) by simp
  qed
  have scan: "lcl_scan n (nat i) (nat i) (int n) (buf_write (t_buf s) (nat i) ?new) = (int n, buf_write (t_buf s) (nat i) ?new)"
    using ok by (intro lcl_scan_codes) simp
  define s1 where "s1 = s\<lparr>t_rx := rx', t_total_nread := t_total_nread s + word_of_int (int n), t_buf := buf_write (t_buf s) (nat i) ?new\<rparr>"
  have "lclreadcode i len s = Some (Inr (int n), s1)"
    using n(1) len fit assms(3) scan by (simp add: lclreadcode_def Let_def bput_def s1_def)
  moreover have "received s s1" "t_rx s1 = rx'" "t_buf s1 = buf_write (t_buf s) (nat i) ?new"
    using length_buf_write_in [OF fit] by (simp_all add: received_def s1_def)
  ultimately show ?thesis
    using n(2-5) by (intro exI [of _ n] exI [of _ s1] conjI) simp_all
qed

lemma fill_arriving:
  "arriving (need @ rest) (t_rx s) \<Longrightarrow> need \<noteq> [] \<Longrightarrow> int (length need) = nw - nr \<Longrightarrow> 0 \<le> nr \<Longrightarrow>
    nat nr + length need \<le> length (t_buf s) \<Longrightarrow> \<forall>c\<in>set need. chardec c AND NOT 0x3f = 0 \<Longrightarrow>
    \<exists>s1. fill nw nr s = Some (Inr (), s1) \<and> received s s1 \<and> arriving rest (t_rx s1) \<and>
      t_buf s1 = buf_write (t_buf s) (nat nr) need"
proof (induction "length need" arbitrary: need nr s rule: less_induct)
  case less
  obtain b bs where need: "need = b # bs"
    using less.prems(2) by (cases need) auto
  have len: "nat (nw - nr) = length need" "0 < nw - nr"
    using less.prems(3) need by simp_all
  from lclreadcode_arriving [of b "bs @ rest" s "nw - nr" nr] less.prems len obtain n s1 where
    n: "1 \<le> n" "n \<le> length need" "lclreadcode nr (nw - nr) s = Some (Inr (int n), s1)" "received s s1"
      "arriving (drop n (need @ rest)) (t_rx s1)" "t_buf s1 = buf_write (t_buf s) (nat nr) (take n (need @ rest))"
    by (auto simp: need)
  have tk: "take n (need @ rest) = take n need" "drop n (need @ rest) = drop n need @ rest"
    using n(2) by simp_all
  show ?case
  proof (cases "n = length need")
    case True
    then have "fill nw nr s = Some (Inr (), s1)"
      using n(3) less.prems(3) by (subst fill.simps) simp
    then show ?thesis
      using n True by auto
  next
    case False
    let ?rest = "drop n need"
    have run: "fill nw nr s = fill nw (nr + int n) s1"
      using n(2,3) False less.prems(3) by (subst fill.simps) simp
    have nn: "nat (nr + int n) = nat nr + n"
      using less.prems(4) by (simp add: nat_add_distrib)
    have len1: "length (t_buf s1) = length (t_buf s)"
      using n(4) by (simp add: received_def)
    from less.hyps [of ?rest s1 "nr + int n"] obtain s2 where s2: "fill nw (nr + int n) s1 = Some (Inr (), s2)" "received s1 s2"
      "arriving rest (t_rx s2)" "t_buf s2 = buf_write (t_buf s1) (nat nr + n) ?rest"
      using n(1,2,5) False less.prems nn len1 tk by (auto dest: in_set_dropD)
    have "t_buf s2 = buf_write (t_buf s) (nat nr) (take n need @ ?rest)"
      using s2(4) n(2,6) tk buf_write_twice [of "nat nr" "take n need" ?rest "t_buf s"] less.prems(5) by simp
    then show ?thesis
      using run s2 received_trans [OF n(4) s2(2)] by simp
  qed
qed

text \<open>One character into the start of the buffer, with or without a code.\<close>

lemma lclreadcode_one:
  assumes "arriving (b # bs) (t_rx s)" "t_buf s \<noteq> []"
  shows "\<exists>s1. lclreadcode 0 1 s = Some (Inr (if chardec b AND NOT 0x3f = 0 then 1 else 0), s1) \<and>
    received s s1 \<and> arriving bs (t_rx s1) \<and> t_buf s1 ! 0 = b"
proof -
  obtain chunks where rx: "t_rx s = map Bytes chunks" "concat chunks = b # bs"
    using assms(1) by (auto simp: arriving_def)
  obtain n rx' where n: "dev_read (t_nonblock s) 1 (t_rx s) = Some (int n, take n (b # bs), rx')"
    "1 \<le> n" "n \<le> 1" "arriving (drop n (b # bs)) rx'"
    using dev_read_arriving [OF rx(2), of 1 "t_nonblock s"] rx(1) by auto
  have n1: "n = 1"
    using n(2,3) by simp
  obtain x xs where buf: "t_buf s = x # xs"
    using assms(2) by (cases "t_buf s") auto
  define s1 where "s1 = s\<lparr>t_rx := rx', t_total_nread := t_total_nread s + 1, t_buf := b # xs\<rparr>"
  have "lclreadcode 0 1 s = Some (Inr (if chardec b AND NOT 0x3f = 0 then 1 else 0), s1)"
    using n(1) by (simp add: n1 lclreadcode_def Let_def bput_def buf_write_def buf s1_def)
  moreover have "received s s1" "arriving bs (t_rx s1)" "t_buf s1 ! 0 = b"
    using n(4) by (simp_all add: received_def s1_def buf n1)
  ultimately show ?thesis
    by blast
qed

definition skipped :: "u8 \<Rightarrow> bool" where
  "skipped c \<longleftrightarrow> chardec c AND NOT 0x3f \<noteq> 0 \<or> chardec c < 3"

lemma readword_scan_char:
  assumes "arriving (b # bs) (t_rx s)" "t_buf s \<noteq> []" "chardec b AND NOT 0x3f = 0" "\<not> is_addr (chardec b)"
    and "chardec b < 3 \<or> \<not> chardec b < 6"
  shows "\<exists>s1. readword_scan val s = Some (Inr (if chardec b < 3 then None else Some (chardec b), val), s1) \<and>
    received s s1 \<and> arriving bs (t_rx s1) \<and> t_buf s1 ! 0 = b"
proof -
  from lclreadcode_one [OF assms(1,2)] assms(3) obtain s1 where s1: "lclreadcode 0 1 s = Some (Inr 1, s1)"
    "received s s1" "arriving bs (t_rx s1)" "t_buf s1 ! 0 = b"
    by auto
  have run: "read_one s = Some (Inr (), s1)"
    using s1(1) by (subst read_one.simps) simp
  have small: "x \<noteq> 3 \<and> x \<noteq> 4 \<and> x \<noteq> 5 \<and> x < 6" if "x < 3" for x :: u32
    using that by (auto simp: word_less_nat_alt)
  have "readword_scan val s = Some (Inr (if chardec b < 3 then None else Some (chardec b), val), s1)"
    using assms(3-5) run s1(4) small [of "chardec b"] by (auto simp: readword_scan_def Let_def bus_status_def)
  with s1 show ?thesis
    by blast
qed

lemma small_code: "x < 3 \<Longrightarrow> x AND NOT 0x3f = 0 \<and> \<not> is_addr (x :: u32)"
proof -
  assume "x < 3"
  then have "x = 0 \<or> x = 1 \<or> x = 2"
    by (auto simp: word_less_nat_alt word_unat_eq_iff)
  then show ?thesis
    by (auto simp: is_addr_def)
qed

lemma readword_start_skip:
  assumes "arriving (b # bs) (t_rx s)" "t_buf s \<noteq> []" "skipped b"
  shows "\<exists>s1. readword_start val s = readword_start val s1 \<and> received s s1 \<and> arriving bs (t_rx s1)"
proof (cases "chardec b < 3")
  case True
  from readword_scan_char [OF assms(1,2), of val] True small_code [OF True] obtain s1 where
    "readword_scan val s = Some (Inr (None, val), s1)" "received s s1" "arriving bs (t_rx s1)"
    by auto
  then show ?thesis
    by (intro exI [of _ s1]) (subst readword_start.simps, simp)
next
  case False
  with assms(3) have "chardec b AND NOT 0x3f \<noteq> 0"
    by (simp add: skipped_def)
  with lclreadcode_one [OF assms(1,2)] obtain s1 where s1: "lclreadcode 0 1 s = Some (Inr 0, s1)"
    "received s s1" "arriving bs (t_rx s1)"
    by auto
  have "read_one s = read_one s1"
    using s1(1) by (subst read_one.simps) simp
  then have "readword_scan val s = readword_scan val s1"
    by (simp add: readword_scan_def)
  then have "readword_start val s = readword_start val s1"
    by (subst (1 2) readword_start.simps) simp
  with s1 show ?thesis
    by blast
qed

lemma readword_start_skips:
  "arriving (skip @ bs) (t_rx s) \<Longrightarrow> t_buf s \<noteq> [] \<Longrightarrow> \<forall>c\<in>set skip. skipped c \<Longrightarrow>
    \<exists>s1. readword_start val s = readword_start val s1 \<and> received s s1 \<and> arriving bs (t_rx s1)"
proof (induction skip arbitrary: s)
  case (Cons c skip)
  from readword_start_skip [of c "skip @ bs" s val] Cons.prems obtain s1 where
    s1: "readword_start val s = readword_start val s1" "received s s1" "arriving (skip @ bs) (t_rx s1)"
    by auto
  have "t_buf s1 \<noteq> []"
    using s1(2) Cons.prems(2) by (auto simp: received_def)
  from Cons.IH [OF s1(3) this] Cons.prems(3) show ?case
    using s1(1,2) received_trans by auto
qed auto

lemma raw_code:
  assumes "v < 4" "i = 0 \<or> i = 1"
  defines "x \<equiv> chardec (charenc (push_bit 1 v + i + 0x038))"
  shows "x AND NOT 0x3f = 0" "\<not> is_addr x" "\<not> x < 3" "\<not> x < 6" "drop_bit 1 x AND 3 = v" "x AND 1 = i"
    "0x06 \<noteq> x AND 0x03e" "0x10 \<noteq> x AND 0x030" "0x20 \<noteq> x AND 0x030" "0x38 = x AND 0x038"
proof -
  have "unat v \<in> {0, 1, 2, 3}"
    using assms(1) by (auto simp: word_less_nat_alt)
  then have "v = 0 \<or> v = 1 \<or> v = 2 \<or> v = 3"
    by (auto simp: word_unat_eq_iff)
  with assms(2) have "(v, i, x) \<in> {(0, 0, 0x38), (0, 1, 0x39), (1, 0, 0x3a), (1, 1, 0x3b), (2, 0, 0x3c), (2, 1, 0x3d),
      (3, 0, 0x3e), (3, 1, 0x3f)}"
    unfolding x_def by (elim disjE; simp add: chardec_charenc)
  then show "x AND NOT 0x3f = 0" "\<not> is_addr x" "\<not> x < 3" "\<not> x < 6" "drop_bit 1 x AND 3 = v" "x AND 1 = i"
    "0x06 \<noteq> x AND 0x03e" "0x10 \<noteq> x AND 0x030" "0x20 \<noteq> x AND 0x030" "0x38 = x AND 0x038"
    by (auto simp: is_addr_def)
qed

lemma raw_value_buffer:
  assumes "length b = 6" "drop_bit 1 (chardec (b ! 0)) AND 3 = drop_bit 30 val" "tl b = groups 5 val"
  shows "raw_value (b @ r) = val"
proof -
  obtain x where b: "b = x # groups 5 val"
    using assms(1,3) by (cases b) auto
  show ?thesis
    using assms(2) shift_in_groups [of 5 val] by (simp add: raw_value_def b groups_5)
qed

lemma and_group [simp]: "(v AND 0x3f) AND - 64 = (0 :: u32)"
  by (simp add: and.assoc)

lemma groups_codes: "c \<in> set (groups n v) \<Longrightarrow> chardec c AND NOT 0x3f = 0"
  by (auto simp: groups_def)

lemma lcl_scan_smear:
  "\<forall>c\<in>set cs. chardec c AND NOT 0x3f = 0 \<Longrightarrow>
    lcl_scan (length cs) (length pre + 1) (length pre) ret (pre @ b # cs @ r) = (ret, pre @ replicate (Suc (length cs)) b @ r)"
proof (induction cs arbitrary: pre)
  case (Cons c cs)
  have "(pre @ b # (c # cs) @ r) ! (length pre + 1) = c"
    by (simp add: nth_append)
  moreover have "(pre @ b # (c # cs) @ r)[length pre + 1 := (pre @ b # (c # cs) @ r) ! length pre] = (pre @ [b]) @ b # cs @ r"
    by (simp add: list_update_append)
  ultimately have "lcl_scan (length (c # cs)) (length pre + 1) (length pre) ret (pre @ b # (c # cs) @ r)
      = lcl_scan (length cs) (length (pre @ [b]) + 1) (length (pre @ [b])) ret ((pre @ [b]) @ b # cs @ r)"
    using Cons.prems by (simp only: lcl_scan.simps list.size add_0_right add_Suc_right) simp
  then show ?case
    using Cons.IH [of "pre @ [b]"] Cons.prems by simp
qed simp

section \<open>Properties\<close>

text \<open>
  The six-bit code: every value below 64 is the code of its character, no other character decodes to it, and a word is
  the decoding of its six characters.
\<close>

theorem tty_code_roundtrip:
  "(v < 64 \<longrightarrow> chardec (charenc v) = v) \<and> (chardec b < 64 \<longrightarrow> charenc (chardec b) = b) \<and>
    (hb < 16 \<longrightarrow> decodestr (encode hb val) = val)"
proof (intro conjI impI)
  assume "chardec b < 64"
  let ?codes = "[48..<58] @ [65..<91] @ [97..<123] @ [64, 37]"
  have "\<forall>n\<in>set ?codes. charenc (chardec (word_of_nat n)) = word_of_nat n"
    by (simp add: upt_rec charenc_def chardec_def word_sless_alt)
  moreover have "unat b \<in> set ?codes"
    using \<open>chardec b < 64\<close> unfolding set_append set_upt by (auto simp: chardec_def word_le_nat_alt split: if_splits)
  ultimately have "charenc (chardec (word_of_nat (unat b))) = word_of_nat (unat b)"
    by (rule bspec)
  then show "charenc (chardec b) = b"
    by simp
qed (simp_all add: chardec_charenc decodestr_encode)

text \<open>
  C19. Compressed writes lose nothing: a receiver that keeps the table of the last 256 values in the same way decodes from
  the characters of any sequence of words exactly those words, and its table stays equal to the sender's.
\<close>

theorem tty_writes_decode:
  assumes "same_tables s T" "write_words p vals s = (cmd, s1)"
  shows "\<exists>T1. wr_decode (length vals) (cmd @ rest) T = Some (vals, rest, T1) \<and> same_tables s1 T1"
  by (rule write_words_decode [OF assms])

text \<open>
  Every address of the board (below 2^26) is sent in a form that the receiver takes for that address, whichever of the absolute and relative
  forms the code chooses, and an unaligned address is refused.
\<close>

theorem encode_address_decodes:
  assumes "a < 0x4000000" "t_addr_set s \<longrightarrow> t_lastaddr s AND 3 = 0"
  shows "case encode_address a s of
      Some (Inl e, s1) \<Rightarrow> e = BUSERR a \<and> a AND 3 \<noteq> 0 \<and> s1 = s
    | Some (Inr cmd, s1) \<Rightarrow> a AND 3 = 0 \<and> push_bit 2 (dec_address (drop_bit 2 (t_lastaddr s)) cmd) = a
    | None \<Rightarrow> False"
proof (cases "a AND 3 = 0 \<and> \<not> (t_addr_set s \<and> a = t_lastaddr s)")
  case True
  let ?l = "drop_bit 2 (t_lastaddr s)" and ?d = "drop_bit 2 (a - t_lastaddr s)"
  have addr: "unat (drop_bit 2 a) < 2 ^ 24" "unat ?d < 2 ^ 30"
    using assms(1) unat_u32_less [of "a - t_lastaddr s"]
    by (simp_all add: unat_drop_bit_div word_less_nat_alt less_mult_imp_div_less)
  have "dec_address ?l (abs_addr (drop_bit 2 a) (if t_addr_set s then diff_addr ?d else [])) = drop_bit 2 a"
    using assms(2) True aligned_diff [of a "t_lastaddr s"] by (intro encode_address_decodes_aux [OF addr(2,1)]) auto
  then have "push_bit 2 (dec_address ?l (abs_addr (drop_bit 2 a) (if t_addr_set s then diff_addr ?d else []))) = a"
    using True unat_aligned by simp
  then show ?thesis
    using True by (auto simp: encode_address_def Let_def)
next
  case False
  then show ?thesis
    using assms(2) unat_aligned by (auto simp: encode_address_def dec_address_def)
qed

text \<open>
  Reading a word: whatever idle, acknowledgement and unknown characters come before it, and however the characters are
  cut into reads, \<open>readword\<close> returns the word that six characters encode, enters it into the table and, when told so,
  advances the address by four.
\<close>

theorem readword_raw:
  assumes "arriving (skip @ charenc (push_bit 1 (drop_bit 30 val) + i + 0x38) # groups 5 val @ rest) (t_rx s)"
    and "\<forall>c\<in>set skip. skipped c" "i = 0 \<or> i = 1" "6 \<le> length (t_buf s)"
  shows "\<exists>s1. readword s = Some (Inr val, s1) \<and> arriving rest (t_rx s1) \<and> t_lastaddr s1 = t_lastaddr s + 4 * i \<and>
    t_readtbl s1 = (t_readtbl s)(t_rdaddr s := val) \<and> t_rdaddr s1 = (t_rdaddr s + 1) AND 0x3ff"
proof -
  let ?c = "charenc (push_bit 1 (drop_bit 30 val) + i + 0x38)"
  note code = raw_code [OF top_bits_less [of val] assms(3)]
  have ne: "t_buf s \<noteq> []"
    using assms(4) by auto
  from readword_start_skips [OF assms(1) ne assms(2), of 0] obtain s1 where
    s1: "readword_start 0 s = readword_start 0 s1" "received s s1" "arriving (?c # groups 5 val @ rest) (t_rx s1)"
    by auto
  have len1: "length (t_buf s1) = length (t_buf s)"
    using s1(2) by (simp add: received_def)
  then have "t_buf s1 \<noteq> []"
    using ne by auto
  from readword_scan_char [OF s1(3) this, of 0] code obtain s2 where
    s2: "readword_scan 0 s1 = Some (Inr (Some (chardec ?c), 0), s2)" "received s1 s2" "arriving (groups 5 val @ rest) (t_rx s2)"
      "t_buf s2 ! 0 = ?c"
    by auto
  have len2: "length (t_buf s2) = length (t_buf s)"
    using s2(2) len1 by (simp add: received_def)
  then obtain xs where buf2: "t_buf s2 = ?c # xs"
    using s2(4) ne by (cases "t_buf s2") auto
  have "\<exists>s3. fill 6 1 s2 = Some (Inr (), s3) \<and> received s2 s3 \<and> arriving rest (t_rx s3) \<and>
      t_buf s3 = buf_write (t_buf s2) (nat 1) (groups 5 val)"
    by (rule fill_arriving [OF s2(3)]) (use assms(4) len2 groups_codes in \<open>auto simp flip: length_greater_0_conv\<close>)
  then obtain s3 where s3: "fill 6 1 s2 = Some (Inr (), s3)" "received s2 s3" "arriving rest (t_rx s3)"
    "t_buf s3 = buf_write (t_buf s2) 1 (groups 5 val)"
    by auto
  have buf3: "t_buf s3 = (?c # groups 5 val) @ drop 5 xs"
    unfolding s3(4) buf2 by (simp add: buf_write_def)
  have val: "raw_value (t_buf s3) = val"
    unfolding buf3 by (rule raw_value_buffer) (use code(5) in simp_all)
  have run: "readword s = Some (Inr val, raw_read (chardec ?c) s3)"
    using s1(1) s2(1) s3(1) code(7-10) val
    by (subst readword_def, simp, subst readword_start.simps, simp add: word_value_def)
  have "received s s3"
    using received_trans s1(2) s2(2) s3(2) by blast
  then have keep: "t_lastaddr s3 = t_lastaddr s" "t_readtbl s3 = t_readtbl s" "t_rdaddr s3 = t_rdaddr s"
    by (simp_all add: received_fields)
  show ?thesis
    using run s3(3) val code(6) assms(3) keep by (auto simp: raw_read_def advance_def)
qed

text \<open>
  The loop that is to remove characters without a code has its two pointers the wrong way round: one such
  character at the start of a read overwrites every code character that arrived with it, and the count is still that of the codes.
\<close>

theorem tty_scan_loses_codes:
  assumes "chardec b AND NOT 0x3f \<noteq> 0" "\<forall>c\<in>set cs. chardec c AND NOT 0x3f = 0"
  shows "lcl_scan (Suc (length cs)) 0 0 ret (b # cs @ r) = (ret - 1, replicate (Suc (length cs)) b @ r)"
  using assms(1) lcl_scan_smear [OF assms(2), of "[]" "ret - 1" b r] by simp

section \<open>Witnesses\<close>

definition demo_tty :: tty where
  "demo_tty = \<lparr>t_rx = [], t_nonblock = True, t_tx = [], t_total_nread = 0, t_interrupt_flag = False, t_addr_set = True,
    t_bus_err = False, t_lastaddr = 0x1000, t_buflen = 128, t_buf = replicate 128 0, t_wrloaded = False, t_rdaddr = 0,
    t_wraddr = 0, t_readtbl = (\<lambda>_. 0), t_writetbl = (\<lambda>_. 0)\<rparr>"

lemma demo_tables: "same_tables demo_tty (\<lambda>_. 0, 0)"
  by (simp add: same_tables_def demo_tty_def)

theorem tty_code_roundtrip_witness: "chardec (charenc 37) = 37 \<and> decodestr (encode 3 0xdeadbeef) = 0xdeadbeef"
  using tty_code_roundtrip [of 37 48 3 "0xdeadbeef"] by simp

theorem tty_writes_decode_witness:
  "map_option fst (wr_decode 3 (fst (write_words 1 [7, 0xcafe0000, 7] demo_tty)) (\<lambda>_. 0, 0)) = Some [7, 0xcafe0000, 7]"
proof -
  obtain cmd s1 where run: "write_words 1 [7, 0xcafe0000, 7] demo_tty = (cmd, s1)"
    by (cases "write_words 1 [7, 0xcafe0000, 7] demo_tty")
  have "length [7, 0xcafe0000, 7 :: u32] = 3"
    by simp
  with tty_writes_decode [OF demo_tables run, of "[]"] obtain T1 where
    "wr_decode 3 (cmd @ []) (\<lambda>_. 0, 0) = Some ([7, 0xcafe0000, 7], [], T1)"
    by metis
  then show ?thesis
    by (simp only: run fst_conv append_Nil2 option.map)
qed

theorem encode_address_decodes_witness:
  "case encode_address 0x1010 demo_tty of Some (Inr cmd, _) \<Rightarrow> push_bit 2 (dec_address (drop_bit 2 0x1000) cmd) = 0x1010 | _ \<Rightarrow> False"
  using encode_address_decodes [of "0x1010" demo_tty] by (simp add: demo_tty_def encode_address_def Let_def)

text \<open>A newline and an idle character, and then the word 5 in three pieces.\<close>

theorem readword_raw_witness:
  "\<exists>s1. readword (demo_tty\<lparr>t_rx := [Bytes [10, 48], Bytes (charenc 0x39 # take 2 (groups 5 5)), Bytes (drop 2 (groups 5 5))]\<rparr>)
    = Some (Inr 5, s1) \<and> t_lastaddr s1 = 0x1004"
proof -
  let ?s = "demo_tty\<lparr>t_rx := [Bytes [10, 48], Bytes (charenc 0x39 # take 2 (groups 5 5)), Bytes (drop 2 (groups 5 5))]\<rparr>"
  have "arriving ([10, 48] @ charenc (push_bit 1 (drop_bit 30 5) + 1 + 0x38) # groups 5 5 @ []) (t_rx ?s)"
    unfolding arriving_def
    by (rule exI [of _ "[[10, 48], charenc 0x39 # take 2 (groups 5 5), drop 2 (groups 5 5)]"]) simp
  moreover have "\<forall>c\<in>set [10, 48]. skipped c"
    by (simp add: skipped_def chardec_def)
  moreover have "6 \<le> length (t_buf ?s)" "t_lastaddr ?s = 0x1000"
    by (simp_all add: demo_tty_def)
  ultimately show ?thesis
    using readword_raw [of "[10, 48]" 5 1 "[]" ?s] by auto
qed

theorem tty_scan_loses_codes_witness: "lcl_scan 3 0 0 3 [10, 65, 66] = (2, [10, 10, 10])"
proof -
  have "lcl_scan (Suc (length [65, 66 :: u8])) 0 0 3 (10 # [65, 66] @ []) = (3 - 1, replicate (Suc (length [65, 66 :: u8])) 10 @ [])"
    by (rule tty_scan_loses_codes) (simp_all add: chardec_def)
  then show ?thesis
    by (simp add: numeral_3_eq_3 del: lcl_scan.simps)
qed

end
