(* ===== verification/Qspiflash.thy ===== *)
theory Qspiflash
  imports Board "HOL-Library.Monad_Syntax"
begin

text \<open>
  The simulated serial flash, sim/verilator/qspiflashsim.cpp: one call of the object per clock phase, with
  the chip select, the clock and the data lines, gives the data lines back. The debugging
  output is left out. A call can fail an assertion, leave the program, or access memory outside the array.
\<close>

section \<open>State\<close>

datatype qspif_state =
    QSPIF_IDLE | QSPIF_NULL | QSPIF_QUAD_READ_IDLE | QSPIF_RDSR | QSPIF_RDCR | QSPIF_WRSR | QSPIF_CLSR
  | QSPIF_RDID | QSPIF_RELEASE | QSPIF_FAST_READ | QSPIF_QUAD_READ_CMD | QSPIF_QUAD_READ | QSPIF_SECTOR_ERASE
  | QSPIF_PP | QSPIF_QPP | QSPIF_BULK_ERASE | QSPIF_DEEP_POWER_DOWN | QSPIF_INVALID

record flash =
  m_state :: qspif_state
  m_mem :: "u32 \<Rightarrow> u8"
  m_pmem :: "u32 \<Rightarrow> u8"
  m_last_sck :: u32
  m_write_count :: u32
  m_ireg :: u32
  m_oreg :: u32
  m_sreg :: u32
  m_addr :: u32
  m_count :: u32
  m_mode_byte :: u32
  m_creg :: u32
  m_quad_mode :: bool
  bomb_timeout :: u32

datatype sim_stop = Assertion | Exit_2 | Mem_bounds

abbreviation (input) QSPIF_WIP_FLAG :: u32 where "QSPIF_WIP_FLAG \<equiv> 0x0001"
abbreviation (input) QSPIF_WEL_FLAG :: u32 where "QSPIF_WEL_FLAG \<equiv> 0x0002"
abbreviation (input) QSPIF_DEEP_POWER_DOWN_FLAG :: u32 where "QSPIF_DEEP_POWER_DOWN_FLAG \<equiv> 0x0200"

abbreviation (input) MEMBYTES :: u32 where "MEMBYTES \<equiv> 0x1000000"
abbreviation (input) MEMMASK :: u32 where "MEMMASK \<equiv> 0x0ffffff"

abbreviation (input) DEVID :: u32 where "DEVID \<equiv> 0x0115"
abbreviation (input) DEVESD :: u32 where "DEVESD \<equiv> 0x014"

text \<open>Times in clock ticks.\<close>

abbreviation (input) MICROSECONDS :: u32 where "MICROSECONDS \<equiv> 100"
definition MILLISECONDS :: u32 where "MILLISECONDS = MICROSECONDS * 1000"
definition SECONDS :: u32 where "SECONDS = MILLISECONDS * 1000"
definition tW :: u32 where "tW = 50 * MICROSECONDS"
definition tBE :: u32 where "tBE = 32 * SECONDS"
definition tDP :: u32 where "tDP = 10 * SECONDS"
definition tRES :: u32 where "tRES = 30 * SECONDS"
definition tPP :: u32 where "tPP = 12 * MICROSECONDS"
definition tSE :: u32 where "tSE = 15 * MILLISECONDS"

text \<open>What the constructor sets; the rest of the object is whatever was there.\<close>

definition flash_init :: "flash \<Rightarrow> flash" where
  "flash_init s = s\<lparr>m_state := QSPIF_IDLE, m_last_sck := 1, m_write_count := 0, m_ireg := 0, m_oreg := 0, m_sreg := 0x01c,
    m_creg := 0x003, m_quad_mode := False, m_mode_byte := 0, m_mem := (\<lambda>_. 0xff)\<rparr>"

text \<open>Loading an image: the length that \<open>fread\<close> is given (as \<open>size_t\<close>), and the bytes of the file.\<close>

definition flash_load :: "u32 \<Rightarrow> u8 list \<Rightarrow> flash \<Rightarrow> sim_stop + flash" where
  "flash_load addr file s =
    (if addr \<ge> MEMBYTES then Inr s
     else let len = unat (MEMBYTES - addr * 4); bs = take len file
          in if unat addr + length bs > unat MEMBYTES then Inl Mem_bounds
             else Inr (s\<lparr>m_mem := (\<lambda>a. if addr \<le> a \<and> unat a < unat addr + length bs then bs ! (unat a - unat addr) else m_mem s a)\<rparr>))"

definition flash_write :: "u32 \<Rightarrow> u8 list \<Rightarrow> flash \<Rightarrow> sim_stop + flash" where
  "flash_write offset bs s =
    (let moff = offset AND (MEMBYTES - 1)
     in if unat moff + length bs > unat MEMBYTES then Inl Mem_bounds
        else Inr (s\<lparr>m_mem := (\<lambda>a. if moff \<le> a \<and> unat a < unat moff + length bs then bs ! (unat a - unat moff) else m_mem s a)\<rparr>))"

section \<open>The end of a command\<close>

definition QOREG :: "u32 \<Rightarrow> flash \<Rightarrow> flash" where
  "QOREG A s = s\<lparr>m_oreg := (m_oreg s AND NOT 0x0ff) OR (A AND 0x0ff)\<rparr>"

definition flash_tick :: "flash \<Rightarrow> flash" where
  "flash_tick s =
    (if m_write_count s > 0
     then let n = m_write_count s - 1
          in if n = 0 then s\<lparr>m_write_count := n, m_sreg := m_sreg s AND 0x0fc\<rparr> else s\<lparr>m_write_count := n\<rparr>
     else s)"

text \<open>A write or erase that begins when the chip is deselected.\<close>

definition flash_busy :: "u32 \<Rightarrow> flash \<Rightarrow> flash" where
  "flash_busy t s =
    s\<lparr>m_write_count := t, m_state := QSPIF_IDLE, m_sreg := (m_sreg s AND NOT QSPIF_WEL_FLAG) OR QSPIF_WIP_FLAG\<rparr>"

definition program_page :: "u32 \<Rightarrow> (u32 \<Rightarrow> u8) \<Rightarrow> (u32 \<Rightarrow> u8) \<Rightarrow> u32 \<Rightarrow> u8" where
  "program_page addr pmem mem = (\<lambda>a. if a AND NOT 0x0ff = addr AND NOT 0x0ff then mem a AND pmem (a AND 0x0ff) else mem a)"

definition erase_sector :: "u32 \<Rightarrow> (u32 \<Rightarrow> u8) \<Rightarrow> u32 \<Rightarrow> u8" where
  "erase_sector addr mem = (\<lambda>a. if a AND NOT 0xffff = addr then 0xff else mem a)"

definition flash_finish :: "flash \<Rightarrow> flash" where
  "flash_finish s =
    (case m_state s of
       QSPIF_PP \<Rightarrow> (flash_busy tPP s)\<lparr>m_mem := program_page (m_addr s) (m_pmem s) (m_mem s), m_quad_mode := False\<rparr>
     | QSPIF_QPP \<Rightarrow> (flash_busy tPP s)\<lparr>m_mem := program_page (m_addr s) (m_pmem s) (m_mem s), m_quad_mode := False\<rparr>
     | QSPIF_SECTOR_ERASE \<Rightarrow>
         let addr = m_addr s AND NOT 0xffff in (flash_busy tSE s)\<lparr>m_addr := addr, m_mem := erase_sector addr (m_mem s)\<rparr>
     | QSPIF_WRSR \<Rightarrow> flash_busy tW s
     | QSPIF_CLSR \<Rightarrow> s\<lparr>m_state := QSPIF_IDLE, m_sreg := m_sreg s AND 0x09f\<rparr>
     | QSPIF_BULK_ERASE \<Rightarrow> (flash_busy tBE s)\<lparr>m_mem := (\<lambda>a. if a < MEMBYTES then 0xff else m_mem s a)\<rparr>
     | QSPIF_DEEP_POWER_DOWN \<Rightarrow> s\<lparr>m_write_count := tDP, m_state := QSPIF_IDLE\<rparr>
     | QSPIF_RELEASE \<Rightarrow> s\<lparr>m_write_count := tRES, m_state := QSPIF_IDLE\<rparr>
     | QSPIF_QUAD_READ_CMD \<Rightarrow>
         if m_mode_byte s AND 0x0f0 \<noteq> 0x0a0 then s\<lparr>m_quad_mode := False\<rparr> else s\<lparr>m_state := QSPIF_QUAD_READ_IDLE\<rparr>
     | QSPIF_QUAD_READ \<Rightarrow>
         if m_mode_byte s AND 0x0f0 \<noteq> 0x0a0 then s\<lparr>m_quad_mode := False\<rparr> else s\<lparr>m_state := QSPIF_QUAD_READ_IDLE\<rparr>
     | _ \<Rightarrow> s)"

definition flash_deselect :: "flash \<Rightarrow> flash" where
  "flash_deselect s = (flash_finish (s\<lparr>m_last_sck := 1, m_ireg := 0, m_oreg := 0, m_count := 0\<rparr>))\<lparr>m_oreg := 0x0fe\<rparr>"

section \<open>Commands\<close>

text \<open>A command that writes needs the write-enable latch, no write in progress and no deep power down.\<close>

definition guarded :: "qspif_state \<Rightarrow> flash \<Rightarrow> flash" where
  "guarded st s = s\<lparr>m_state := (if 2 \<noteq> m_sreg s AND 0x203 then QSPIF_INVALID else st)\<rparr>"

definition flash_command :: "flash \<Rightarrow> sim_stop + flash" where
  "flash_command s0 =
    (let s = QOREG 0x0a5 s0; c = m_ireg s AND 0x0ff in
     if c = 0x00 then Inr (s\<lparr>m_state := QSPIF_NULL\<rparr>)
     else if c = 0x01 then Inr (guarded QSPIF_WRSR s)
     else if c = 0x02 then Inr (guarded QSPIF_PP s)
     else if c = 0x03 then Inr (s\<lparr>m_state := QSPIF_INVALID\<rparr>)
     else if c = 0x04 then Inr (s\<lparr>m_state := QSPIF_IDLE, m_sreg := m_sreg s AND NOT QSPIF_WEL_FLAG\<rparr>)
     else if c = 0x05 then Inr (QOREG (m_sreg s) (s\<lparr>m_state := QSPIF_RDSR\<rparr>))
     else if c = 0x06 then Inr (s\<lparr>m_state := QSPIF_IDLE, m_sreg := m_sreg s OR QSPIF_WEL_FLAG\<rparr>)
     else if c = 0x0b then Inr (s\<lparr>m_state := QSPIF_FAST_READ\<rparr>)
     else if c = 0x30 then Inr (s\<lparr>m_state := QSPIF_CLSR\<rparr>)
     else if c = 0x32 then Inr (guarded QSPIF_QPP s)
     else if c = 0x35 then Inr (QOREG (m_creg s) (s\<lparr>m_state := QSPIF_RDCR\<rparr>))
     else if c = 0x9f then Inr (QOREG 0xfe (s\<lparr>m_state := QSPIF_RDID\<rparr>))
     else if c = 0xab
     then Inr ((if m_sreg s AND QSPIF_DEEP_POWER_DOWN_FLAG \<noteq> 0
         then s\<lparr>m_sreg := m_sreg s AND NOT QSPIF_DEEP_POWER_DOWN_FLAG, m_write_count := tRES\<rparr> else s)\<lparr>m_state := QSPIF_RELEASE\<rparr>)
     else if c = 0xb9
     then Inr (if m_sreg s AND 0x01 \<noteq> 0 then s\<lparr>m_state := QSPIF_INVALID\<rparr>
         else s\<lparr>m_sreg := m_sreg s OR QSPIF_DEEP_POWER_DOWN_FLAG, m_state := QSPIF_IDLE\<rparr>)
     else if c = 0xc7 then Inr (guarded QSPIF_BULK_ERASE s)
     else if c = 0xd8 then Inr (guarded QSPIF_SECTOR_ERASE s)
     else if c = 0xeb then Inr (s\<lparr>m_state := QSPIF_QUAD_READ_CMD, m_quad_mode := True\<rparr>)
     else if 2 <s bomb_timeout s then Inl Assertion
     else Inr (s\<lparr>m_state := QSPIF_INVALID, bomb_timeout := bomb_timeout s + 1\<rparr>))"

section \<open>The bytes after the command\<close>

text \<open>\<open>QOREG(m_mem[m_addr++])\<close>\<close>

definition send_mem :: "flash \<Rightarrow> sim_stop + flash" where
  "send_mem s =
    (if m_addr s < MEMBYTES then Inr (QOREG (ucast (m_mem s (m_addr s))) (s\<lparr>m_addr := m_addr s + 1\<rparr>)) else Inl Mem_bounds)"

definition take_addr :: "flash \<Rightarrow> flash" where
  "take_addr s = s\<lparr>m_addr := m_ireg s AND MEMMASK\<rparr>"

definition page_byte :: "flash \<Rightarrow> flash" where
  "page_byte s = s\<lparr>m_pmem := (m_pmem s)(m_addr s AND 0x0ff := ucast (m_ireg s AND 0x0ff)),
    m_addr := (m_addr s AND NOT 0x0ff) OR ((m_addr s + 1) AND 0x0ff)\<rparr>"

definition clear_page :: "flash \<Rightarrow> flash" where
  "clear_page s = s\<lparr>m_pmem := (\<lambda>i. if i < 256 then 0xff else m_pmem s i)\<rparr>"

definition flash_data :: "flash \<Rightarrow> sim_stop + flash" where
  "flash_data s0 =
    (let s = QOREG 0 s0; n = m_count s in
     case m_state s of
       QSPIF_WRSR \<Rightarrow>
         if n = 16 then Inr (s\<lparr>m_sreg := (m_sreg s AND 0x061) OR (m_ireg s AND 0x09c)\<rparr>)
         else if n = 24 then Inr (s\<lparr>m_creg := (m_creg s AND 0x0fd) OR (m_ireg s AND 0x02)\<rparr>)
         else Inl Exit_2
     | QSPIF_CLSR \<Rightarrow> Inl Assertion
     | QSPIF_RDID \<Rightarrow>
         if n = 32 then Inr (QOREG (drop_bit 8 DEVID) (take_addr s))
         else if n > 32
         then Inr (QOREG (if drop_bit 3 (n - 32) AND 1 \<noteq> 0 then DEVID else drop_bit 8 DEVID) s)
         else Inr s
     | QSPIF_RDSR \<Rightarrow> Inr (QOREG (m_sreg s) s)
     | QSPIF_RDCR \<Rightarrow> Inr (QOREG (m_creg s) s)
     | QSPIF_FAST_READ \<Rightarrow>
         if n = 32 then Inr (QOREG 0x0c3 (take_addr s))
         else if n \<ge> 40 \<and> m_sreg s AND 0x01 = 0 then send_mem s
         else Inr (s\<lparr>m_oreg := 0\<rparr>)
     | QSPIF_QUAD_READ_CMD \<Rightarrow>
         if n = 32 then Inr (take_addr s)
         else if n = 32 + 24 then send_mem (s\<lparr>m_mode_byte := drop_bit 16 (m_ireg s) AND 0x0ff\<rparr>)
         else if n > 32 + 24 \<and> m_sreg s AND 0x01 = 0 then send_mem s
         else Inr (s\<lparr>m_oreg := 0\<rparr>)
     | QSPIF_QUAD_READ \<Rightarrow>
         if n = 32 then Inr (s\<lparr>m_mode_byte := m_ireg s AND 0x0ff\<rparr>)
         else if n \<ge> 32 + 16 \<and> m_sreg s AND 0x01 = 0 then send_mem s
         else Inr (s\<lparr>m_oreg := 0\<rparr>)
     | QSPIF_PP \<Rightarrow>
         if n = 32 then Inr (clear_page (take_addr s)) else if n \<ge> 40 then Inr (page_byte s) else Inr s
     | QSPIF_QPP \<Rightarrow>
         if n = 32 then Inr ((clear_page (take_addr s))\<lparr>m_quad_mode := True\<rparr>)
         else if n \<ge> 40 then Inr (page_byte s) else Inr s
     | QSPIF_SECTOR_ERASE \<Rightarrow> Inr (if n = 32 then s\<lparr>m_addr := m_ireg s AND 0x0ffc000\<rparr> else s)
     | QSPIF_RELEASE \<Rightarrow> Inr (if n \<ge> 32 then QOREG DEVESD s else s)
     | _ \<Rightarrow> Inr s)"

section \<open>One call\<close>

definition flash_out :: "flash \<Rightarrow> u32" where
  "flash_out s = (if m_quad_mode s then drop_bit 8 (m_oreg s) AND 0x0f else if m_oreg s AND 0x0100 \<noteq> 0 then 2 else 0)"

definition flash_shift :: "u32 \<Rightarrow> flash \<Rightarrow> flash" where
  "flash_shift dat s =
    (if m_quad_mode s
     then s\<lparr>m_ireg := push_bit 4 (m_ireg s) OR (dat AND 0x0f), m_count := m_count s + 4, m_oreg := push_bit 4 (m_oreg s)\<rparr>
     else s\<lparr>m_ireg := push_bit 1 (m_ireg s) OR (dat AND 1), m_count := m_count s + 1, m_oreg := push_bit 1 (m_oreg s)\<rparr>)"

definition flash_edge :: "flash \<Rightarrow> sim_stop + flash" where
  "flash_edge s =
    (if m_state s = QSPIF_QUAD_READ_IDLE
     then if \<not> m_quad_mode s then Inl Assertion
          else Inr ((if m_count s = 24 then s\<lparr>m_addr := m_ireg s AND MEMMASK, m_state := QSPIF_QUAD_READ\<rparr> else s)\<lparr>m_oreg := 0\<rparr>)
     else if m_count s = 8 then flash_command s
     else if 0 = m_count s AND 0x07 \<and> m_count s \<noteq> 0 then flash_data s
     else Inr s)"

definition flash_op :: "u32 \<Rightarrow> u32 \<Rightarrow> u32 \<Rightarrow> flash \<Rightarrow> sim_stop + u32 \<times> flash" where
  "flash_op csn sck dat s0 =
    (let s = flash_tick s0 in
     if csn \<noteq> 0 then Inr (dat, flash_deselect s)
     else if m_last_sck s = 0 \<or> sck = m_last_sck s
     then let s1 = s\<lparr>m_last_sck := sck\<rparr> in Inr (flash_out s1, s1)
     else andthen (flash_edge (flash_shift dat s)) (\<lambda>s1. let s2 = s1\<lparr>m_last_sck := sck\<rparr> in Inr (flash_out s2, s2)))"

section \<open>Write protection\<close>

definition writing :: "qspif_state \<Rightarrow> bool" where
  "writing st \<longleftrightarrow> st \<in> {QSPIF_PP, QSPIF_QPP, QSPIF_SECTOR_ERASE, QSPIF_BULK_ERASE}"

lemma writing_simps [simp]:
  "writing QSPIF_PP" "writing QSPIF_QPP" "writing QSPIF_SECTOR_ERASE" "writing QSPIF_BULK_ERASE"
  "\<not> writing QSPIF_IDLE" "\<not> writing QSPIF_NULL" "\<not> writing QSPIF_QUAD_READ_IDLE" "\<not> writing QSPIF_RDSR"
  "\<not> writing QSPIF_RDCR" "\<not> writing QSPIF_WRSR" "\<not> writing QSPIF_CLSR" "\<not> writing QSPIF_RDID"
  "\<not> writing QSPIF_RELEASE" "\<not> writing QSPIF_FAST_READ" "\<not> writing QSPIF_QUAD_READ_CMD"
  "\<not> writing QSPIF_QUAD_READ" "\<not> writing QSPIF_DEEP_POWER_DOWN" "\<not> writing QSPIF_INVALID"
  by (simp_all add: writing_def)

text \<open>The latch is set and the chip neither busy nor powered down.\<close>

definition wel :: "flash \<Rightarrow> bool" where
  "wel s \<longleftrightarrow> m_sreg s AND QSPIF_WEL_FLAG \<noteq> 0"

lemma and_203: "2 = x AND 0x203 \<Longrightarrow> x AND 2 \<noteq> (0 :: u32)"
proof -
  assume "2 = x AND 0x203"
  moreover have "x AND 2 = (x AND 0x203) AND 2"
    by (simp add: and.assoc)
  ultimately have "x AND 2 = 2 AND 2"
    by (simp only:)
  then show ?thesis
    by simp
qed

lemma flash_tick_keeps [simp]:
  "m_mem (flash_tick s) = m_mem s" "m_state (flash_tick s) = m_state s" "m_last_sck (flash_tick s) = m_last_sck s"
  by (simp_all add: flash_tick_def Let_def)

lemma QOREG_keeps [simp]:
  "m_mem (QOREG v s) = m_mem s" "m_state (QOREG v s) = m_state s" "m_sreg (QOREG v s) = m_sreg s"
  "m_ireg (QOREG v s) = m_ireg s" "m_count (QOREG v s) = m_count s" "m_addr (QOREG v s) = m_addr s"
  "bomb_timeout (QOREG v s) = bomb_timeout s" "m_creg (QOREG v s) = m_creg s" "m_pmem (QOREG v s) = m_pmem s"
  by (simp_all add: QOREG_def)

lemma flash_shift_keeps [simp]:
  "m_mem (flash_shift d s) = m_mem s" "m_state (flash_shift d s) = m_state s" "m_sreg (flash_shift d s) = m_sreg s"
  by (simp_all add: flash_shift_def)

lemma flash_deselect_mem: "\<not> writing (m_state s) \<Longrightarrow> m_mem (flash_deselect s) = m_mem s"
  by (cases "m_state s") (simp_all add: flash_deselect_def flash_finish_def flash_busy_def)

lemma flash_deselect_state: "\<not> writing (m_state (flash_deselect s))"
  by (cases "m_state s") (simp_all add: flash_deselect_def flash_finish_def flash_busy_def Let_def)

lemma flash_command_mem: "flash_command s = Inr s1 \<Longrightarrow> m_mem s1 = m_mem s"
  by (auto simp: flash_command_def Let_def guarded_def split: if_split_asm)

lemma flash_command_writing:
  "flash_command s = Inr s1 \<Longrightarrow> writing (m_state s1) \<Longrightarrow> 2 = m_sreg s AND 0x203 \<and> m_sreg s1 = m_sreg s"
  by (auto simp: flash_command_def Let_def guarded_def split: if_split_asm)

lemma send_mem_keeps: "send_mem s = Inr s1 \<Longrightarrow> m_mem s1 = m_mem s \<and> m_state s1 = m_state s"
  by (auto simp: send_mem_def split: if_split_asm)

lemma flash_data_keeps: "flash_data s = Inr s1 \<Longrightarrow> m_mem s1 = m_mem s \<and> m_state s1 = m_state s"
  by (cases "m_state s")
    (auto simp: flash_data_def Let_def take_addr_def clear_page_def page_byte_def split: if_split_asm dest!: send_mem_keeps)

lemma flash_edge_mem: "flash_edge s = Inr s1 \<Longrightarrow> m_mem s1 = m_mem s"
  by (auto simp: flash_edge_def split: if_split_asm dest: flash_command_mem flash_data_keeps)

lemma flash_edge_writing:
  "flash_edge s = Inr s1 \<Longrightarrow> writing (m_state s1) \<Longrightarrow> writing (m_state s) \<or> wel s1"
  using and_203
  by (auto simp: flash_edge_def wel_def split: if_split_asm dest: flash_data_keeps flash_command_writing)

lemma flash_op_mem:
  assumes "flash_op csn sck dat s = Inr (out, s1)" "\<not> writing (m_state s)"
  shows "m_mem s1 = m_mem s \<and> (writing (m_state s1) \<longrightarrow> wel s1)"
  using assms flash_deselect_mem [of "flash_tick s"] flash_deselect_state [of "flash_tick s"]
    flash_edge_mem [of "flash_shift dat (flash_tick s)"] flash_edge_writing [of "flash_shift dat (flash_tick s)"]
  by (auto simp: flash_op_def Let_def andthen_eq_Inr wel_def split: if_split_asm)

text \<open>Runs in which the write-enable latch is never set.\<close>

inductive protected_run :: "flash \<Rightarrow> flash \<Rightarrow> bool" where
  start: "\<not> wel s \<Longrightarrow> protected_run s s"
| call: "protected_run s s1 \<Longrightarrow> flash_op csn sck dat s1 = Inr (out, s2) \<Longrightarrow> \<not> wel s2 \<Longrightarrow> protected_run s s2"

lemma protected_run_mem:
  "protected_run s s1 \<Longrightarrow> \<not> writing (m_state s) \<Longrightarrow> m_mem s1 = m_mem s \<and> \<not> writing (m_state s1)"
proof (induction rule: protected_run.induct)
  case (call s s1 csn sck dat out s2)
  then show ?case
    using flash_op_mem [OF call.hyps(2)] by auto
qed simp

section \<open>Bytes on the wire\<close>

text \<open>One bit: the clock goes high, and low again; the answer is read at the end.\<close>

definition spi_bit :: "u32 \<Rightarrow> flash \<Rightarrow> sim_stop + u32 \<times> flash" where
  "spi_bit dat s = andthen (flash_op 0 1 dat s) (\<lambda>(_, s1). flash_op 0 0 dat s1)"

text \<open>Eight bits, the highest first; the bits that come back.\<close>

fun spi_bits :: "nat \<Rightarrow> u8 \<Rightarrow> flash \<Rightarrow> sim_stop + bool list \<times> flash" where
  "spi_bits 0 b s = Inr ([], s)"
| "spi_bits (Suc n) b s =
    andthen (spi_bit (of_bool (bit b n)) s) (\<lambda>(v, s1).
    andthen (spi_bits n b s1) (\<lambda>(vs, s2). Inr ((v AND 2 \<noteq> 0) # vs, s2)))"

text \<open>The chip is ready for a bit in single mode, at count \<open>n\<close>.\<close>

definition wired :: "u32 \<Rightarrow> flash \<Rightarrow> bool" where
  "wired n s \<longleftrightarrow> \<not> m_quad_mode s \<and> m_write_count s = 0 \<and> m_count s = n \<and> m_state s \<noteq> QSPIF_QUAD_READ_IDLE \<and>
    (m_last_sck s = 0 \<or> m_last_sck s = 1)"

definition shifted :: "u32 \<Rightarrow> flash \<Rightarrow> flash" where
  "shifted d s = s\<lparr>m_last_sck := 1, m_ireg := push_bit 1 (m_ireg s) OR d, m_count := m_count s + 1, m_oreg := push_bit 1 (m_oreg s)\<rparr>"

lemma spi_bit_edge:
  assumes "wired n s"
  shows "spi_bit (of_bool d) s =
    andthen (flash_edge (shifted (of_bool d) s)) (\<lambda>s1. Inr (flash_out s1, s1\<lparr>m_last_sck := 0\<rparr>))"
proof -
  have tick: "flash_tick t = t" if "m_write_count t = 0" for t
    using that by (simp add: flash_tick_def)
  have out: "flash_out (s1\<lparr>m_last_sck := v\<rparr>) = flash_out s1" for s1 v
    by (simp add: flash_out_def)
  show ?thesis
    using assms by (cases d) (auto simp: spi_bit_def flash_op_def wired_def tick Let_def flash_shift_def shifted_def out)
qed

lemma count_in_byte:
  assumes "n AND 7 = 0" "0 < k" "k < 8"
  shows "(n + word_of_nat k) AND 7 = (word_of_nat k :: u32)"
proof -
  have seven: "(7 :: u32) = mask 3"
    by (simp add: mask_eq_exp_minus_1)
  have n: "unat n mod 8 = 0"
    using assms(1) unat_and_mask_eq_mod [of n 3] by (simp add: seven)
  have k: "unat (word_of_nat k :: u32) = k"
    using assms(3) by (simp add: unat_of_nat_u32)
  have "unat ((n + word_of_nat k) AND 7) = (unat n + k) mod 8"
    unfolding seven by (subst unat_plus_and_mask) (simp_all add: k)
  also have "\<dots> = k"
    using n assms(3) by (simp add: mod_add_left_eq [symmetric])
  finally show ?thesis
    using k by (simp add: word_unat_eq_iff)
qed

lemma spi_bit_inside:
  assumes "wired (n + word_of_nat k) s" "n AND 7 = 0" "k < 7"
  shows "spi_bit (of_bool d) s = Inr (flash_out (shifted (of_bool d) s), (shifted (of_bool d) s)\<lparr>m_last_sck := 0\<rparr>)"
proof -
  let ?c = "n + word_of_nat k + 1"
  have "?c = n + word_of_nat (Suc k)"
    by simp
  then have c: "?c AND 7 = word_of_nat (Suc k)"
    using count_in_byte [OF assms(2), of "Suc k"] assms(3) by (simp only:)
  have "unat (?c AND 7) = Suc k"
    unfolding c using assms(3) by (intro unat_of_nat_u32) simp
  then have "?c \<noteq> 8" "0 \<noteq> ?c AND 7"
    by auto
  then have "flash_edge (shifted (of_bool d) s) = Inr (shifted (of_bool d) s)"
    using assms(1) by (simp add: flash_edge_def shifted_def wired_def)
  then show ?thesis
    unfolding spi_bit_edge [OF assms(1)] by simp
qed

definition byte_in :: "nat \<Rightarrow> u8 \<Rightarrow> flash \<Rightarrow> flash" where
  "byte_in n b s = s\<lparr>m_last_sck := 1, m_ireg := push_bit n (m_ireg s) OR (ucast b AND mask n),
    m_count := m_count s + of_nat n, m_oreg := push_bit n (m_oreg s)\<rparr>"

definition bits_from :: "u32 \<Rightarrow> nat \<Rightarrow> bool list" where
  "bits_from w m = map (\<lambda>i. bit w (7 - i)) [0..<m]"

lemma bits_from_Suc: "m < 8 \<Longrightarrow> bits_from w (Suc m) = bit w 7 # bits_from (push_bit 1 w) m"
proof (rule nth_equalityI)
  fix i
  assume m: "m < 8" and "i < length (bits_from w (Suc m))"
  then have i: "i \<le> m"
    by (simp add: bits_from_def)
  show "bits_from w (Suc m) ! i = (bit w 7 # bits_from (push_bit 1 w) m) ! i"
  proof (cases i)
    case 0
    then show ?thesis
      by (simp add: bits_from_def del: upt_Suc)
  next
    case (Suc j)
    have "bit (push_bit 1 w) (7 - j) = bit w (7 - Suc j)"
      using Suc i m by (simp only: bit_push_bit_iff) (auto simp: possible_bit_def)
    then show ?thesis
      using Suc i by (simp only: bits_from_def nth_Cons_Suc) (simp del: upt_Suc)
  qed
qed (simp add: bits_from_def)

lemma last_bit: "ucast b AND mask 1 = (of_bool (bit b 0) :: u32)"
  by (rule bit_word_eqI) (auto simp: bit_simps)

lemma next_bit:
  "m < 8 \<Longrightarrow> push_bit m (push_bit 1 i OR of_bool (bit b m)) OR (ucast b AND mask m) = push_bit (Suc m) i OR (ucast b AND mask (Suc m) :: u32)"
  for b :: u8
  by (rule bit_word_eqI) (auto simp: bit_simps less_Suc_eq)

lemma shifted_out: "\<not> m_quad_mode s \<Longrightarrow> flash_out (shifted d s) AND 2 \<noteq> 0 \<longleftrightarrow> bit (m_oreg s) 7"
proof -
  assume "\<not> m_quad_mode s"
  have "(0x100 :: u32) = 2 ^ 8"
    by simp
  then have "push_bit 1 (m_oreg s) AND 0x100 \<noteq> 0 \<longleftrightarrow> bit (m_oreg s) 7"
    by (simp only: and_exp_eq_0_iff_not_bit bit_push_bit_iff) (simp add: possible_bit_def)
  with \<open>\<not> m_quad_mode s\<close> show ?thesis
    by (simp add: flash_out_def shifted_def)
qed

lemma spi_bits_byte:
  "wired (n + word_of_nat (7 - m)) s \<Longrightarrow> n AND 7 = 0 \<Longrightarrow> m < 8 \<Longrightarrow>
    spi_bits (Suc m) b s = andthen (flash_edge (byte_in (Suc m) b s))
      (\<lambda>s1. Inr (bits_from (m_oreg s) m @ [flash_out s1 AND 2 \<noteq> 0], s1\<lparr>m_last_sck := 0\<rparr>))"
proof (induction m arbitrary: s)
  case 0
  have "byte_in (Suc 0) b s = shifted (of_bool (bit b 0)) s"
    using last_bit [of b] by (simp add: byte_in_def shifted_def)
  then show ?case
    unfolding spi_bits.simps spi_bit_edge [OF 0(1)] by (cases "flash_edge (shifted (of_bool (bit b 0)) s)") (simp_all add: bits_from_def)
next
  case (Suc m)
  let ?d = "of_bool (bit b (Suc m)) :: u32"
  let ?t = "(shifted ?d s)\<lparr>m_last_sck := 0\<rparr>"
  have k: "7 - Suc m < 7" "7 - m = Suc (7 - Suc m)"
    using Suc.prems(3) by simp_all
  have bit: "spi_bit ?d s = Inr (flash_out (shifted ?d s), ?t)"
    by (rule spi_bit_inside [OF Suc.prems(1,2) k(1)])
  have "wired (n + word_of_nat (7 - m)) ?t"
    using Suc.prems(1) unfolding k(2) by (simp add: wired_def shifted_def)
  note ih = Suc.IH [OF this Suc.prems(2)]
  have "byte_in (Suc m) b ?t = byte_in (Suc (Suc m)) b s"
    using Suc.prems(3) next_bit [of "Suc m" "m_ireg s" b]
    by (simp add: byte_in_def shifted_def)
  then show ?case
    using ih Suc.prems(1,3) bits_from_Suc [of m "m_oreg s"] shifted_out [of s ?d]
    unfolding spi_bits.simps(2) [of "Suc m"] bit
    by (cases "flash_edge (byte_in (Suc (Suc m)) b s)") (simp_all add: wired_def shifted_def)
qed

fun spi_send :: "u8 list \<Rightarrow> flash \<Rightarrow> sim_stop + bool list list \<times> flash" where
  "spi_send [] s = Inr ([], s)"
| "spi_send (b # bs) s = andthen (spi_bits 8 b s) (\<lambda>(v, s1). andthen (spi_send bs s1) (\<lambda>(vs, s2). Inr (v # vs, s2)))"

definition bits_of :: "u8 \<Rightarrow> bool list" where
  "bits_of b = map (\<lambda>i. bit b (7 - i)) [0..<8]"

lemma spi_send_byte:
  assumes "wired n s" "n AND 7 = 0" "flash_edge (byte_in 8 b s) = Inr s1"
  shows "spi_send (b # bs) s = andthen (spi_send bs (s1\<lparr>m_last_sck := 0\<rparr>))
    (\<lambda>(vs, s2). Inr ((bits_from (m_oreg s) 7 @ [flash_out s1 AND 2 \<noteq> 0]) # vs, s2))"
proof -
  have "spi_bits (Suc 7) b s = Inr (bits_from (m_oreg s) 7 @ [flash_out s1 AND 2 \<noteq> 0], s1\<lparr>m_last_sck := 0\<rparr>)"
    using assms spi_bits_byte [of n 7 s b] by simp
  then show ?thesis
    by (simp add: eval_nat_numeral del: spi_bits.simps)
qed

lemma byte_in_simps [simp]:
  "m_state (byte_in n b s) = m_state s" "m_count (byte_in n b s) = m_count s + of_nat n"
  "m_sreg (byte_in n b s) = m_sreg s" "m_addr (byte_in n b s) = m_addr s" "m_mem (byte_in n b s) = m_mem s"
  "m_quad_mode (byte_in n b s) = m_quad_mode s" "m_write_count (byte_in n b s) = m_write_count s"
  "m_ireg (byte_in n b s) = push_bit n (m_ireg s) OR (ucast b AND mask n)" "m_oreg (byte_in n b s) = push_bit n (m_oreg s)"
  "m_last_sck (byte_in n b s) = 1" "m_pmem (byte_in n b s) = m_pmem s"
  by (simp_all add: byte_in_def)

lemma ucast_mask_8 [simp]: "(ucast (b :: u8) AND mask 8 :: u32) = ucast b"
  by (rule bit_word_eqI) (auto simp: bit_simps dest: bit_imp_le_length)

lemma low_bits:
  assumes "w AND 0xff = (ucast (b :: u8) :: u32)"
  shows "bits_from w 7 @ [bit w 0] = bits_of b"
proof -
  have mask: "(0xff :: u32) = mask 8"
    by (simp add: mask_eq_exp_minus_1)
  have "bit w i \<longleftrightarrow> bit b i" if "i < 8" for i
  proof -
    have "bit (w AND mask 8) i \<longleftrightarrow> bit (ucast b :: u32) i"
      using assms unfolding mask by simp
    then show ?thesis
      using that by (simp add: bit_simps)
  qed
  then show ?thesis
    by (simp add: bits_from_def bits_of_def upt_rec)
qed

lemma QOREG_out:
  assumes "\<not> m_quad_mode s" "m_oreg s = push_bit 8 w"
  shows "flash_out (QOREG v s) AND 2 \<noteq> 0 \<longleftrightarrow> bit w 0"
proof -
  have p: "(0x100 :: u32) = 2 ^ 8" and m: "(0xff :: u32) = mask 8"
    by (simp_all add: mask_eq_exp_minus_1)
  have "((push_bit 8 w AND NOT 0xff) OR (v AND 0xff)) AND 0x100 \<noteq> 0 \<longleftrightarrow> bit w 0"
    unfolding p m and_exp_eq_0_iff_not_bit by (simp add: bit_simps)
  then show ?thesis
    using assms by (simp add: flash_out_def QOREG_def)
qed

lemma QOREG_low: "m_oreg (QOREG (ucast (b :: u8)) s) AND 0xff = ucast b"
proof -
  have m: "(0xff :: u32) = mask 8"
    by (simp add: mask_eq_exp_minus_1)
  show ?thesis
    unfolding QOREG_def m by (rule bit_word_eqI) (auto simp: bit_simps dest: bit_imp_le_length)
qed

text \<open>Selected, in single mode, before the first bit.\<close>

definition selected :: "flash \<Rightarrow> bool" where
  "selected s \<longleftrightarrow> wired 0 s \<and> m_ireg s = 0 \<and> m_sreg s AND 1 = 0"

lemma flash_deselect_selected:
  assumes "m_state s = QSPIF_IDLE" "\<not> m_quad_mode s" "m_write_count s = 0" "m_sreg s AND 1 = 0"
  shows "selected (flash_deselect s)"
  using assms by (simp add: selected_def wired_def flash_deselect_def flash_finish_def)

text \<open>The state while data is read: the next byte is at \<open>a\<close>, the one before it is in the output register.\<close>

definition reading :: "u32 \<Rightarrow> u32 \<Rightarrow> u8 \<Rightarrow> flash \<Rightarrow> bool" where
  "reading n a b s \<longleftrightarrow> wired n s \<and> m_state s = QSPIF_FAST_READ \<and> m_sreg s AND 1 = 0 \<and> m_addr s = a \<and> m_oreg s AND 0xff = ucast b"

lemma and_7_step: "n AND 7 = 0 \<Longrightarrow> (n + 8) AND 7 = (0 :: u32)"
proof -
  assume "n AND 7 = 0"
  have seven: "(7 :: u32) = mask 3"
    by (simp add: mask_eq_exp_minus_1)
  have "unat n mod 8 = 0"
    using \<open>n AND 7 = 0\<close> unat_and_mask_eq_mod [of n 3] by (simp add: seven)
  moreover have "unat ((n + 8) AND 7) = (unat n + 8) mod 8"
    unfolding seven by (subst unat_plus_and_mask) simp_all
  ultimately show ?thesis
    by (simp add: word_unat_eq_iff)
qed

lemma reading_step:
  assumes "reading n a b s" "n AND 7 = 0" "40 \<le> unat n" "unat n + 8 < 2 ^ 32" "a < MEMBYTES"
  shows "\<exists>s1. spi_send (x # xs) s = andthen (spi_send xs s1) (\<lambda>(vs, s2). Inr (bits_of b # vs, s2)) \<and>
    reading (n + 8) (a + 1) (m_mem s a) s1 \<and> m_mem s1 = m_mem s"
proof -
  have w: "wired n s" and st: "m_state s = QSPIF_FAST_READ" "m_sreg s AND 1 = 0" "m_addr s = a" "m_oreg s AND 0xff = ucast b"
    using assms(1) by (simp_all add: reading_def)
  have c: "unat (n + 8) = unat n + 8"
    using assms(4) by (simp add: unat_plus_if')
  have n: "n + 8 \<noteq> 8" "n + 8 \<noteq> 0" "n + 8 \<noteq> 32" "40 \<le> n + 8" "(n + 8) AND 7 = 0"
    using assms(3) c and_7_step [OF assms(2)] by (auto simp: word_unat_eq_iff word_le_nat_alt)
  define t where "t = QOREG 0 (byte_in 8 x s)"
  define s1 where "s1 = QOREG (ucast (m_mem s a)) (t\<lparr>m_addr := a + 1\<rparr>)"
  have edge: "flash_edge (byte_in 8 x s) = Inr s1"
    using w st n assms(5)
    by (simp add: flash_edge_def wired_def flash_data_def send_mem_def s1_def t_def Let_def)
  have out: "flash_out s1 AND 2 \<noteq> 0 \<longleftrightarrow> bit (m_oreg s) 0"
    unfolding s1_def
  proof (rule QOREG_out)
    have m: "(0xff :: u32) = mask 8"
      by (simp add: mask_eq_exp_minus_1)
    show "m_oreg (t\<lparr>m_addr := a + 1\<rparr>) = push_bit 8 (m_oreg s)"
      unfolding t_def QOREG_def m by (simp, rule bit_word_eqI) (auto simp: bit_simps)
  qed (use w in \<open>simp add: t_def QOREG_def wired_def\<close>)
  have "spi_send (x # xs) s = andthen (spi_send xs (s1\<lparr>m_last_sck := 0\<rparr>)) (\<lambda>(vs, s2). Inr (bits_of b # vs, s2))"
    unfolding spi_send_byte [OF w assms(2) edge] using out low_bits [OF st(4)] by simp
  moreover have "reading (n + 8) (a + 1) (m_mem s a) (s1\<lparr>m_last_sck := 0\<rparr>)"
    using w st QOREG_low [of "m_mem s a" "t\<lparr>m_addr := a + 1\<rparr>"]
    by (simp add: reading_def wired_def s1_def) (simp add: t_def QOREG_def)
  ultimately show ?thesis
    by (intro exI [of _ "s1\<lparr>m_last_sck := 0\<rparr>"]) (simp add: s1_def t_def)
qed

lemma reading_bytes:
  "reading n a b s \<Longrightarrow> n AND 7 = 0 \<Longrightarrow> 40 \<le> unat n \<Longrightarrow> unat n + 8 * length xs < 2 ^ 32 \<Longrightarrow> unat a + length xs \<le> 2 ^ 24 \<Longrightarrow>
    \<exists>s1. spi_send xs s = Inr (map bits_of (take (length xs) (b # map (\<lambda>i. m_mem s (a + of_nat i)) [0..<length xs])), s1)"
proof (induction xs arbitrary: n a b s)
  case (Cons x xs)
  have small: "unat n + 8 < 2 ^ 32" "a < MEMBYTES"
    using Cons.prems(4,5) by (simp_all add: word_less_nat_alt)
  from reading_step [OF Cons.prems(1-3) this, of x xs] obtain s1 where
    s1: "spi_send (x # xs) s = andthen (spi_send xs s1) (\<lambda>(vs, s2). Inr (bits_of b # vs, s2))"
      "reading (n + 8) (a + 1) (m_mem s a) s1" "m_mem s1 = m_mem s"
    by blast
  have "unat (n + 8) = unat n + 8" "unat (a + 1) = unat a + 1"
    using small by (simp_all add: unat_plus_if' word_less_nat_alt)
  with Cons.IH [OF s1(2) and_7_step [OF Cons.prems(2)]] Cons.prems(3-5) obtain s2 where
    "spi_send xs s1 = Inr (map bits_of (take (length xs) (m_mem s a # map (\<lambda>i. m_mem s (a + 1 + of_nat i)) [0..<length xs])), s2)"
    unfolding s1(3) by auto
  moreover have "m_mem s a # map (\<lambda>i. m_mem s (a + 1 + of_nat i)) [0..<length xs] = map (\<lambda>i. m_mem s (a + of_nat i)) [0..<Suc (length xs)]"
    unfolding upt_conv_Cons [OF zero_less_Suc] by (simp add: map_Suc_upt [symmetric] add.assoc del: upt_Suc)
  ultimately show ?case
    using s1(1) by (simp del: upt_Suc)
qed simp

lemma fast_read_address:
  assumes "wired n s" "m_state s = QSPIF_FAST_READ" "m_sreg s AND 1 = 0" "n = 8 \<or> n = 16"
  shows "\<exists>s1. spi_send (b # bs) s = andthen (spi_send bs s1) (\<lambda>(vs, s2). Inr ((bits_from (m_oreg s) 7 @ [False]) # vs, s2)) \<and>
    wired (n + 8) s1 \<and> m_state s1 = QSPIF_FAST_READ \<and> m_sreg s1 AND 1 = 0 \<and> m_mem s1 = m_mem s \<and>
    m_ireg s1 = push_bit 8 (m_ireg s) OR ucast b"
proof -
  let ?t = "(QOREG 0 (byte_in 8 b s))\<lparr>m_oreg := 0\<rparr>"
  have "flash_edge (byte_in 8 b s) = Inr ?t"
    using assms by (auto simp: flash_edge_def wired_def flash_data_def Let_def)
  from spi_send_byte [OF assms(1) _ this] assms show ?thesis
    by (intro exI [of _ "?t\<lparr>m_last_sck := 0\<rparr>"]) (auto simp: wired_def flash_out_def QOREG_def)
qed

definition address :: "u8 \<Rightarrow> u8 \<Rightarrow> u8 \<Rightarrow> u32" where
  "address a2 a1 a0 = push_bit 16 (ucast a2) OR push_bit 8 (ucast a1) OR ucast a0"

lemma address_masked:
  "(push_bit 8 (push_bit 8 (push_bit 8 c OR ucast a2) OR ucast a1) OR ucast a0) AND MEMMASK = address a2 a1 a0"
proof -
  have m: "MEMMASK = mask 24"
    by (simp add: mask_eq_exp_minus_1)
  show ?thesis
    unfolding m address_def by (rule bit_word_eqI) (auto simp: bit_simps dest: bit_imp_le_length)
qed

lemma address_less: "unat (address a2 a1 a0) < 2 ^ 24"
proof -
  have m: "MEMMASK = mask 24"
    by (simp add: mask_eq_exp_minus_1)
  have "unat (address a2 a1 a0) = unat (push_bit 8 (push_bit 8 (push_bit 8 0 OR ucast a2) OR ucast a1) OR ucast a0 :: u32) mod 2 ^ 24"
    unfolding address_masked [of 0, symmetric] m unat_and_mask_eq_mod ..
  then show ?thesis
    by simp
qed

lemma fast_read_command:
  assumes "selected s"
  shows "\<exists>v s1. spi_send (0x0b # bs) s = andthen (spi_send bs s1) (\<lambda>(vs, s2). Inr (v # vs, s2)) \<and>
    wired 8 s1 \<and> m_state s1 = QSPIF_FAST_READ \<and> m_sreg s1 AND 1 = 0 \<and> m_mem s1 = m_mem s \<and> m_ireg s1 = 0x0b"
proof -
  let ?t = "(QOREG 0x0a5 (byte_in 8 0x0b s))\<lparr>m_state := QSPIF_FAST_READ\<rparr>"
  have w: "wired 0 s"
    using assms by (simp add: selected_def)
  have "flash_edge (byte_in 8 0x0b s) = Inr ?t"
    using assms by (simp add: flash_edge_def selected_def wired_def flash_command_def Let_def mask_eq_exp_minus_1)
  from spi_send_byte [OF w _ this, of bs] assms show ?thesis
    by (intro exI [of _ "bits_from (m_oreg s) 7 @ [flash_out ?t AND 2 \<noteq> 0]"] exI [of _ "?t\<lparr>m_last_sck := 0\<rparr>"])
      (auto simp: wired_def selected_def QOREG_def mask_eq_exp_minus_1)
qed

lemma fast_read_address_end:
  assumes "wired 24 s" "m_state s = QSPIF_FAST_READ" "m_sreg s AND 1 = 0"
  shows "\<exists>v s1. spi_send (b # bs) s = andthen (spi_send bs s1) (\<lambda>(vs, s2). Inr (v # vs, s2)) \<and>
    wired 32 s1 \<and> m_state s1 = QSPIF_FAST_READ \<and> m_sreg s1 AND 1 = 0 \<and> m_mem s1 = m_mem s \<and>
    m_addr s1 = (push_bit 8 (m_ireg s) OR ucast b) AND MEMMASK"
proof -
  let ?t = "QOREG 0x0c3 (take_addr (QOREG 0 (byte_in 8 b s)))"
  have "flash_edge (byte_in 8 b s) = Inr ?t"
    using assms by (auto simp: flash_edge_def wired_def flash_data_def Let_def)
  from spi_send_byte [OF assms(1) _ this, of bs] assms show ?thesis
    by (intro exI [of _ "bits_from (m_oreg s) 7 @ [flash_out ?t AND 2 \<noteq> 0]"] exI [of _ "?t\<lparr>m_last_sck := 0\<rparr>"])
      (auto simp: wired_def QOREG_def take_addr_def)
qed

lemma fast_read_dummy:
  assumes "wired 32 s" "m_state s = QSPIF_FAST_READ" "m_sreg s AND 1 = 0" "m_addr s = a" "a < MEMBYTES"
  shows "\<exists>v s1. spi_send (b # bs) s = andthen (spi_send bs s1) (\<lambda>(vs, s2). Inr (v # vs, s2)) \<and>
    reading 40 (a + 1) (m_mem s a) s1 \<and> m_mem s1 = m_mem s"
proof -
  define t where "t = (QOREG 0 (byte_in 8 b s))\<lparr>m_addr := a + 1\<rparr>"
  let ?s1 = "QOREG (ucast (m_mem s a)) t"
  have edge: "flash_edge (byte_in 8 b s) = Inr ?s1"
    using assms by (auto simp: flash_edge_def wired_def flash_data_def send_mem_def t_def Let_def word_le_nat_alt)
  have "reading 40 (a + 1) (m_mem s a) (?s1\<lparr>m_last_sck := 0\<rparr>)"
    using assms QOREG_low [of "m_mem s a" t] by (simp add: reading_def wired_def) (simp add: t_def QOREG_def)
  with spi_send_byte [OF assms(1) _ edge, of bs] show ?thesis
    by (intro exI [of _ "bits_from (m_oreg s) 7 @ [flash_out ?s1 AND 2 \<noteq> 0]"] exI [of _ "?s1\<lparr>m_last_sck := 0\<rparr>"])
      (auto simp: t_def)
qed

text \<open>All of a fast read.\<close>

lemma fast_read_bytes:
  assumes "selected s" "unat (address a2 a1 a0) + length xs < 2 ^ 24"
  shows "\<exists>outs s1. spi_send (0x0b # a2 # a1 # a0 # d # xs) s = Inr (outs, s1) \<and>
    drop 5 outs = map (\<lambda>i. bits_of (m_mem s (address a2 a1 a0 + of_nat i))) [0..<length xs]"
proof -
  let ?a = "address a2 a1 a0"
  obtain v1 s1 where s1: "spi_send (0x0b # a2 # a1 # a0 # d # xs) s = andthen (spi_send (a2 # a1 # a0 # d # xs) s1) (\<lambda>(vs, s2). Inr (v1 # vs, s2))"
    "wired 8 s1" "m_state s1 = QSPIF_FAST_READ" "m_sreg s1 AND 1 = 0" "m_mem s1 = m_mem s" "m_ireg s1 = 0x0b"
    using fast_read_command [OF assms(1)] by blast
  obtain v2 s2 where s2: "spi_send (a2 # a1 # a0 # d # xs) s1 = andthen (spi_send (a1 # a0 # d # xs) s2) (\<lambda>(vs, s2). Inr (v2 # vs, s2))"
    "wired 16 s2" "m_state s2 = QSPIF_FAST_READ" "m_sreg s2 AND 1 = 0" "m_mem s2 = m_mem s" "m_ireg s2 = push_bit 8 0x0b OR ucast a2"
    using fast_read_address [OF s1(2-4), of a2 "a1 # a0 # d # xs"] s1(5,6) by auto
  obtain v3 s3 where s3: "spi_send (a1 # a0 # d # xs) s2 = andthen (spi_send (a0 # d # xs) s3) (\<lambda>(vs, s2). Inr (v3 # vs, s2))"
    "wired 24 s3" "m_state s3 = QSPIF_FAST_READ" "m_sreg s3 AND 1 = 0" "m_mem s3 = m_mem s"
    "m_ireg s3 = push_bit 8 (push_bit 8 0x0b OR ucast a2) OR ucast a1"
    using fast_read_address [OF s2(2-4), of a1 "a0 # d # xs"] s2(5,6) by auto
  obtain v4 s4 where s4: "spi_send (a0 # d # xs) s3 = andthen (spi_send (d # xs) s4) (\<lambda>(vs, s2). Inr (v4 # vs, s2))"
    "wired 32 s4" "m_state s4 = QSPIF_FAST_READ" "m_sreg s4 AND 1 = 0" "m_mem s4 = m_mem s"
    "m_addr s4 = ?a"
    using fast_read_address_end [OF s3(2-4), of a0 "d # xs"] s3(5) unfolding s3(6) address_masked by auto
  have small: "?a < MEMBYTES" "unat (?a + 1) + length xs \<le> 2 ^ 24"
    using address_less [of a2 a1 a0] assms(2) by (simp_all add: word_less_nat_alt unat_plus_if')
  obtain v5 s5 where s5: "spi_send (d # xs) s4 = andthen (spi_send xs s5) (\<lambda>(vs, s2). Inr (v5 # vs, s2))"
    "reading 40 (?a + 1) (m_mem s ?a) s5" "m_mem s5 = m_mem s"
    using fast_read_dummy [OF s4(2-4,6) small(1), of d xs] s4(5) by auto
  let ?out = "m_mem s ?a # map (\<lambda>i. m_mem s (?a + 1 + of_nat i)) [0..<length xs]"
  obtain s6 where s6: "spi_send xs s5 = Inr (map bits_of (take (length xs) ?out), s6)"
    using reading_bytes [OF s5(2) _ _ _ small(2)] assms(2) s5(3) by auto
  have "?out = map (\<lambda>i. m_mem s (?a + of_nat i)) [0..<Suc (length xs)]"
    unfolding upt_conv_Cons [OF zero_less_Suc] by (simp add: map_Suc_upt [symmetric] add.assoc del: upt_Suc)
  then have "map bits_of (take (length xs) ?out) = map (\<lambda>i. bits_of (m_mem s (?a + of_nat i))) [0..<length xs]"
    by (simp add: take_map)
  then show ?thesis
    using s1(1) s2(1) s3(1) s4(1) s5(1) s6 by simp
qed

section \<open>Properties\<close>

text \<open>
  C20. Write protection: as long as the write-enable latch is not set, no sequence of calls whatever changes a byte
  of the memory, if the chip was not in the middle of a program or erase command.
\<close>

theorem flash_write_protected:
  assumes "protected_run s s1" "\<not> writing (m_state s)"
  shows "m_mem s1 = m_mem s"
  using protected_run_mem [OF assms] by blast

text \<open>
  Fast read: the command, three address bytes and a dummy byte, clocked in bit by bit, and then any number of bytes
  give back the memory from that address on, each byte with its highest bit first.
\<close>

theorem flash_fast_read:
  assumes "selected s" "unat (address a2 a1 a0) + length xs < 2 ^ 24"
  shows "\<exists>outs s1. spi_send (0x0b # a2 # a1 # a0 # d # xs) s = Inr (outs, s1) \<and>
    drop 5 outs = map (\<lambda>i. bits_of (m_mem s (address a2 a1 a0 + of_nat i))) [0..<length xs]"
  using assms by (rule fast_read_bytes)

section \<open>Witnesses\<close>

definition demo_flash :: flash where
  "demo_flash = flash_deselect (flash_init \<lparr>m_state = QSPIF_NULL, m_mem = (\<lambda>_. 0), m_pmem = (\<lambda>_. 0), m_last_sck = 0, m_write_count = 0,
    m_ireg = 0, m_oreg = 0, m_sreg = 0, m_addr = 0, m_count = 0, m_mode_byte = 0, m_creg = 0, m_quad_mode = False, bomb_timeout = 0\<rparr>)"

lemma demo_flash_fields: "selected demo_flash" "m_mem demo_flash a = 0xff" "m_state demo_flash = QSPIF_IDLE" "\<not> wel demo_flash"
  unfolding demo_flash_def
  by (rule flash_deselect_selected)
    (simp_all add: flash_init_def flash_deselect_def flash_finish_def wel_def)

theorem flash_write_protected_witness:
  "\<exists>out s1. flash_op 0 0 1 demo_flash = Inr (out, s1) \<and> m_mem s1 = m_mem demo_flash"
proof -
  have "\<exists>out s1. flash_op 0 0 1 demo_flash = Inr (out, s1) \<and> \<not> wel s1"
    by (simp add: flash_op_def demo_flash_def flash_init_def flash_deselect_def flash_finish_def flash_tick_def flash_edge_def
        flash_shift_def wel_def Let_def)
  then obtain out s1 where run: "flash_op 0 0 1 demo_flash = Inr (out, s1)" "\<not> wel s1"
    by blast
  have "protected_run demo_flash s1"
    by (rule protected_run.call [OF protected_run.start run]) (rule demo_flash_fields)
  from flash_write_protected [OF this] run show ?thesis
    by (auto simp: demo_flash_fields)
qed

theorem flash_fast_read_witness:
  "\<exists>outs s1. spi_send [0x0b, 0x01, 0x02, 0x03, 0, 0, 0] demo_flash = Inr (outs, s1) \<and> drop 5 outs = [[True, True, True, True, True, True, True, True], [True, True, True, True, True, True, True, True]]"
proof -
  have "unat (address 1 2 3) + length [0, 0 :: u8] < 2 ^ 24"
    by (simp add: address_def)
  from flash_fast_read [OF demo_flash_fields(1) this, of 0] show ?thesis
    by (simp add: demo_flash_fields bits_of_def upt_rec del: spi_send.simps)
qed

end
