(* ===== verification/Clib.thy ===== *)
theory Clib
  imports Drivers Rtc
begin

text \<open>
  What the C library of the stand-alone programs rests on: the system calls of sw/zlib/syscalls.c in the
  configuration of s6board.h (the simple UART; no real-time clock), the date computation that this file has for a board
  with a clock, the two boot loaders (sw/zlib/crt0.c and sw/zipos/bootloader.c), and \<open>memset\<close> of sw/zipos/ziplib.c.
\<close>

section \<open>Characters\<close>

definition outbyte :: "env \<Rightarrow> u8 \<Rightarrow> hist \<Rightarrow> hist option" where
  "outbyte env v h =
    do {
      h1 \<leftarrow> (if v = 10
        then do { h1 \<leftarrow> pic_wait env INT_UARTTX (wr IO_PIC INT_UARTTX h); Some (wr IO_UART 13 h1) }
        else Some h);
      h2 \<leftarrow> pic_wait env INT_UARTTX (wr IO_PIC INT_UARTTX h1);
      Some (wr IO_UART (ucast v) h2)
    }"

text \<open>The translation of a received word, and the static variable \<open>last_was_cr\<close> after it.\<close>

definition inbyte_rv :: "bool \<Rightarrow> u32 \<Rightarrow> u32 \<times> bool" where
  "inbyte_rv last_was_cr rv =
    (if rv AND 0x0100 \<noteq> 0 then (- 1, last_was_cr)
     else if rv = 13 then (10, True)
     else if rv = 10 then (if last_was_cr then (- 1, False) else (rv, last_was_cr))
     else (rv, False))"

definition inbyte :: "env \<Rightarrow> bool \<times> hist \<Rightarrow> (u32 \<times> bool \<times> hist) option" where
  "inbyte env = (\<lambda>(last_was_cr, h).
    let (v, h1) = rd env IO_UART h; (rv, cr) = inbyte_rv last_was_cr v
    in if rv \<noteq> - 1 then map_option (\<lambda>h2. (rv, cr, h2)) (outbyte env (ucast rv) h1) else Some (rv, cr, h1))"

section \<open>System calls\<close>

text \<open>Error numbers by name; the numbers are those of the C library's header.\<close>

datatype errno = E_BADF | E_NOSYS | E_IO | E_ACCES | E_CHILD

record reent =
  r_errno :: "errno option"

definition fails :: "errno \<Rightarrow> reent \<Rightarrow> u32 \<times> reent" where
  "fails e r = (- 1, r\<lparr>r_errno := Some e\<rparr>)"

abbreviation (input) STDIN_FILENO :: u32 where "STDIN_FILENO \<equiv> 0"
abbreviation (input) STDOUT_FILENO :: u32 where "STDOUT_FILENO \<equiv> 1"
abbreviation (input) STDERR_FILENO :: u32 where "STDERR_FILENO \<equiv> 2"

definition close_r :: "u32 \<Rightarrow> reent \<Rightarrow> u32 \<times> reent" where "close_r file = fails E_BADF"
definition execve_r :: "reent \<Rightarrow> u32 \<times> reent" where "execve_r = fails E_NOSYS"
definition fork_r :: "reent \<Rightarrow> u32 \<times> reent" where "fork_r = fails E_NOSYS"
definition getpid_r :: "reent \<Rightarrow> u32 \<times> reent" where "getpid_r r = (1, r)"
definition kill_r :: "u32 \<Rightarrow> u32 \<Rightarrow> reent \<Rightarrow> u32 \<times> reent" where "kill_r pid sig = fails E_NOSYS"
definition link_r :: "reent \<Rightarrow> u32 \<times> reent" where "link_r = fails E_NOSYS"
definition lseek_r :: "u32 \<Rightarrow> u32 \<Rightarrow> u32 \<Rightarrow> reent \<Rightarrow> u32 \<times> reent" where "lseek_r file ptr dir = fails E_NOSYS"
definition open_r :: "u32 \<Rightarrow> u32 \<Rightarrow> reent \<Rightarrow> u32 \<times> reent" where "open_r flags mode = fails E_NOSYS"
definition readlink_r :: "reent \<Rightarrow> u32 \<times> reent" where "readlink_r = fails E_NOSYS"
definition stat_r :: "reent \<Rightarrow> u32 \<times> reent" where "stat_r = fails E_IO"
definition unlink_r :: "reent \<Rightarrow> u32 \<times> reent" where "unlink_r = fails E_IO"
definition clib_times :: "reent \<Rightarrow> u32 \<times> reent" where "clib_times = fails E_ACCES"
definition clib_wait :: "reent \<Rightarrow> u32 \<times> reent" where "clib_wait = fails E_CHILD"

text \<open>The mode is set only for the three standard files: \<open>True\<close> is \<open>S_IFCHR\<close>.\<close>

definition fstat_r :: "u32 \<Rightarrow> bool \<Rightarrow> reent \<Rightarrow> u32 \<times> bool \<times> reent" where
  "fstat_r file st_mode r =
    (if file = STDOUT_FILENO \<or> file = STDERR_FILENO \<or> file = STDIN_FILENO then (0, True, r)
     else (- 1, st_mode, snd (fails E_BADF r)))"

definition isatty_r :: "u32 \<Rightarrow> u32" where
  "isatty_r file = (if file = STDIN_FILENO \<or> file = STDOUT_FILENO \<or> file = STDERR_FILENO then 1 else 0)"

text \<open>Without a clock the "time" is a counter of the calls.\<close>

definition gettimeofday_noclock :: "u32 \<Rightarrow> u32 \<times> u32" where
  "gettimeofday_noclock v = (v, v + 1)"

text \<open>
  Reading: the first byte is waited for, then what is there. The bytes stored, in order (the buffer is the
  caller's: the first byte is stored whatever \<open>len\<close> is).
\<close>

partial_function (option) read_first :: "env \<Rightarrow> bool \<times> hist \<Rightarrow> (u32 \<times> bool \<times> hist) option" where
  "read_first env s =
    do { x \<leftarrow> inbyte env s; if fst x AND 0x0100 \<noteq> 0 then read_first env (snd x) else Some x }"

partial_function (option) read_rest :: "env \<Rightarrow> nat \<Rightarrow> u8 list \<Rightarrow> bool \<times> hist \<Rightarrow> (u8 list \<times> bool \<times> hist) option" where
  "read_rest env len bs s =
    (if length bs < len
     then do {
       x \<leftarrow> inbyte env s;
       if fst x AND 0x0100 = 0 then read_rest env len (bs @ [ucast (fst x)]) (snd x) else Some (bs, snd x)
     }
     else Some (bs, s))"

definition read_r :: "env \<Rightarrow> u32 \<Rightarrow> nat \<Rightarrow> reent \<times> bool \<times> hist \<Rightarrow> (u32 \<times> u8 list \<times> reent \<times> bool \<times> hist) option" where
  "read_r env file len = (\<lambda>(r, s).
    if file = STDIN_FILENO
    then do {
      x \<leftarrow> read_first env s;
      (bs, s2) \<leftarrow> read_rest env len [ucast (fst x)] (snd x);
      Some (of_nat (length bs), bs, r, s2)
    }
    else Some (- 1, [], snd (fails E_NOSYS r), s))"

fun outbytes :: "env \<Rightarrow> u8 list \<Rightarrow> hist \<Rightarrow> hist option" where
  "outbytes env [] h = Some h"
| "outbytes env (c # cs) h = do { h1 \<leftarrow> outbyte env c h; outbytes env cs h1 }"

definition write_r :: "env \<Rightarrow> u32 \<Rightarrow> u8 list \<Rightarrow> reent \<times> hist \<Rightarrow> (u32 \<times> reent \<times> hist) option" where
  "write_r env fd buf = (\<lambda>(r, h).
    if fd = STDOUT_FILENO \<or> fd = STDERR_FILENO
    then do { h1 \<leftarrow> outbytes env buf h; Some (of_nat (length buf), r, h1) }
    else Some (- 1, snd (fails E_BADF r), h))"

text \<open>\<open>heap\<close> points to words of four bytes: \<open>heap += sz\<close> moves it by \<open>sz\<close> words.\<close>

definition sbrk_r :: "u32 \<Rightarrow> addr \<Rightarrow> addr \<times> addr" where
  "sbrk_r sz prev = (prev, prev + 4 * sz)"

section \<open>The date\<close>

definition bcd_field :: "u32 \<Rightarrow> nat \<Rightarrow> u32" where
  "bcd_field v k = (drop_bit k v AND 0x0f) + (drop_bit (k + 4) v AND 0x0f) * 10"

text \<open>The days of the months before \<open>m\<close>.\<close>

definition days_before :: "u32 \<Rightarrow> bool \<Rightarrow> u32" where
  "days_before m ly =
    (if m > 1 then 31 +
       (if m > 2 then 28 + (if ly then 1 else 0) +
         (if m > 3 then 31 + (if m > 4 then 30 + (if m > 5 then 31 + (if m > 6 then 30 + (if m > 7 then 31 +
           (if m > 8 then 31 + (if m > 9 then 30 + (if m > 10 then 31 + (if m > 11 then 30 else 0) else 0) else 0)
            else 0) else 0) else 0) else 0) else 0) else 0) else 0) else 0)"

primrec days_of_years :: "nat \<Rightarrow> u32 \<Rightarrow> u32 \<Rightarrow> u32" where
  "days_of_years 0 yy days = days"
| "days_of_years (Suc n) yy days = days_of_years n (yy + 1) (days + (if yy AND 3 = 0 then 366 else 365))"

definition days_since_epoch :: "u32 \<Rightarrow> u32" where
  "days_since_epoch date =
    (let d = bcd_field date 0; m = bcd_field date 8; y = bcd_field date 16; c = bcd_field date 24;
         ly = (if y AND 3 = 0 then (if y \<noteq> 0 then True else y AND 3 = 0) else False);
         years = c * 100 + y
     in days_of_years (unat years - 1970) 1970 (d + days_before m ly))"

definition gettimeofday_clock :: "u32 option \<Rightarrow> u32 \<Rightarrow> u32 \<times> u32" where
  "gettimeofday_clock date now =
    (let s = bcd_field now 0; m = bcd_field now 8; h = bcd_field now 16;
         tv_sec = (case date of Some date \<Rightarrow> days_since_epoch date * 86400 | None \<Rightarrow> 0);
         tod = (h * 60 + m) * 60
     in (tv_sec + tod, 0))"

section \<open>Boot loaders and memset\<close>

text \<open>Memory as words at addresses that step by four.\<close>

type_synonym wmem = "addr \<Rightarrow> u32"

partial_function (option) boot_copy :: "addr \<Rightarrow> addr \<times> addr \<Rightarrow> wmem \<Rightarrow> (addr \<times> wmem) option" where
  "boot_copy stop p m =
    (if snd p < stop then boot_copy stop (fst p + 4, snd p + 4) (m(snd p := m (fst p))) else Some (snd p, m))"

partial_function (option) boot_clear :: "addr \<Rightarrow> addr \<Rightarrow> wmem \<Rightarrow> wmem option" where
  "boot_clear stop wrp m = (if wrp < stop then boot_clear stop (wrp + 4) (m(wrp := 0)) else Some m)"

text \<open>The symbols of the linker script are the parameters.\<close>

definition bootloader :: "addr \<Rightarrow> addr \<Rightarrow> addr \<Rightarrow> addr \<Rightarrow> wmem \<Rightarrow> wmem option" where
  "bootloader kernel_image_start blkram kernel_image_end bss_image_end m =
    do { (wrp, m1) \<leftarrow> boot_copy kernel_image_end (kernel_image_start, blkram) m; boot_clear bss_image_end wrp m1 }"

definition crt0_bootloader :: "addr \<Rightarrow> addr \<Rightarrow> addr \<Rightarrow> addr \<Rightarrow> wmem \<Rightarrow> wmem option" where
  "crt0_bootloader kernel_image_start blkram kernel_image_end bss_image_end m =
    do {
      (wrp, m1) \<leftarrow> (if kernel_image_end \<noteq> kernel_image_start
        then boot_copy kernel_image_end (kernel_image_start, blkram) m else Some (blkram, m));
      boot_clear bss_image_end wrp m1
    }"

text \<open>\<open>do *p++ = c; while(n-- > 0)\<close>\<close>

primrec memset_loop :: "nat \<Rightarrow> addr \<Rightarrow> u32 \<Rightarrow> wmem \<Rightarrow> wmem" where
  "memset_loop 0 p c m = m(p := c)"
| "memset_loop (Suc n) p c m = memset_loop n (p + 4) c (m(p := c))"

definition memset :: "addr \<Rightarrow> u32 \<Rightarrow> u32 \<Rightarrow> wmem \<Rightarrow> addr \<times> wmem" where
  "memset s c n m = (s, memset_loop (unat n) s c m)"

section \<open>Ranges of words\<close>

definition waddr :: "addr \<Rightarrow> nat \<Rightarrow> addr" where
  "waddr a i = a + 4 * of_nat i"

lemma waddr_simps [simp]: "waddr a 0 = a" "waddr (a + 4) i = waddr a (Suc i)"
  by (simp_all add: waddr_def algebra_simps)

lemma unat_waddr: "unat a + 4 * i < 2 ^ 32 \<Longrightarrow> unat (waddr a i) = unat a + 4 * i"
proof -
  assume h: "unat a + 4 * i < 2 ^ 32"
  have "waddr a i = of_nat (unat a + 4 * i)"
    by (simp add: waddr_def)
  then show ?thesis
    using h by (simp only: unat_of_nat_u32)
qed

text \<open>The words of a range that ends below the top of the address space are different.\<close>

lemma waddr_neq: "i < n \<Longrightarrow> unat a + 4 * n < 2 ^ 32 \<Longrightarrow> j < i \<Longrightarrow> waddr a i \<noteq> waddr a j"
  using unat_waddr [of a i] unat_waddr [of a j] by auto

lemma boot_copy_run:
  "unat wrp + 4 * n < 2 ^ 32 \<Longrightarrow> stop = waddr wrp n \<Longrightarrow> (\<forall>i<n. \<forall>j<n. waddr rdp i \<noteq> waddr wrp j) \<Longrightarrow>
    \<exists>m1. boot_copy stop (rdp, wrp) m = Some (stop, m1) \<and> (\<forall>i<n. m1 (waddr wrp i) = m (waddr rdp i)) \<and>
      (\<forall>a. (\<forall>i<n. a \<noteq> waddr wrp i) \<longrightarrow> m1 a = m a)"
proof (induction n arbitrary: rdp wrp m)
  case 0
  then show ?case
    by (subst boot_copy.simps) simp
next
  case (Suc n)
  let ?m = "m(wrp := m rdp)"
  have less: "wrp < stop"
    using Suc.prems(1) unat_waddr [of wrp "Suc n"] by (simp add: Suc.prems(2) word_less_nat_alt)
  have four: "unat (wrp + 4) = unat wrp + 4"
    using Suc.prems(1) unat_waddr [of wrp 1] by (simp add: waddr_def)
  have apart: "\<forall>i<n. \<forall>j<n. waddr (rdp + 4) i \<noteq> waddr (wrp + 4) j"
    using Suc.prems(3) by simp
  have fit: "unat (wrp + 4) + 4 * n < 2 ^ 32" "stop = waddr (wrp + 4) n"
    using Suc.prems(1,2) four by simp_all
  from Suc.IH [OF fit apart, of ?m] obtain m1 where m1: "boot_copy stop (rdp + 4, wrp + 4) ?m = Some (stop, m1)"
    "\<And>i. i < n \<Longrightarrow> m1 (waddr wrp (Suc i)) = ?m (waddr rdp (Suc i))"
    "\<And>a. \<forall>i<n. a \<noteq> waddr wrp (Suc i) \<Longrightarrow> m1 a = ?m a"
    by (auto simp del: fun_upd_apply)
  have new: "wrp \<noteq> waddr wrp (Suc i)" if "i < n" for i
    using waddr_neq [of "Suc i" "Suc n" wrp 0] that Suc.prems(1) by auto
  have "boot_copy stop (rdp, wrp) m = Some (stop, m1)"
    using less m1(1) by (subst boot_copy.simps) simp
  moreover have "m1 (waddr wrp i) = m (waddr rdp i)" if "i < Suc n" for i
  proof (cases i)
    case 0
    then show ?thesis
      using m1(3) [of wrp] new by simp
  next
    case (Suc j)
    then show ?thesis
      using m1(2) [of j] that Suc.prems(3)[rule_format, of "Suc j" 0] by auto
  qed
  moreover have "m1 a = m a" if "\<forall>i<Suc n. a \<noteq> waddr wrp i" for a
    using m1(3) [of a] that by (metis Suc_less_eq fun_upd_other waddr_simps(1) zero_less_Suc)
  ultimately show ?case
    by blast
qed

lemma boot_clear_run:
  "unat wrp + 4 * n < 2 ^ 32 \<Longrightarrow> stop = waddr wrp n \<Longrightarrow>
    \<exists>m1. boot_clear stop wrp m = Some m1 \<and> (\<forall>i<n. m1 (waddr wrp i) = 0) \<and> (\<forall>a. (\<forall>i<n. a \<noteq> waddr wrp i) \<longrightarrow> m1 a = m a)"
proof (induction n arbitrary: wrp m)
  case 0
  then show ?case
    by (subst boot_clear.simps) simp
next
  case (Suc n)
  let ?m = "m(wrp := 0)"
  have less: "wrp < stop"
    using Suc.prems(1) unat_waddr [of wrp "Suc n"] by (simp add: Suc.prems(2) word_less_nat_alt)
  have four: "unat (wrp + 4) = unat wrp + 4"
    using Suc.prems(1) unat_waddr [of wrp 1] by (simp add: waddr_def)
  have fit: "unat (wrp + 4) + 4 * n < 2 ^ 32" "stop = waddr (wrp + 4) n"
    using Suc.prems(1,2) four by simp_all
  from Suc.IH [OF fit, of ?m] obtain m1 where m1: "boot_clear stop (wrp + 4) ?m = Some m1"
    "\<And>i. i < n \<Longrightarrow> m1 (waddr wrp (Suc i)) = 0" "\<And>a. \<forall>i<n. a \<noteq> waddr wrp (Suc i) \<Longrightarrow> m1 a = ?m a"
    by (auto simp del: fun_upd_apply)
  have new: "wrp \<noteq> waddr wrp (Suc i)" if "i < n" for i
    using waddr_neq [of "Suc i" "Suc n" wrp 0] that Suc.prems(1) by auto
  have "boot_clear stop wrp m = Some m1"
    using less m1(1) by (subst boot_clear.simps) simp
  moreover have "m1 (waddr wrp i) = 0" if "i < Suc n" for i
    using m1(2,3) new that by (cases i) auto
  moreover have "m1 a = m a" if "\<forall>i<Suc n. a \<noteq> waddr wrp i" for a
    using m1(3) [of a] that by (metis Suc_less_eq fun_upd_other waddr_simps(1) zero_less_Suc)
  ultimately show ?case
    by blast
qed

lemma memset_loop_words:
  "unat p + 4 * n < 2 ^ 32 \<Longrightarrow> (\<forall>i\<le>n. memset_loop n p c m (waddr p i) = c) \<and>
    (\<forall>a. (\<forall>i\<le>n. a \<noteq> waddr p i) \<longrightarrow> memset_loop n p c m a = m a)"
proof (induction n arbitrary: p m)
  case (Suc n)
  have four: "unat (p + 4) = unat p + 4"
    using Suc.prems unat_waddr [of p 1] by (simp add: waddr_def)
  then have ih: "\<And>i. i \<le> n \<Longrightarrow> memset_loop n (p + 4) c (m(p := c)) (waddr p (Suc i)) = c"
    "\<And>a. \<forall>i\<le>n. a \<noteq> waddr p (Suc i) \<Longrightarrow> memset_loop n (p + 4) c (m(p := c)) a = (m(p := c)) a"
    using Suc.IH [of "p + 4" "m(p := c)"] Suc.prems by (auto simp del: fun_upd_apply)
  have new: "p \<noteq> waddr p (Suc i)" if "i \<le> n" for i
    using unat_waddr [of p "Suc i"] Suc.prems that by auto
  have "memset_loop (Suc n) p c m (waddr p i) = c" if "i \<le> Suc n" for i
    using ih new that by (cases i) auto
  moreover have "memset_loop (Suc n) p c m a = m a" if "\<forall>i\<le>Suc n. a \<noteq> waddr p i" for a
    using ih(2) [of a] that by (metis Suc_le_mono fun_upd_other le0 memset_loop.simps(2) waddr_simps(1))
  ultimately show ?case
    by blast
qed simp

section \<open>The date as a number of days\<close>

text \<open>The reference: days since 1 January 1970 in the Gregorian calendar.\<close>

definition gregorian_leap :: "nat \<Rightarrow> bool" where
  "gregorian_leap y \<longleftrightarrow> y mod 4 = 0 \<and> (y mod 100 \<noteq> 0 \<or> y mod 400 = 0)"

definition month_lengths :: "nat \<Rightarrow> nat list" where
  "month_lengths y = [31, if gregorian_leap y then 29 else 28, 31, 30, 31, 30, 31, 31, 30, 31, 30, 31]"

definition year_days :: "nat \<Rightarrow> nat" where
  "year_days y = (if gregorian_leap y then 366 else 365)"

definition civil_days :: "nat \<Rightarrow> nat \<Rightarrow> nat \<Rightarrow> nat" where
  "civil_days y m d = sum_list (map year_days [1970..<y]) + sum_list (take (m - 1) (month_lengths y)) + (d - 1)"

text \<open>The date word of the clock.\<close>

definition bcd_date :: "nat \<Rightarrow> nat \<Rightarrow> nat \<Rightarrow> u32" where
  "bcd_date y m d = of_nat (16777216 * bcd2 (y div 100) + 65536 * bcd2 (y mod 100) + 256 * bcd2 m + bcd2 d)"

lemma leap_mod_4: "1970 \<le> y \<Longrightarrow> y < 2100 \<Longrightarrow> gregorian_leap y \<longleftrightarrow> y mod 4 = 0"
proof -
  assume h: "1970 \<le> y" "y < 2100"
  have "y = 2000" if "y mod 100 = 0"
  proof -
    from that obtain k where "y = 100 * k"
      unfolding dvd_eq_mod_eq_0 [symmetric] by (rule dvdE)
    moreover from this have "k = 20"
      using h by linarith
    ultimately show ?thesis
      by simp
  qed
  then have "y mod 100 = 0 \<longrightarrow> y mod 400 = 0"
    by auto
  then show ?thesis
    by (auto simp: gregorian_leap_def)
qed

lemma and_3_zero: "(x :: u32) AND 3 = 0 \<longleftrightarrow> unat x mod 4 = 0"
proof -
  have "(3 :: u32) = mask 2"
    by (simp add: mask_eq_exp_minus_1)
  then have "unat (x AND 3) = unat x mod 4"
    by (simp only: unat_and_mask_eq_mod) simp
  then show ?thesis
    by (metis unat_eq_zero)
qed

lemma bcd_field_digits: "bcd_field v k = of_nat (unat v div 2 ^ k mod 16 + unat v div 2 ^ (k + 4) mod 16 * 10)"
proof -
  have "(0x0f :: u32) = mask 4"
    by (simp add: mask_eq_exp_minus_1)
  then have "unat (drop_bit j v AND 0x0f) = unat v div 2 ^ j mod 16" for j
    by (simp only: unat_and_mask_eq_mod unat_drop_bit_div) simp
  then have "drop_bit j v AND 0x0f = of_nat (unat v div 2 ^ j mod 16)" for j
    by (metis of_nat_unat ucast_id)
  then show ?thesis
    by (simp add: bcd_field_def)
qed

text \<open>Two digits at bit \<open>k\<close> of a word.\<close>

lemma bcd_field_at:
  assumes "unat v = lo + 2 ^ k * (bcd2 n + 256 * hi)" "lo < 2 ^ k" "n < 100"
  shows "bcd_field v k = of_nat n"
proof -
  have digits: "n mod 10 < 16" "n div 10 < 16"
    using assms(3) div_le_mono [of n 99 10] order_less_trans [OF mod_less_divisor, of 10 16 n] by simp_all
  have "unat v div 2 ^ k = n mod 10 + 16 * (n div 10 + 16 * hi)"
    unfolding assms(1) using assms(2) by (simp add: bcd2_def)
  moreover from this have "unat v div 2 ^ (k + 4) = n div 10 + 16 * hi"
    unfolding power_add div_mult2_eq using digits by simp
  ultimately have "unat v div 2 ^ k mod 16 = n mod 10" "unat v div 2 ^ (k + 4) mod 16 = n div 10"
    using digits by (simp_all only: mod_mult_self2 mod_less)
  then show ?thesis
    by (simp add: bcd_field_digits mult.commute flip: of_nat_add of_nat_mult)
qed

lemma days_of_years_sum:
  "1970 \<le> unat yy \<Longrightarrow> unat yy + n \<le> 2100 \<Longrightarrow>
    days_of_years n yy days = days + of_nat (sum_list (map year_days [unat yy..<unat yy + n]))"
proof (induction n arbitrary: yy days)
  case (Suc n)
  have "unat (yy + 1) = unat yy + 1"
    using Suc.prems by (simp add: unat_word_ariths)
  moreover have "(yy AND 3 = 0) = gregorian_leap (unat yy)"
    using Suc.prems by (simp add: and_3_zero leap_mod_4)
  moreover have "[unat yy..<unat yy + Suc n] = unat yy # [unat yy + 1..<unat yy + 1 + n]"
    by (simp add: upt_conv_Cons)
  ultimately show ?case
    using Suc.IH [of "yy + 1"] Suc.prems by (simp add: year_days_def del: upt_Suc)
qed simp

lemma days_before_sum:
  assumes "1 \<le> m" "m \<le> 12"
  shows "days_before (of_nat m) (gregorian_leap y) = of_nat (sum_list (take (m - 1) (month_lengths y)))"
proof -
  have "m = 1 \<or> m = 2 \<or> m = 3 \<or> m = 4 \<or> m = 5 \<or> m = 6 \<or> m = 7 \<or> m = 8 \<or> m = 9 \<or> m = 10 \<or> m = 11 \<or> m = 12"
    using assms by arith
  then show ?thesis
    by (elim disjE) (simp_all add: days_before_def month_lengths_def)
qed

lemma bcd_date_fields:
  assumes "y < 10000" "m < 100" "d < 100"
  shows "bcd_field (bcd_date y m d) 0 = of_nat d" "bcd_field (bcd_date y m d) 8 = of_nat m"
    "bcd_field (bcd_date y m d) 16 = of_nat (y mod 100)" "bcd_field (bcd_date y m d) 24 = of_nat (y div 100)"
proof -
  have two: "y mod 100 < 100" "y div 100 < 100"
    using assms(1) div_le_mono [of y 9999 100] by simp_all
  have small: "bcd2 m < 160" "bcd2 d < 160" "bcd2 (y mod 100) < 160" "bcd2 (y div 100) < 160"
    using assms two by (simp_all add: bcd2_less(1))
  have v: "unat (bcd_date y m d) = 16777216 * bcd2 (y div 100) + 65536 * bcd2 (y mod 100) + 256 * bcd2 m + bcd2 d"
    unfolding bcd_date_def using small by (subst unat_of_nat_u32) simp_all
  show "bcd_field (bcd_date y m d) 0 = of_nat d"
    by (rule bcd_field_at [where lo = 0 and hi = "65536 * bcd2 (y div 100) + 256 * bcd2 (y mod 100) + bcd2 m"])
      (use assms v in simp_all)
  show "bcd_field (bcd_date y m d) 8 = of_nat m"
    by (rule bcd_field_at [where lo = "bcd2 d" and hi = "256 * bcd2 (y div 100) + bcd2 (y mod 100)"])
      (use assms v small in simp_all)
  show "bcd_field (bcd_date y m d) 16 = of_nat (y mod 100)"
    by (rule bcd_field_at [where lo = "256 * bcd2 m + bcd2 d" and hi = "bcd2 (y div 100)"])
      (use two v small in simp_all)
  show "bcd_field (bcd_date y m d) 24 = of_nat (y div 100)"
    by (rule bcd_field_at [where lo = "65536 * bcd2 (y mod 100) + 256 * bcd2 m + bcd2 d" and hi = 0])
      (use two v small in simp_all)
qed

lemma bcd_tod_fields:
  assumes "tod_ok t"
  shows "bcd_field (bcd_tod t) 8 = of_nat (minute t)" "bcd_field (bcd_tod t) 16 = of_nat (hour t)"
proof -
  have small: "bcd2 (minute t) < 160" "bcd2 (sec t) < 160" "minute t < 100" "hour t < 100"
    using assms by (simp_all add: tod_ok_def bcd2_less(1))
  show "bcd_field (bcd_tod t) 8 = of_nat (minute t)"
    by (rule bcd_field_at [where lo = "bcd2 (sec t)" and hi = "bcd2 (hour t)"])
      (use small unat_bcd_tod [OF assms] in simp_all)
  show "bcd_field (bcd_tod t) 16 = of_nat (hour t)"
    by (rule bcd_field_at [where lo = "256 * bcd2 (minute t) + bcd2 (sec t)" and hi = 0])
      (use small unat_bcd_tod [OF assms] in simp_all)
qed

lemma days_since_epoch_civil:
  assumes "1970 \<le> y" "y < 2100" "1 \<le> m" "m \<le> 12" "1 \<le> d" "d \<le> 31"
  shows "days_since_epoch (bcd_date y m d) = of_nat (civil_days y m d + 1)"
proof -
  have leap: "(of_nat (y mod 100) AND 3 = (0 :: u32)) = gregorian_leap y"
  proof -
    have "y mod 100 mod 4 = y mod 4"
      by (rule mod_mod_cancel) simp
    then show ?thesis
      using assms by (simp add: and_3_zero unat_of_nat_u32 order_less_trans [OF mod_less_divisor] leap_mod_4)
  qed
  have years: "of_nat (y div 100) * 100 + of_nat (y mod 100) = (of_nat y :: u32)"
    by (metis div_mult_mod_eq of_nat_add of_nat_mult of_nat_numeral)
  have "y < 2 ^ 32"
    using assms by simp
  then have range: "unat (of_nat y :: u32) - 1970 = y - 1970"
    by (simp only: unat_of_nat_u32)
  have "days_since_epoch (bcd_date y m d) =
      days_of_years (y - 1970) 1970 (of_nat d + days_before (of_nat m) (gregorian_leap y))"
    using assms leap years range by (simp add: days_since_epoch_def bcd_date_fields Let_def)
  also have "\<dots> = of_nat d + of_nat (sum_list (take (m - 1) (month_lengths y))) +
      of_nat (sum_list (map year_days [1970..<y]))"
    using assms by (simp add: days_of_years_sum days_before_sum)
  also have "\<dots> = of_nat (civil_days y m d + 1)"
    unfolding of_nat_add [symmetric] using assms(5) by (simp add: civil_days_def add.commute add.left_commute)
  finally show ?thesis .
qed

section \<open>A stream of characters\<close>

text \<open>\<open>n\<close> calls of \<open>inbyte\<close>, what they returned, and the words that were read from the UART.\<close>

fun inbytes :: "env \<Rightarrow> nat \<Rightarrow> bool \<times> hist \<Rightarrow> (u32 list \<times> bool \<times> hist) option" where
  "inbytes env 0 s = Some ([], s)"
| "inbytes env (Suc n) s =
    do { (rv, s1) \<leftarrow> inbyte env s; (rvs, s2) \<leftarrow> inbytes env n s1; Some (rv # rvs, s2) }"

fun uart_reads :: "hist \<Rightarrow> u32 list" where
  "uart_reads [] = []"
| "uart_reads (Rd IO_UART v # h) = uart_reads h @ [v]"
| "uart_reads (_ # h) = uart_reads h"

text \<open>The intended translation: each CR, with a LF that follows it, becomes one LF.\<close>

fun newlines :: "bool \<Rightarrow> u32 list \<Rightarrow> u32 list" where
  "newlines skip [] = []"
| "newlines skip (c # cs) =
    (if c = 13 then 10 # newlines True cs
     else if c = 10 \<and> skip then newlines False cs
     else c # newlines False cs)"

definition echo :: "u32 \<Rightarrow> u32 list" where
  "echo v = (if (ucast v :: u8) = 10 then [13, 10] else [ucast (ucast v :: u8)])"

lemma pic_wait_events:
  "pic_wait env msk h = Some h1 \<Longrightarrow> written r h1 = written r h \<and> uart_reads h1 = uart_reads h"
proof (induction env msk h h1 rule: pic_wait.raw_induct [rotated, consumes 1, case_names step])
  case (step loop env msk h h1)
  then show ?case
    by (auto simp: Let_def rd_def split: if_splits)
qed

lemma uart_reads_wr [simp]: "uart_reads (wr r v h) = uart_reads h"
  by (simp add: wr_def)

lemma outbyte_events:
  "outbyte env (ucast v) h = Some h1 \<Longrightarrow>
    written IO_UART h1 = written IO_UART h @ echo v \<and> uart_reads h1 = uart_reads h"
  by (auto simp: outbyte_def echo_def bind_eq_Some_conv split: if_split_asm
      dest!: pic_wait_events [where r = IO_UART])

lemma pic_wait_polls:
  "env (polls env n h) (QRd IO_PIC) AND INT_UARTTX \<noteq> 0 \<Longrightarrow> pic_wait env INT_UARTTX h \<noteq> None"
proof (induction n arbitrary: h)
  case 0
  then show ?case
    by (subst pic_wait.simps) (simp add: rd_def Let_def)
next
  case (Suc n)
  then have "pic_wait env INT_UARTTX (snd (rd env IO_PIC h)) \<noteq> None"
    by simp
  then show ?case
    by (subst pic_wait.simps) (auto simp: rd_def Let_def)
qed

lemma outbyte_returns:
  assumes "polls_end env"
  obtains h1 where "outbyte env v h = Some h1"
proof -
  have wait: "\<exists>h1. pic_wait env INT_UARTTX h' = Some h1" for h'
    using assms pic_wait_polls unfolding polls_end_def by blast
  obtain h1 where h1: "pic_wait env INT_UARTTX (wr IO_PIC INT_UARTTX h) = Some h1"
    using wait by blast
  obtain h2 where "pic_wait env INT_UARTTX (wr IO_PIC INT_UARTTX (if v = 10 then wr IO_UART 13 h1 else h)) = Some h2"
    using wait by blast
  then have "outbyte env v h = Some (wr IO_UART (ucast v) h2)"
    using h1 by (simp add: outbyte_def split: if_split_asm)
  then show thesis
    using that by blast
qed

lemma inbyte_events:
  assumes "polls_end env"
  obtains v rv cr' h' where "inbyte env (cr, h) = Some (rv, cr', h')" "inbyte_rv cr v = (rv, cr')"
    "uart_reads h' = uart_reads h @ [v]" "written IO_UART h' = written IO_UART h @ (if rv = - 1 then [] else echo rv)"
proof -
  define v where "v = env h (QRd IO_UART)"
  obtain rv cr' where rv: "inbyte_rv cr v = (rv, cr')"
    by fastforce
  obtain h' where h': "outbyte env (ucast rv) (Rd IO_UART v # h) = Some h'"
    using outbyte_returns [OF assms] .
  have "inbyte env (cr, h) = Some (rv, cr', if rv \<noteq> - 1 then h' else Rd IO_UART v # h)"
    using rv h' by (simp add: inbyte_def rd_def flip: v_def)
  then show thesis
    using outbyte_events [OF h'] by (intro that [OF _ rv]) auto
qed

lemma inbyte_rv_newlines:
  assumes "inbyte_rv cr v = (rv, cr')"
  shows "newlines cr (if v AND 0x0100 = 0 then v # cs else cs) =
    (if rv = - 1 then newlines cr' cs else rv # newlines cr' cs)"
  using assms by (cases "v = 13"; cases "v = 10"; cases "v AND 0x0100 = 0") (auto simp: inbyte_rv_def split: if_split_asm)

lemma inbytes_spec:
  assumes "polls_end env"
  shows "\<exists>rvs cr' h' vs. inbytes env n (cr, h) = Some (rvs, cr', h') \<and> uart_reads h' = uart_reads h @ vs \<and>
    length vs = n \<and> filter (\<lambda>x. x \<noteq> - 1) rvs = newlines cr (filter (\<lambda>x. x AND 0x0100 = 0) vs) \<and>
    written IO_UART h' = written IO_UART h @ concat (map echo (filter (\<lambda>x. x \<noteq> - 1) rvs))"
proof (induction n arbitrary: cr h)
  case (Suc n)
  obtain v rv cr1 h1 where one: "inbyte env (cr, h) = Some (rv, cr1, h1)" and v: "inbyte_rv cr v = (rv, cr1)"
    "uart_reads h1 = uart_reads h @ [v]" "written IO_UART h1 = written IO_UART h @ (if rv = - 1 then [] else echo rv)"
    using inbyte_events [OF assms] .
  obtain rvs cr' h' vs where rest: "inbytes env n (cr1, h1) = Some (rvs, cr', h')"
    "uart_reads h' = uart_reads h1 @ vs" "length vs = n"
    "filter (\<lambda>x. x \<noteq> - 1) rvs = newlines cr1 (filter (\<lambda>x. x AND 0x0100 = 0) vs)"
    "written IO_UART h' = written IO_UART h1 @ concat (map echo (filter (\<lambda>x. x \<noteq> - 1) rvs))"
    using Suc.IH by blast
  have "filter (\<lambda>x. x \<noteq> - 1) (rv # rvs) = newlines cr (filter (\<lambda>x. x AND 0x0100 = 0) (v # vs))"
    using inbyte_rv_newlines [OF v(1), of "filter (\<lambda>x. x AND 0x0100 = 0) vs"] rest(4)
    by (simp split: if_split_asm del: newlines.simps)
  moreover have "inbytes env (Suc n) (cr, h) = Some (rv # rvs, cr', h')"
    using one rest(1) by simp
  moreover have "uart_reads h' = uart_reads h @ v # vs" "length (v # vs) = Suc n"
    using v(2) rest(2,3) by simp_all
  moreover have "written IO_UART h' =
      written IO_UART h @ concat (map echo (filter (\<lambda>x. x \<noteq> - 1) (rv # rvs)))"
    unfolding rest(5) v(3) by simp
  ultimately show ?case
    by blast
qed simp

section \<open>Properties\<close>

text \<open>
  \<open>memset\<close> counts its words wrongly: called for \<open>n\<close> words it writes \<open>n + 1\<close>, and each of them whole.
\<close>

lemma memset_one_more:
  "unat s + 4 * unat n < 2 ^ 32 \<Longrightarrow>
    (\<forall>i\<le>unat n. snd (memset s c n m) (waddr s i) = c) \<and> (\<forall>a. (\<forall>i\<le>unat n. a \<noteq> waddr s i) \<longrightarrow> snd (memset s c n m) a = m a)"
  using memset_loop_words [of s "unat n" c m] by (simp add: memset_def)


text \<open>
  C22. The conversion of the clock's date word agrees with the Gregorian calendar up to one constant day: for every
  date from 1970 to 2099 and every time of day, the seconds that \<open>gettimeofday\<close> returns are
  those of the hours and minutes of that time on the day after the date (the first of a month counts as one day, not as
  none), and the seconds of the clock are dropped.
\<close>

theorem gettimeofday_civil:
  assumes "1970 \<le> y" "y < 2100" "1 \<le> m" "m \<le> 12" "1 \<le> d" "d \<le> 31" "tod_ok t"
  shows "gettimeofday_clock (Some (bcd_date y m d)) (bcd_tod t) =
    (of_nat (86400 * (civil_days y m d + 1) + 3600 * hour t + 60 * minute t), 0)"
  using assms by (simp add: gettimeofday_clock_def Let_def days_since_epoch_civil bcd_tod_fields algebra_simps)

text \<open>
  The characters that \<open>inbyte\<close> returns are those received, with each CR, and each CR LF, turned into one LF, whatever
  comes between them; everything that is returned is echoed, a LF as CR LF. (When the transmitter
  always becomes ready at last, every call returns.)
\<close>

theorem inbyte_newlines:
  assumes "polls_end env"
  shows "\<exists>rvs cr h. inbytes env n (False, []) = Some (rvs, cr, h) \<and> length (uart_reads h) = n \<and>
    filter (\<lambda>x. x \<noteq> - 1) rvs = newlines False (filter (\<lambda>x. x AND 0x0100 = 0) (uart_reads h)) \<and>
    written IO_UART h = concat (map echo (filter (\<lambda>x. x \<noteq> - 1) rvs))"
  using inbytes_spec [OF assms, of n False "[]"] by auto

section \<open>Witnesses\<close>


theorem gettimeofday_civil_witness:
  "gettimeofday_clock (Some (bcd_date 1970 1 1)) (bcd_tod (Tod 1 2 3)) = (86400 + 3600 + 120, 0)"
  using gettimeofday_civil [of 1970 1 1 "Tod 1 2 3"] by (simp add: tod_ok_def civil_days_def)

definition nl_env :: env where
  "nl_env = (\<lambda>h q. case q of QRd IO_UART \<Rightarrow> if uart_reads h = [] then 13 else 10 | _ \<Rightarrow> 0x80)"

theorem inbyte_newlines_witness:
  "\<exists>rvs cr h. inbytes nl_env 2 (False, []) = Some (rvs, cr, h) \<and> length (uart_reads h) = 2 \<and>
    filter (\<lambda>x. x \<noteq> - 1) rvs = newlines False (filter (\<lambda>x. x AND 0x0100 = 0) (uart_reads h)) \<and>
    written IO_UART h = concat (map echo (filter (\<lambda>x. x \<noteq> - 1) rvs))"
proof (rule inbyte_newlines)
  show "polls_end nl_env"
    unfolding polls_end_def nl_env_def by simp
qed

end
