(* ===== verification/Uartsim.thy ===== *)
theory Uartsim
  imports Prelude
begin

text \<open>
  The simulated serial port, sim/verilator/uartsim.cpp: a receiver that samples the line from the device, and a
  transmitter that frames the characters of a descriptor or a connection, one call per clock tick.

  What the operating system answers in a tick is the record \<open>osin\<close>: whether a connection waits and what \<open>accept\<close>
  gives, whether the input is readable and what reading it gives, and whether writing succeeds. The line is a \<open>bool\<close>. The
  counter \<open>m_rx_changectr\<close> is an unbounded \<open>int\<close>: it starts again with every falling edge of the line before it is used.
\<close>

section \<open>The object\<close>

datatype rxstate = RXIDLE | RXDATA
datatype txstate = TXIDLE | TXDATA

record uartsim =
  m_skt :: int
  m_conrd :: int
  m_conwr :: int
  m_setup :: u32
  m_nparity :: nat
  m_fixdp :: u32
  m_evenp :: u32
  m_nbits :: nat
  m_nstop :: nat
  m_baud_counts :: int
  m_rx_baudcounter :: int
  m_rx_state :: rxstate
  m_rx_busy :: int
  m_rx_changectr :: int
  m_last_tx :: bool
  m_tx_baudcounter :: int
  m_tx_state :: txstate
  m_tx_busy :: int
  m_rx_data :: u32
  m_tx_data :: u32

record osin =
  os_waiting :: bool
  os_accept :: int
  os_readable :: bool
  os_nr :: int
  os_char :: u8
  os_written :: bool

definition uart_setup :: "u32 \<Rightarrow> uartsim \<Rightarrow> uartsim" where
  "uart_setup isetup s =
    (if isetup \<noteq> m_setup s
     then s\<lparr>m_setup := isetup,
       m_baud_counts := uint (isetup AND 0x0ffffff),
       m_nbits := 8 - unat (drop_bit 28 isetup AND 0x03),
       m_nstop := unat (drop_bit 27 isetup AND 1) + 1,
       m_nparity := unat (drop_bit 26 isetup AND 1),
       m_fixdp := drop_bit 25 isetup AND 1,
       m_evenp := drop_bit 24 isetup AND 1\<rparr>
     else s)"

text \<open>The constructor, on an object with whatever the fields held, and the socket that \<open>setup_listener\<close> opens.\<close>

definition uart_new :: "int \<Rightarrow> int \<Rightarrow> uartsim \<Rightarrow> uartsim" where
  "uart_new port skt s0 =
    (let s = s0\<lparr>m_conrd := - 1, m_conwr := - 1, m_skt := - 1\<rparr>;
         s = (if port = 0 then s\<lparr>m_conrd := 0, m_conwr := 1\<rparr> else s\<lparr>m_skt := skt\<rparr>)
     in (uart_setup 25 s)\<lparr>m_rx_baudcounter := 0, m_tx_baudcounter := 0, m_rx_state := RXIDLE, m_tx_state := TXIDLE\<rparr>)"

definition uart_kill :: "uartsim \<Rightarrow> uartsim" where
  "uart_kill s = s\<lparr>m_conrd := - 1, m_conwr := - 1, m_skt := - 1\<rparr>"

section \<open>The receiver\<close>

text \<open>How many samples a frame has after its start bit.\<close>

definition frame_len :: "uartsim \<Rightarrow> nat" where
  "frame_len s = m_nbits s + m_nparity s + m_nstop s"

definition rx_change :: "bool \<Rightarrow> uartsim \<Rightarrow> uartsim" where
  "rx_change i_tx s =
    s\<lparr>m_rx_changectr := (if \<not> i_tx \<and> m_last_tx s then 0 else m_rx_changectr s + 1), m_last_tx := i_tx\<rparr>"

definition rx_char :: "uartsim \<Rightarrow> u8" where
  "rx_char s = ucast (drop_bit (32 - m_nbits s - m_nstop s - m_nparity s) (m_rx_data s) AND 0x0ff)"

text \<open>The byte is what reaches the output.\<close>

definition rx_tick :: "bool \<Rightarrow> bool \<Rightarrow> uartsim \<Rightarrow> u8 list \<times> uartsim" where
  "rx_tick ok i_tx s0 =
    (let s = rx_change i_tx s0 in
     if m_rx_state s = RXIDLE
     then ([], if \<not> i_tx
            then s\<lparr>m_rx_state := RXDATA,
              m_rx_baudcounter := m_baud_counts s + m_baud_counts s div 2 - 1 - m_rx_changectr s,
              m_rx_busy := 0, m_rx_data := 0\<rparr>
            else s)
     else if m_rx_baudcounter s \<le> 0
     then (if m_rx_busy s \<ge> 2 ^ (frame_len s - 1)
       then (if m_conwr s \<ge> 0 \<and> ok then [rx_char s] else [],
         (if m_conwr s \<ge> 0 \<and> \<not> ok then s\<lparr>m_conrd := - 1, m_conwr := - 1\<rparr> else s)
           \<lparr>m_rx_state := RXIDLE, m_rx_baudcounter := m_baud_counts s - 1\<rparr>)
       else ([], s\<lparr>m_rx_busy := 2 * m_rx_busy s + 1,
         m_rx_data := (if i_tx then 0x80000000 else 0) OR drop_bit 1 (m_rx_data s),
         m_rx_baudcounter := m_baud_counts s - 1\<rparr>))
     else ([], s\<lparr>m_rx_baudcounter := m_rx_baudcounter s - 1\<rparr>))"

section \<open>The transmitter\<close>

definition tx_parity :: "u32 \<Rightarrow> uartsim \<Rightarrow> u32" where
  "tx_parity d s =
    (if m_fixdp s \<noteq> 0 then m_evenp s
     else let p = drop_bit 1 d AND 0x0ff;
              p = p XOR drop_bit 4 p;
              p = p XOR drop_bit 2 p;
              p = p XOR drop_bit 1 p
          in (p AND 1) XOR m_evenp s)"

definition tx_word :: "u8 \<Rightarrow> uartsim \<Rightarrow> u32" where
  "tx_word c s =
    (let d = push_bit (m_nbits s + m_nparity s + 1) (- 1) OR (push_bit 1 (ucast c) AND 0x01fe)
     in if m_nparity s \<noteq> 0 then d OR push_bit (m_nbits s + m_nparity s) (tx_parity d s) else d)"

definition tx_load :: "u8 \<Rightarrow> uartsim \<Rightarrow> uartsim" where
  "tx_load c s =
    s\<lparr>m_tx_data := tx_word c s, m_tx_busy := 2 ^ (frame_len s + 1) - 1, m_tx_state := TXDATA,
      m_tx_baudcounter := m_baud_counts s - 1\<rparr>"

definition tx_shift :: "uartsim \<Rightarrow> bool \<times> uartsim" where
  "tx_shift s =
    (let s1 = s\<lparr>m_tx_data := drop_bit 1 (m_tx_data s), m_tx_busy := m_tx_busy s div 2\<rparr>;
         s2 = (if m_tx_busy s1 = 0 then s1\<lparr>m_tx_state := TXIDLE\<rparr> else s1\<lparr>m_tx_baudcounter := m_baud_counts s - 1\<rparr>)
     in (bit (m_tx_data s2) 0, s2))"

definition tx_count :: "uartsim \<Rightarrow> bool \<times> uartsim" where
  "tx_count s = (bit (m_tx_data s) 0, s\<lparr>m_tx_baudcounter := m_tx_baudcounter s - 1\<rparr>)"

text \<open>On a network connection: a negative descriptor is never readable.\<close>

definition net_accept :: "osin \<Rightarrow> uartsim \<Rightarrow> uartsim" where
  "net_accept i s =
    (if m_conrd s < 0 \<and> m_conwr s < 0 \<and> m_skt s \<ge> 0 \<and> os_waiting i
     then s\<lparr>m_conrd := os_accept i, m_conwr := os_accept i\<rparr> else s)"

definition net_tx :: "osin \<Rightarrow> uartsim \<Rightarrow> bool \<times> uartsim" where
  "net_tx i s =
    (if m_tx_state s = TXIDLE
     then if m_conrd s \<ge> 0 \<and> os_readable i \<and> os_nr i = 1 then (False, tx_load (os_char i) s) else (True, s)
     else if m_tx_baudcounter s \<le> 0 then tx_shift s else tx_count s)"

definition nettick :: "osin \<Rightarrow> bool \<Rightarrow> uartsim \<Rightarrow> bool \<times> u8 list \<times> uartsim" where
  "nettick i i_tx s =
    (let (out, s1) = rx_tick (os_written i) i_tx (net_accept i s); (o_rx, s2) = net_tx i s1 in (o_rx, out, s2))"

text \<open>On a pair of file descriptors.\<close>

definition fd_tx :: "osin \<Rightarrow> uartsim \<Rightarrow> bool \<times> uartsim" where
  "fd_tx i s =
    (if m_tx_state s = TXIDLE \<and> m_conrd s \<ge> 0
     then if os_readable i
       then if os_nr i = 1 then (False, tx_load (os_char i) s)
         else (True, if os_nr i < 0 then s\<lparr>m_conrd := - 1\<rparr> else s)
       else (True, s)
     else if m_tx_baudcounter s = 0 then tx_shift s else tx_count s)"

definition fdtick :: "osin \<Rightarrow> bool \<Rightarrow> uartsim \<Rightarrow> bool \<times> u8 list \<times> uartsim" where
  "fdtick i i_tx s =
    (let (out, s1) = rx_tick (os_written i) i_tx s; (o_rx, s2) = fd_tx i s1 in (o_rx, out, s2))"

definition uart_tick :: "osin \<Rightarrow> bool \<Rightarrow> uartsim \<Rightarrow> bool \<times> u8 list \<times> uartsim" where
  "uart_tick i i_tx s = (if m_skt s \<ge> 0 then nettick i i_tx s else fdtick i i_tx s)"

definition uart_op :: "osin \<Rightarrow> bool \<Rightarrow> u32 \<Rightarrow> uartsim \<Rightarrow> bool \<times> u8 list \<times> uartsim" where
  "uart_op i i_tx isetup s = uart_tick i i_tx (uart_setup isetup s)"

section \<open>Both halves apart\<close>

text \<open>What neither half changes while nothing fails.\<close>

definition uart_cfg :: "uartsim \<Rightarrow> nat \<times> nat \<times> nat \<times> int \<times> int \<times> int \<times> u32 \<times> u32" where
  "uart_cfg s = (m_nbits s, m_nparity s, m_nstop s, m_baud_counts s, m_conrd s, m_conwr s, m_fixdp s, m_evenp s)"

fun rx_run :: "bool list \<Rightarrow> uartsim \<Rightarrow> u8 list \<times> uartsim" where
  "rx_run [] s = ([], s)"
| "rx_run (x # xs) s = 
    (fst (rx_tick True x s) @ fst (rx_run xs (snd (rx_tick True x s))), snd (rx_run xs (snd (rx_tick True x s))))"

lemma rx_run_append:
  "rx_run (xs @ ys) s = (fst (rx_run xs s) @ fst (rx_run ys (snd (rx_run xs s))), snd (rx_run ys (snd (rx_run xs s))))"
  by (induction xs arbitrary: s) simp_all

lemma rx_tick_cfg [simp]: "uart_cfg (snd (rx_tick True x s)) = uart_cfg s"
  by (simp add: rx_tick_def rx_change_def uart_cfg_def Let_def)

lemma rx_run_cfg [simp]: "uart_cfg (snd (rx_run w s)) = uart_cfg s"
  by (induction w arbitrary: s) simp_all

text \<open>The last edge of the line.\<close>

lemma rx_tick_edge [simp]:
  "m_last_tx (snd (rx_tick True x s)) = x"
  "m_rx_changectr (snd (rx_tick True x s)) = (if \<not> x \<and> m_last_tx s then 0 else m_rx_changectr s + 1)"
  by (simp_all add: rx_tick_def rx_change_def Let_def)

lemma rx_run_last [simp]: "m_last_tx (snd (rx_run (xs @ [x]) s)) = x"
  by (simp add: rx_run_append)

lemma rx_run_low:
  "m_rx_changectr (snd (rx_run (replicate k False) s)) =
    (if m_last_tx s \<and> 0 < k then int k - 1 else m_rx_changectr s + int k)"
  by (induction k arbitrary: s) simp_all

lemma bit_top: "bit (0x80000000 :: u32) i \<longleftrightarrow> i = 31"
proof -
  have "(0x80000000 :: u32) = 2 ^ 31"
    by simp
  then show ?thesis
    by (simp only: bit_exp_iff) (auto simp: possible_bit_def)
qed

section \<open>The receiver samples in the middle of the bits\<close>

text \<open>The receiver has taken the samples \<open>ds\<close>, the last one \<open>m_baud_counts - 1 - k\<close> ticks ago.\<close>

definition rx_at :: "bool list \<Rightarrow> nat \<Rightarrow> uartsim \<Rightarrow> bool" where
  "rx_at ds k s \<longleftrightarrow> m_rx_state s = RXDATA \<and> m_rx_baudcounter s = int k \<and> m_rx_busy s = 2 ^ length ds - 1 \<and>
    (\<forall>i<32. bit (m_rx_data s) i \<longleftrightarrow> 32 - length ds \<le> i \<and> ds ! (i - (32 - length ds)))"

lemma rx_count:
  "rx_at ds (length w + k) s \<Longrightarrow> fst (rx_run w s) = [] \<and> rx_at ds k (snd (rx_run w s))"
proof (induction w arbitrary: s)
  case (Cons x w)
  then have "fst (rx_tick True x s) = []" "rx_at ds (length w + k) (snd (rx_tick True x s))"
    by (auto simp: rx_at_def rx_tick_def rx_change_def Let_def)
  then show ?case
    using Cons.IH by simp
qed simp

lemma rx_sample:
  assumes "rx_at ds 0 s" "length ds < frame_len s" "length ds < 32" "m_baud_counts s = int B" "0 < B"
  shows "fst (rx_tick True x s) = [] \<and> rx_at (ds @ [x]) (B - 1) (snd (rx_tick True x s))"
proof -
  have "(2 :: int) ^ length ds \<le> 2 ^ (frame_len s - 1)"
    using assms(2) by (intro power_increasing) simp_all
  then have step: "rx_tick True x s = ([], (rx_change x s)\<lparr>m_rx_busy := 2 * m_rx_busy s + 1,
      m_rx_data := (if x then 0x80000000 else 0) OR drop_bit 1 (m_rx_data s), m_rx_baudcounter := m_baud_counts s - 1\<rparr>)"
    using assms(1) by (auto simp: rx_at_def rx_tick_def rx_change_def frame_len_def Let_def)
  have bits: "bit ((if x then 0x80000000 else 0) OR drop_bit 1 (m_rx_data s)) i \<longleftrightarrow>
      (if i = 31 then x else bit (m_rx_data s) (Suc i))" if "i < 32" for i
  proof -
    have "\<not> bit (m_rx_data s) 32"
      by (simp add: impossible_bit)
    then show ?thesis
      by (cases x) (auto simp: bit_or_iff bit_drop_bit_eq bit_top simp del: bit_numeral_word_iff)
  qed
  have "(if i = 31 then x else bit (m_rx_data s) (Suc i)) \<longleftrightarrow>
      31 - length ds \<le> i \<and> (ds @ [x]) ! (i - (31 - length ds))" if "i < 32" for i
  proof (cases "i = 31")
    case True
    then show ?thesis
      using assms(3) by simp
  next
    case False
    then have "i + 1 < 32"
      using that by simp
    then have "bit (m_rx_data s) (Suc i) \<longleftrightarrow> 32 - length ds \<le> Suc i \<and> ds ! (Suc i - (32 - length ds))"
      using assms(1) by (simp add: rx_at_def)
    moreover have "Suc i - (32 - length ds) = i - (31 - length ds)" "32 - length ds \<le> Suc i \<longleftrightarrow> 31 - length ds \<le> i"
      using assms(3) by auto
    moreover have "i - (31 - length ds) < length ds" if "31 - length ds \<le> i"
      using that False \<open>i < 32\<close> assms(3) by simp
    ultimately show ?thesis
      using False by (auto simp: nth_append)
  qed
  with bits have "rx_at (ds @ [x]) (B - 1) ((rx_change x s)\<lparr>m_rx_busy := 2 * m_rx_busy s + 1,
      m_rx_data := (if x then 0x80000000 else 0) OR drop_bit 1 (m_rx_data s), m_rx_baudcounter := m_baud_counts s - 1\<rparr>)"
    using assms(1,4,5) by (simp add: rx_at_def rx_change_def)
  then show ?thesis
    unfolding step by simp
qed

text \<open>The receiver is \<open>h\<close> ticks behind the middle of a bit when the bits \<open>ds'\<close> come.\<close>

lemma rx_bits:
  assumes "rx_at ds (B - 1) s" "length ds + length bs \<le> frame_len s" "frame_len s \<le> 32" "m_baud_counts s = int B" "h < B"
  shows "\<exists>s'. snd (rx_run (replicate (B - h - 1) x @ concat (map (replicate B) bs)) s) =
      snd (rx_run (replicate (B - h - 1) (last (x # bs))) s') \<and>
    fst (rx_run (replicate (B - h - 1) x @ concat (map (replicate B) bs)) s) = [] \<and>
    rx_at (ds @ bs) (B - 1) s' \<and> uart_cfg s' = uart_cfg s"
  using assms
proof (induction bs arbitrary: ds s x)
  case Nil
  then have "rx_at ds (length (replicate (B - h - 1) x) + h) s"
    by simp
  from rx_count [OF this] Nil.prems show ?case
    by (intro exI [of _ s]) simp
next
  case (Cons b bs)
  let ?w = "replicate (B - h - 1) x @ replicate h b"
  have one: "replicate (B - h - 1) x @ concat (map (replicate B) (b # bs)) =
      ?w @ [b] @ (replicate (B - h - 1) b @ concat (map (replicate B) bs))"
  proof -
    have "replicate B b = replicate h b @ [b] @ replicate (B - h - 1) b"
      using Cons.prems(5) by (simp flip: replicate_add replicate_Suc)
    then show ?thesis
      by simp
  qed
  have "rx_at ds (length ?w + 0) s"
    using Cons.prems(1,5) by simp
  from rx_count [OF this] have s1: "fst (rx_run ?w s) = []" "rx_at ds 0 (snd (rx_run ?w s))"
    by simp_all
  define s1 where "s1 = snd (rx_run ?w s)"
  have cfg1: "uart_cfg s1 = uart_cfg s"
    by (simp add: s1_def)
  then have cfg: "frame_len s1 = frame_len s" "m_baud_counts s1 = m_baud_counts s"
    by (simp_all add: uart_cfg_def frame_len_def)
  define s2 where "s2 = snd (rx_tick True b s1)"
  have s2: "fst (rx_tick True b s1) = []" "rx_at (ds @ [b]) (B - 1) s2"
    using rx_sample [of ds s1 B b] s1(2) Cons.prems cfg by (simp_all add: s1_def s2_def)
  have cfg2: "uart_cfg s2 = uart_cfg s"
    using cfg1 by (simp add: s2_def)
  then have "frame_len s2 = frame_len s" "m_baud_counts s2 = m_baud_counts s"
    by (simp_all add: uart_cfg_def frame_len_def)
  with Cons.IH [OF s2(2)] Cons.prems obtain s' where
    "snd (rx_run (replicate (B - h - 1) b @ concat (map (replicate B) bs)) s2) =
      snd (rx_run (replicate (B - h - 1) (last (b # bs))) s')"
    "fst (rx_run (replicate (B - h - 1) b @ concat (map (replicate B) bs)) s2) = []"
    "rx_at ((ds @ [b]) @ bs) (B - 1) s'" "uart_cfg s' = uart_cfg s2"
    by auto
  moreover have "rx_run (?w @ [b] @ R) s = rx_run R s2" for R
    unfolding rx_run_append [of ?w] s1_def [symmetric] using s1(1) s2(1) by (simp flip: s2_def)
  ultimately show ?case
    unfolding one by (intro exI [of _ s']) (simp add: cfg2)
qed

text \<open>After the last sample the receiver waits one more bit, gives its character, and is idle again.\<close>

lemma rx_char_bits:
  assumes "rx_at ds k s" "length ds = frame_len s" "frame_len s \<le> 32" "i < 8"
  shows "bit (rx_char s) i \<longleftrightarrow> i < length ds \<and> ds ! i"
proof -
  have shift: "32 - m_nbits s - m_nstop s - m_nparity s = 32 - length ds"
    using assms(2) by (simp add: frame_len_def)
  have byte: "(0xff :: u32) = mask 8"
    by (simp add: mask_eq_exp_minus_1)
  have "bit (rx_char s) i \<longleftrightarrow> bit (m_rx_data s) (32 - length ds + i)"
    unfolding rx_char_def shift byte using assms(4) by (auto simp: bit_simps)
  then show ?thesis
    using assms by (cases "i < length ds") (auto simp: rx_at_def impossible_bit)
qed

lemma rx_finish:
  assumes "rx_at ds 0 s" "length ds = frame_len s" "0 < frame_len s" "0 \<le> m_conwr s"
  shows "fst (rx_tick True x s) = [rx_char s] \<and> m_rx_state (snd (rx_tick True x s)) = RXIDLE"
proof -
  have "(2 :: int) ^ frame_len s - 1 \<ge> 2 ^ (frame_len s - 1)"
  proof -
    have "(2 :: int) ^ frame_len s = 2 * 2 ^ (frame_len s - 1)"
      using assms(3) by (metis power_minus_mult mult.commute)
    then show ?thesis
      by simp
  qed
  then show ?thesis
    using assms by (simp add: rx_at_def rx_tick_def rx_change_def frame_len_def rx_char_def Let_def)
qed

lemma rx_frame:
  assumes "rx_at [] (B - 1) s" "length bs = frame_len s" "bs \<noteq> []" "last bs" "frame_len s \<le> 32"
    and "m_baud_counts s = int B" "length tail < B" "0 \<le> m_conwr s" "\<And>i. i < 8 \<Longrightarrow> bit c i \<longleftrightarrow> i < length bs \<and> bs ! i"
  shows "fst (rx_run (replicate (B - length tail - 1) x @ concat (map (replicate B) bs) @ True # tail) s) = [c] \<and>
    m_rx_state (snd (rx_run (replicate (B - length tail - 1) x @ concat (map (replicate B) bs) @ True # tail) s)) = RXIDLE"
proof -
  let ?w = "replicate (B - length tail - 1) x @ concat (map (replicate B) bs)"
  let ?v = "replicate (B - length tail - 1) True @ True # tail"
  obtain s' where s': "snd (rx_run ?w s) = snd (rx_run (replicate (B - length tail - 1) True) s')"
    "fst (rx_run ?w s) = []" "rx_at bs (B - 1) s'" "uart_cfg s' = uart_cfg s"
    using rx_bits [OF assms(1), of bs "length tail" x] assms(2-7) by auto
  have cfg: "frame_len s' = frame_len s" "m_conwr s' = m_conwr s"
    using s'(4) by (simp_all add: uart_cfg_def frame_len_def)
  have len: "length ?v = B"
    using assms(7) by simp
  have v: "?v = butlast ?v @ [last ?v]" "length (butlast ?v) = B - 1"
    using append_butlast_last_id [of ?v] by (simp_all only: length_butlast len) simp
  have "rx_at bs (length (butlast ?v) + 0) s'"
    using s'(3) v(2) by simp
  from rx_count [OF this] have count: "fst (rx_run (butlast ?v) s') = []" "rx_at bs 0 (snd (rx_run (butlast ?v) s'))"
    by simp_all
  define t where "t = snd (rx_run (butlast ?v) s')"
  have "uart_cfg t = uart_cfg s"
    using s'(4) by (simp add: t_def)
  then have cfgt: "frame_len t = frame_len s" "m_conwr t = m_conwr s"
    by (simp_all add: uart_cfg_def frame_len_def)
  have pos: "0 < frame_len t"
    using assms(2,3) cfgt by (metis length_greater_0_conv)
  have at: "rx_at bs 0 t"
    using count(2) by (simp add: t_def)
  have "bit (rx_char t) i \<longleftrightarrow> bit c i" if "i < 8" for i
    using rx_char_bits [OF at _ _ that] assms(2,5,9) cfgt that by simp
  then have char: "rx_char t = c"
    by (auto intro: bit_word_eqI)
  have fin: "fst (rx_tick True (last ?v) t) = [c]" "m_rx_state (snd (rx_tick True (last ?v) t)) = RXIDLE"
    using rx_finish [OF at _ pos] assms(2,8) cfgt char by auto
  have quiet: "fst (rx_run (replicate (B - length tail - 1) True) s') = []"
  proof -
    have "rx_at bs (length (replicate (B - length tail - 1) True) + length tail) s'"
      using s'(3) assms(7) by simp
    from rx_count [OF this] show ?thesis
      by simp
  qed
  have "rx_run ?v s' = ([c], snd (rx_tick True (last ?v) t))"
    by (subst v(1)) (simp only: rx_run_append count(1) rx_run.simps fin(1) fst_conv snd_conv append_Nil append_Nil2 flip: t_def)
  then have "fst (rx_run (True # tail) (snd (rx_run (replicate (B - length tail - 1) True) s'))) = [c]"
    "snd (rx_run (True # tail) (snd (rx_run (replicate (B - length tail - 1) True) s'))) = snd (rx_tick True (last ?v) t)"
    unfolding rx_run_append quiet by simp_all
  then show ?thesis
    using s'(1,2) fin(2) unfolding append_assoc [symmetric] rx_run_append [of ?w] by simp
qed

section \<open>The transmitter frames its characters\<close>

text \<open>The world of a transmitter whose input is the list \<open>cs\<close>: a character is there while the list is not empty.\<close>

definition fed :: "u8 list \<Rightarrow> osin" where
  "fed cs = \<lparr>os_waiting = False, os_accept = - 1, os_readable = (cs \<noteq> []), os_nr = 1, os_char = hd cs, os_written = True\<rparr>"

fun tx_run :: "nat \<Rightarrow> uartsim \<times> u8 list \<Rightarrow> bool list \<times> uartsim \<times> u8 list" where
  "tx_run 0 x = ([], x)"
| "tx_run (Suc n) (s, cs) =
    (let x = (snd (fd_tx (fed cs) s), if m_tx_state s = TXIDLE then tl cs else cs)
     in (fst (fd_tx (fed cs) s) # fst (tx_run n x), snd (tx_run n x)))"

lemma tx_run_add:
  "tx_run (m + n) x = (fst (tx_run m x) @ fst (tx_run n (snd (tx_run m x))), snd (tx_run n (snd (tx_run m x))))"
proof (induction m arbitrary: x)
  case (Suc m)
  then show ?case
    by (cases x) (simp add: Let_def)
qed simp

lemma tx_counts:
  "m_tx_state s = TXDATA \<Longrightarrow> m_tx_baudcounter s = int k \<Longrightarrow>
    tx_run k (s, cs) = (replicate k (bit (m_tx_data s) 0), s\<lparr>m_tx_baudcounter := 0\<rparr>, cs)"
proof (induction k arbitrary: s)
  case (Suc k)
  then have "fd_tx (fed cs) s = (bit (m_tx_data s) 0, s\<lparr>m_tx_baudcounter := int k\<rparr>)"
    by (simp add: fd_tx_def tx_count_def)
  then show ?case
    using Suc.IH [of "s\<lparr>m_tx_baudcounter := int k\<rparr>"] Suc.prems by (simp add: Let_def)
qed simp

lemma tx_bits_out:
  assumes "m_tx_state s = TXDATA" "m_tx_baudcounter s = int (B - 1)" "m_tx_busy s = 2 ^ (m + 1) - 1"
    and "m_baud_counts s = int B" "0 < B"
  shows "\<exists>b k. tx_run ((m + 1) * B) (s, cs) =
    (replicate (B - 1) (bit (m_tx_data s) 0) @ concat (map (\<lambda>j. replicate B (bit (m_tx_data s) (Suc j))) [0..<m]) @
       [bit (m_tx_data s) (m + 1)],
     s\<lparr>m_tx_state := TXIDLE, m_tx_baudcounter := 0, m_tx_busy := b, m_tx_data := k\<rparr>, cs)"
  using assms
proof (induction m arbitrary: s)
  case 0
  let ?s = "s\<lparr>m_tx_baudcounter := 0\<rparr>"
  have "fd_tx (fed cs) ?s = (bit (m_tx_data s) 1,
      s\<lparr>m_tx_state := TXIDLE, m_tx_baudcounter := 0, m_tx_busy := 0, m_tx_data := drop_bit 1 (m_tx_data s)\<rparr>)"
    using 0 by (simp add: fd_tx_def tx_shift_def Let_def bit_drop_bit_eq)
  then have "tx_run (B - 1 + 1) (s, cs) = (replicate (B - 1) (bit (m_tx_data s) 0) @ [bit (m_tx_data s) 1],
      s\<lparr>m_tx_state := TXIDLE, m_tx_baudcounter := 0, m_tx_busy := 0, m_tx_data := drop_bit 1 (m_tx_data s)\<rparr>, cs)"
    using tx_counts [of s "B - 1" cs] 0(1,2) by (simp only: tx_run_add) (simp add: Let_def)
  moreover have "(0 + 1) * B = B - 1 + 1"
    using 0(5) by simp
  ultimately have "tx_run ((0 + 1) * B) (s, cs) = (replicate (B - 1) (bit (m_tx_data s) 0) @ [bit (m_tx_data s) 1],
      s\<lparr>m_tx_state := TXIDLE, m_tx_baudcounter := 0, m_tx_busy := 0, m_tx_data := drop_bit 1 (m_tx_data s)\<rparr>, cs)"
    by (simp only:)
  then show ?case
    by (intro exI [of _ "0 :: int"] exI [of _ "drop_bit 1 (m_tx_data s)"]) simp
next
  case (Suc m)
  let ?s = "s\<lparr>m_tx_baudcounter := int (B - 1), m_tx_busy := 2 ^ (m + 1) - 1, m_tx_data := drop_bit 1 (m_tx_data s)\<rparr>"
  have half: "(2 * 2 ^ (m + 1) - 1) div 2 = (2 :: int) ^ (m + 1) - 1"
    by simp
  have busy: "(2 :: int) ^ (m + 1) - 1 \<noteq> 0"
    using one_less_power [of "2 :: int" "m + 1"] by simp
  have "fd_tx (fed cs) (s\<lparr>m_tx_baudcounter := 0\<rparr>) = (bit (m_tx_data s) 1, ?s)"
    using Suc.prems half busy by (simp add: fd_tx_def tx_shift_def Let_def bit_drop_bit_eq)
  note step = this
  have first: "tx_run B (s, cs) = (replicate (B - 1) (bit (m_tx_data s) 0) @ [bit (m_tx_data s) 1], ?s, cs)"
  proof -
    have "tx_run (B - 1 + 1) (s, cs) = (replicate (B - 1) (bit (m_tx_data s) 0) @ [bit (m_tx_data s) 1], ?s, cs)"
      using tx_counts [of s "B - 1" cs] Suc.prems(1,2) step
      by (simp only: tx_run_add) (simp add: Let_def)
    then show ?thesis
      using Suc.prems(5) by simp
  qed
  obtain b k where rest: "tx_run ((m + 1) * B) (?s, cs) =
      (replicate (B - 1) (bit (m_tx_data s) 1) @ concat (map (\<lambda>j. replicate B (bit (m_tx_data s) (Suc (Suc j)))) [0..<m]) @
         [bit (m_tx_data s) (m + 2)],
       s\<lparr>m_tx_state := TXIDLE, m_tx_baudcounter := 0, m_tx_busy := b, m_tx_data := k\<rparr>, cs)"
    using Suc.IH [of ?s] Suc.prems by (auto simp: bit_drop_bit_eq)
  have "[0..<Suc m] = 0 # map Suc [0..<m]"
    by (simp add: upt_conv_Cons map_Suc_upt del: upt_Suc)
  then have list: "concat (map (\<lambda>j. replicate B (bit (m_tx_data s) (Suc j))) [0..<Suc m]) =
      bit (m_tx_data s) 1 # replicate (B - 1) (bit (m_tx_data s) 1) @
      concat (map (\<lambda>j. replicate B (bit (m_tx_data s) (Suc (Suc j)))) [0..<m])"
    using Suc.prems(5) by (cases B) (simp_all add: comp_def del: upt_Suc)
  have split: "(Suc m + 1) * B = B + (m + 1) * B"
    by simp
  have "tx_run ((Suc m + 1) * B) (s, cs) =
      (replicate (B - 1) (bit (m_tx_data s) 0) @ concat (map (\<lambda>j. replicate B (bit (m_tx_data s) (Suc j))) [0..<Suc m]) @
         [bit (m_tx_data s) (m + 2)],
       s\<lparr>m_tx_state := TXIDLE, m_tx_baudcounter := 0, m_tx_busy := b, m_tx_data := k\<rparr>, cs)"
    unfolding list split tx_run_add first snd_conv rest by simp
  then show ?case
    by auto
qed

text \<open>The bits of a frame after the start bit, and the frame on the line with the tick that ends it.\<close>

definition tx_bits :: "u8 \<Rightarrow> uartsim \<Rightarrow> bool list" where
  "tx_bits c s = map (\<lambda>j. bit (tx_word c s) (Suc j)) [0..<frame_len s]"

definition tx_frame :: "nat \<Rightarrow> uartsim \<Rightarrow> u8 \<Rightarrow> bool list" where
  "tx_frame B s c = replicate B False @ concat (map (replicate B) (tx_bits c s)) @ [True]"

lemma tx_word_ones:
  "m_nbits s + m_nparity s + 1 \<le> j \<Longrightarrow> j < 32 \<Longrightarrow> bit (tx_word c s) j"
  by (auto simp: tx_word_def Let_def bit_simps)

lemma tx_word_start: "0 < m_nbits s + m_nparity s \<Longrightarrow> \<not> bit (tx_word c s) 0"
  by (auto simp: tx_word_def Let_def bit_simps)

lemma tx_frame_out:
  assumes "m_tx_state s = TXIDLE" "0 \<le> m_conrd s" "m_baud_counts s = int B" "0 < B" "0 < m_nbits s" "frame_len s < 31"
    "0 < m_nstop s"
  shows "\<exists>b k. tx_run (1 + (frame_len s + 1) * B) (s, c # cs) = (tx_frame B s c,
    s\<lparr>m_tx_state := TXIDLE, m_tx_baudcounter := 0, m_tx_busy := b, m_tx_data := k\<rparr>, cs)"
proof -
  let ?s = "tx_load c s"
  have load: "tx_run 1 (s, c # cs) = ([False], ?s, cs)"
    using assms(1,2) by (simp add: fd_tx_def fed_def Let_def)
  have len: "frame_len ?s = frame_len s"
    by (simp add: frame_len_def tx_load_def)
  obtain b k where run: "tx_run ((frame_len s + 1) * B) (?s, cs) =
    (replicate (B - 1) (bit (m_tx_data ?s) 0) @ concat (map (\<lambda>j. replicate B (bit (m_tx_data ?s) (Suc j))) [0..<frame_len s]) @
       [bit (m_tx_data ?s) (frame_len s + 1)],
     ?s\<lparr>m_tx_state := TXIDLE, m_tx_baudcounter := 0, m_tx_busy := b, m_tx_data := k\<rparr>, cs)"
    using tx_bits_out [of ?s B "frame_len s" cs] assms by (auto simp: tx_load_def frame_len_def)
  have "bit (tx_word c s) (frame_len s + 1)" "\<not> bit (tx_word c s) 0"
    using tx_word_ones [of s "frame_len s + 1" c] tx_word_start [of s c] assms by (simp_all add: frame_len_def)
  then have "False # replicate (B - 1) (bit (m_tx_data ?s) 0) @
      concat (map (\<lambda>j. replicate B (bit (m_tx_data ?s) (Suc j))) [0..<frame_len s]) @ [bit (m_tx_data ?s) (frame_len s + 1)] =
      tx_frame B s c"
    using assms(4) by (cases B) (simp_all add: tx_load_def tx_frame_def tx_bits_def comp_def)
  then have "fst (tx_run 1 (s, c # cs)) @ fst (tx_run ((frame_len s + 1) * B) (?s, cs)) = tx_frame B s c"
    unfolding load run by simp
  moreover have "?s\<lparr>m_tx_state := TXIDLE, m_tx_baudcounter := 0, m_tx_busy := b, m_tx_data := k\<rparr> =
      s\<lparr>m_tx_state := TXIDLE, m_tx_baudcounter := 0, m_tx_busy := b, m_tx_data := k\<rparr>"
    by (simp add: tx_load_def)
  ultimately show ?thesis
    unfolding tx_run_add by (intro exI [of _ b] exI [of _ k]) (simp only: load run fst_conv snd_conv)
qed

section \<open>A stream of frames\<close>

text \<open>The line of a transmitter with the characters \<open>cs\<close>.\<close>

lemma tx_word_cfg:
  assumes "uart_cfg s' = uart_cfg s"
  shows "tx_word c s' = tx_word c s"
proof -
  have "m_nbits s' = m_nbits s" "m_nparity s' = m_nparity s" "m_fixdp s' = m_fixdp s" "m_evenp s' = m_evenp s"
    using assms by (simp_all add: uart_cfg_def)
  note eqs = this
  show ?thesis
    unfolding tx_word_def tx_parity_def eqs ..
qed

lemma frame_len_cfg: "uart_cfg s' = uart_cfg s \<Longrightarrow> frame_len s' = frame_len s"
  by (simp add: uart_cfg_def frame_len_def)

lemma tx_frame_cfg:
  assumes "uart_cfg s' = uart_cfg s"
  shows "tx_frame B s' = tx_frame B s"
  by (rule ext) (simp add: tx_frame_def tx_bits_def tx_word_cfg [OF assms] frame_len_cfg [OF assms])

text \<open>A port with a baud divisor \<open>B\<close> and eight data bits, with its two descriptors open.\<close>

definition uart_8bit :: "nat \<Rightarrow> uartsim \<Rightarrow> bool" where
  "uart_8bit B s \<longleftrightarrow> m_nbits s = 8 \<and> m_nparity s \<le> 1 \<and> (m_nstop s = 1 \<or> m_nstop s = 2) \<and> m_baud_counts s = int B \<and>
    0 \<le> m_conrd s \<and> 0 \<le> m_conwr s"

lemma uart_8bit_cfg: "uart_cfg s' = uart_cfg s \<Longrightarrow> uart_8bit B s' = uart_8bit B s"
  by (simp add: uart_cfg_def uart_8bit_def)

lemma tx_stream:
  assumes "uart_8bit B s" "0 < B" "m_tx_state s = TXIDLE"
  shows "\<exists>s'. tx_run (length cs * (1 + (frame_len s + 1) * B)) (s, cs) = (concat (map (tx_frame B s) cs), s', []) \<and>
    uart_cfg s' = uart_cfg s \<and> m_tx_state s' = TXIDLE"
  using assms
proof (induction cs arbitrary: s)
  case (Cons c cs)
  obtain b k where one: "tx_run (1 + (frame_len s + 1) * B) (s, c # cs) = (tx_frame B s c,
      s\<lparr>m_tx_state := TXIDLE, m_tx_baudcounter := 0, m_tx_busy := b, m_tx_data := k\<rparr>, cs)"
    using tx_frame_out [of s B c cs] Cons.prems by (auto simp: uart_8bit_def frame_len_def)
  define t where "t = s\<lparr>m_tx_state := TXIDLE, m_tx_baudcounter := 0, m_tx_busy := b, m_tx_data := k\<rparr>"
  have t: "uart_cfg t = uart_cfg s" "m_tx_state t = TXIDLE"
    by (simp_all add: t_def uart_cfg_def)
  obtain s' where rest: "tx_run (length cs * (1 + (frame_len s + 1) * B)) (t, cs) = (concat (map (tx_frame B s) cs), s', [])"
    "uart_cfg s' = uart_cfg s" "m_tx_state s' = TXIDLE"
    using Cons.IH [of t] Cons.prems t by (auto simp: uart_8bit_cfg [OF t(1)] frame_len_cfg [OF t(1)] tx_frame_cfg [OF t(1)])
  have split: "length (c # cs) * (1 + (frame_len s + 1) * B) =
      (1 + (frame_len s + 1) * B) + length cs * (1 + (frame_len s + 1) * B)"
    by simp
  have "tx_run (length (c # cs) * (1 + (frame_len s + 1) * B)) (s, c # cs) =
      (tx_frame B s c @ concat (map (tx_frame B s) cs), s', [])"
    unfolding split tx_run_add [of "1 + (frame_len s + 1) * B"] one snd_conv fst_conv t_def [symmetric] rest(1) ..
  then show ?case
    using rest(2,3) t(1) by (intro exI [of _ s']) simp
qed auto

lemma tx_silent: "m_tx_state s = TXIDLE \<Longrightarrow> 0 \<le> m_conrd s \<Longrightarrow> tx_run n (s, []) = (replicate n True, s, [])"
  by (induction n) (simp_all add: fd_tx_def fed_def Let_def)

lemma tx_bits_8:
  assumes "uart_8bit B s"
  shows "length (tx_bits c s) = frame_len s" "tx_bits c s \<noteq> []" "last (tx_bits c s)" "9 \<le> frame_len s" "frame_len s \<le> 11"
    and "i < 8 \<Longrightarrow> bit c i \<longleftrightarrow> i < length (tx_bits c s) \<and> tx_bits c s ! i"
proof -
  show len: "length (tx_bits c s) = frame_len s" "9 \<le> frame_len s" "frame_len s \<le> 11"
    using assms by (auto simp: tx_bits_def uart_8bit_def frame_len_def)
  then show "tx_bits c s \<noteq> []"
    by auto
  then have "last (tx_bits c s) = bit (tx_word c s) (frame_len s)"
    using len by (simp add: last_conv_nth) (simp add: tx_bits_def)
  then show "last (tx_bits c s)"
    using assms tx_word_ones [of s "frame_len s" c] by (auto simp: uart_8bit_def frame_len_def)
  have data: "bit (tx_word c s) (Suc i) \<longleftrightarrow> bit c i" if "i < 8"
  proof -
    have byte: "bit (0x01fe :: u32) (Suc i)"
    proof -
      have "(0x01fe :: u32) = push_bit 1 (mask 8)"
        by (simp add: mask_eq_exp_minus_1 push_bit_eq_mult)
      then show ?thesis
        using that by (simp only: bit_push_bit_iff) (simp add: bit_mask_iff)
    qed
    have par: "\<not> (m_nparity s \<noteq> 0 \<and> bit (push_bit (m_nbits s + m_nparity s) (tx_parity d s)) (Suc i))" for d
      using assms that by (auto simp: uart_8bit_def bit_simps)
    have high: "\<not> bit (push_bit (m_nbits s + m_nparity s + 1) (- 1) :: u32) (Suc i)"
      using assms that by (auto simp: uart_8bit_def bit_simps)
    have "bit (push_bit 1 (ucast c) AND 0x01fe :: u32) (Suc i) \<longleftrightarrow> bit c i"
      unfolding bit_and_iff bit_push_bit_iff using byte that by (simp add: bit_ucast_iff del: bit_numeral_word_iff)
    then show ?thesis
      using par high unfolding tx_word_def Let_def by (auto simp: bit_or_iff)
  qed
  show "bit c i \<longleftrightarrow> i < length (tx_bits c s) \<and> tx_bits c s ! i" if "i < 8"
    using data [OF that] len that by (simp add: tx_bits_def)
qed

lemma rx_idle_high:
  "m_rx_state s = RXIDLE \<Longrightarrow> fst (rx_run (replicate k True) s) = [] \<and> m_rx_state (snd (rx_run (replicate k True) s)) = RXIDLE"
  by (induction k arbitrary: s) (simp_all add: rx_tick_def rx_change_def Let_def)

text \<open>
  The receiver that has been idle on a high line for the start of a frame, and the one that has just become
  idle in the middle of the start bit of the next frame, are both in step with it.
\<close>

lemma rx_start:
  assumes "m_rx_state s = RXIDLE" "m_baud_counts s = int B" "2 \<le> B"
  shows "m_last_tx s \<Longrightarrow>
      fst (rx_run (replicate (B div 2 + 1) False) s) = [] \<and> rx_at [] (B - 1) (snd (rx_run (replicate (B div 2 + 1) False) s))"
    and "\<not> m_last_tx s \<Longrightarrow> m_rx_changectr s = int (B div 2) - 1 \<Longrightarrow>
      fst (rx_tick True False s) = [] \<and> rx_at [] (B - 1) (snd (rx_tick True False s))"
proof -
  assume "m_last_tx s"
  then have "fst (rx_tick True False s) = []"
    "rx_at [] (length (replicate (B div 2) False) + (B - 1)) (snd (rx_tick True False s))"
    using assms by (auto simp: rx_tick_def rx_change_def rx_at_def Let_def)
  with rx_count [OF this(2)]
  show "fst (rx_run (replicate (B div 2 + 1) False) s) = [] \<and> rx_at [] (B - 1) (snd (rx_run (replicate (B div 2 + 1) False) s))"
    by simp
next
  assume "\<not> m_last_tx s" "m_rx_changectr s = int (B div 2) - 1"
  then show "fst (rx_tick True False s) = [] \<and> rx_at [] (B - 1) (snd (rx_tick True False s))"
    using assms by (auto simp: rx_tick_def rx_change_def rx_at_def Let_def)
qed

lemma rx_stream:
  assumes "rx_at [] (B - 1) s" "uart_8bit B s" "2 \<le> B" "B div 2 \<le> k"
  shows "fst (rx_run (replicate (B - B div 2 - 1) False @ concat (map (replicate B) (tx_bits c s)) @ [True] @
    concat (map (tx_frame B s) cs) @ replicate k True) s) = c # cs"
  using assms
proof (induction cs arbitrary: s c)
  case Nil
  let ?h = "B div 2"
  let ?w = "replicate (B - ?h - 1) False @ concat (map (replicate B) (tx_bits c s)) @ True # replicate ?h True"
  note bits = tx_bits_8 [OF Nil(2)]
  have "fst (rx_run ?w s) = [c] \<and> m_rx_state (snd (rx_run ?w s)) = RXIDLE"
    using rx_frame [OF Nil(1) bits(1)[of c] bits(2)[of c] bits(3)[of c], where tail = "replicate ?h True" and x = False] bits(4-6) Nil by (simp add: uart_8bit_def)
  moreover have "replicate k True = replicate ?h True @ replicate (k - ?h) True"
    using Nil(4) by (simp flip: replicate_add)
  then have "replicate (B - ?h - 1) False @ concat (map (replicate B) (tx_bits c s)) @ [True] @
      concat (map (tx_frame B s) []) @ replicate k True = ?w @ replicate (k - ?h) True"
    by simp
  ultimately show ?case
    using rx_idle_high by (simp only: rx_run_append) simp
next
  case (Cons c' cs)
  let ?h = "B div 2"
  let ?w = "replicate (B - ?h - 1) False @ concat (map (replicate B) (tx_bits c s)) @ True # replicate ?h False"
  let ?v = "replicate (B - ?h - 1) False @ concat (map (replicate B) (tx_bits c' s)) @ [True] @
      concat (map (tx_frame B s) cs) @ replicate k True"
  note bits = tx_bits_8 [OF Cons.prems(2)]
  define t where "t = snd (rx_run ?w s)"
  define u where "u = snd (rx_tick True False t)"
  have h: "1 \<le> ?h" "?h < B"
    using Cons.prems(3) by auto
  have one: "fst (rx_run ?w s) = [c]" "m_rx_state t = RXIDLE"
    using rx_frame [OF Cons.prems(1) bits(1)[of c] bits(2)[of c] bits(3)[of c], where tail = "replicate ?h False" and x = False] bits(4-6) Cons.prems h
    by (simp_all add: uart_8bit_def t_def)
  have cfg: "uart_cfg t = uart_cfg s" "uart_cfg u = uart_cfg s"
    by (simp_all add: t_def u_def)
  have edge: "\<not> m_last_tx t" "m_rx_changectr t = int ?h - 1"
  proof -
    let ?a = "replicate (B - ?h - 1) False @ concat (map (replicate B) (tx_bits c s)) @ [True]"
    have w: "?w = ?a @ replicate ?h False" "?w = (?a @ replicate (?h - 1) False) @ [False]"
      using h(1) by (simp_all add: replicate_append_same flip: replicate_Suc)
    have "m_last_tx (snd (rx_run ?a s))"
      using rx_run_last [of "replicate (B - ?h - 1) False @ concat (map (replicate B) (tx_bits c s))" True s] by simp
    then show "m_rx_changectr t = int ?h - 1"
      unfolding t_def w(1) rx_run_append snd_conv using h(1) by (simp add: rx_run_low)
    show "\<not> m_last_tx t"
      unfolding t_def w(2) rx_run_last by simp
  qed
  have start: "fst (rx_tick True False t) = [] \<and> rx_at [] (B - 1) u"
    using rx_start(2) [OF one(2) _ Cons.prems(3) edge] Cons.prems(2) cfg(1) by (simp add: u_def uart_8bit_def uart_cfg_def)
  have rest: "fst (rx_run ?v u) = c' # cs"
    using Cons.IH [of u c'] start Cons.prems
    by (simp add: uart_8bit_cfg [OF cfg(2)] tx_frame_cfg [OF cfg(2)] tx_bits_def tx_word_cfg [OF cfg(2)] frame_len_cfg [OF cfg(2)])
  have "tx_frame B s c' = replicate ?h False @ [False] @ replicate (B - ?h - 1) False @
      concat (map (replicate B) (tx_bits c' s)) @ [True]"
  proof -
    have "replicate B False = replicate ?h False @ [False] @ replicate (B - ?h - 1) False"
      using h by (simp flip: replicate_add replicate_Suc)
    then show ?thesis
      by (simp add: tx_frame_def)
  qed
  then have wire: "replicate (B - ?h - 1) False @ concat (map (replicate B) (tx_bits c s)) @ [True] @
      concat (map (tx_frame B s) (c' # cs)) @ replicate k True = ?w @ [False] @ ?v"
    by simp
  show ?case
    unfolding wire rx_run_append [of ?w] rx_run_append [of "[False]"] t_def [symmetric]
    using one(1) start rest by (simp flip: u_def)
qed

text \<open>A whole line, from the idle state on.\<close>

lemma rx_line:
  assumes "uart_8bit B s" "2 \<le> B" "B div 2 \<le> k" "m_rx_state s = RXIDLE"
  shows "fst (rx_run (True # concat (map (tx_frame B s) cs) @ replicate k True) s) = cs"
proof (cases cs)
  case Nil
  then show ?thesis
    using rx_idle_high [OF assms(4), of "Suc k"] by simp
next
  case (Cons c cs')
  let ?h = "B div 2"
  define t where "t = snd (rx_tick True True s)"
  define u where "u = snd (rx_run (replicate (?h + 1) False) t)"
  have t: "fst (rx_tick True True s) = []" "m_rx_state t = RXIDLE" "m_last_tx t" "uart_cfg t = uart_cfg s"
    using rx_idle_high [OF assms(4), of 1] by (simp_all add: t_def)
  have cfg: "uart_cfg u = uart_cfg s"
    using t(4) by (simp add: u_def)
  have start: "fst (rx_run (replicate (?h + 1) False) t) = [] \<and> rx_at [] (B - 1) u"
    using rx_start(1) [OF t(2) _ assms(2) t(3)] assms(1) t(4) by (simp add: u_def uart_8bit_def uart_cfg_def)
  let ?v = "replicate (B - ?h - 1) False @ concat (map (replicate B) (tx_bits c s)) @ [True] @
      concat (map (tx_frame B s) cs') @ replicate k True"
  have rest: "fst (rx_run ?v u) = c # cs'"
    using rx_stream [of B u k c cs'] start assms
    by (simp add: uart_8bit_cfg [OF cfg] tx_frame_cfg [OF cfg] tx_bits_def tx_word_cfg [OF cfg] frame_len_cfg [OF cfg])
  have "replicate B False = replicate (?h + 1) False @ replicate (B - ?h - 1) False"
    using assms(2) by (simp flip: replicate_add replicate_Suc)
  then have wire: "concat (map (tx_frame B s) cs) @ replicate k True = replicate (?h + 1) False @ ?v"
    by (simp add: Cons tx_frame_def del: replicate_Suc)
  have "fst (rx_run (replicate (?h + 1) False @ ?v) t) = cs"
    unfolding rx_run_append [of "replicate (?h + 1) False"] u_def [symmetric] using start rest by (simp add: Cons)
  then show ?thesis
    unfolding wire using t(1) by (simp add: t_def)
qed

section \<open>The loop\<close>

text \<open>A port whose output is wired to its input, one tick later: state, line, characters to send, characters received.\<close>

fun uart_loop :: "nat \<Rightarrow> uartsim \<times> bool \<times> u8 list \<times> u8 list \<Rightarrow> uartsim \<times> bool \<times> u8 list \<times> u8 list" where
  "uart_loop 0 x = x"
| "uart_loop (Suc n) (s, line, cs, out) =
    (let (o_rx, bs, s') = uart_tick (fed cs) line s
     in uart_loop n (s', o_rx, if m_tx_state s = TXIDLE then tl cs else cs, out @ bs))"

text \<open>The transmitter's part of a state and the receiver's.\<close>

definition uart_merge :: "uartsim \<Rightarrow> uartsim \<Rightarrow> uartsim" where
  "uart_merge t r = t\<lparr>m_rx_baudcounter := m_rx_baudcounter r, m_rx_state := m_rx_state r, m_rx_busy := m_rx_busy r,
    m_rx_changectr := m_rx_changectr r, m_last_tx := m_last_tx r, m_rx_data := m_rx_data r\<rparr>"

lemma uart_merge_self [simp]: "uart_merge s s = s"
  by (simp add: uart_merge_def)

lemma rx_tick_merge:
  "uart_cfg t = uart_cfg r \<Longrightarrow>
    rx_tick True x (uart_merge t r) = (fst (rx_tick True x r), uart_merge t (snd (rx_tick True x r)))"
  by (simp add: rx_tick_def rx_change_def uart_merge_def uart_cfg_def frame_len_def rx_char_def Let_def)

lemma fd_tx_merge: "fd_tx i (uart_merge t r) = (fst (fd_tx i t), uart_merge (snd (fd_tx i t)) r)"
  by (simp add: fd_tx_def tx_load_def tx_shift_def tx_count_def uart_merge_def tx_word_def tx_parity_def frame_len_def Let_def)

lemma fd_tx_keeps:
  assumes "0 \<le> m_conrd s" "0 \<le> m_tx_baudcounter s" "1 \<le> m_baud_counts s"
  shows "uart_cfg (snd (fd_tx (fed cs) s)) = uart_cfg s" "0 \<le> m_tx_baudcounter (snd (fd_tx (fed cs) s))"
  using assms by (auto simp: fd_tx_def fed_def tx_load_def tx_shift_def tx_count_def uart_cfg_def Let_def)

text \<open>While a connection is open the network's tick and the descriptors' tick are the same.\<close>

lemma uart_tick_fed:
  assumes "uart_cfg t = uart_cfg r" "0 \<le> m_conrd t" "0 \<le> m_tx_baudcounter t"
  shows "uart_tick (fed cs) x (uart_merge t r) = (fst (fd_tx (fed cs) t), fst (rx_tick True x r),
    uart_merge (snd (fd_tx (fed cs) t)) (snd (rx_tick True x r)))"
proof -
  let ?s = "uart_merge t (snd (rx_tick True x r))"
  have "net_accept (fed cs) (uart_merge t r) = uart_merge t r"
    by (simp add: net_accept_def fed_def)
  moreover have "net_tx (fed cs) ?s = fd_tx (fed cs) ?s"
    using assms(2,3) by (auto simp: net_tx_def fd_tx_def fed_def uart_merge_def)
  moreover have "os_written (fed cs)"
    by (simp add: fed_def)
  ultimately show ?thesis
    using assms(1) by (simp add: uart_tick_def nettick_def fdtick_def rx_tick_merge fd_tx_merge Let_def)
qed

lemma length_tx_run [simp]: "length (fst (tx_run n x)) = n"
proof (induction n arbitrary: x)
  case (Suc n)
  then show ?case
    by (cases x) (simp add: Let_def)
qed simp

lemma uart_loop_halves:
  "uart_cfg t = uart_cfg r \<Longrightarrow> 0 \<le> m_conrd t \<Longrightarrow> 0 \<le> m_tx_baudcounter t \<Longrightarrow> 1 \<le> m_baud_counts t \<Longrightarrow>
    tx_run n (t, cs) = (w, t', cs') \<Longrightarrow>
    uart_loop n (uart_merge t r, line, cs, out) =
      (uart_merge t' (snd (rx_run (take n (line # w)) r)), last (line # w), cs', out @ fst (rx_run (take n (line # w)) r))"
proof (induction n arbitrary: t r line cs out w)
  case (Suc n)
  define t1 where "t1 = snd (fd_tx (fed cs) t)"
  define r1 where "r1 = snd (rx_tick True line r)"
  let ?o = "fst (fd_tx (fed cs) t)"
  let ?cs = "if m_tx_state t = TXIDLE then tl cs else cs"
  obtain w1 where w: "w = ?o # w1" "tx_run n (t1, ?cs) = (w1, t', cs')"
    using Suc.prems(5) by (auto simp: Let_def t1_def prod_eq_iff)
  have keep: "uart_cfg t1 = uart_cfg t" "0 \<le> m_tx_baudcounter t1"
    using fd_tx_keeps [OF Suc.prems(2-4)] by (simp_all add: t1_def)
  then have "uart_cfg t1 = uart_cfg r1" "0 \<le> m_conrd t1" "1 \<le> m_baud_counts t1"
    using Suc.prems(1,2,4) by (simp_all add: r1_def) (simp_all add: uart_cfg_def)
  note ih = Suc.IH [OF this(1,2) keep(2) this(3) w(2)]
  have merged: "(m_tx_state (uart_merge t r) = TXIDLE) = (m_tx_state t = TXIDLE)"
    by (simp add: uart_merge_def)
  have "uart_loop (Suc n) (uart_merge t r, line, cs, out) =
      uart_loop n (uart_merge t1 r1, ?o, ?cs, out @ fst (rx_tick True line r))"
    by (simp add: uart_tick_fed [OF Suc.prems(1-3)] merged t1_def r1_def)
  also have "\<dots> = (uart_merge t' (snd (rx_run (take n (?o # w1)) r1)), last (?o # w1), cs',
      (out @ fst (rx_tick True line r)) @ fst (rx_run (take n (?o # w1)) r1))"
    by (rule ih)
  finally show ?case
    by (simp add: w(1) r1_def)
qed simp

section \<open>Properties\<close>


text \<open>What a port with closed input sends.\<close>

fun uart_outs :: "(osin \<times> bool) list \<Rightarrow> uartsim \<Rightarrow> bool list" where
  "uart_outs [] s = []"
| "uart_outs ((i, x) # ios) s = (let (o_rx, bs, s') = uart_tick i x s in o_rx # uart_outs ios s')"

lemma closed_outs:
  "m_skt s < 0 \<Longrightarrow> m_conrd s < 0 \<Longrightarrow> m_tx_state s = TXIDLE \<Longrightarrow> m_tx_busy s = 0 \<Longrightarrow> m_tx_baudcounter s = 0 \<Longrightarrow>
    uart_outs ios s = map (\<lambda>k. bit (m_tx_data s) (Suc k)) [0..<length ios]"
proof (induction ios arbitrary: s)
  case (Cons io ios)
  obtain i x where io: "io = (i, x)"
    by (cases io)
  define s1 where "s1 = snd (rx_tick (os_written i) x s)"
  have s1: "m_skt s1 < 0" "m_conrd s1 < 0" "m_tx_state s1 = TXIDLE" "m_tx_busy s1 = 0" "m_tx_baudcounter s1 = 0"
    "m_tx_data s1 = m_tx_data s"
    using Cons.prems by (simp_all add: s1_def rx_tick_def rx_change_def Let_def)
  define s2 where "s2 = s1\<lparr>m_tx_data := drop_bit 1 (m_tx_data s), m_tx_busy := 0\<rparr>"
  have "fd_tx i s1 = (bit (m_tx_data s) 1, s2)"
    using s1 by (simp add: fd_tx_def tx_shift_def Let_def s2_def bit_drop_bit_eq)
  then have "uart_tick i x s = (bit (m_tx_data s) 1, fst (rx_tick (os_written i) x s), s2)"
    using Cons.prems(1) by (simp add: uart_tick_def fdtick_def s1_def case_prod_beta)
  moreover have "uart_outs ios s2 = map (\<lambda>k. bit (m_tx_data s) (Suc (Suc k))) [0..<length ios]"
    using Cons.IH [of s2] s1 by (simp add: s2_def bit_drop_bit_eq)
  moreover have "[0..<length (io # ios)] = 0 # map Suc [0..<length ios]"
    by (simp add: upt_conv_Cons map_Suc_upt del: upt_Suc)
  ultimately show ?case
    by (simp add: io comp_def del: upt_Suc)
qed simp

text \<open>
  A read error on the input of a port without a network leaves the line wrong: the port then shifts its empty
  data register at every tick, and from the 32nd tick on the line is low for ever, which the device takes for an
  endless stream of frames.
\<close>

theorem uart_error_line_low:
  assumes "m_skt s < 0" "0 \<le> m_conrd s" "m_tx_state s = TXIDLE" "m_tx_busy s = 0" "m_tx_baudcounter s = 0"
    and "os_readable i" "os_nr i < 0" "os_written i"
  shows "uart_outs ((i, x) # ios) s = True # map (\<lambda>k. bit (m_tx_data s) (Suc k)) [0..<length ios] \<and>
    (\<forall>k<length ios. 31 \<le> k \<longrightarrow> \<not> uart_outs ((i, x) # ios) s ! Suc k)"
proof -
  define s1 where "s1 = snd (rx_tick True x s)"
  have s1: "m_skt s1 < 0" "0 \<le> m_conrd s1" "m_tx_state s1 = TXIDLE" "m_tx_busy s1 = 0" "m_tx_baudcounter s1 = 0"
    "m_tx_data s1 = m_tx_data s"
    using assms by (simp_all add: s1_def rx_tick_def rx_change_def Let_def)
  have "uart_tick i x s = (True, fst (rx_tick True x s), s1\<lparr>m_conrd := - 1\<rparr>)"
    using assms s1 by (simp add: uart_tick_def fdtick_def fd_tx_def s1_def case_prod_beta)
  then have run: "uart_outs ((i, x) # ios) s = True # map (\<lambda>k. bit (m_tx_data s) (Suc k)) [0..<length ios]"
    using closed_outs [of "s1\<lparr>m_conrd := - 1\<rparr>" ios] s1 by simp
  then show ?thesis
    by (auto simp: impossible_bit)
qed

section \<open>Witnesses\<close>

definition demo_uart :: "uartsim \<Rightarrow> uartsim" where
  "demo_uart s0 = uart_new 0 (- 1) s0"

lemma demo_uart:
  assumes "m_setup s0 = 0"
  shows "uart_8bit 25 (demo_uart s0)" "m_rx_state (demo_uart s0) = RXIDLE" "m_tx_state (demo_uart s0) = TXIDLE"
    "m_tx_baudcounter (demo_uart s0) = 0" "frame_len (demo_uart s0) = 9" "m_skt (demo_uart s0) < 0" "0 \<le> m_conrd (demo_uart s0)"
    "m_tx_busy (demo_uart s0) = m_tx_busy s0"
  using assms by (simp_all add: demo_uart_def uart_new_def uart_setup_def uart_8bit_def frame_len_def Let_def)

definition blank_uart :: uartsim where
  "blank_uart = \<lparr>m_skt = 0, m_conrd = 0, m_conwr = 0, m_setup = 0, m_nparity = 0, m_fixdp = 0, m_evenp = 0, m_nbits = 0,
    m_nstop = 0, m_baud_counts = 0, m_rx_baudcounter = 0, m_rx_state = RXIDLE, m_rx_busy = 0, m_rx_changectr = 0,
    m_last_tx = False, m_tx_baudcounter = 0, m_tx_state = TXIDLE, m_tx_busy = 0, m_rx_data = 0, m_tx_data = - 1\<rparr>"


definition failing :: osin where
  "failing = \<lparr>os_waiting = False, os_accept = 0, os_readable = True, os_nr = - 1, os_char = 0, os_written = True\<rparr>"

theorem uart_error_line_low_witness:
  "\<not> uart_outs ((failing, True) # replicate 39 (failing, True)) (demo_uart blank_uart) ! Suc 35"
proof -
  have "m_setup blank_uart = 0" "m_tx_busy blank_uart = 0"
    by (simp_all add: blank_uart_def)
  then have "\<forall>k<length (replicate 39 (failing, True)). 31 \<le> k \<longrightarrow>
      \<not> uart_outs ((failing, True) # replicate 39 (failing, True)) (demo_uart blank_uart) ! Suc k"
    by (intro uart_error_line_low [THEN conjunct2]) (simp_all add: demo_uart failing_def)
  from this [rule_format, of 35] show ?thesis
    by simp
qed

end
