(* ===== verification/Flashdrvr.thy ===== *)
theory Flashdrvr
  imports Prelude "HOL-Library.Monad_Syntax"
begin

text \<open>
  The host's flash driver, sw/host/flashdrvr.cpp, with the byte order routines of byteswap.cpp, over the bus interface of
  devbus.h.

  A run carries the history of its bus accesses, newest first; what a read gives is a function \<open>benv\<close> of that
  history, word by word, so the device behind the bus is arbitrary. A result \<open>None\<close> is a wait that never ends or
  a failed assertion. A pointer to data is the function from the offset to the byte there. The
  flag \<open>m_debug\<close> is private and false, so what only it reaches is left out; \<open>HIGH_SPEED\<close> is false.
\<close>

section \<open>Byte order\<close>

definition byteswap :: "u32 \<Rightarrow> u32" where
  "byteswap v =
    (let r = v AND 0x0ff; r = push_bit 8 r; v = drop_bit 8 v;
         r = r OR (v AND 0x0ff); r = push_bit 8 r; v = drop_bit 8 v;
         r = r OR (v AND 0x0ff); r = push_bit 8 r; v = drop_bit 8 v
     in r OR (v AND 0x0ff))"

type_synonym bytes = "nat \<Rightarrow> u8"

definition buildword :: "bytes \<Rightarrow> u32" where
  "buildword p =
    (let r = ucast (p 0); r = push_bit 8 r; r = r OR ucast (p 1); r = push_bit 8 r; r = r OR ucast (p 2); r = push_bit 8 r
     in r OR ucast (p 3))"

definition buildswap :: "bytes \<Rightarrow> u32" where
  "buildswap p =
    (let r = ucast (p 3); r = push_bit 8 r; r = r OR ucast (p 2); r = push_bit 8 r; r = r OR ucast (p 1); r = push_bit 8 r
     in r OR ucast (p 0))"

definition byteswapbuf :: "nat \<Rightarrow> u32 list \<Rightarrow> u32 list" where
  "byteswapbuf ln buf = map byteswap (take ln buf) @ drop ln buf"

text \<open>A buffer of words, read as bytes by the (little-endian) host.\<close>

definition host_byte :: "u32 list \<Rightarrow> bytes" where
  "host_byte buf i = ucast (drop_bit (8 * (i mod 4)) (buf ! (i div 4)))"

section \<open>The bus\<close>

abbreviation (input) R_ICONTROL :: u32 where "R_ICONTROL \<equiv> 0x00000400"
abbreviation (input) R_QSPI_EREG :: u32 where "R_QSPI_EREG \<equiv> 0x00000c00"
abbreviation (input) ISPIF_EN :: u32 where "ISPIF_EN \<equiv> 0x88000800"
abbreviation (input) ISPIF_DIS :: u32 where "ISPIF_DIS \<equiv> 0x08000000"
abbreviation (input) ERASEFLAG :: u32 where "ERASEFLAG \<equiv> 0x80000000"
abbreviation (input) DISABLEWP :: u32 where "DISABLEWP \<equiv> 0x10000000"
abbreviation (input) ENABLEWP :: u32 where "ENABLEWP \<equiv> 0x00000000"
abbreviation (input) SZPAGEB :: u32 where "SZPAGEB \<equiv> 256"
abbreviation (input) PGLENB :: u32 where "PGLENB \<equiv> 256"
abbreviation (input) SZPAGEW :: nat where "SZPAGEW \<equiv> 64"
abbreviation (input) NPAGES :: nat where "NPAGES \<equiv> 256"
abbreviation (input) SECTORSZB :: u32 where "SECTORSZB \<equiv> 0x10000"

definition SECTOROF :: "u32 \<Rightarrow> u32" where "SECTOROF A = A AND (- 0x10000)"
definition PAGEOF :: "u32 \<Rightarrow> u32" where "PAGEOF A = A AND (- 0x100)"

datatype bevent =
    BWriteio u32 u32
  | BReadio u32 u32
  | BWritei u32 "u32 list"
  | BReadi u32 "u32 list"
  | BClear
  | BPoll bool
  | BSleep u32

datatype bquery = QReadio u32 | QReadi u32 | QPoll

type_synonym bhist = "bevent list"
type_synonym benv = "bhist \<Rightarrow> bquery \<Rightarrow> nat \<Rightarrow> u32"

definition bus_writeio :: "u32 \<Rightarrow> u32 \<Rightarrow> bhist \<Rightarrow> bhist" where "bus_writeio a v h = BWriteio a v # h"
definition bus_writei :: "u32 \<Rightarrow> u32 list \<Rightarrow> bhist \<Rightarrow> bhist" where "bus_writei a ws h = BWritei a ws # h"

definition bus_readio :: "benv \<Rightarrow> u32 \<Rightarrow> bhist \<Rightarrow> u32 \<times> bhist" where
  "bus_readio env a h = (let v = env h (QReadio a) 0 in (v, BReadio a v # h))"

definition bus_readi :: "benv \<Rightarrow> u32 \<Rightarrow> nat \<Rightarrow> bhist \<Rightarrow> u32 list \<times> bhist" where
  "bus_readi env a len h = (let vs = map (env h (QReadi a)) [0..<len] in (vs, BReadi a vs # h))"

definition bpoll :: "benv \<Rightarrow> bhist \<Rightarrow> bool \<times> bhist" where
  "bpoll env h = (let b = (env h QPoll 0 \<noteq> 0) in (b, BPoll b # h))"

section \<open>The driver\<close>

partial_function (option) flwait_loop :: "benv \<Rightarrow> bhist \<Rightarrow> bhist option" where
  "flwait_loop env h =
    (let (v, h1) = bus_readio env R_QSPI_EREG h
     in if v AND ERASEFLAG \<noteq> 0
        then (let (b, h2) = bpoll env (BSleep 400 # h1)
              in flwait_loop env (if b then bus_writeio R_ICONTROL ISPIF_EN (BClear # h2) else h2))
        else Some h1)"

definition flwait :: "benv \<Rightarrow> bhist \<Rightarrow> bhist option" where
  "flwait env h =
    (let (v, h1) = bus_readio env R_QSPI_EREG h
     in if v AND ERASEFLAG = 0 then Some h1
        else flwait_loop env (bus_writeio R_ICONTROL ISPIF_EN (BClear # bus_writeio R_ICONTROL ISPIF_DIS h1)))"

text \<open>The verification of an erased sector: the pages from the \<open>i\<close>-th on, \<open>n\<close> of them.\<close>

primrec erase_verify :: "benv \<Rightarrow> u32 \<Rightarrow> nat \<Rightarrow> nat \<Rightarrow> bhist \<Rightarrow> bool \<times> bhist" where
  "erase_verify env sector i 0 h = (True, h)"
| "erase_verify env sector i (Suc n) h =
    (let (page, h1) = bus_readi env (sector + of_nat i * of_nat SZPAGEW) SZPAGEW h
     in if list_ex (\<lambda>w. w \<noteq> 0xffffffff) page then (False, h1) else erase_verify env sector (i + 1) n h1)"

definition drv_erase_sector :: "benv \<Rightarrow> u32 \<Rightarrow> bool \<Rightarrow> bhist \<Rightarrow> (bool \<times> bhist) option" where
  "drv_erase_sector env sector verify_erase h =
    do {
      h1 \<leftarrow> flwait env (bus_writeio R_QSPI_EREG (ERASEFLAG + drop_bit 2 sector) (bus_writeio R_QSPI_EREG DISABLEWP h));
      Some (if verify_erase then erase_verify env sector 0 NPAGES h1 else (True, h1))
    }"

definition page_words :: "bytes \<Rightarrow> nat \<Rightarrow> u32 list" where
  "page_words data len = map (\<lambda>i. buildword (\<lambda>k. data (4 * i + k))) [0..<(len + 3) div 4]"

definition page_program :: "benv \<Rightarrow> u32 \<Rightarrow> u32 \<Rightarrow> bytes \<Rightarrow> bool \<Rightarrow> bhist \<Rightarrow> (bool \<times> bhist) option" where
  "page_program env addr len data verify_write h =
    (if len > 0 \<and> len \<le> PGLENB \<and> PAGEOF addr = PAGEOF (addr + len - 1)
     then let bswapd = page_words data (unat len);
              empty_page = list_all (\<lambda>v. v = 0xffffffff) bswapd
       in do {
         h1 \<leftarrow> (if \<not> empty_page
           then flwait env (bus_writei addr (take (unat (drop_bit 2 len)) bswapd) (bus_writeio R_QSPI_EREG DISABLEWP
                  (bus_writeio R_ICONTROL ISPIF_EN (BClear # bus_writeio R_ICONTROL ISPIF_DIS h))))
           else Some h);
         Some (if verify_write
           then let (buf, h2) = bus_readi env addr (unat (drop_bit 2 len)) h1
                in (buf = take (unat (drop_bit 2 len)) bswapd, h2)
           else (True, h1))
       }
     else None)"

text \<open>The comparison of a sector with what it shall hold: whether to erase, and where to begin to program (0: nowhere).\<close>

primrec need_scan :: "bytes \<Rightarrow> bytes \<Rightarrow> u32 \<Rightarrow> nat \<Rightarrow> nat \<Rightarrow> u32 \<Rightarrow> bool \<times> u32" where
  "need_scan sbuf dp base i 0 newv = (False, newv)"
| "need_scan sbuf dp base i (Suc n) newv =
    (if sbuf i AND dp i \<noteq> dp i then (True, (of_nat i AND (- 4)) + base)
     else need_scan sbuf dp base (i + 1) n (if sbuf i \<noteq> dp i \<and> newv = 0 then (of_nat i AND (- 4)) + base else newv))"

definition sector_scan :: "benv \<Rightarrow> u32 \<Rightarrow> u32 \<Rightarrow> bytes \<Rightarrow> u32 \<Rightarrow> bhist \<Rightarrow> (bool \<times> u32) \<times> bhist" where
  "sector_scan env addr len data s h =
    (let base = (if addr > s then addr else s);
         ln = (if addr + len > s + SECTORSZB then s + SECTORSZB else addr + len) - base;
         (vs, h1) = bus_readi env base (unat (drop_bit 2 ln)) h;
         sbuf = host_byte (byteswapbuf (unat (drop_bit 2 ln)) vs)
     in (need_scan sbuf (\<lambda>i. data (unat (base - addr) + i)) base 0 (unat ln) 0, h1))"

partial_function (option) page_loop :: "benv \<Rightarrow> u32 \<Rightarrow> u32 \<Rightarrow> bytes \<Rightarrow> bool \<Rightarrow> u32 \<Rightarrow> u32 \<Rightarrow> bhist \<Rightarrow> (bool \<times> bhist) option" where
  "page_loop env addr len data verify s p h =
    (if p < s + SECTORSZB \<and> p < addr + len
     then do {
       x \<leftarrow> page_program env p
         (if PAGEOF (p + (addr + len - p) - 1) \<noteq> PAGEOF p then PAGEOF (p + PGLENB) - p else addr + len - p)
         (\<lambda>i. data (unat (p - addr) + i)) verify h;
       if fst x then page_loop env addr len data verify s (PAGEOF (p + PGLENB)) (snd x) else Some x
     }
     else Some (True, h))"

definition write_sector :: "benv \<Rightarrow> u32 \<Rightarrow> u32 \<Rightarrow> bytes \<Rightarrow> bool \<Rightarrow> u32 \<Rightarrow> bhist \<Rightarrow> (bool \<times> bhist) option" where
  "write_sector env addr len data verify s h =
    (let ((need_erase, newv), h1) = sector_scan env addr len data s h
     in if newv = 0 then Some (True, h1)
        else if need_erase
        then do {
          x \<leftarrow> drv_erase_sector env s verify h1;
          if fst x then page_loop env addr len data verify s (if s < addr then addr else s) (snd x) else Some x
        }
        else page_loop env addr len data verify s newv h1)"

partial_function (option) sector_loop :: "benv \<Rightarrow> u32 \<Rightarrow> u32 \<Rightarrow> bytes \<Rightarrow> bool \<Rightarrow> u32 \<Rightarrow> bhist \<Rightarrow> (bool \<times> bhist) option" where
  "sector_loop env addr len data verify s h =
    (if s < SECTOROF (addr + len + SECTORSZB - 1)
     then do {
       x \<leftarrow> write_sector env addr len data verify s h;
       if fst x then sector_loop env addr len data verify (s + SECTORSZB) (snd x) else Some x
     }
     else Some (True, h))"

definition flashdrvr_write :: "benv \<Rightarrow> u32 \<Rightarrow> u32 \<Rightarrow> bytes \<Rightarrow> bool \<Rightarrow> bhist \<Rightarrow> (bool \<times> bhist) option" where
  "flashdrvr_write env addr len data verify h =
    do {
      (ok, h1) \<leftarrow> sector_loop env addr len data verify (SECTOROF addr) h;
      Some (if ok then (True, bus_writeio R_QSPI_EREG ENABLEWP h1) else (False, h1))
    }"

section \<open>Bytes of words\<close>

text \<open>Byte \<open>k\<close> of a word, the most significant first.\<close>

definition be_byte :: "u32 \<Rightarrow> nat \<Rightarrow> u8" where
  "be_byte w k = ucast (drop_bit (24 - 8 * k) w)"

lemma less_4_cases: "k < 4 \<Longrightarrow> k = 0 \<or> k = 1 \<or> k = 2 \<or> k = (3 :: nat)"
  by arith

lemma byte_mask: "(0x0ff :: u32) = mask 8"
  by (simp add: mask_eq_exp_minus_1)

lemmas byte_bits = Let_def byte_mask bit_or_iff bit_push_bit_iff bit_and_iff bit_drop_bit_eq bit_mask_iff bit_ucast_iff

lemma bit_byteswap:
  assumes "r < 8"
  shows "bit (byteswap v) r \<longleftrightarrow> bit v (24 + r)" "bit (byteswap v) (8 + r) \<longleftrightarrow> bit v (16 + r)"
    "bit (byteswap v) (16 + r) \<longleftrightarrow> bit v (8 + r)" "bit (byteswap v) (24 + r) \<longleftrightarrow> bit v r"
  using assms by (simp_all only: byteswap_def byte_bits o_def) (auto simp: possible_bit_def)

lemma byte_high: "8 \<le> n \<Longrightarrow> \<not> bit (c :: u8) n"
  by (simp add: impossible_bit)

lemma bit_buildword:
  assumes "r < 8"
  shows "bit (buildword p) r \<longleftrightarrow> bit (p 3) r" "bit (buildword p) (8 + r) \<longleftrightarrow> bit (p 2) r"
    "bit (buildword p) (16 + r) \<longleftrightarrow> bit (p 1) r" "bit (buildword p) (24 + r) \<longleftrightarrow> bit (p 0) r"
  using assms by (simp_all only: buildword_def byte_bits o_def) (auto simp: possible_bit_def byte_high)

text \<open>A bit is in one of the four bytes.\<close>

lemma byte_cases:
  assumes "n < (32 :: nat)"
  obtains r where "r < 8" "n = r \<or> n = 8 + r \<or> n = 16 + r \<or> n = 24 + r"
proof -
  have "n = n mod 8 \<or> n = 8 + n mod 8 \<or> n = 16 + n mod 8 \<or> n = 24 + n mod 8"
    using assms by presburger
  then show thesis
    using that [of "n mod 8"] by simp
qed

text \<open>Swapping twice, and building a word in the other order, are what they should be.\<close>

lemma byteswap_byteswap [simp]: "byteswap (byteswap v) = v"
proof (rule bit_word_eqI)
  fix n assume "n < LENGTH(32)"
  then obtain r where "r < 8" "n = r \<or> n = 8 + r \<or> n = 16 + r \<or> n = 24 + r"
    using byte_cases [of n] by auto
  then show "bit (byteswap (byteswap v)) n \<longleftrightarrow> bit v n"
    by (auto simp: bit_byteswap)
qed

lemma be_byte_buildword:
  assumes "k < 4"
  shows "be_byte (buildword p) k = p k"
proof (rule bit_word_eqI)
  fix n assume "n < LENGTH(8)"
  then have "n < 8" by simp
  moreover have "k = 0 \<or> k = 1 \<or> k = 2 \<or> k = 3"
    using assms by arith
  ultimately show "bit (be_byte (buildword p) k) n \<longleftrightarrow> bit (p k) n"
    by (elim disjE) (simp_all add: be_byte_def bit_ucast_iff bit_drop_bit_eq bit_buildword bit_buildword [of n, simplified])
qed

text \<open>The bytes of a swapped buffer are those of its words, the most significant first.\<close>

lemma host_byte_swapped:
  assumes "i div 4 < length buf" "i div 4 < ln"
  shows "host_byte (byteswapbuf ln buf) i = be_byte (buf ! (i div 4)) (i mod 4)"
proof -
  have nth: "byteswapbuf ln buf ! (i div 4) = byteswap (buf ! (i div 4))"
    using assms by (simp add: byteswapbuf_def nth_append)
  show ?thesis
  proof (rule bit_word_eqI)
    fix n assume "n < LENGTH(8)"
    then have "n < 8" by simp
    moreover have "i mod 4 = 0 \<or> i mod 4 = 1 \<or> i mod 4 = 2 \<or> i mod 4 = 3"
      by arith
    ultimately show "bit (host_byte (byteswapbuf ln buf) i) n \<longleftrightarrow> bit (be_byte (buf ! (i div 4)) (i mod 4)) n"
      unfolding host_byte_def nth
      by (elim disjE) (simp_all add: be_byte_def bit_ucast_iff bit_drop_bit_eq bit_byteswap bit_byteswap [of n, simplified])
  qed
qed

lemma word_from_bytes: "(\<And>k. k < 4 \<Longrightarrow> be_byte v k = be_byte w k) \<Longrightarrow> v = w"
proof (rule bit_word_eqI)
  fix n assume h: "\<And>k. k < 4 \<Longrightarrow> be_byte v k = be_byte w k" and "n < LENGTH(32)"
  then obtain r where r: "r < 8" "n = r \<or> n = 8 + r \<or> n = 16 + r \<or> n = 24 + r"
    using byte_cases [of n] by auto
  have "bit (be_byte v k) r = bit (be_byte w k) r" if "k < 4" for k
    using h that by simp
  from this [of 0] this [of 1] this [of 2] this [of 3] r show "bit v n \<longleftrightarrow> bit w n"
    by (auto simp: be_byte_def bit_ucast_iff bit_drop_bit_eq)
qed

section \<open>Addresses\<close>

lemma unat_and_not_mask: "unat ((x :: u32) AND NOT (mask n)) = unat x div 2 ^ n * 2 ^ n"
proof -
  have "x AND NOT (mask n) = push_bit n (drop_bit n x)"
    by (rule bit_word_eqI) (auto simp: bit_simps)
  then have "unat (x AND NOT (mask n)) = take_bit 32 (unat x div 2 ^ n * 2 ^ n)"
    by (simp only: unsigned_push_bit_eq unat_drop_bit_div) (simp add: push_bit_eq_mult)
  moreover have "unat x div 2 ^ n * 2 ^ n < 2 ^ 32"
    by (rule le_less_trans [OF div_times_less_eq_dividend]) (use unat_u32_less [of x] in simp)
  ultimately show ?thesis
    by (simp add: take_bit_nat_eq_self)
qed

lemma unat_PAGEOF [simp]: "unat (PAGEOF a) = unat a div 256 * 256"
proof -
  have "(- 0x100 :: u32) = NOT (mask 8)"
    by (simp add: mask_eq_exp_minus_1 not_eq_complement)
  then show ?thesis
    unfolding PAGEOF_def using unat_and_not_mask [of a 8] by simp
qed

lemma unat_SECTOROF [simp]: "unat (SECTOROF a) = unat a div 0x10000 * 0x10000"
proof -
  have "(- 0x10000 :: u32) = NOT (mask 16)"
    by (simp add: mask_eq_exp_minus_1 not_eq_complement)
  then show ?thesis
    unfolding SECTOROF_def using unat_and_not_mask [of a 16] by simp
qed

lemma unat_and_minus_4: "unat ((x :: u32) AND (- 4)) = unat x div 4 * 4"
proof -
  have "(- 4 :: u32) = NOT (mask 2)"
    by (simp add: mask_eq_exp_minus_1 not_eq_complement)
  then show ?thesis
    using unat_and_not_mask [of x 2] by simp
qed

lemma unat_add_small: "unat a + unat b < 2 ^ 32 \<Longrightarrow> unat (a + b :: u32) = unat a + unat b"
  by (simp add: unat_word_ariths)

lemma unat_sub_small: "unat b \<le> unat a \<Longrightarrow> unat (a - b :: u32) = unat a - unat b"
  by (simp add: unat_sub word_le_nat_alt)

section \<open>What a flash does\<close>

text \<open>
  The documented behaviour of the device: an erase command sets a block to ones, programming clears bits, and a read gives
  the bytes of the memory. The memory is a function of the history of the bus.
\<close>

definition erase_block :: "u32 \<Rightarrow> bytes \<Rightarrow> bytes" where
  "erase_block v m = (\<lambda>x. if x div 0x10000 = 4 * unat (v AND 0x7fffffff) div 0x10000 then 0xff else m x)"

definition program_words :: "u32 \<Rightarrow> u32 list \<Rightarrow> bytes \<Rightarrow> bytes" where
  "program_words a ws m = (\<lambda>x. if unat a \<le> x \<and> x < unat a + 4 * length ws
    then m x AND be_byte (ws ! ((x - unat a) div 4)) ((x - unat a) mod 4) else m x)"

fun flash_mem :: "bytes \<Rightarrow> bhist \<Rightarrow> bytes" where
  "flash_mem m [] = m"
| "flash_mem m (BWriteio a v # h) =
    (if a = R_QSPI_EREG \<and> v AND ERASEFLAG \<noteq> 0 then erase_block v (flash_mem m h) else flash_mem m h)"
| "flash_mem m (BWritei a ws # h) = program_words a ws (flash_mem m h)"
| "flash_mem m (_ # h) = flash_mem m h"

text \<open>One round of the waiting loop.\<close>

definition wait_round :: "benv \<Rightarrow> bhist \<Rightarrow> bhist" where
  "wait_round env h =
    (let h1 = BSleep 400 # snd (bus_readio env R_QSPI_EREG h); (b, h2) = bpoll env h1
     in if b then bus_writeio R_ICONTROL ISPIF_EN (BClear # h2) else h2)"

definition flash_device :: "bytes \<Rightarrow> benv \<Rightarrow> bool" where
  "flash_device m env \<longleftrightarrow>
    (\<forall>h a i k. k < 4 \<longrightarrow> be_byte (env h (QReadi a) i) k = flash_mem m h (unat a + 4 * i + k)) \<and>
    (\<forall>h. \<exists>n. env ((wait_round env ^^ n) h) (QReadio R_QSPI_EREG) 0 AND ERASEFLAG = 0)"

lemma flash_mem_simps [simp]:
  "a \<noteq> R_QSPI_EREG \<Longrightarrow> flash_mem m (bus_writeio a v h) = flash_mem m h"
  "flash_mem m (snd (bus_readio env a h)) = flash_mem m h"
  "flash_mem m (snd (bus_readi env a n h)) = flash_mem m h"
  "flash_mem m (snd (bpoll env h)) = flash_mem m h"
  "flash_mem m (bus_writei a ws h) = program_words a ws (flash_mem m h)"
  "flash_mem m (bus_writeio R_QSPI_EREG DISABLEWP h) = flash_mem m h"
  "flash_mem m (bus_writeio R_QSPI_EREG ENABLEWP h) = flash_mem m h"
  by (simp_all add: bus_writeio_def bus_writei_def bus_readio_def bus_readi_def bpoll_def Let_def)

lemma flash_mem_round [simp]: "flash_mem m (wait_round env h) = flash_mem m h"
  by (simp add: wait_round_def bus_readio_def bpoll_def bus_writeio_def Let_def)

lemma flwait_loop_returns:
  "env ((wait_round env ^^ n) h) (QReadio R_QSPI_EREG) 0 AND ERASEFLAG = 0 \<Longrightarrow>
    \<exists>h1. flwait_loop env h = Some h1 \<and> flash_mem m h1 = flash_mem m h"
proof (induction n arbitrary: h)
  case 0
  then show ?case
    by (subst flwait_loop.simps) (simp add: bus_readio_def Let_def)
next
  case (Suc n)
  show ?case
  proof (cases "env h (QReadio R_QSPI_EREG) 0 AND ERASEFLAG = 0")
    case True
    then show ?thesis
      by (subst flwait_loop.simps) (simp add: bus_readio_def Let_def)
  next
    case False
    then have "flwait_loop env h = flwait_loop env (wait_round env h)"
      by (subst flwait_loop.simps) (simp add: bus_readio_def wait_round_def Let_def case_prod_beta)
    moreover have "(wait_round env ^^ Suc n) h = (wait_round env ^^ n) (wait_round env h)"
      by (simp add: funpow_swap1)
    ultimately show ?thesis
      using Suc.IH [of "wait_round env h"] Suc.prems by simp
  qed
qed

lemma flwait_returns:
  assumes "flash_device m env"
  obtains h1 where "flwait env h = Some h1" "flash_mem m h1 = flash_mem m h"
proof -
  let ?h = "bus_writeio R_ICONTROL ISPIF_EN (BClear # bus_writeio R_ICONTROL ISPIF_DIS (snd (bus_readio env R_QSPI_EREG h)))"
  obtain n where "env ((wait_round env ^^ n) ?h) (QReadio R_QSPI_EREG) 0 AND ERASEFLAG = 0"
    using assms unfolding flash_device_def by blast
  then obtain h1 where "flwait_loop env ?h = Some h1" "flash_mem m h1 = flash_mem m ?h"
    using flwait_loop_returns by blast
  then show thesis
    by (intro that [of "if fst (bus_readio env R_QSPI_EREG h) AND ERASEFLAG = 0 then snd (bus_readio env R_QSPI_EREG h) else h1"])
      (simp_all add: flwait_def case_prod_beta)
qed

lemma device_reads:
  assumes "flash_device m env" "i < 4 * n"
  shows "be_byte (fst (bus_readi env a n h) ! (i div 4)) (i mod 4) = flash_mem m h (unat a + i)"
proof -
  have "i div 4 < n"
    using assms(2) by (simp add: less_mult_imp_div_less mult.commute)
  then have "be_byte (fst (bus_readi env a n h) ! (i div 4)) (i mod 4) = flash_mem m h (unat a + 4 * (i div 4) + i mod 4)"
    using assms(1) by (simp add: bus_readi_def flash_device_def Let_def)
  then show ?thesis
    by (simp add: add.assoc)
qed

section \<open>A page\<close>

text \<open>The bytes \<open>D\<close> programmed over the addresses from \<open>p\<close> to \<open>e\<close>.\<close>

definition burnt :: "nat \<Rightarrow> nat \<Rightarrow> bytes \<Rightarrow> bytes \<Rightarrow> bytes" where
  "burnt p e D M = (\<lambda>x. if p \<le> x \<and> x < e then M x AND D x else M x)"

lemma burnt_append: "p \<le> q \<Longrightarrow> q \<le> e \<Longrightarrow> burnt q e D (burnt p q D M) = burnt p e D M"
  by (auto simp: burnt_def fun_eq_iff)

lemma page_words_bytes:
  assumes "i < 4 * (n div 4)" "n mod 4 = 0"
  shows "be_byte (page_words d n ! (i div 4)) (i mod 4) = d i" "length (page_words d n) = n div 4"
proof -
  have len: "(n + 3) div 4 = n div 4"
    using assms(2) by presburger
  have "i div 4 < n div 4"
    using assms(1) by (simp add: less_mult_imp_div_less mult.commute)
  then show "be_byte (page_words d n ! (i div 4)) (i mod 4) = d i"
    by (simp add: page_words_def len be_byte_buildword)
  show "length (page_words d n) = n div 4"
    by (simp add: page_words_def len)
qed

lemma and_ones [simp]: "(c :: u8) AND 0xff = c"
proof -
  have "(0xff :: u8) = - 1"
    by simp
  then show ?thesis
    by (simp only: and.right_neutral)
qed

lemma page_program_burns:
  assumes dev: "flash_device m env"
    and n: "unat n mod 4 = 0" "0 < unat n" "unat n \<le> 256" "unat p div 256 = (unat p + unat n - 1) div 256"
    and p: "unat p + unat n < 2 ^ 32"
    and ok: "\<And>x. unat p \<le> x \<Longrightarrow> x < unat p + unat n \<Longrightarrow> flash_mem m h x AND D x = D x"
  shows "\<exists>h'. page_program env p n (\<lambda>i. D (unat p + i)) verify h = Some (True, h') \<and>
    flash_mem m h' = burnt (unat p) (unat p + unat n) D (flash_mem m h)"
proof -
  let ?d = "\<lambda>i. D (unat p + i)"
  let ?ws = "page_words ?d (unat n)"
  have four: "4 * (unat n div 4) = unat n"
    using n(1) by presburger
  have len: "length ?ws = unat n div 4" "unat (drop_bit 2 n) = unat n div 4"
    using n(1) four by (simp_all add: page_words_def unat_drop_bit_div)
  have byte: "be_byte (?ws ! (i div 4)) (i mod 4) = ?d i" if "i < unat n" for i
    using page_words_bytes(1) [OF _ n(1), of i ?d] that unfolding four by blast
  have "unat (p + n - 1) = unat p + unat n - 1"
    using p n(2) by (simp add: unat_add_small unat_sub_small)
  then have page: "PAGEOF p = PAGEOF (p + n - 1)"
    using n(4) by (simp add: word_unat_eq_iff)
  have burn: "program_words p ?ws (flash_mem m h) = burnt (unat p) (unat p + unat n) D (flash_mem m h)"
    using byte by (auto simp: program_words_def burnt_def len four fun_eq_iff)
  have empty: "burnt (unat p) (unat p + unat n) D (flash_mem m h) = flash_mem m h" if ones: "list_all (\<lambda>v. v = 0xffffffff) ?ws"
  proof -
    have "D x = 0xff" if x: "unat p \<le> x" "x < unat p + unat n" for x
    proof -
      have "x - unat p < unat n" "(x - unat p) div 4 < length ?ws"
        using x four unfolding len by (auto intro: less_mult_imp_div_less simp: mult.commute)
      moreover from this(2) ones have "?ws ! ((x - unat p) div 4) = 0xffffffff"
        by (simp add: list_all_length)
      ultimately have "D x = be_byte 0xffffffff ((x - unat p) mod 4)"
        using byte [of "x - unat p"] x by simp
      moreover have "be_byte 0xffffffff k = 0xff" if "k < 4" for k
        using that less_4_cases [OF that] by (auto simp: be_byte_def)
      ultimately show ?thesis
        by simp
    qed
    then show ?thesis
      by (auto simp: burnt_def fun_eq_iff)
  qed
  have done1: "\<exists>h1. (if \<not> list_all (\<lambda>v. v = 0xffffffff) ?ws
      then flwait env (bus_writei p (take (unat (drop_bit 2 n)) ?ws) (bus_writeio R_QSPI_EREG DISABLEWP
                  (bus_writeio R_ICONTROL ISPIF_EN (BClear # bus_writeio R_ICONTROL ISPIF_DIS h))))
      else Some h) = Some h1 \<and> flash_mem m h1 = burnt (unat p) (unat p + unat n) D (flash_mem m h)"
  proof (cases "list_all (\<lambda>v. v = 0xffffffff) ?ws")
    case True
    then show ?thesis
      using empty by simp
  next
    case False
    let ?h = "bus_writei p ?ws (bus_writeio R_QSPI_EREG DISABLEWP
        (bus_writeio R_ICONTROL ISPIF_EN (BClear # bus_writeio R_ICONTROL ISPIF_DIS h)))"
    have "flash_mem m ?h = burnt (unat p) (unat p + unat n) D (flash_mem m h)"
      by (simp add: burn)
    moreover obtain h1 where "flwait env ?h = Some h1" "flash_mem m h1 = flash_mem m ?h"
      using flwait_returns [OF dev] by blast
    ultimately have "\<exists>h1. flwait env ?h = Some h1 \<and> flash_mem m h1 = burnt (unat p) (unat p + unat n) D (flash_mem m h)"
      by simp
    with False show ?thesis
      by (simp add: len)
  qed
  then obtain h1 where h1: "(if \<not> list_all (\<lambda>v. v = 0xffffffff) ?ws
      then flwait env (bus_writei p (take (unat (drop_bit 2 n)) ?ws) (bus_writeio R_QSPI_EREG DISABLEWP
                  (bus_writeio R_ICONTROL ISPIF_EN (BClear # bus_writeio R_ICONTROL ISPIF_DIS h))))
      else Some h) = Some h1" "flash_mem m h1 = burnt (unat p) (unat p + unat n) D (flash_mem m h)"
    by blast
  have verified: "fst (bus_readi env p (unat n div 4) h1) = ?ws"
  proof (rule nth_equalityI)
    show "length (fst (bus_readi env p (unat n div 4) h1)) = length ?ws"
      by (simp add: bus_readi_def len Let_def)
    fix i assume "i < length (fst (bus_readi env p (unat n div 4) h1))"
    then have i: "i < unat n div 4"
      by (simp add: bus_readi_def Let_def)
    show "fst (bus_readi env p (unat n div 4) h1) ! i = ?ws ! i"
    proof (rule word_from_bytes)
      fix k :: nat assume k: "k < 4"
      then have ik: "4 * i + k < unat n" "(4 * i + k) div 4 = i" "(4 * i + k) mod 4 = k"
        using i four by auto
      have "flash_mem m h1 (unat p + (4 * i + k)) = D (unat p + (4 * i + k))"
        unfolding h1(2) burnt_def using ik(1) ok by simp
      then show "be_byte (fst (bus_readi env p (unat n div 4) h1) ! i) k = be_byte (?ws ! i) k"
        using device_reads [OF dev, of "4 * i + k" "unat n div 4" p h1] byte [OF ik(1)] ik four by simp
    qed
  qed
  have "n > 0" "n \<le> PGLENB"
    using n(2,3) by (simp_all add: word_less_nat_alt word_le_nat_alt)
  then show ?thesis
    using page h1 verified
    by (auto simp: page_program_def Let_def len case_prod_beta split: if_split_asm)
qed

section \<open>The pages of a sector\<close>

text \<open>How a page is cut: \<open>n\<close> bytes from \<open>P\<close>, to the end of the page or of what there is to write.\<close>

lemma clip_page:
  fixes P L S :: nat
  assumes "S mod 0x10000 = 0" "S \<le> P" "P mod 4 = 0" "L mod 4 = 0" "P < S + 0x10000" "P < L"
    and n: "n = (if (L - 1) div 256 \<noteq> P div 256 then (P + 256) div 256 * 256 - P else L - P)"
  shows "0 < n" "n \<le> 256" "n mod 4 = 0" "P div 256 = (P + n - 1) div 256" "P + n \<le> min (S + 0x10000) L"
    "(P + 256) div 256 * 256 = P + n \<or> P + n = min (S + 0x10000) L \<and> P + n \<le> (P + 256) div 256 * 256"
proof -
  define q where "q = P div 256"
  have P: "256 * q \<le> P" "P < 256 * q + 256"
    using div_mult_mod_eq [of P 256] by (simp_all add: q_def)
  have next_page: "(P + 256) div 256 * 256 = 256 * q + 256"
    using div_add_self2 [of 256 P] by (simp add: q_def)
  from assms(1) obtain b where "S = 0x10000 * b"
    unfolding dvd_eq_mod_eq_0 [symmetric] by (rule dvdE)
  then obtain a where a: "S = 256 * (256 * a)"
    by auto
  have "q < 256 * a + 256"
    using P(1) assms(5) a by linarith
  then have sector: "256 * q + 256 \<le> S + 0x10000"
    using a by linarith
  have mod4: "(256 * q + 256 - P) mod 4 = 0" "(L - P) mod 4 = 0"
    using assms(3,4,6) P(2) by (auto simp: mod_eq_0_iff_dvd intro!: dvd_diff_nat)
  have "0 < n \<and> n \<le> 256 \<and> n mod 4 = 0 \<and> P + n \<le> min (S + 0x10000) L \<and> P + n \<le> 256 * q + 256 \<and>
      (256 * q + 256 = P + n \<or> P + n = min (S + 0x10000) L \<and> P + n \<le> 256 * q + 256)"
  proof (cases "(L - 1) div 256 = q")
    case False
    have "q \<le> (L - 1) div 256"
      unfolding q_def using assms(6) by (intro div_le_mono) simp
    then have "256 * q + 256 \<le> L - 1"
      using False times_div_less_eq_dividend [of 256 "L - 1"] by linarith
    moreover have cut: "n = 256 * q + 256 - P"
      using False n next_page by (simp add: q_def)
    ultimately have "0 < n" "n \<le> 256" "P + n = 256 * q + 256" "P + n \<le> S + 0x10000" "P + n \<le> L"
      using P sector by linarith+
    then show ?thesis
      using mod4(1) cut by simp
  next
    case True
    then have "L - 1 < 256 * q + 256"
      using dividend_less_times_div [of 256 "L - 1"] by simp
    moreover have cut: "n = L - P"
      using True n by (simp add: q_def)
    ultimately have "0 < n" "n \<le> 256" "P + n = L" "L \<le> 256 * q + 256" "L \<le> S + 0x10000"
      using P sector assms(6) by linarith+
    then show ?thesis
      using mod4(2) cut by simp
  qed
  moreover from this have "(P + n - 1) div 256 = q"
    using P(1) by (intro div_nat_eqI) auto
  ultimately show "0 < n" "n \<le> 256" "n mod 4 = 0" "P div 256 = (P + n - 1) div 256" "P + n \<le> min (S + 0x10000) L"
    "(P + 256) div 256 * 256 = P + n \<or> P + n = min (S + 0x10000) L \<and> P + n \<le> (P + 256) div 256 * 256"
    unfolding next_page by (auto simp: q_def)
qed

text \<open>What the driver is asked to do: \<open>len\<close> bytes at \<open>addr\<close>, in whole words, away from the end of the address space.\<close>

definition write_ok :: "u32 \<Rightarrow> u32 \<Rightarrow> bool" where
  "write_ok addr len \<longleftrightarrow> unat addr mod 4 = 0 \<and> unat len mod 4 = 0 \<and> 0 < unat addr \<and> unat addr + unat len + 0x20000 \<le> 2 ^ 32"

text \<open>The byte that shall be at an address.\<close>

definition wanted :: "u32 \<Rightarrow> bytes \<Rightarrow> bytes" where
  "wanted addr data = (\<lambda>x. data (x - unat addr))"

lemma wanted_from: "unat addr \<le> unat p \<Longrightarrow> (\<lambda>i. data (unat (p - addr) + i)) = (\<lambda>i. wanted addr data (unat p + i))"
  by (simp add: wanted_def unat_sub_small)

lemma page_loop_burns:
  assumes dev: "flash_device m env" and wr: "write_ok addr len"
    and s: "unat s mod 0x10000 = 0" "unat s < unat addr + unat len"
  shows "unat s \<le> unat p \<Longrightarrow> unat addr \<le> unat p \<Longrightarrow> unat p mod 4 = 0 \<Longrightarrow> unat p < 2 ^ 32 - 0x10000 \<Longrightarrow>
    (\<And>x. unat p \<le> x \<Longrightarrow> x < min (unat s + 0x10000) (unat addr + unat len) \<Longrightarrow>
      flash_mem m h x AND wanted addr data x = wanted addr data x) \<Longrightarrow>
    \<exists>h'. page_loop env addr len data verify s p h = Some (True, h') \<and>
      flash_mem m h' = burnt (unat p) (min (unat s + 0x10000) (unat addr + unat len)) (wanted addr data) (flash_mem m h)"
proof (induction "2 ^ 32 - unat p" arbitrary: p h rule: less_induct)
  case less
  let ?D = "wanted addr data"
  let ?L = "unat addr + unat len"
  let ?E = "min (unat s + 0x10000) ?L"
  have words: "unat (addr + len) = ?L" "unat (s + SECTORSZB) = unat s + 0x10000"
    using wr s(2) by (simp_all add: write_ok_def unat_add_small)
  then have more: "p < s + SECTORSZB \<and> p < addr + len \<longleftrightarrow> unat p < ?E"
    by (simp add: word_less_nat_alt)
  show ?case
  proof (cases "unat p < ?E")
    case False
    then have "burnt (unat p) ?E ?D (flash_mem m h) = flash_mem m h"
      by (auto simp: burnt_def fun_eq_iff)
    moreover have "page_loop env addr len data verify s p h = Some (True, h)"
      by (subst page_loop.simps) (simp only: more False if_False)
    ultimately show ?thesis
      by simp
  next
    case True
    define n where "n = (if PAGEOF (p + (addr + len - p) - 1) \<noteq> PAGEOF p then PAGEOF (p + PGLENB) - p else addr + len - p)"
    let ?p = "PAGEOF (p + PGLENB)"
    have plus: "unat (p + PGLENB) = unat p + 256"
      using less.prems(4) by (simp add: unat_add_small)
    have end_page: "unat (p + (addr + len - p) - 1) = ?L - 1"
      using True words by (simp add: unat_sub_small)
    have "(PAGEOF (p + (addr + len - p) - 1) \<noteq> PAGEOF p) = ((?L - 1) div 256 \<noteq> unat p div 256)"
      unfolding word_unat_eq_iff unat_PAGEOF end_page by simp
    moreover have next_gt: "unat p \<le> unat ?p"
      unfolding unat_PAGEOF plus using div_mult_mod_eq [of "unat p + 256" 256] by linarith
    ultimately have n: "unat n = (if (?L - 1) div 256 \<noteq> unat p div 256 then (unat p + 256) div 256 * 256 - unat p else ?L - unat p)"
      using True words by (simp add: n_def unat_sub_small plus)
    have L4: "?L mod 4 = 0"
      using wr by (auto simp: write_ok_def mod_eq_0_iff_dvd)
    have ps: "unat p < unat s + 0x10000" "unat p < ?L"
      using True by simp_all
    note clip = clip_page [OF s(1) less.prems(1,3) L4 ps n]
    have fit: "unat p + unat n < 2 ^ 32"
      using clip(5) wr by (simp add: write_ok_def)
    have sub: "flash_mem m h x AND ?D x = ?D x" if "unat p \<le> x" "x < unat p + unat n" for x
      using less.prems(5) [of x] that clip(5) by simp
    obtain h1 where h1: "page_program env p n (\<lambda>i. ?D (unat p + i)) verify h = Some (True, h1)"
      "flash_mem m h1 = burnt (unat p) (unat p + unat n) ?D (flash_mem m h)"
      using page_program_burns [OF dev clip(3,1,2,4) fit sub] by blast
    have step: "page_loop env addr len data verify s p h = page_loop env addr len data verify s ?p h1"
      by (subst page_loop.simps)
        (simp only: more True if_True wanted_from [OF less.prems(2)] n_def [symmetric] h1(1) Option.bind.simps fst_conv snd_conv)
    have np: "unat ?p = (unat p + 256) div 256 * 256"
      by (simp add: plus)
    have "unat p < unat ?p"
      unfolding np using div_mult_mod_eq [of "unat p + 256" 256] mod_less_divisor [of 256 "unat p + 256"] by linarith
    then have down: "2 ^ 32 - unat ?p < 2 ^ 32 - unat p"
      using less.prems(4) by simp
    have "unat ?p \<le> unat p + 256"
      unfolding np by (rule div_times_less_eq_dividend)
    then have "unat ?p < 2 ^ 32 - 0x10000"
      using ps wr unfolding write_ok_def by linarith
    moreover have "unat ?p mod 4 = 0"
      unfolding np by (simp add: mod_eq_0_iff_dvd)
    moreover have ok: "flash_mem m h1 x AND ?D x = ?D x" if "unat ?p \<le> x" "x < ?E" for x
      using less.prems(5) [of x] that next_gt by (auto simp: h1(2) burnt_def)
    ultimately obtain h' where h': "page_loop env addr len data verify s ?p h1 = Some (True, h')"
      "flash_mem m h' = burnt (unat ?p) ?E ?D (flash_mem m h1)"
      using less.hyps [OF down, of h1] less.prems(1,2) next_gt by auto
    have "burnt (unat ?p) ?E ?D (burnt (unat p) (unat p + unat n) ?D (flash_mem m h)) = burnt (unat p) ?E ?D (flash_mem m h)"
    proof (cases "unat ?p = unat p + unat n")
      case True
      then show ?thesis
        using clip(5) by (simp only: burnt_append)
    next
      case False
      then have "unat p + unat n = ?E" "?E \<le> unat ?p"
        using clip(6) np by auto
      then show ?thesis
        by (auto simp: burnt_def fun_eq_iff)
    qed
    then show ?thesis
      using step h' h1(2) by simp
  qed
qed

section \<open>A sector\<close>

text \<open>The scan finds whether the bits to be written are there, and the word where the difference begins.\<close>

definition scan_from :: "bytes \<Rightarrow> bytes \<Rightarrow> u32 \<Rightarrow> nat \<Rightarrow> nat \<Rightarrow> u32 \<Rightarrow> bool" where
  "scan_from sbuf dp base i e nv \<longleftrightarrow> nv = 0 \<and> (\<forall>j. i \<le> j \<and> j < e \<longrightarrow> sbuf j = dp j) \<or>
    (\<exists>j. i \<le> j \<and> j < e \<and> unat nv = unat base + j div 4 * 4 \<and> (\<forall>k. i \<le> k \<and> k < j \<longrightarrow> sbuf k = dp k))"

lemma scan_from_step:
  assumes "sbuf i = dp i" "scan_from sbuf dp base (i + 1) e nv"
  shows "scan_from sbuf dp base i e nv"
proof -
  consider "nv = 0" "\<forall>j. i + 1 \<le> j \<and> j < e \<longrightarrow> sbuf j = dp j"
    | j where "i + 1 \<le> j" "j < e" "unat nv = unat base + j div 4 * 4" "\<forall>k. i + 1 \<le> k \<and> k < j \<longrightarrow> sbuf k = dp k"
    using assms(2) unfolding scan_from_def by blast
  then show ?thesis
  proof cases
    case 1
    have "sbuf j = dp j" if "i \<le> j" "j < e" for j
      using 1(2) that assms(1) by (cases "j = i") auto
    with 1(1) show ?thesis
      by (simp add: scan_from_def)
  next
    case (2 j)
    have "sbuf k = dp k" if "i \<le> k" "k < j" for k
      using 2(4) that assms(1) by (cases "k = i") auto
    with 2(1-3) show ?thesis
      unfolding scan_from_def by (intro disjI2 exI [of _ j]) simp
  qed
qed

lemma need_scan_spec:
  assumes "unat base mod 4 = 0" "0 < unat base" "unat base + i + n < 2 ^ 32"
  shows "need_scan sbuf dp base i n newv = (need, nv) \<Longrightarrow>
    (need \<longrightarrow> nv \<noteq> 0) \<and> (\<not> need \<longrightarrow> (\<forall>j. i \<le> j \<and> j < i + n \<longrightarrow> sbuf j AND dp j = dp j)) \<and>
    (\<not> need \<and> newv \<noteq> 0 \<longrightarrow> nv = newv) \<and>
    (\<not> need \<and> newv = 0 \<longrightarrow> scan_from sbuf dp base i (i + n) nv)"
  using assms
proof (induction n arbitrary: i newv)
  case (Suc n)
  define nw where "nw = (of_nat i AND (- 4)) + base"
  have small: "i < 2 ^ 32" "i div 4 * 4 \<le> i"
    using Suc.prems(4) by simp_all
  then have nw: "unat nw = unat base + i div 4 * 4"
    unfolding nw_def using Suc.prems(4) by (subst unat_add_small) (simp_all add: unat_and_minus_4 unat_of_nat_u32)
  then have nw0: "nw \<noteq> 0"
    using Suc.prems(3) by (metis add_gr_0 unat_0 less_irrefl)
  show ?case
  proof (cases "sbuf i AND dp i = dp i")
    case False
    then show ?thesis
      using Suc.prems(1) nw0 by (auto simp: nw_def)
  next
    case True
    let ?newv = "if sbuf i \<noteq> dp i \<and> newv = 0 then nw else newv"
    have rest: "need_scan sbuf dp base (i + 1) n ?newv = (need, nv)"
      using Suc.prems(1) True by (simp only: need_scan.simps nw_def simp_thms if_False)
    have ends: "i + Suc n = i + 1 + n"
      by simp
    have fits: "unat base + (i + 1) + n < 2 ^ 32"
      using Suc.prems(4) by simp
    note ih = Suc.IH [OF rest Suc.prems(2,3) fits]
    have all: "\<forall>j. i \<le> j \<and> j < i + 1 + n \<longrightarrow> sbuf j AND dp j = dp j" if "\<not> need"
    proof (intro allI impI)
      fix j assume j: "i \<le> j \<and> j < i + 1 + n"
      show "sbuf j AND dp j = dp j"
        using ih that j True by (cases "j = i") auto
    qed
    have scan: "scan_from sbuf dp base i (i + 1 + n) nv" if "\<not> need" "newv = 0"
    proof (cases "sbuf i = dp i")
      case eq: True
      then have "scan_from sbuf dp base (i + 1) (i + 1 + n) nv"
        using ih that by simp
      with eq show ?thesis
        by (rule scan_from_step)
    next
      case False
      then have "nv = nw"
        using ih that nw0 by simp
      then show ?thesis
        unfolding scan_from_def using nw by (intro disjI2 exI [of _ i]) auto
    qed
    have keep: "nv = newv" if "\<not> need" "newv \<noteq> 0"
      using ih that by simp
    show ?thesis
      unfolding ends using ih all scan keep by blast
  qed
qed (auto simp: scan_from_def)

lemma erase_verify_passes:
  assumes "flash_device m env" "\<And>x. unat s \<le> x \<Longrightarrow> x < unat s + 0x10000 \<Longrightarrow> flash_mem m h x = 0xff" "unat s + 0x10000 \<le> 2 ^ 32"
  shows "i + n \<le> 256 \<Longrightarrow> \<exists>h'. erase_verify env s i n h = (True, h') \<and> flash_mem m h' = flash_mem m h"
  using assms(2)
proof (induction n arbitrary: i h)
  case (Suc n)
  let ?a = "s + of_nat i * of_nat SZPAGEW"
  have "of_nat i * of_nat SZPAGEW = (of_nat (64 * i) :: u32)"
    by simp
  then have a: "unat ?a = unat s + 64 * i"
    using Suc.prems(1) assms(3) by (simp only: unat_add_small unat_of_nat_u32)
  have ones: "fst (bus_readi env ?a SZPAGEW h) ! j = 0xffffffff" if "j < 64" for j
  proof (rule word_from_bytes)
    fix k :: nat assume k: "k < 4"
    then have jk: "4 * j + k < 4 * SZPAGEW" "(4 * j + k) div 4 = j" "(4 * j + k) mod 4 = k"
      using that by auto
    have "be_byte (fst (bus_readi env ?a SZPAGEW h) ! j) k = flash_mem m h (unat s + 64 * i + (4 * j + k))"
      using device_reads [OF assms(1) jk(1), of ?a h] a jk(2,3) by simp
    also have "\<dots> = 0xff"
      using jk(1) Suc.prems(1) by (intro Suc.prems(2)) simp_all
    also have "\<dots> = be_byte 0xffffffff k"
      using less_4_cases [OF k] by (auto simp: be_byte_def)
    finally show "be_byte (fst (bus_readi env ?a SZPAGEW h) ! j) k = be_byte 0xffffffff k" .
  qed
  have "length (fst (bus_readi env ?a SZPAGEW h)) = 64"
    by (simp add: bus_readi_def Let_def)
  with ones have page: "\<not> list_ex (\<lambda>w. w \<noteq> 0xffffffff) (fst (bus_readi env ?a SZPAGEW h))"
    by (auto simp: list_ex_length)
  have "\<exists>h'. erase_verify env s (i + 1) n (snd (bus_readi env ?a SZPAGEW h)) = (True, h') \<and>
      flash_mem m h' = flash_mem m (snd (bus_readi env ?a SZPAGEW h))"
    using Suc.prems by (intro Suc.IH) simp_all
  then show ?case
    using page by (simp only: erase_verify.simps case_prod_beta Let_def if_False flash_mem_simps)
qed simp

lemma drv_erase_sector_erases:
  assumes dev: "flash_device m env" and s: "unat s mod 0x10000 = 0" "unat s + 0x10000 \<le> 2 ^ 32"
  shows "\<exists>h'. drv_erase_sector env s verify h = Some (True, h') \<and>
    flash_mem m h' = (\<lambda>x. if unat s \<le> x \<and> x < unat s + 0x10000 then 0xff else flash_mem m h x)"
proof -
  let ?v = "ERASEFLAG + drop_bit 2 s"
  let ?h = "bus_writeio R_QSPI_EREG ?v (bus_writeio R_QSPI_EREG DISABLEWP h)"
  let ?M = "\<lambda>x. if unat s \<le> x \<and> x < unat s + 0x10000 then 0xff else flash_mem m h x"
  have v: "unat ?v = 2 ^ 31 + unat s div 4"
    using unat_u32_less [of s] by (subst unat_add_small) (simp_all add: unat_drop_bit_div)
  have low: "unat (?v AND 0x7fffffff) = unat s div 4"
  proof -
    have "(0x7fffffff :: u32) = mask 31"
      by (simp add: mask_eq_exp_minus_1)
    then have "unat (?v AND 0x7fffffff) = (2 ^ 31 + unat s div 4) mod 2 ^ 31"
      by (simp only: unat_and_mask_eq_mod v)
    then show ?thesis
      using unat_u32_less [of s] by simp
  qed
  have flag: "?v AND ERASEFLAG \<noteq> 0"
  proof
    assume zero: "?v AND ERASEFLAG = 0"
    have "?v = ?v AND - 1"
      by (simp only: and.right_neutral)
    also have "(- 1 :: u32) = 0x7fffffff OR 0x80000000"
      by simp
    also have "?v AND (0x7fffffff OR 0x80000000) = (?v AND 0x7fffffff) OR (?v AND ERASEFLAG)"
      by (rule bit.conj_disj_distrib)
    also have "\<dots> = ?v AND 0x7fffffff"
      by (simp only: zero or.right_neutral)
    finally have "unat ?v = unat s div 4"
      using low by metis
    then have "(2 :: nat) ^ 31 + unat s div 4 = unat s div 4"
      unfolding v .
    then show False
      by simp
  qed
  obtain b where b: "unat s = 0x10000 * b"
    using s(1) unfolding dvd_eq_mod_eq_0 [symmetric] by (rule dvdE)
  have block: "x div 0x10000 = 4 * (unat s div 4) div 0x10000 \<longleftrightarrow> unat s \<le> x \<and> x < unat s + 0x10000" for x
  proof -
    have "4 * (unat s div 4) div 0x10000 = b"
      by (simp add: b)
    moreover have "x div 0x10000 = b \<longleftrightarrow> 0x10000 * b \<le> x \<and> x < 0x10000 * b + 0x10000"
      by (auto simp: div_nat_eqI dest: sym)
    ultimately show ?thesis
      by (simp only: b)
  qed
  have "flash_mem m ?h = erase_block ?v (flash_mem m (bus_writeio R_QSPI_EREG DISABLEWP h))"
    using flag by (simp only: bus_writeio_def flash_mem.simps simp_thms if_True)
  then have erased: "flash_mem m ?h = ?M"
    unfolding erase_block_def low block by (simp cong: if_cong)
  obtain h1 where h1: "flwait env ?h = Some h1" "flash_mem m h1 = ?M"
    using flwait_returns [OF dev, of ?h] unfolding erased by blast
  have "\<exists>h'. erase_verify env s 0 NPAGES h1 = (True, h') \<and> flash_mem m h' = flash_mem m h1"
    by (rule erase_verify_passes [OF dev _ s(2)]) (simp_all add: h1(2))
  then obtain h2 where "erase_verify env s 0 NPAGES h1 = (True, h2)" "flash_mem m h2 = ?M"
    using h1(2) by metis
  then show ?thesis
    using h1 by (cases verify) (simp_all add: drv_erase_sector_def)
qed

lemma write_sector_writes:
  assumes dev: "flash_device m env" and wr: "write_ok addr len"
    and s: "unat s mod 0x10000 = 0" "unat s < unat addr + unat len" "unat addr < unat s + 0x10000"
    and len: "0 < unat len"
  shows "\<exists>h'. write_sector env addr len data verify s h = Some (True, h') \<and>
    (\<forall>x. unat addr \<le> x \<and> unat s \<le> x \<and> x < unat s + 0x10000 \<and> x < unat addr + unat len \<longrightarrow>
      flash_mem m h' x = wanted addr data x) \<and>
    (\<forall>x. x < unat s \<or> unat s + 0x10000 \<le> x \<longrightarrow> flash_mem m h' x = flash_mem m h x)"
proof -
  let ?D = "wanted addr data"
  let ?L = "unat addr + unat len"
  let ?E = "min (unat s + 0x10000) ?L"
  define base where "base = (if addr > s then addr else s)"
  define ln where "ln = (if addr + len > s + SECTORSZB then s + SECTORSZB else addr + len) - base"
  have words: "unat (addr + len) = ?L" "unat (s + SECTORSZB) = unat s + 0x10000"
    using wr s(2) by (simp_all add: write_ok_def unat_add_small)
  have base: "unat base = max (unat addr) (unat s)"
    by (simp add: base_def word_less_nat_alt max_def)
  have range: "unat base < ?E"
    using s(2,3) len by (simp add: base)
  have ln: "unat ln = ?E - unat base"
  proof -
    have "unat (if addr + len > s + SECTORSZB then s + SECTORSZB else addr + len) = ?E"
      using words by (simp add: word_less_nat_alt)
    then show ?thesis
      unfolding ln_def using range by (subst unat_sub_small) (simp_all only: less_imp_le)
  qed
  have s4: "4 dvd unat s"
  proof -
    from s(1) obtain b where "unat s = 0x10000 * b"
      unfolding dvd_eq_mod_eq_0 [symmetric] by (rule dvdE)
    then show ?thesis
      by simp
  qed
  have dvds: "4 dvd unat addr" "4 dvd ?L" "4 dvd unat s + 0x10000"
    using wr s4 by (simp_all add: write_ok_def flip: dvd_eq_mod_eq_0)
  then have base4: "4 dvd unat base" and E4: "4 dvd ?E"
    using s4 by (auto simp: base max_def min_def)
  then have ln4: "4 dvd unat ln"
    unfolding ln by (rule dvd_diff_nat [rotated])
  then have four: "4 * (unat ln div 4) = unat ln"
    by simp
  define h1 where "h1 = snd (bus_readi env base (unat (drop_bit 2 ln)) h)"
  define sbuf where "sbuf = host_byte (byteswapbuf (unat (drop_bit 2 ln)) (fst (bus_readi env base (unat (drop_bit 2 ln)) h)))"
  have mem1: "flash_mem m h1 = flash_mem m h"
    by (simp add: h1_def)
  have sbuf: "sbuf i = flash_mem m h (unat base + i)" if "i < unat ln" for i
  proof -
    have "i div 4 < unat ln div 4" "i < 4 * (unat ln div 4)"
      using that four by (simp_all add: less_mult_imp_div_less mult.commute)
    then show ?thesis
      using device_reads [OF dev, of i "unat ln div 4" base h]
      by (simp add: sbuf_def unat_drop_bit_div host_byte_swapped bus_readi_def Let_def)
  qed
  have dp: "(\<lambda>i. data (unat (base - addr) + i)) = (\<lambda>i. ?D (unat base + i))"
    by (rule wanted_from) (simp add: base)
  obtain need nv where scan: "need_scan sbuf (\<lambda>i. ?D (unat base + i)) base 0 (unat ln) 0 = (need, nv)"
    by fastforce
  have fit: "unat base + 0 + unat ln < 2 ^ 32"
    using ln range wr unfolding write_ok_def by linarith
  have base_mod: "unat base mod 4 = 0"
    using base4 by (simp only: dvd_eq_mod_eq_0)
  have base_pos: "0 < unat base"
    using wr by (simp add: base write_ok_def less_max_iff_disj)
  note spec = need_scan_spec [OF base_mod base_pos fit scan]
  have spec: "need \<longrightarrow> nv \<noteq> 0" "\<not> need \<longrightarrow> (\<forall>j<unat ln. sbuf j AND ?D (unat base + j) = ?D (unat base + j))"
    "\<not> need \<longrightarrow> scan_from sbuf (\<lambda>i. ?D (unat base + i)) base 0 (unat ln) nv"
    using spec by simp_all
  have code: "write_sector env addr len data verify s h =
    (if nv = 0 then Some (True, h1)
     else if need
     then do {
       x \<leftarrow> drv_erase_sector env s verify h1;
       if fst x then page_loop env addr len data verify s base (snd x) else Some x
     }
     else page_loop env addr len data verify s nv h1)"
  proof -
    have "(if s < addr then addr else s) = base"
      by (simp add: base_def)
    then show ?thesis
      using scan unfolding write_sector_def sector_scan_def Let_def case_prod_beta
      by (simp only: base_def [symmetric] ln_def [symmetric] sbuf_def [symmetric] h1_def [symmetric] dp fst_conv snd_conv)
  qed
  have small: "unat base < 2 ^ 32 - 0x10000"
    using range wr by (simp add: write_ok_def)
  show ?thesis
  proof (cases "nv = 0")
    case True
    then have "\<not> need" "scan_from sbuf (\<lambda>i. ?D (unat base + i)) base 0 (unat ln) 0"
      using spec by auto
    then have "sbuf j = ?D (unat base + j)" if "j < unat ln" for j
      using that wr by (auto simp: scan_from_def base write_ok_def)
    then have "flash_mem m h x = ?D x" if "unat base \<le> x" "x < ?E" for x
      using that sbuf [of "x - unat base"] ln by (metis add_diff_inverse_nat diff_less_mono not_less)
    then show ?thesis
      using code True mem1 by (auto simp: base)
  next
    case nv: False
    show ?thesis
    proof (cases need)
      case True
      have "unat s + 0x10000 \<le> 2 ^ 32"
        using s(2) wr by (simp add: write_ok_def)
      then obtain h2 where h2: "drv_erase_sector env s verify h1 = Some (True, h2)"
        "flash_mem m h2 = (\<lambda>x. if unat s \<le> x \<and> x < unat s + 0x10000 then 0xff else flash_mem m h x)"
        using drv_erase_sector_erases [OF dev s(1), of verify h1] unfolding mem1 by blast
      have "\<exists>h'. page_loop env addr len data verify s base h2 = Some (True, h') \<and>
          flash_mem m h' = burnt (unat base) ?E ?D (flash_mem m h2)"
        using base4 small by (intro page_loop_burns [OF dev wr s(1,2)]) (auto simp: base h2(2) dvd_eq_mod_eq_0 and.commute)
      then obtain h' where "page_loop env addr len data verify s base h2 = Some (True, h')"
        "flash_mem m h' = burnt (unat base) ?E ?D (flash_mem m h2)"
        by blast
      then show ?thesis
        using code nv True h2 by (auto simp: burnt_def base and.commute)
    next
      case False
      then obtain j where j: "j < unat ln" "unat nv = unat base + j div 4 * 4" "\<forall>k<j. sbuf k = ?D (unat base + k)"
        using spec(3) nv by (auto simp: scan_from_def)
      have le: "j div 4 * 4 \<le> j"
        by simp
      have sub: "flash_mem m h x AND ?D x = ?D x" if "unat base \<le> x" "x < ?E" for x
      proof -
        have "x - unat base < unat ln"
          using that unfolding ln by linarith
        then show ?thesis
          using spec(2) False sbuf [of "x - unat base"] that(1) by auto
      qed
      have before: "flash_mem m h x = ?D x" if "unat base \<le> x" "x < unat nv" for x
      proof -
        have "x - unat base < j"
          using that j(2) le by simp
        then show ?thesis
          using j(1,3) sbuf [of "x - unat base"] that(1) by auto
      qed
      have nv4: "unat nv mod 4 = 0"
        using base4 by (simp add: j(2) dvd_eq_mod_eq_0)
      have pos: "unat base \<le> unat nv" "unat nv < ?E"
        using j(1) le unfolding j(2) ln by linarith+
      then have bound: "unat nv < 2 ^ 32 - 0x10000"
        using wr by (simp add: write_ok_def)
      have "\<exists>h'. page_loop env addr len data verify s nv h1 = Some (True, h') \<and>
          flash_mem m h' = burnt (unat nv) ?E ?D (flash_mem m h1)"
      proof (rule page_loop_burns [OF dev wr s(1,2) _ _ nv4 bound])
        show "unat s \<le> unat nv" "unat addr \<le> unat nv"
          using pos(1) by (simp_all add: base)
        show "flash_mem m h1 x AND ?D x = ?D x" if "unat nv \<le> x" "x < ?E" for x
          using sub [of x] that pos(1) by (simp add: mem1)
      qed
      then obtain h' where "page_loop env addr len data verify s nv h1 = Some (True, h')"
        "flash_mem m h' = burnt (unat nv) ?E ?D (flash_mem m h)"
        unfolding mem1 by blast
      then show ?thesis
        using code nv False sub before pos by (auto simp: burnt_def base)
    qed
  qed
qed

section \<open>The whole write\<close>

lemma sector_loop_writes:
  assumes dev: "flash_device m env" and wr: "write_ok addr len" and len: "0 < unat len"
  shows "unat s mod 0x10000 = 0 \<Longrightarrow> unat addr < unat s + 0x10000 \<Longrightarrow> unat s < 2 ^ 32 - 0x10000 \<Longrightarrow>
    \<exists>h'. sector_loop env addr len data verify s h = Some (True, h') \<and>
      (\<forall>x. unat addr \<le> x \<and> unat s \<le> x \<and> x < unat addr + unat len \<longrightarrow> flash_mem m h' x = wanted addr data x) \<and>
      (\<forall>x. x < unat s \<or> (unat addr + unat len + 0xffff) div 0x10000 * 0x10000 \<le> x \<longrightarrow> flash_mem m h' x = flash_mem m h x)"
proof (induction "2 ^ 32 - unat s" arbitrary: s h rule: less_induct)
  case less
  let ?L = "unat addr + unat len"
  let ?B = "(?L + 0xffff) div 0x10000 * 0x10000"
  have "unat (addr + len + SECTORSZB - 1) = ?L + 0xffff"
    using wr by (simp add: write_ok_def unat_add_small unat_sub_small)
  then have bound: "unat (SECTOROF (addr + len + SECTORSZB - 1)) = ?B"
    by simp
  then have more: "s < SECTOROF (addr + len + SECTORSZB - 1) \<longleftrightarrow> unat s < ?B"
    by (simp only: word_less_nat_alt)
  from less.prems(1) obtain b where b: "unat s = 0x10000 * b"
    unfolding dvd_eq_mod_eq_0 [symmetric] by (rule dvdE)
  define q where "q = (?L + 0xffff) div 0x10000"
  have q: "q * 0x10000 \<le> ?L + 0xffff" "?L \<le> q * 0x10000"
    unfolding q_def using div_mult_mod_eq [of "?L + 0xffff" "0x10000"] mod_less_divisor [of "0x10000" "?L + 0xffff"] by linarith+
  have "unat s < ?L" if "unat s < ?B"
  proof -
    have "b + 1 \<le> q"
      using that unfolding b q_def [symmetric] by simp
    then show ?thesis
      using q(1) unfolding b by linarith
  qed
  then have B: "?L \<le> ?B" "unat s < ?B \<longleftrightarrow> unat s < ?L"
    using q(2) unfolding q_def by auto
  show ?case
  proof (cases "unat s < ?B")
    case False
    then have "sector_loop env addr len data verify s h = Some (True, h)"
      by (subst sector_loop.simps) (simp only: more if_False)
    then show ?thesis
      using False B by auto
  next
    case True
    then have sL: "unat s < ?L"
      using B by simp
    obtain h1 where h1: "write_sector env addr len data verify s h = Some (True, h1)"
      "\<And>x. unat addr \<le> x \<and> unat s \<le> x \<and> x < unat s + 0x10000 \<and> x < ?L \<Longrightarrow> flash_mem m h1 x = wanted addr data x"
      "\<And>x. x < unat s \<or> unat s + 0x10000 \<le> x \<Longrightarrow> flash_mem m h1 x = flash_mem m h x"
      using write_sector_writes [OF dev wr less.prems(1) sL less.prems(2) len, of data verify h] by blast
    have step: "sector_loop env addr len data verify s h = sector_loop env addr len data verify (s + SECTORSZB) h1"
      using True h1(1) by (subst sector_loop.simps) (simp only: more if_True Option.bind.simps fst_conv snd_conv)
    have next_s: "unat (s + SECTORSZB) = unat s + 0x10000"
      using less.prems(3) by (simp add: unat_add_small)
    have "b + 1 \<le> q"
      using True unfolding b q_def [symmetric] by simp
    then have sB: "unat s + 0x10000 \<le> ?B"
      unfolding b q_def [symmetric] by linarith
    have fit: "unat s + 0x10000 < 2 ^ 32 - 0x10000"
      using sL wr unfolding write_ok_def by linarith
    have down: "2 ^ 32 - unat (s + SECTORSZB) < 2 ^ 32 - unat s"
      unfolding next_s using fit by linarith
    have aligned: "(unat s + 0x10000) mod 0x10000 = 0" "unat addr < unat s + 0x10000 + 0x10000"
      using less.prems(2) by (simp_all add: b)
    obtain h' where h': "sector_loop env addr len data verify (s + SECTORSZB) h1 = Some (True, h')"
      "\<And>x. unat addr \<le> x \<and> unat s + 0x10000 \<le> x \<and> x < ?L \<Longrightarrow> flash_mem m h' x = wanted addr data x"
      "\<And>x. x < unat s + 0x10000 \<or> ?B \<le> x \<Longrightarrow> flash_mem m h' x = flash_mem m h1 x"
      using less.hyps [OF down, of h1, unfolded next_s, OF aligned fit] by blast
    have "flash_mem m h' x = wanted addr data x" if "unat addr \<le> x" "unat s \<le> x" "x < ?L" for x
      using that h'(2) h'(3) h1(2) by (cases "x < unat s + 0x10000") auto
    moreover have "flash_mem m h' x = flash_mem m h x" if "x < unat s \<or> ?B \<le> x" for x
      using that h'(3) [of x] h1(3) [of x] sB by auto
    ultimately show ?thesis
      using step h'(1) by auto
  qed
qed

section \<open>The whole driver\<close>

lemma flashdrvr_writes:
  assumes "flash_device m env" "write_ok addr len" "0 < unat len"
  shows "\<exists>h'. flashdrvr_write env addr len data verify h = Some (True, h') \<and>
    (\<forall>i<unat len. flash_mem m h' (unat addr + i) = data i) \<and>
    (\<forall>x. x div 0x10000 < unat addr div 0x10000 \<or> (unat addr + unat len - 1) div 0x10000 < x div 0x10000 \<longrightarrow>
      flash_mem m h' x = flash_mem m h x)"
proof -
  let ?s = "SECTOROF addr"
  let ?L = "unat addr + unat len"
  have lower: "unat addr div 0x10000 * 0x10000 \<le> unat addr"
    by simp
  have s: "unat ?s mod 0x10000 = 0" "unat addr < unat ?s + 0x10000" "unat ?s < 2 ^ 32 - 0x10000"
  proof -
    show "unat ?s mod 0x10000 = 0"
      by simp
    show "unat addr < unat ?s + 0x10000"
      unfolding unat_SECTOROF using div_mult_mod_eq [of "unat addr" "0x10000"] mod_less_divisor [of "0x10000" "unat addr"] by linarith
    show "unat ?s < 2 ^ 32 - 0x10000"
      unfolding unat_SECTOROF using lower assms(2) unfolding write_ok_def by linarith
  qed
  obtain h1 where h1: "sector_loop env addr len data verify ?s h = Some (True, h1)"
    "\<And>x. unat addr \<le> x \<Longrightarrow> unat ?s \<le> x \<Longrightarrow> x < ?L \<Longrightarrow> flash_mem m h1 x = wanted addr data x"
    "\<And>x. x < unat ?s \<or> (?L + 0xffff) div 0x10000 * 0x10000 \<le> x \<Longrightarrow> flash_mem m h1 x = flash_mem m h x"
    using sector_loop_writes [OF assms s, of data verify h] by blast
  have "flash_mem m h1 (unat addr + i) = data i" if "i < unat len" for i
    using h1(2) [of "unat addr + i"] lower that by (simp add: wanted_def)
  moreover have "flash_mem m h1 x = flash_mem m h x"
    if "x div 0x10000 < unat addr div 0x10000 \<or> (?L - 1) div 0x10000 < x div 0x10000" for x
  proof (rule h1(3))
    have "?L + 0xffff = (?L - 1) + 0x10000"
      using assms(3) by simp
    then have top: "(?L + 0xffff) div 0x10000 = (?L - 1) div 0x10000 + 1"
      by (simp only: div_add_self2)
    show "x < unat ?s \<or> (?L + 0xffff) div 0x10000 * 0x10000 \<le> x"
      using that
    proof
      assume "x div 0x10000 < unat addr div 0x10000"
      then show ?thesis
        unfolding unat_SECTOROF using div_mult_mod_eq [of x "0x10000"] mod_less_divisor [of "0x10000" x] by linarith
    next
      assume "(?L - 1) div 0x10000 < x div 0x10000"
      then have "(?L - 1) div 0x10000 + 1 \<le> x div 0x10000"
        by simp
      then have "((?L - 1) div 0x10000 + 1) * 0x10000 \<le> x"
        by (rule order_trans [OF mult_le_mono1 div_times_less_eq_dividend])
      then show ?thesis
        unfolding top by simp
    qed
  qed
  ultimately show ?thesis
    using h1(1) by (simp add: flashdrvr_write_def)
qed

section \<open>Properties\<close>


section \<open>A witness\<close>

text \<open>A flash that is empty and answers as it shall.\<close>

definition demo_read :: "bytes \<Rightarrow> nat \<Rightarrow> u32" where
  "demo_read M a = buildword (\<lambda>k. M (a + k))"

definition demo_bus :: benv where
  "demo_bus h q i = (case q of QReadi a \<Rightarrow> demo_read (flash_mem (\<lambda>_. 0xff) h) (unat a + 4 * i) | _ \<Rightarrow> 0)"

lemma demo_bus: "flash_device (\<lambda>_. 0xff) demo_bus"
  by (auto simp: flash_device_def demo_bus_def demo_read_def be_byte_buildword)


end
