(* ===== verification/Zipelf.thy ===== *)
theory Zipelf
  imports Prelude
begin

text \<open>
  Reading the sections of an ELF file: zipelf.cpp, which sw/host (zipload) and sim/verilator (zip_sim) have in the same form.

  What libelf says of a file is a record \<open>libelf\<close> with one field per call. The block that \<open>elfread\<close> allocates is a
  memory of bytes with a size: the table of pointers, then each ELFSECTION with its data. Addresses are offsets in
  the block; the host has 64-bit pointers, is little-endian, and lays ELFSECTION out as start, length and data, 12 bytes. In an outcome,
  \<open>None\<close> is an assertion that fails or an access outside the block, \<open>Some (Inl c)\<close> is \<open>exit(c)\<close>.
\<close>

section \<open>Outcomes\<close>

type_synonym 'a outcome = "(int + 'a) option"

definition followed_by :: "'a outcome \<Rightarrow> ('a \<Rightarrow> 'b outcome) \<Rightarrow> 'b outcome" where
  "followed_by r f = (case r of None \<Rightarrow> None | Some (Inl c) \<Rightarrow> Some (Inl c) | Some (Inr a) \<Rightarrow> f a)"

lemma followed_by_simps [simp]:
  "followed_by None f = None" "followed_by (Some (Inl c)) f = Some (Inl c)" "followed_by (Some (Inr a)) f = f a"
  by (simp_all add: followed_by_def)

abbreviation (input) EXIT_FAILURE :: int where "EXIT_FAILURE \<equiv> 1"
abbreviation (input) EXIT_SUCCESS :: int where "EXIT_SUCCESS \<equiv> 0"

section \<open>What libelf says\<close>

datatype elf_kind = ELF_K_NONE | ELF_K_AR | ELF_K_ELF | ELF_K_OTHER
datatype elf_class = ELFCLASSNONE | ELFCLASS32 | ELFCLASS64

record phdr =
  p_offset :: u64
  p_paddr :: u64
  p_filesz :: u64
  p_memsz :: u64

record libelf =
  elf_version :: bool
  elf_begin :: bool
  elf_kind :: elf_kind
  gelf_getehdr :: "(u16 \<times> u64) option"
  gelf_getclass :: elf_class
  elf_getident :: bool
  elf_getphdrnum :: "u64 option"
  gelf_getphdr :: "nat \<Rightarrow> phdr option"

section \<open>The block\<close>

record block =
  b_size :: nat
  b_mem :: "nat \<Rightarrow> u8"

definition put_bytes :: "nat \<Rightarrow> u8 list \<Rightarrow> block \<Rightarrow> block option" where
  "put_bytes a bs b =
    (if a + length bs \<le> b_size b
     then Some (b\<lparr>b_mem := (\<lambda>x. if a \<le> x \<and> x < a + length bs then bs ! (x - a) else b_mem b x)\<rparr>)
     else None)"

text \<open>A word as its bytes, the least significant first.\<close>

definition le_bytes :: "nat \<Rightarrow> 'a::len word \<Rightarrow> u8 list" where
  "le_bytes n v = map (\<lambda>k. ucast (drop_bit (8 * k) v)) [0..<n]"

definition get32 :: "block \<Rightarrow> nat \<Rightarrow> u32" where
  "get32 b a = ucast (b_mem b a) OR push_bit 8 (ucast (b_mem b (a + 1))) OR push_bit 16 (ucast (b_mem b (a + 2)))
    OR push_bit 24 (ucast (b_mem b (a + 3)))"

text \<open>The pointer at an index of the table (an offset in the block), and the fields of the section there.\<close>

definition sec_ptr :: "block \<Rightarrow> nat \<Rightarrow> nat" where
  "sec_ptr b i = unat (get32 b (8 * i)) + 2 ^ 32 * unat (get32 b (8 * i + 4))"

definition sec_start :: "block \<Rightarrow> nat \<Rightarrow> u32" where "sec_start b i = get32 b (sec_ptr b i)"
definition sec_len :: "block \<Rightarrow> nat \<Rightarrow> u32" where "sec_len b i = get32 b (sec_ptr b i + 4)"
definition sec_data :: "block \<Rightarrow> nat \<Rightarrow> nat \<Rightarrow> u8" where "sec_data b i j = b_mem b (sec_ptr b i + 8 + j)"

section \<open>The reader\<close>

definition iself :: "u8 list option \<Rightarrow> bool" where
  "iself file = (case file of None \<Rightarrow> False | Some bs \<Rightarrow> take 4 bs = [0x7f, 0x45, 0x4c, 0x46])"

text \<open>The checks before anything is read: the entry address of a 32-bit ZipCPU file.\<close>

definition elf_entry :: "libelf \<Rightarrow> int + u32" where
  "elf_entry e =
    (if \<not> elf_version e \<or> \<not> elf_begin e then Inl EXIT_FAILURE
     else if elf_kind e = ELF_K_AR \<or> elf_kind e = ELF_K_OTHER then Inl EXIT_FAILURE
     else case gelf_getehdr e of None \<Rightarrow> Inl EXIT_FAILURE
     | Some (machine, entry) \<Rightarrow>
        if gelf_getclass e = ELFCLASSNONE \<or> \<not> elf_getident e \<or> gelf_getclass e \<noteq> ELFCLASS32 then Inl EXIT_FAILURE
        else if machine \<noteq> 0xdad1 then Inl EXIT_FAILURE
        else Inr (ucast entry))"

text \<open>The size of pointers, sections and data; \<open>k\<close> program headers from the \<open>i\<close>-th on.\<close>

primrec elf_total :: "libelf \<Rightarrow> nat \<Rightarrow> nat \<Rightarrow> u32 \<Rightarrow> int + u32" where
  "elf_total e i 0 t = Inr t"
| "elf_total e i (Suc k) t =
    (case gelf_getphdr e i of None \<Rightarrow> Inl EXIT_FAILURE
     | Some ph \<Rightarrow> elf_total e (i + 1) k (t + 20 + ucast (p_filesz ph)))"

text \<open>\<open>lseek\<close> and \<open>read\<close>: what a read of \<open>n\<close> bytes at a position gives (at most 0x7ffff000 at a time).\<close>

definition read_at :: "u8 list \<Rightarrow> u64 \<Rightarrow> u64 \<Rightarrow> u8 list" where
  "read_at file pos n = take (min (unat n) 0x7ffff000) (drop (unat pos) file)"

definition read_section :: "u8 list \<Rightarrow> phdr \<Rightarrow> nat \<Rightarrow> block \<Rightarrow> block outcome" where
  "read_section file ph a b =
    (if sint (p_offset ph) < 0 then Some (Inl EXIT_FAILURE)
     else let sz = (if p_filesz ph > p_memsz ph then 0 else p_filesz ph);
              bs = read_at file (p_offset ph) sz
          in case put_bytes (a + 8) bs b of None \<Rightarrow> None
             | Some b1 \<Rightarrow>
                if int (length bs) \<noteq> sint (ucast sz :: u32) then Some (Inl EXIT_FAILURE) else Some (Inr b1))"

primrec elf_sections :: "libelf \<Rightarrow> u8 list \<Rightarrow> nat \<Rightarrow> nat \<Rightarrow> u32 \<Rightarrow> block \<Rightarrow> (u32 \<times> block) outcome" where
  "elf_sections e file i 0 cur b = Some (Inr (cur, b))"
| "elf_sections e file i (Suc k) cur b =
    (case put_bytes (8 * i) (le_bytes 8 (ucast cur :: u64)) b of None \<Rightarrow> None
     | Some b1 \<Rightarrow>
    (case gelf_getphdr e i of None \<Rightarrow> Some (Inl EXIT_FAILURE)
     | Some ph \<Rightarrow>
    (case put_bytes (unat cur) (le_bytes 4 (ucast (p_paddr ph) :: u32)) b1 of None \<Rightarrow> None
     | Some b2 \<Rightarrow>
    (case put_bytes (unat cur + 4) (le_bytes 4 (ucast (p_filesz ph) :: u32)) b2 of None \<Rightarrow> None
     | Some b3 \<Rightarrow>
        followed_by (read_section file ph (unat cur) b3)
          (elf_sections e file (i + 1) k (cur + ucast (p_filesz ph) + 12))))))"

text \<open>The block that \<open>malloc\<close> returns, with what happens to be in it, and the part that \<open>memset\<close> clears.\<close>

definition new_block :: "(nat \<Rightarrow> u8) \<Rightarrow> u32 \<Rightarrow> block" where
  "new_block junk tot = \<lparr>b_size = unat tot + 20, b_mem = (\<lambda>x. if x < unat tot then 0 else junk x)\<rparr>"

definition elfread :: "(nat \<Rightarrow> u8) \<Rightarrow> libelf \<Rightarrow> u8 list option \<Rightarrow> (u32 \<times> block) outcome" where
  "elfread junk e fname =
    (case fname of None \<Rightarrow> Some (Inl EXIT_FAILURE)
     | Some file \<Rightarrow>
    (case elf_entry e of Inl c \<Rightarrow> Some (Inl c)
     | Inr entry \<Rightarrow>
    (case elf_getphdrnum e of None \<Rightarrow> Some (Inl EXIT_FAILURE)
     | Some n \<Rightarrow>
        if n = 0 then None
        else let k = nat (sint (ucast n :: u32))
             in (case elf_total e 0 k 0 of Inl c \<Rightarrow> Some (Inl c)
                | Inr tot \<Rightarrow>
                    followed_by (elf_sections e file 0 k (ucast (8 * (n + 1))) (new_block junk tot))
                      (\<lambda>(cur, b). case put_bytes (8 * k) (le_bytes 8 (ucast cur :: u64)) b of None \<Rightarrow> None
                        | Some b1 \<Rightarrow>
                       (case put_bytes (sec_ptr b1 k) (le_bytes 4 (0 :: u32)) b1 of None \<Rightarrow> None
                        | Some b2 \<Rightarrow>
                       (case put_bytes (sec_ptr b2 k + 4) (le_bytes 4 (0 :: u32)) b2 of None \<Rightarrow> None
                        | Some b3 \<Rightarrow> Some (Inr (entry, b3)))))))))"


section \<open>Words in the block\<close>

lemma put_bytes_ok:
  "a + length bs \<le> b_size b \<Longrightarrow> \<exists>b'. put_bytes a bs b = Some b' \<and> b_size b' = b_size b \<and>
    (\<forall>x. b_mem b' x = (if a \<le> x \<and> x < a + length bs then bs ! (x - a) else b_mem b x))"
  by (simp add: put_bytes_def)

lemma length_le_bytes [simp]: "length (le_bytes n v) = n"
  by (simp add: le_bytes_def)

lemma nth_le_bytes [simp]: "k < n \<Longrightarrow> le_bytes n v ! k = ucast (drop_bit (8 * k) v)"
  by (simp add: le_bytes_def)

lemma join_bytes:
  fixes v :: u32
  shows "ucast (ucast v :: u8) OR push_bit 8 (ucast (ucast (drop_bit 8 v) :: u8))
    OR push_bit 16 (ucast (ucast (drop_bit 16 v) :: u8)) OR push_bit 24 (ucast (ucast (drop_bit 24 v) :: u8)) = v"
proof (rule bit_word_eqI)
  fix n assume "n < LENGTH(32)"
  then consider "n < 8" | "8 \<le> n" "n < 16" | "16 \<le> n" "n < 24" | "24 \<le> n" "n < 32"
    by force
  then show "bit (ucast (ucast v :: u8) OR push_bit 8 (ucast (ucast (drop_bit 8 v) :: u8))
    OR push_bit 16 (ucast (ucast (drop_bit 16 v) :: u8)) OR push_bit 24 (ucast (ucast (drop_bit 24 v) :: u8)) :: u32) n \<longleftrightarrow> bit v n"
    by cases (simp_all add: bit_or_iff bit_push_bit_iff bit_ucast_iff bit_drop_bit_eq possible_bit_def, auto)
qed

lemma get32_cong:
  "(\<And>x. a \<le> x \<Longrightarrow> x < a + 4 \<Longrightarrow> b_mem b' x = b_mem b x) \<Longrightarrow> get32 b' a = get32 b a"
  by (simp add: get32_def)

lemma get32_word:
  assumes "\<And>k. k < 4 \<Longrightarrow> b_mem b (a + k) = ucast (drop_bit (8 * k) v)"
  shows "get32 b a = v"
  using join_bytes [of v] assms [of 0] assms [of 1] assms [of 2] assms [of 3] by (simp add: get32_def)

lemma get32_zero:
  assumes "\<And>k. k < 4 \<Longrightarrow> b_mem b (a + k) = 0"
  shows "get32 b a = 0"
  using assms [of 0] assms [of 1] assms [of 2] assms [of 3] by (simp add: get32_def)

text \<open>A pointer that is stored is found again.\<close>

lemma ptr_byte:
  fixes c :: u32
  shows "(ucast (drop_bit (8 * k) (ucast c :: u64)) :: u8) = ucast (drop_bit (8 * k) c)"
  by (rule bit_word_eqI) (auto simp: bit_ucast_iff bit_drop_bit_eq possible_bit_def dest: bit_imp_le_length)

lemma ptr_byte_high:
  fixes c :: u32
  assumes "4 \<le> k"
  shows "(ucast (drop_bit (8 * k) (ucast c :: u64)) :: u8) = 0"
  unfolding ptr_byte using assms by (intro bit_word_eqI) (auto simp: bit_ucast_iff bit_drop_bit_eq dest: bit_imp_le_length)

lemma sec_ptr_stored:
  fixes c :: u32
  assumes "\<And>k. k < 8 \<Longrightarrow> b_mem b (8 * i + k) = ucast (drop_bit (8 * k) (ucast c :: u64))"
  shows "sec_ptr b i = unat c"
proof -
  have "get32 b (8 * i) = c"
    by (rule get32_word) (simp add: assms ptr_byte)
  moreover have "get32 b (8 * i + 4) = 0"
  proof (rule get32_zero)
    fix k :: nat assume k: "k < 4"
    have "b_mem b (8 * i + (4 + k)) = ucast (drop_bit (8 * (4 + k)) (ucast c :: u64))"
      by (rule assms) (use k in simp)
    then show "b_mem b (8 * i + 4 + k) = 0"
      using ptr_byte_high [of "4 + k" c] by (simp add: add.assoc)
  qed
  ultimately show ?thesis
    by (simp add: sec_ptr_def)
qed

section \<open>Where the sections lie\<close>

text \<open>Program headers that can be read from the file.\<close>

definition good_phdr :: "u8 list \<Rightarrow> phdr \<Rightarrow> bool" where
  "good_phdr file ph \<longleftrightarrow> unat (p_filesz ph) < 0x7ffff000 \<and> p_filesz ph \<le> p_memsz ph \<and> sint (p_offset ph) \<ge> 0 \<and>
    unat (p_offset ph) + unat (p_filesz ph) \<le> length file"

primrec offs :: "(nat \<Rightarrow> phdr) \<Rightarrow> nat \<Rightarrow> nat \<Rightarrow> nat" where
  "offs ph n 0 = 8 * (n + 1)"
| "offs ph n (Suc i) = offs ph n i + (12 + unat (p_filesz (ph i)))"

lemma offs_mono: "i \<le> j \<Longrightarrow> offs ph n i \<le> offs ph n j"
  by (rule lift_Suc_mono_le [of "offs ph n"]) simp_all

lemma offs_table: "8 * (n + 1) \<le> offs ph n i"
  using offs_mono [of 0 i ph n] by simp

text \<open>The section at an index is the one that its header describes.\<close>

definition sec_holds :: "u8 list \<Rightarrow> phdr \<Rightarrow> nat \<Rightarrow> nat \<Rightarrow> block \<Rightarrow> bool" where
  "sec_holds file ph p i b \<longleftrightarrow> sec_ptr b i = p \<and> sec_start b i = ucast (p_paddr ph) \<and> sec_len b i = ucast (p_filesz ph) \<and>
    (\<forall>j<unat (p_filesz ph). sec_data b i j = file ! (unat (p_offset ph) + j))"

lemma sec_ptr_cong:
  "(\<And>x. 8 * i \<le> x \<Longrightarrow> x < 8 * i + 8 \<Longrightarrow> b_mem b' x = b_mem b x) \<Longrightarrow> sec_ptr b' i = sec_ptr b i"
  unfolding sec_ptr_def by (intro arg_cong2 [of _ _ _ _ "(+)"] arg_cong2 [of _ _ _ _ "(*)"] refl arg_cong [of _ _ unat] get32_cong) auto

lemma sec_holds_frame:
  assumes "sec_holds file ph p i b"
    "\<And>x. 8 * i \<le> x \<Longrightarrow> x < 8 * i + 8 \<Longrightarrow> b_mem b' x = b_mem b x"
    "\<And>x. p \<le> x \<Longrightarrow> x < p + 8 + unat (p_filesz ph) \<Longrightarrow> b_mem b' x = b_mem b x"
  shows "sec_holds file ph p i b'"
proof -
  have "sec_ptr b' i = p"
    using assms(1) sec_ptr_cong [OF assms(2)] by (simp add: sec_holds_def)
  moreover have "get32 b' p = get32 b p" "get32 b' (p + 4) = get32 b (p + 4)"
    by (rule get32_cong; rule assms(3); simp)+
  then have "get32 b' p = ucast (p_paddr ph)" "get32 b' (p + 4) = ucast (p_filesz ph)"
    using assms(1) by (auto simp: sec_holds_def sec_start_def sec_len_def)
  moreover have "b_mem b' (p + 8 + j) = b_mem b (p + 8 + j)" if "j < unat (p_filesz ph)" for j
    using that by (intro assms(3)) simp_all
  moreover have "b_mem b (p + 8 + j) = file ! (unat (p_offset ph) + j)" if "j < unat (p_filesz ph)" for j
    using assms(1) that by (auto simp: sec_holds_def sec_data_def)
  ultimately show ?thesis
    by (simp add: sec_holds_def sec_start_def sec_len_def sec_data_def)
qed

section \<open>Reading all of them\<close>

lemma read_at_nth:
  assumes "good_phdr file ph"
  shows "length (read_at file (p_offset ph) (p_filesz ph)) = unat (p_filesz ph)"
    "j < unat (p_filesz ph) \<Longrightarrow> read_at file (p_offset ph) (p_filesz ph) ! j = file ! (unat (p_offset ph) + j)"
  using assms by (auto simp: good_phdr_def read_at_def min_def)

lemma sint_filesz:
  assumes "unat (z :: u64) < 0x7ffff000"
  shows "sint (ucast z :: u32) = int (unat z)"
proof -
  have "unat (ucast z :: u32) = unat z"
    using assms by (intro unat_ucast_id) simp
  then have "uint (ucast z :: u32) = int (unat z)"
    by (simp only: uint_nat)
  moreover have "int (unat z) < int 0x7ffff000"
    using assms by (simp only: of_nat_less_iff)
  then have "int (unat z) < 2 ^ 31"
    by simp
  ultimately show ?thesis
    by (simp only: sint_u32 if_True)
qed

lemma section_step:
  assumes ph: "gelf_getphdr e i = Some ph" "good_phdr file ph"
    and fits: "8 * i + 8 \<le> unat cur" "unat cur + 8 + unat (p_filesz ph) \<le> b_size b"
  obtains b' where
    "elf_sections e file i (Suc k) cur b = elf_sections e file (i + 1) k (cur + ucast (p_filesz ph) + 12) b'"
    "b_size b' = b_size b" "sec_holds file ph (unat cur) i b'"
    "\<And>x. \<not> (8 * i \<le> x \<and> x < 8 * i + 8) \<Longrightarrow> \<not> (unat cur \<le> x \<and> x < unat cur + 8 + unat (p_filesz ph)) \<Longrightarrow> b_mem b' x = b_mem b x"
proof -
  let ?p = "unat cur" and ?f = "unat (p_filesz ph)"
  let ?ptr = "le_bytes 8 (ucast cur :: u64)" and ?st = "le_bytes 4 (ucast (p_paddr ph) :: u32)"
    and ?ln = "le_bytes 4 (ucast (p_filesz ph) :: u32)" and ?bs = "read_at file (p_offset ph) (p_filesz ph)"
  note [simp] = read_at_nth [OF ph(2)]
  obtain b1 where b1: "put_bytes (8 * i) ?ptr b = Some b1" "b_size b1 = b_size b"
    "\<And>x. b_mem b1 x = (if 8 * i \<le> x \<and> x < 8 * i + 8 then ?ptr ! (x - 8 * i) else b_mem b x)"
    using put_bytes_ok [of "8 * i" ?ptr b] fits by auto
  obtain b2 where b2: "put_bytes ?p ?st b1 = Some b2" "b_size b2 = b_size b"
    "\<And>x. b_mem b2 x = (if ?p \<le> x \<and> x < ?p + 4 then ?st ! (x - ?p) else b_mem b1 x)"
    using put_bytes_ok [of ?p ?st b1] fits b1(2) by auto
  obtain b3 where b3: "put_bytes (?p + 4) ?ln b2 = Some b3" "b_size b3 = b_size b"
    "\<And>x. b_mem b3 x = (if ?p + 4 \<le> x \<and> x < ?p + 8 then ?ln ! (x - (?p + 4)) else b_mem b2 x)"
    using put_bytes_ok [of "?p + 4" ?ln b2] fits b2(2) by auto
  obtain b4 where b4: "put_bytes (?p + 8) ?bs b3 = Some b4" "b_size b4 = b_size b"
    "\<And>x. b_mem b4 x = (if ?p + 8 \<le> x \<and> x < ?p + 8 + ?f then ?bs ! (x - (?p + 8)) else b_mem b3 x)"
    using put_bytes_ok [of "?p + 8" ?bs b3] fits b3(2) by auto
  have f: "p_filesz ph \<le> p_memsz ph" "\<not> sint (p_offset ph) < 0" "?f < 0x7ffff000"
    using ph(2) by (auto simp: good_phdr_def)
  have "read_section file ph ?p b3 = Some (Inr b4)"
    using f b4(1) by (simp add: read_section_def Let_def not_less [THEN iffD2] sint_filesz)
  then have step: "elf_sections e file i (Suc k) cur b = elf_sections e file (i + 1) k (cur + ucast (p_filesz ph) + 12) b4"
    by (simp add: b1(1) b2(1) b3(1) ph(1))
  have "sec_ptr b4 i = ?p"
    by (rule sec_ptr_stored) (use fits in \<open>simp add: b4(3) b3(3) b2(3) b1(3)\<close>)
  moreover have "get32 b4 ?p = ucast (p_paddr ph)"
    by (rule get32_word) (simp add: b4(3) b3(3) b2(3))
  moreover have "get32 b4 (?p + 4) = ucast (p_filesz ph)"
    by (rule get32_word) (simp add: b4(3) b3(3))
  moreover have "b_mem b4 (?p + 8 + j) = file ! (unat (p_offset ph) + j)" if "j < ?f" for j
    using that by (simp add: b4(3))
  ultimately have holds: "sec_holds file ph ?p i b4"
    by (simp add: sec_holds_def sec_start_def sec_len_def sec_data_def)
  show thesis
    by (rule that [OF step b4(2) holds]) (auto simp: b4(3) b3(3) b2(3) b1(3))
qed

lemma elf_sections_read:
  assumes ph: "\<And>j. j < n \<Longrightarrow> gelf_getphdr e j = Some (ph j) \<and> good_phdr file (ph j)"
    and size: "offs ph n n + 8 \<le> s" "s < 2 ^ 32"
    and start: "i + k \<le> n" "unat cur = offs ph n i" "b_size b = s" "\<And>j. j < i \<Longrightarrow> sec_holds file (ph j) (offs ph n j) j b"
  shows "\<exists>cur' b'. elf_sections e file i k cur b = Some (Inr (cur', b')) \<and> unat cur' = offs ph n (i + k) \<and> b_size b' = s \<and>
    (\<forall>j<i + k. sec_holds file (ph j) (offs ph n j) j b')"
  using start
proof (induction k arbitrary: i cur b)
  case 0
  then show ?case by simp
next
  case (Suc k)
  let ?p = "unat cur" and ?f = "unat (p_filesz (ph i))"
  have i: "i < n" using Suc.prems(1) by simp
  note phi = ph [OF i]
  have next_off: "?p + (12 + ?f) = offs ph n (Suc i)"
    using Suc.prems(2) by simp
  also have "\<dots> \<le> offs ph n n"
    using i by (intro offs_mono) simp
  finally have room: "?p + (12 + ?f) \<le> offs ph n n" .
  have table: "8 * i + 16 \<le> ?p"
    using offs_table [of n ph i] i Suc.prems(2) by simp
  obtain b' where b':
    "elf_sections e file i (Suc k) cur b = elf_sections e file (i + 1) k (cur + ucast (p_filesz (ph i)) + 12) b'"
    "b_size b' = b_size b" "sec_holds file (ph i) ?p i b'"
    "\<And>x. \<not> (8 * i \<le> x \<and> x < 8 * i + 8) \<Longrightarrow> \<not> (?p \<le> x \<and> x < ?p + 8 + ?f) \<Longrightarrow> b_mem b' x = b_mem b x"
    using section_step [of e i "ph i" "file" cur b k]
      phi table room size(1) Suc.prems(3) by auto
  have "unat (ucast (p_filesz (ph i)) :: u32) = ?f"
    using phi by (intro unat_ucast_id) (simp add: good_phdr_def)
  then have cur: "unat (cur + ucast (p_filesz (ph i)) + 12) = offs ph n (Suc i)"
    using room size next_off by (simp add: unat_word_ariths)
  have holds: "sec_holds file (ph j) (offs ph n j) j b'" if "j < i + 1" for j
  proof (cases "j = i")
    case True
    then show ?thesis using b'(3) Suc.prems(2) by simp
  next
    case False
    then have j: "j < i" using that by simp
    have "offs ph n j + (12 + unat (p_filesz (ph j))) \<le> ?p"
      using offs_mono [of "Suc j" i ph n] j Suc.prems(2) by simp
    moreover have "8 * i + 16 \<le> offs ph n j"
      using offs_table [of n ph j] i by simp
    ultimately show ?thesis
      using j table by (intro sec_holds_frame [OF Suc.prems(4) [OF j]]) (auto intro!: b'(4))
  qed
  show ?case
    using Suc.IH [of "i + 1", OF _ _ _ holds] Suc.prems(1) cur b'(1) b'(2) Suc.prems(3) by simp
qed

text \<open>The size that is asked for.\<close>

lemma elf_total_sum:
  assumes "\<And>j. j < n \<Longrightarrow> gelf_getphdr e j = Some (ph j) \<and> good_phdr file (ph j)" "i + k \<le> n"
    "unat t + offs ph n (i + k) + 8 * k < 2 ^ 32 + offs ph n i"
  shows "\<exists>t'. elf_total e i k t = Inr t' \<and> unat t' + offs ph n i = unat t + offs ph n (i + k) + 8 * k"
  using assms(2,3)
proof (induction k arbitrary: i t)
  case 0
  then show ?case by simp
next
  case (Suc k)
  let ?f = "unat (p_filesz (ph i))"
  have i: "i < n" using Suc.prems(1) by simp
  have mono: "offs ph n (Suc i) \<le> offs ph n (i + Suc k)"
    by (rule offs_mono) simp
  have "unat (ucast (p_filesz (ph i)) :: u32) = ?f"
    using assms(1) [OF i] by (intro unat_ucast_id) (simp add: good_phdr_def)
  then have "unat (t + 20 + ucast (p_filesz (ph i))) = unat t + 20 + ?f"
    using Suc.prems(2) mono by (simp add: unat_word_ariths)
  note t = this
  have "unat (t + 20 + ucast (p_filesz (ph i))) + offs ph n (i + 1 + k) + 8 * k < 2 ^ 32 + offs ph n (i + 1)"
    unfolding t using Suc.prems(2) by simp
  then obtain t' where "elf_total e (i + 1) k (t + 20 + ucast (p_filesz (ph i))) = Inr t'"
    "unat t' + offs ph n (i + 1) = unat t + 20 + ?f + offs ph n (i + 1 + k) + 8 * k"
    using Suc.IH [of "i + 1" "t + 20 + ucast (p_filesz (ph i))"] Suc.prems(1) unfolding t by auto
  then show ?case
    using assms(1) [OF i] by simp
qed

text \<open>A file of \<open>n\<close> sections, small enough for 32-bit sums.\<close>

definition good_elf :: "libelf \<Rightarrow> u8 list \<Rightarrow> u32 \<Rightarrow> nat \<Rightarrow> (nat \<Rightarrow> phdr) \<Rightarrow> bool" where
  "good_elf e file entry n ph \<longleftrightarrow> elf_entry e = Inr entry \<and> 0 < n \<and> elf_getphdrnum e = Some (of_nat n) \<and>
    (\<forall>j<n. gelf_getphdr e j = Some (ph j) \<and> good_phdr file (ph j)) \<and> offs ph n n + 12 < 2 ^ 32"

lemma good_elf_few:
  assumes "good_elf e file entry n ph"
  shows "n < 2 ^ 28"
proof -
  have "8 * (n + 1) + 12 * i \<le> offs ph n i" for i
    by (induction i) simp_all
  from this [of n] show ?thesis
    using assms unfolding good_elf_def by simp
qed

lemma elfread_reads:
  assumes good: "good_elf e file entry n ph"
  shows "\<exists>b. elfread junk e (Some file) = Some (Inr (entry, b)) \<and> b_size b = offs ph n n + 12 \<and>
    (\<forall>j<n. sec_holds file (ph j) (offs ph n j) j b) \<and> sec_len b n = 0"
proof -
  note few = good_elf_few [OF good]
  have e: "elf_entry e = Inr entry" "0 < n" "elf_getphdrnum e = Some (of_nat n)" "offs ph n n + 12 < 2 ^ 32"
    "\<And>j. j < n \<Longrightarrow> gelf_getphdr e j = Some (ph j) \<and> good_phdr file (ph j)"
    using good by (auto simp: good_elf_def)
  have n0: "unat (of_nat n :: u64) = n"
    using few by (simp add: unsigned_of_nat take_bit_nat_eq_self)
  then have n: "unat (of_nat n :: u64) = n" "(of_nat n :: u64) \<noteq> 0"
    using e(2) by auto
  have k: "nat (sint (ucast (of_nat n :: u64) :: u32)) = n"
    using few by (subst sint_filesz) (simp_all add: n)
  have "\<exists>t. elf_total e 0 n 0 = Inr t \<and> unat t + offs ph n 0 = unat (0 :: u32) + offs ph n (0 + n) + 8 * n"
    by (rule elf_total_sum [OF e(5)]) (use e(4) few in simp_all)
  then obtain t where t: "elf_total e 0 n 0 = Inr t" "unat t + 8 = offs ph n n"
    by auto
  have c0: "unat (ucast (8 * (of_nat n + 1) :: u64) :: u32) = offs ph n 0"
  proof -
    have "unat (8 * (of_nat n + 1) :: u64) = 8 * (n + 1)"
      using few by (simp add: unat_word_ariths n)
    then show ?thesis
      using few by (subst unat_ucast_id) simp_all
  qed
  obtain cur b where b: "elf_sections e file 0 n (ucast (8 * (of_nat n + 1) :: u64)) (new_block junk t) = Some (Inr (cur, b))"
    "unat cur = offs ph n n" "b_size b = offs ph n n + 12" "\<And>j. j < n \<Longrightarrow> sec_holds file (ph j) (offs ph n j) j b"
    using elf_sections_read [OF e(5), where s = "offs ph n n + 12" and k = n and i = 0
      and cur = "ucast (8 * (of_nat n + 1) :: u64)" and b = "new_block junk t"] e(4) c0 t(2)
    by (auto simp: new_block_def)
  let ?p = "offs ph n n" and ?ptr = "le_bytes 8 (ucast cur :: u64)" and ?z = "le_bytes 4 (0 :: u32)"
  have table: "8 * n + 8 \<le> ?p"
    using offs_table [of n ph n] by simp
  obtain b1 where b1: "put_bytes (8 * n) ?ptr b = Some b1" "b_size b1 = ?p + 12"
    "\<And>x. b_mem b1 x = (if 8 * n \<le> x \<and> x < 8 * n + 8 then ?ptr ! (x - 8 * n) else b_mem b x)"
    using put_bytes_ok [of "8 * n" ?ptr b] table b(3) by auto
  have p1: "sec_ptr b1 n = ?p"
    unfolding b(2) [symmetric] by (rule sec_ptr_stored) (simp add: b1(3))
  obtain b2 where b2: "put_bytes ?p ?z b1 = Some b2" "b_size b2 = ?p + 12"
    "\<And>x. b_mem b2 x = (if ?p \<le> x \<and> x < ?p + 4 then ?z ! (x - ?p) else b_mem b1 x)"
    using put_bytes_ok [of ?p ?z b1] b1(2) by auto
  have p2: "sec_ptr b2 n = ?p"
    unfolding p1 [symmetric] using table by (intro sec_ptr_cong) (simp add: b2(3) p1)
  obtain b3 where b3: "put_bytes (?p + 4) ?z b2 = Some b3" "b_size b3 = ?p + 12"
    "\<And>x. b_mem b3 x = (if ?p + 4 \<le> x \<and> x < ?p + 8 then ?z ! (x - (?p + 4)) else b_mem b2 x)"
    using put_bytes_ok [of "?p + 4" ?z b2] b2(2) by auto
  have p3: "sec_ptr b3 n = ?p"
    unfolding p2 [symmetric] using table by (intro sec_ptr_cong) (simp add: b3(3) p2)
  have "get32 b3 (?p + 4) = 0"
    by (rule get32_zero) (simp add: b3(3))
  then have len: "sec_len b3 n = 0"
    by (simp add: sec_len_def p3)
  have "elfread junk e (Some file) = Some (Inr (entry, b3))"
    using b(1) by (simp add: elfread_def e(1) e(3) n(2) k t(1) b1(1) p1 b2(1) p2 b3(1) Let_def)
  moreover have "sec_holds file (ph j) (offs ph n j) j b3" if "j < n" for j
  proof (rule sec_holds_frame [OF b(4) [OF that]])
    fix x assume "8 * j \<le> x" "x < 8 * j + 8"
    then show "b_mem b3 x = b_mem b x"
      using that table by (simp add: b3(3) b2(3) b1(3))
  next
    fix x assume "offs ph n j \<le> x" "x < offs ph n j + 8 + unat (p_filesz (ph j))"
    moreover have "offs ph n j + (12 + unat (p_filesz (ph j))) \<le> ?p"
      using offs_mono [of "Suc j" n ph n] that by simp
    moreover have "8 * n + 8 \<le> offs ph n j"
      using offs_table [of n ph j] by simp
    ultimately show "b_mem b3 x = b_mem b x"
      by (simp add: b3(3) b2(3) b1(3))
  qed
  ultimately show ?thesis
    using b3(2) len by blast
qed

section \<open>Properties\<close>

text \<open>
  C25. Reading an ELF file stays inside the block allocated for it (a store outside would be \<open>None\<close>) and gives every section with
  the address, length and bytes that its program header names, followed by a section of length 0, whatever was in the
  block before.
\<close>

theorem elfread_sections:
  assumes "good_elf e file entry n ph"
  shows "\<exists>b. elfread junk e (Some file) = Some (Inr (entry, b)) \<and> sec_len b n = 0 \<and>
    (\<forall>i<n. sec_start b i = ucast (p_paddr (ph i)) \<and> sec_len b i = ucast (p_filesz (ph i)) \<and>
      (\<forall>j<unat (p_filesz (ph i)). sec_data b i j = file ! (unat (p_offset (ph i)) + j)))"
  using elfread_reads [OF assms, of junk] by (auto simp: sec_holds_def)

text \<open>A file of one section of four bytes.\<close>

definition demo_elf :: libelf where
  "demo_elf = \<lparr>elf_version = True, elf_begin = True, elf_kind = ELF_K_ELF, gelf_getehdr = Some (0xdad1, 0x1200000),
    gelf_getclass = ELFCLASS32, elf_getident = True, elf_getphdrnum = Some 1,
    gelf_getphdr = (\<lambda>_. Some \<lparr>p_offset = 52, p_paddr = 0x1200000, p_filesz = 4, p_memsz = 4\<rparr>)\<rparr>"

definition demo_file :: "u8 list" where
  "demo_file = [0x7f, 0x45, 0x4c, 0x46] @ replicate 48 0 @ [1, 2, 3, 4]"

lemma demo_good:
  "good_elf demo_elf demo_file 0x1200000 1 (\<lambda>_. \<lparr>p_offset = 52, p_paddr = 0x1200000, p_filesz = 4, p_memsz = 4\<rparr>)"
  by (simp add: good_elf_def elf_entry_def demo_elf_def good_phdr_def demo_file_def)

theorem elfread_sections_witness:
  "\<exists>b. elfread (\<lambda>_. 0xff) demo_elf (Some demo_file) = Some (Inr (0x1200000, b)) \<and> sec_len b 1 = 0 \<and> sec_len b 0 = 4 \<and>
    sec_start b 0 = 0x1200000 \<and> sec_data b 0 3 = 4"
proof -
  have "demo_file ! 55 = 4"
    by (simp add: demo_file_def nth_append)
  then show ?thesis
    using elfread_sections [OF demo_good, of "\<lambda>_. 0xff"] by auto
qed

end
