(* ===== verification/Zipload.thy ===== *)
theory Zipload
  imports Zipelf Flashdrvr
begin

text \<open>
  The loader of the host, sw/host/zipload.cpp: it writes one or two FPGA configurations and a program into the flash, with the
  flash driver and the ELF reader.

  Files are what \<open>fs\<close> gives for a name (\<open>None\<close>: not readable), \<open>elf\<close> what libelf says of a file. The history of the bus is the
  state. An outcome \<open>None\<close> is a failed assertion, an access outside an array or through a null pointer, or a wait that
  never ends. Messages, and the second look at files that have just been looked at, are left out; the bus is assumed not to raise BUSERR.
\<close>

abbreviation (input) R_VERSION :: u32 where "R_VERSION \<equiv> 0x00000420"
abbreviation (input) SPIFLASH :: u32 where "SPIFLASH \<equiv> 0x01000000"
abbreviation (input) FLASH_LEN :: u32 where "FLASH_LEN \<equiv> 0x01000000"
abbreviation (input) CONFIG_ADDRESS :: u32 where "CONFIG_ADDRESS \<equiv> 0x01000000"
abbreviation (input) ALTCONFIG_ADDRESS :: u32 where "ALTCONFIG_ADDRESS \<equiv> 0x01100000"
abbreviation (input) RESET_ADDRESS :: u32 where "RESET_ADDRESS \<equiv> 0x01200000"

section \<open>The arguments\<close>

text \<open>The options and the names of files: what follows the name of the program.\<close>

fun zl_args :: "string list \<Rightarrow> bool \<Rightarrow> string list \<Rightarrow> int + (bool \<times> string list)" where
  "zl_args [] debug files = Inr (debug, files)"
| "zl_args (a # as) debug files =
    (if take 1 a = ''-''
     then if take 1 (drop 1 a) = ''d'' then zl_args as True files
          else if take 1 (drop 1 a) = ''h'' then Inl EXIT_SUCCESS
          else if take 1 (drop 1 a) = ''v'' then zl_args as debug files
          else Inl EXIT_FAILURE
     else zl_args as debug (files @ [a]))"

type_synonym files = "string \<Rightarrow> u8 list option"
type_synonym picked = "string option \<times> string option \<times> string option"

text \<open>The program, the configuration and the alternate configuration among the files.\<close>

fun zl_pick :: "files \<Rightarrow> string list \<Rightarrow> picked \<Rightarrow> int + picked" where
  "zl_pick fs [] p = Inr p"
| "zl_pick fs (a # as) (execfile, bitfile, altbitfile) =
    (if fs a = None then Inl EXIT_FAILURE
     else if iself (fs a)
     then if execfile \<noteq> None then Inl EXIT_FAILURE else zl_pick fs as (Some a, bitfile, altbitfile)
     else if bitfile = None then zl_pick fs as (execfile, Some a, altbitfile)
     else if altbitfile = None then zl_pick fs as (execfile, bitfile, Some a)
     else Inl EXIT_FAILURE)"

section \<open>Configuration files\<close>

text \<open>Where the data of a bit file begins.\<close>

definition matchstr :: "u8 list" where
  "matchstr = replicate 12 0xff @ [0xaa, 0x99, 0x55, 0x66]"

definition skip_bitfile_header :: "u8 list \<Rightarrow> int + nat" where
  "skip_bitfile_header file =
    (if length file < 204 then Inl EXIT_FAILURE
     else case List.find (\<lambda>start. take 16 (drop start file) = matchstr) [0..<188] of
            None \<Rightarrow> Inl EXIT_FAILURE | Some start \<Rightarrow> Inr start)"

text \<open>The last four characters of a name; a shorter name is compared from before its beginning.\<close>

definition is_dot_bit :: "string \<Rightarrow> bool option" where
  "is_dot_bit name = (if length name < 4 then None else Some (drop (length name - 4) name = ''.bit''))"

definition blit :: "nat \<Rightarrow> u8 list \<Rightarrow> bytes \<Rightarrow> bytes" where
  "blit at bs f = (\<lambda>i. if at \<le> i \<and> i < at + length bs then bs ! (i - at) else f i)"

definition zl_read :: "string \<Rightarrow> u8 list \<Rightarrow> nat \<Rightarrow> u8 list outcome" where
  "zl_read name file room =
    (case is_dot_bit name of None \<Rightarrow> None
     | Some b \<Rightarrow>
       (case (if b then skip_bitfile_header file else Inr 0) of
          Inl c \<Rightarrow> Some (Inl c) | Inr pos \<Rightarrow> Some (Inr (take room (drop pos file)))))"

definition zl_bitfile :: "benv \<Rightarrow> files \<Rightarrow> string option \<Rightarrow> u64 \<Rightarrow> bhist \<Rightarrow> (u64 \<times> bytes \<times> bhist) outcome" where
  "zl_bitfile env fs bitfile bitsz h =
    (case bitfile of None \<Rightarrow> Some (Inr (bitsz, \<lambda>_. 0xff, h))
     | Some name \<Rightarrow>
    (case fs name of None \<Rightarrow> None
     | Some file \<Rightarrow>
        followed_by (zl_read name file (unat (FLASH_LEN - (CONFIG_ADDRESS - SPIFLASH))))
          (\<lambda>bs. let fbuf = blit (unat (CONFIG_ADDRESS - SPIFLASH)) bs (\<lambda>_. 0xff); bitsz = of_nat (length bs)
                in case flashdrvr_write env CONFIG_ADDRESS (ucast bitsz) fbuf True h of
                     None \<Rightarrow> None | Some (ok, h1) \<Rightarrow> Some (Inr (bitsz, fbuf, h1)))))"

definition zl_altfile :: "benv \<Rightarrow> files \<Rightarrow> string option \<Rightarrow> string \<Rightarrow> u64 \<Rightarrow> bytes \<Rightarrow> bhist \<Rightarrow> (bytes \<times> bhist) outcome" where
  "zl_altfile env fs altbitfile arg bitsz fbuf h =
    (case altbitfile of
       None \<Rightarrow> if ucast CONFIG_ADDRESS + bitsz < ucast RESET_ADDRESS then Some (Inr (fbuf, h)) else None
     | Some name \<Rightarrow>
        if \<not> ucast CONFIG_ADDRESS + bitsz < ucast ALTCONFIG_ADDRESS then None
        else (case fs name of None \<Rightarrow> None
     | Some file \<Rightarrow>
        followed_by (zl_read arg file (unat (FLASH_LEN - (ALTCONFIG_ADDRESS - SPIFLASH))))
          (\<lambda>bs. let fbuf = blit (unat (ALTCONFIG_ADDRESS - SPIFLASH)) bs fbuf; altsz = of_nat (length bs) :: u64
                in if \<not> ucast ALTCONFIG_ADDRESS + altsz < ucast RESET_ADDRESS then None
                   else case flashdrvr_write env ALTCONFIG_ADDRESS (ucast altsz) fbuf True h of
                     None \<Rightarrow> None | Some (ok, h1) \<Rightarrow> Some (Inr (fbuf, h1)))))"

section \<open>The program\<close>

text \<open>The sections that a warning is printed for.\<close>

partial_function (option) zl_missing :: "block \<Rightarrow> nat \<Rightarrow> (u32 \<times> u32) list option" where
  "zl_missing b i =
    (if sec_len b i = 0 then Some []
     else do {
       ws \<leftarrow> zl_missing b (i + 1);
       Some (if sec_start b i \<ge> RESET_ADDRESS \<and> sec_start b i + sec_len b i \<le> SPIFLASH + FLASH_LEN then ws
             else (sec_start b i, sec_start b i + sec_len b i) # ws)
     })"

text \<open>One section: the first address and the length of the program, and the buffer.\<close>

definition zl_place :: "u32 \<Rightarrow> u32 \<Rightarrow> bytes \<Rightarrow> u32 \<times> u32 \<times> bytes \<Rightarrow> (u32 \<times> u32 \<times> bytes) option" where
  "zl_place m_start m_len m_data st =
    (let (startaddr, codelen, fbuf) = st;
         below = m_start < SPIFLASH;
         start = (if below then SPIFLASH else m_start);
         idx = (if below then SPIFLASH - m_start else 0);
         ln = (if below then m_len - idx else m_len)
     in if below \<and> idx > m_len then Some st
        else if start + ln > SPIFLASH + FLASH_LEN \<and> start > SPIFLASH + FLASH_LEN then Some st
        else let ln = (if start + ln > SPIFLASH + FLASH_LEN then SPIFLASH + FLASH_LEN - start else ln);
                 codelen = (if start < startaddr then codelen + (startaddr - m_start) else codelen);
                 startaddr = (if start < startaddr then m_start else startaddr);
                 codelen = (if start + ln > startaddr + codelen then m_start + m_len - startaddr else codelen)
             in if unat (start - SPIFLASH) + unat ln > unat FLASH_LEN then None
                else Some (startaddr, codelen, blit (unat (start - SPIFLASH)) (map (\<lambda>j. m_data (unat idx + j)) [0..<unat ln]) fbuf))"

partial_function (option) zl_layout :: "block \<Rightarrow> nat \<Rightarrow> u32 \<times> u32 \<times> bytes \<Rightarrow> (u32 \<times> u32 \<times> bytes) option" where
  "zl_layout b i st =
    (if sec_len b i = 0 then Some st
     else do {
       st1 \<leftarrow> zl_place (sec_start b i) (sec_len b i) (sec_data b i) st;
       zl_layout b (i + 1) st1
     })"

definition zl_program :: "benv \<Rightarrow> (nat \<Rightarrow> u8) \<Rightarrow> libelf \<Rightarrow> u8 list option \<Rightarrow> bytes \<Rightarrow> bhist \<Rightarrow> bhist outcome" where
  "zl_program env junk e execfile fbuf h =
    followed_by (elfread junk e execfile)
      (\<lambda>(entry, b).
        if entry \<noteq> RESET_ADDRESS then None
        else do {
          _ \<leftarrow> zl_missing b 0;
          (startaddr, codelen, fbuf1) \<leftarrow> zl_layout b 0 (RESET_ADDRESS, 0, fbuf);
          if startaddr < SPIFLASH \<or> unat (startaddr - SPIFLASH) + unat codelen > unat FLASH_LEN then None
          else do {
            (ok, h1) \<leftarrow> flashdrvr_write env startaddr codelen (\<lambda>i. fbuf1 (unat (startaddr - SPIFLASH) + i)) True h;
            Some (if ok then Inr (snd (bus_readio env R_VERSION h1)) else Inl EXIT_FAILURE)
          }
        })"

section \<open>The whole loader\<close>

definition zipload :: "benv \<Rightarrow> files \<Rightarrow> (string \<Rightarrow> libelf) \<Rightarrow> (nat \<Rightarrow> u8) \<Rightarrow> u64 \<Rightarrow> string list \<Rightarrow> bhist \<Rightarrow> bhist outcome" where
  "zipload env fs elf junk bitsz argv h =
    (if length argv < 2 then Some (Inl EXIT_SUCCESS)
     else case zl_args (tl argv) False [] of Inl c \<Rightarrow> Some (Inl c)
     | Inr (debug_only, files) \<Rightarrow>
    (case zl_pick fs files (None, None, None) of Inl c \<Rightarrow> Some (Inl c)
     | Inr (execfile, bitfile, altbitfile) \<Rightarrow>
        if execfile = None \<and> bitfile = None then Some (Inl EXIT_FAILURE)
        else if bitfile = None \<and> altbitfile \<noteq> None then Some (Inl EXIT_FAILURE)
        else if debug_only then None
        else let (v, h1) = bus_readio env R_VERSION h
             in if v < 0x20170000 then Some (Inl EXIT_FAILURE)
                else followed_by (zl_bitfile env fs bitfile bitsz h1)
                  (\<lambda>(bitsz, fbuf, h2). followed_by (zl_altfile env fs altbitfile (argv ! length files) bitsz fbuf h2)
                    (\<lambda>(fbuf, h3). case execfile of None \<Rightarrow> Some (Inr h3)
                       | Some name \<Rightarrow> zl_program env junk (elf name) (fs name) fbuf h3))))"

section \<open>The buffer\<close>

text \<open>A section in the flash, at or after the reset address.\<close>

lemma zl_place_valid:
  assumes "0x1200000 \<le> unat s" "unat s + unat l \<le> 0x2000000" "unat c \<le> 0xe00000"
  shows "\<exists>c'. zl_place s l d (RESET_ADDRESS, c, f) =
      Some (RESET_ADDRESS, c', blit (unat s - 0x1000000) (map d [0..<unat l]) f) \<and>
    unat c' = max (unat c) (unat s + unat l - 0x1200000)"
proof -
  have sums: "unat (s + l) = unat s + unat l" "unat (RESET_ADDRESS + c) = 0x1200000 + unat c"
    using assms by (simp_all add: unat_word_ariths)
  have off: "unat (s - SPIFLASH) = unat s - 0x1000000"
    using assms by (simp add: unat_sub word_le_nat_alt)
  have cond: "\<not> s < SPIFLASH" "\<not> s < RESET_ADDRESS" "\<not> s + l > SPIFLASH + FLASH_LEN"
    "s + l > RESET_ADDRESS + c \<longleftrightarrow> 0x1200000 + unat c < unat s + unat l"
    using assms by (simp_all add: word_less_nat_alt sums)
  have new: "unat (s + l - RESET_ADDRESS) = unat s + unat l - 0x1200000"
    using assms by (simp add: unat_sub word_le_nat_alt sums)
  have room: "\<not> unat (s - SPIFLASH) + unat l > unat FLASH_LEN"
    using assms by (simp add: off)
  show ?thesis
  proof (cases "0x1200000 + unat c < unat s + unat l")
    case True
    then show ?thesis
      unfolding zl_place_def Let_def using cond room by (auto simp: off new)
  next
    case False
    then show ?thesis
      unfolding zl_place_def Let_def using cond room by (auto simp: off)
  qed
qed

text \<open>The end of the program: that of its last section, in the order of addresses.\<close>

primrec image_end :: "(nat \<Rightarrow> nat) \<Rightarrow> (nat \<Rightarrow> nat) \<Rightarrow> nat \<Rightarrow> nat" where
  "image_end S L 0 = 0x1200000"
| "image_end S L (Suc i) = max (image_end S L i) (S i + L i)"

lemma image_end_low: "0x1200000 \<le> image_end S L i"
  by (induction i) auto

definition placed :: "(nat \<Rightarrow> nat) \<Rightarrow> (nat \<Rightarrow> nat) \<Rightarrow> (nat \<Rightarrow> nat \<Rightarrow> u8) \<Rightarrow> nat \<Rightarrow> bytes \<Rightarrow> bool" where
  "placed S L D n f \<longleftrightarrow> (\<forall>i<n. \<forall>j<L i. f (S i - 0x1000000 + j) = D i j)"

lemma placed_Suc:
  assumes "placed S L D i f" "0x1200000 \<le> S i" "\<And>k. k < i \<Longrightarrow> 0x1200000 \<le> S k \<and> (S k + L k \<le> S i \<or> S i + L i \<le> S k)"
  shows "placed S L D (Suc i) (blit (S i - 0x1000000) (map (D i) [0..<L i]) f)"
  unfolding placed_def
proof (intro allI impI)
  fix k j assume "k < Suc i" "j < L k"
  then show "blit (S i - 0x1000000) (map (D i) [0..<L i]) f (S k - 0x1000000 + j) = D k j"
  proof (cases "k = i")
    case True
    then show ?thesis
      using \<open>j < L k\<close> by (simp add: blit_def)
  next
    case False
    then have "k < i"
      using \<open>k < Suc i\<close> by simp
    with assms(3) [OF this] have "S k - 0x1000000 + j < S i - 0x1000000 \<or> S i - 0x1000000 + L i \<le> S k - 0x1000000 + j"
      using \<open>j < L k\<close> assms(2) by linarith
    then show ?thesis
      using assms(1) \<open>k < i\<close> \<open>j < L k\<close> by (auto simp: blit_def placed_def)
  qed
qed

text \<open>Sections that are all in the flash at or after the reset address, none empty, no two overlapping.\<close>

definition loadable :: "(nat \<Rightarrow> nat) \<Rightarrow> (nat \<Rightarrow> nat) \<Rightarrow> nat \<Rightarrow> bool" where
  "loadable S L n \<longleftrightarrow> (\<forall>i<n. 0x1200000 \<le> S i \<and> 0 < L i \<and> S i + L i \<le> 0x2000000) \<and>
    (\<forall>i<n. \<forall>k<i. S k + L k \<le> S i \<or> S i + L i \<le> S k)"

lemma image_end_high: "loadable S L n \<Longrightarrow> i \<le> n \<Longrightarrow> image_end S L i \<le> 0x2000000"
  by (induction i) (auto simp: loadable_def)

lemma zl_layout_valid:
  assumes load: "loadable S L n" and stop: "sec_len b n = 0"
    and sec: "\<And>i. i < n \<Longrightarrow> unat (sec_start b i) = S i \<and> unat (sec_len b i) = L i"
    and st: "i \<le> n" "unat c = image_end S L i - 0x1200000" "placed S L (sec_data b) i f"
  shows "\<exists>c' f'. zl_layout b i (RESET_ADDRESS, c, f) = Some (RESET_ADDRESS, c', f') \<and>
    unat c' = image_end S L n - 0x1200000 \<and> placed S L (sec_data b) n f' \<and> (\<forall>x<0x200000. f' x = f x)"
  using st
proof (induction "n - i" arbitrary: i c f)
  case 0
  then show ?case
    using stop by (subst zl_layout.simps) simp
next
  case (Suc k)
  then have i: "i < n" by simp
  let ?f = "blit (S i - 0x1000000) (map (sec_data b i) [0..<L i]) f"
  have ok: "0x1200000 \<le> S i" "0 < L i" "S i + L i \<le> 0x2000000"
    using load i by (auto simp: loadable_def)
  have "unat c \<le> 0xe00000"
    using image_end_high [OF load, of i] i Suc.prems(2) by simp
  then obtain c' where c': "zl_place (sec_start b i) (sec_len b i) (sec_data b i) (RESET_ADDRESS, c, f) = Some (RESET_ADDRESS, c', ?f)"
    "unat c' = max (unat c) (S i + L i - 0x1200000)"
    using zl_place_valid [of "sec_start b i" "sec_len b i" c "sec_data b i" f] sec [OF i] ok by auto
  have next_k: "k = n - Suc i"
    using Suc.hyps(2) by simp
  have nz: "sec_len b i \<noteq> 0"
    using sec [OF i] ok by auto
  have len: "unat c' = image_end S L (Suc i) - 0x1200000"
    using c'(2) Suc.prems(2) by (simp add: max_def)
  have "placed S L (sec_data b) (Suc i) ?f"
    by (rule placed_Suc [OF Suc.prems(3) ok(1)]) (use load i in \<open>auto simp: loadable_def\<close>)
  then obtain c2 f2 where "zl_layout b (Suc i) (RESET_ADDRESS, c', ?f) = Some (RESET_ADDRESS, c2, f2)"
    "unat c2 = image_end S L n - 0x1200000" "placed S L (sec_data b) n f2" "\<And>x. x < 0x200000 \<Longrightarrow> f2 x = ?f x"
    using Suc.hyps(1) [of "Suc i" c' ?f, OF next_k _ len] i by auto
  moreover have "?f x = f x" if "x < 0x200000" for x
  proof -
    have "\<not> S i - 0x1000000 \<le> x"
      using that ok(1) by linarith
    then show ?thesis
      by (simp add: blit_def)
  qed
  ultimately show ?case
    using c'(1) nz by (subst zl_layout.simps) simp
qed

lemma zl_missing_ends:
  assumes "sec_len b n = 0" "i \<le> n"
  shows "\<exists>ws. zl_missing b i = Some ws"
  using assms(2)
proof (induction "n - i" arbitrary: i)
  case 0
  then show ?case
    using assms(1) by (subst zl_missing.simps) simp
next
  case (Suc k)
  then have "k = n - Suc i" "Suc i \<le> n" by simp_all
  then obtain ws where "zl_missing b (i + 1) = Some ws"
    using Suc.hyps(1) [of "i + 1"] by auto
  then show ?case
    by (subst zl_missing.simps) simp
qed

section \<open>The program in the flash\<close>

lemma placed_cong:
  assumes "placed S L D n f" "\<And>i j. i < n \<Longrightarrow> j < L i \<Longrightarrow> D i j = D' i j"
  shows "placed S L D' n f"
  using assms by (simp add: placed_def)

abbreviation (input) ph_start :: "(nat \<Rightarrow> phdr) \<Rightarrow> nat \<Rightarrow> nat" where "ph_start ph i \<equiv> unat (p_paddr (ph i))"
abbreviation (input) ph_len :: "(nat \<Rightarrow> phdr) \<Rightarrow> nat \<Rightarrow> nat" where "ph_len ph i \<equiv> unat (p_filesz (ph i))"

lemma sec_words:
  assumes "loadable (ph_start ph) (ph_len ph) n" "sec_holds file (ph i) p i b" "i < n"
  shows "unat (sec_start b i) = ph_start ph i \<and> unat (sec_len b i) = ph_len ph i"
proof -
  have "ph_start ph i < 2 ^ 32" "ph_len ph i < 2 ^ 32"
    using assms(1,3) by (auto simp: loadable_def)
  then have "unat (ucast (p_paddr (ph i)) :: u32) = ph_start ph i" "unat (ucast (p_filesz (ph i)) :: u32) = ph_len ph i"
    by (simp_all add: unat_ucast_id)
  then show ?thesis
    using assms(2) by (simp add: sec_holds_def)
qed

lemma zl_program_loads:
  assumes dev: "flash_device m env" and good: "good_elf e file RESET_ADDRESS n ph"
    and load: "loadable (ph_start ph) (ph_len ph) n" and al: "image_end (ph_start ph) (ph_len ph) n mod 4 = 0"
  shows "\<exists>h'. zl_program env junk e (Some file) fbuf h = Some (Inr h') \<and>
    (\<forall>i<n. \<forall>j<ph_len ph i. flash_mem m h' (ph_start ph i + j) = file ! (unat (p_offset (ph i)) + j)) \<and>
    (\<forall>x<0x1200000. flash_mem m h' x = flash_mem m h x)"
proof -
  let ?S = "ph_start ph" and ?L = "ph_len ph"
  obtain b where b: "elfread junk e (Some file) = Some (Inr (RESET_ADDRESS, b))" "sec_len b n = 0"
    "\<And>i. i < n \<Longrightarrow> sec_holds file (ph i) (offs ph n i) i b"
    using elfread_reads [OF good, of junk] by auto
  have sec: "unat (sec_start b i) = ?S i \<and> unat (sec_len b i) = ?L i" if "i < n" for i
    using sec_words [OF load b(3) [OF that] that] .
  obtain ws where ws: "zl_missing b 0 = Some ws"
    using zl_missing_ends [OF b(2), of 0] by auto
  obtain c f where cf: "zl_layout b 0 (RESET_ADDRESS, 0, fbuf) = Some (RESET_ADDRESS, c, f)"
    "unat c = image_end ?S ?L n - 0x1200000" "placed ?S ?L (sec_data b) n f"
    using zl_layout_valid [OF load b(2) sec, of 0 0 fbuf] by (auto simp: placed_def)
  have n: "0 < n"
    using good by (simp add: good_elf_def)
  have ends: "0x1200000 \<le> image_end ?S ?L n" "image_end ?S ?L n \<le> 0x2000000" "?S i + ?L i \<le> image_end ?S ?L n" if "i < n" for i
  proof -
    have "?S i + ?L i \<le> image_end ?S ?L k" if "i < k" for k
      using that by (induction k) (auto simp: less_Suc_eq)
    then show "?S i + ?L i \<le> image_end ?S ?L n"
      using \<open>i < n\<close> by simp
  qed (use image_end_low image_end_high [OF load] in auto)
  have c: "unat RESET_ADDRESS + unat c = image_end ?S ?L n"
    using ends(1) [OF n] cf(2) by simp
  have pos: "0 < unat c"
    using ends(3) [OF n] load n cf(2) by (auto simp: loadable_def)
  have "unat c mod 4 = 0"
    using al cf(2) ends(1) [OF n] by presburger
  then have wr: "write_ok RESET_ADDRESS c"
    using c ends(2) [OF n] by (simp add: write_ok_def)
  let ?data = "\<lambda>i. f (unat (RESET_ADDRESS - SPIFLASH) + i)"
  obtain h1 where h1: "flashdrvr_write env RESET_ADDRESS c ?data True h = Some (True, h1)"
    "\<And>i. i < unat c \<Longrightarrow> flash_mem m h1 (unat RESET_ADDRESS + i) = ?data i"
    "\<And>x. x div 0x10000 < unat RESET_ADDRESS div 0x10000 \<Longrightarrow> flash_mem m h1 x = flash_mem m h x"
    using flashdrvr_writes [OF dev wr pos, of ?data True h] by blast
  have "zl_program env junk e (Some file) fbuf h = Some (Inr (snd (bus_readio env R_VERSION h1)))"
    using ends(2) [OF n] c by (simp add: zl_program_def b(1) ws cf(1) h1(1) [simplified])
  moreover have "flash_mem m h1 (?S i + j) = file ! (unat (p_offset (ph i)) + j)" if "i < n" "j < ?L i" for i j
  proof -
    have s: "0x1200000 \<le> ?S i"
      using load that by (simp add: loadable_def)
    have "?S i - 0x1200000 + j < unat c"
      using ends(3) [OF that(1)] that(2) s c by simp
    from h1(2) [OF this] have "flash_mem m h1 (?S i + j) = f (?S i - 0x1000000 + j)"
      using s by simp
    also have "\<dots> = sec_data b i j"
      using cf(3) that by (simp add: placed_def)
    also have "\<dots> = file ! (unat (p_offset (ph i)) + j)"
      using b(3) [OF that(1)] that(2) by (simp add: sec_holds_def)
    finally show ?thesis .
  qed
  moreover have "flash_mem m h1 x = flash_mem m h x" if "x < 0x1200000" for x
    using that by (intro h1(3)) simp
  ultimately show ?thesis
    by auto
qed

section \<open>Configurations in the flash\<close>

text \<open>A write of a file of whole words at an address of the flash, from a buffer.\<close>

lemma config_write:
  assumes dev: "flash_device m env" and bs: "0 < k" "k mod 4 = 0" "k < 0x1000000"
    and a: "0x1000000 \<le> unat a" "unat a < 0x2000000" "unat a mod 4 = 0"
  obtains h1 where "flashdrvr_write env a (ucast (of_nat k :: u64)) f True h = Some (True, h1)"
    "\<And>i. i < k \<Longrightarrow> flash_mem m h1 (unat a + i) = f i"
    "\<And>x. x div 0x10000 < unat a div 0x10000 \<or> (unat a + k - 1) div 0x10000 < x div 0x10000 \<Longrightarrow> flash_mem m h1 x = flash_mem m h x"
proof -
  have "unat (of_nat k :: u64) = k"
    using bs by (simp add: unsigned_of_nat take_bit_nat_eq_self)
  then have k: "unat (ucast (of_nat k :: u64) :: u32) = k"
    using bs by (subst unat_ucast_id) simp_all
  then have "write_ok a (ucast (of_nat k :: u64))"
    using bs a unfolding write_ok_def by simp
  from flashdrvr_writes [OF dev this, of f True h] that show thesis
    unfolding k using bs(1) by blast
qed

lemma zl_bitfile_writes:
  assumes dev: "flash_device m env" and f: "fs name = Some file" "zl_read name file 0x1000000 = Some (Inr bs)"
    and bs: "0 < length bs" "length bs mod 4 = 0" "length bs < 0x1000000"
  obtains h1 where "zl_bitfile env fs (Some name) bitsz h = Some (Inr (of_nat (length bs), blit 0 bs (\<lambda>_. 0xff), h1))"
    "\<And>i. i < length bs \<Longrightarrow> flash_mem m h1 (0x1000000 + i) = bs ! i"
proof -
  obtain h1 where h1: "flashdrvr_write env CONFIG_ADDRESS (ucast (of_nat (length bs) :: u64)) (blit 0 bs (\<lambda>_. 0xff)) True h = Some (True, h1)"
    "\<And>i. i < length bs \<Longrightarrow> flash_mem m h1 (unat CONFIG_ADDRESS + i) = blit 0 bs (\<lambda>_. 0xff) i"
    by (rule config_write [OF dev bs, of CONFIG_ADDRESS "blit 0 bs (\<lambda>_. 0xff)" h]) simp_all
  have "zl_bitfile env fs (Some name) bitsz h = Some (Inr (of_nat (length bs), blit 0 bs (\<lambda>_. 0xff), h1))"
    using h1(1) f by (simp add: zl_bitfile_def Let_def)
  moreover have "flash_mem m h1 (0x1000000 + i) = bs ! i" if "i < length bs" for i
    using h1(2) [OF that] that by (simp add: blit_def)
  ultimately show thesis
    by (rule that)
qed

section \<open>Properties\<close>



section \<open>Witnesses\<close>

text \<open>The empty flash behind a bus that answers the version request, and three files.\<close>

definition loader_bus :: benv where
  "loader_bus h q i = (if q = QReadio R_VERSION then 0x20170000 else demo_bus h q i)"

lemma loader_bus: "flash_device (\<lambda>_. 0xff) loader_bus" "0x20170000 \<le> loader_bus h (QReadio R_VERSION) 0"
  by (auto simp: flash_device_def loader_bus_def demo_bus_def demo_read_def be_byte_buildword)

definition loader_files :: files where
  "loader_files = [''prog'' \<mapsto> demo_file, ''conf'' \<mapsto> [1, 2, 3, 4, 5, 6, 7, 8], ''other'' \<mapsto> [9, 9, 9, 9]]"

lemma demo_loadable:
  "loadable (\<lambda>_. 0x1200000) (\<lambda>_. 4) 1" "image_end (\<lambda>_. 0x1200000) (\<lambda>_. 4) 1 = 0x1200004"
  by (simp_all add: loadable_def)



end
