(* ===== verification/Zipsim.thy ===== *)
theory Zipsim
  imports Zipload Qspiflash Uartsim
begin

text \<open>
  The simulation of the board, sim/verilator/zip_sim.cpp with testb.h: the processor, which Verilator generates, wired to the
  simulated flash and serial port, and the program that loads an ELF file into the flash and runs it.

  The generated class is a parameter \<open>core\<close>: how it evaluates from its inputs, and what its outputs and the registers
  looked at are in a state. What the operating system answers to the serial port in a tick is a function \<open>os\<close> of the number
  of the tick. Messages are events; the debugging file, the trace and the count of ticks per second are left out.
\<close>

section \<open>The generated processor\<close>

record core_in =
  i_clk :: bool
  i_qspi_dat :: u32
  i_gpio :: u32
  i_btn :: u32
  i_kp_row :: u32
  i_uart_cts_n :: bool
  i_uart :: bool

record core_out =
  o_qspi_cs_n :: u32
  o_qspi_sck :: u32
  o_qspi_dat :: u32
  o_qspi_mod :: u32
  o_gpio :: u32
  o_kp_col :: u32
  o_uart :: bool
  o_led :: u32
  cpu_regset :: "nat \<Rightarrow> u32"
  cpu_gie :: bool
  cpu_ipc :: u32
  cpu_upc :: u32
  cpu_iflags :: u32
  cpu_uflags :: u32
  cpu_pf_pc :: u32
  cpu_op_sim :: bool
  cpu_op_valid :: bool
  cpu_alu_ce :: bool
  cpu_sim_immv :: u32
  cpu_halted :: bool
  watchdog_int :: bool

record 'c core =
  core_eval :: "core_in \<Rightarrow> 'c \<Rightarrow> 'c"
  core_outs :: "'c \<Rightarrow> core_out"

section \<open>The test bench\<close>

datatype sim_event =
    Led_line u32 u32 u32
  | Pc_line u32 u32 u32
  | Watchdog u32 u64
  | Sim_dump bool "u32 list" u32 u32 u32 u32
  | Reg_line u64 u32 nat u32
  | User_reg_line u64 u32 nat u32
  | Sim_char u8
  | Sim_unknown u32 u32 u32
  | Uart_sent "u8 list"

record 'c testb =
  m_core :: 'c
  m_ins :: core_in
  m_tickcount :: u64
  m_flash :: flash
  m_uart :: uartsim
  m_last_led :: u32
  m_last_gpio :: u32
  m_last_pf_pc :: u32
  m_last_qspi_dat :: u32
  m_serial_port :: int
  m_dbg :: bool
  m_out :: "sim_event list"

datatype tb_stop = Flash_stop sim_stop | Sim_exit int

definition testb_eval :: "'c core \<Rightarrow> 'c testb \<Rightarrow> 'c testb" where
  "testb_eval io s = s\<lparr>m_core := core_eval io (m_ins s) (m_core s)\<rparr>"

definition set_clk :: "bool \<Rightarrow> 'c testb \<Rightarrow> 'c testb" where
  "set_clk v s = s\<lparr>m_ins := (m_ins s)\<lparr>i_clk := v\<rparr>\<rparr>"

text \<open>\<open>TESTB::tick\<close>.\<close>

definition testb_tick :: "'c core \<Rightarrow> 'c testb \<Rightarrow> 'c testb" where
  "testb_tick io s =
    (let s = s\<lparr>m_tickcount := m_tickcount s + 1\<rparr>;
         s = testb_eval io s;
         s = testb_eval io (set_clk True s)
     in testb_eval io (set_clk False s))"

definition gpiosim :: "u32 \<Rightarrow> u32" where "gpiosim gpio = 0"
definition keypadsim :: "u32 \<Rightarrow> u32" where "keypadsim kpd = 0"

section \<open>Simulation instructions\<close>

definition sim_dump :: "core_out \<Rightarrow> sim_event" where
  "sim_dump p = Sim_dump (cpu_gie p) (map (cpu_regset p) ([0..<14] @ [16..<30])) (cpu_iflags p) (cpu_ipc p) (cpu_uflags p) (cpu_upc p)"

definition execsim :: "u32 \<Rightarrow> u64 \<Rightarrow> core_out \<Rightarrow> int + sim_event list" where
  "execsim imm tickcount p =
    (let rbase = (if cpu_gie p then 16 else 0);
         r = unat (imm AND 0x0f);
         regp = cpu_regset p
     in if imm AND 0x03fffff = 0 then Inr []
        else if imm AND 0x0fffff = 0x00100 then Inl 0
        else if imm AND 0x0ffff0 = 0x00310 then Inl (uint (regp (r + 16) AND 0x0ff))
        else if imm AND 0x0ffff0 = 0x00300 then Inl (uint (regp (r + rbase) AND 0x0ff))
        else if imm AND 0x0fff00 = 0x00100 then Inl (uint (imm AND 0x0ff))
        else if imm AND 0x0fffff = 0x002ff then Inr [sim_dump p]
        else if imm AND 0x0ffff0 = 0x00200 then Inr [Reg_line tickcount (cpu_ipc p) (r + rbase) (regp (r + rbase))]
        else if imm AND 0x0ffff0 = 0x00210 then Inr [User_reg_line tickcount (cpu_ipc p) r (regp (r + 16))]
        else if imm AND 0x0ffff0 = 0x00230 then Inr [Sim_char (ucast (regp (r + 16) AND 0x0ff))]
        else if imm AND 0x0fffe0 = 0x00220 then Inr [Sim_char (ucast (regp (r + rbase) AND 0x0ff))]
        else if imm AND 0x0fff00 = 0x00400 then Inr [Sim_char (ucast (imm AND 0x0ff))]
        else Inr [Sim_unknown (imm AND 0x03fffff) (cpu_ipc p) (cpu_upc p)])"

section \<open>One tick of the board\<close>

text \<open>The flash: one or two edges of its clock in a tick, and what the shared data lines then carry.\<close>

definition tick_flash :: "core_out \<Rightarrow> flash \<Rightarrow> sim_stop + u32 \<times> flash" where
  "tick_flash p f =
    (if o_qspi_sck p = 3 \<or> o_qspi_sck p = 0 then flash_op (o_qspi_cs_n p) (o_qspi_sck p AND 1) (o_qspi_dat p) f
     else andthen (flash_op (o_qspi_cs_n p) (if o_qspi_sck p AND 2 \<noteq> 0 then 1 else 0) (o_qspi_dat p) f)
       (\<lambda>(_, f1). flash_op (o_qspi_cs_n p) (if o_qspi_sck p AND 1 \<noteq> 0 then 1 else 0) (o_qspi_dat p) f1))"

definition qspi_lines :: "core_out \<Rightarrow> u32 \<Rightarrow> u32" where
  "qspi_lines p iqspi =
    (if o_qspi_mod p AND 2 \<noteq> 0
     then if o_qspi_mod p AND 1 \<noteq> 0 then iqspi else o_qspi_dat p
     else ((iqspi OR 0xc) AND 0xe) OR (o_qspi_dat p AND 1))"

definition tick_lines :: "core_out \<Rightarrow> 'c testb \<Rightarrow> 'c testb" where
  "tick_lines p s =
    (if o_led p \<noteq> m_last_led s \<or> o_gpio p \<noteq> m_last_gpio s
     then s\<lparr>m_out := m_out s @ [Led_line (o_led p) (o_gpio p) (cpu_pf_pc p)],
       m_last_led := o_led p, m_last_gpio := o_gpio p, m_last_pf_pc := cpu_pf_pc p\<rparr>
     else if \<not> m_dbg s \<and> m_serial_port s \<noteq> 0 \<and> m_last_pf_pc s \<noteq> cpu_pf_pc p
     then s\<lparr>m_out := m_out s @ [Pc_line (o_led p) (o_gpio p) (cpu_pf_pc p)], m_last_pf_pc := cpu_pf_pc p\<rparr>
     else s)"

definition zipsim_tick :: "'c core \<Rightarrow> (u64 \<Rightarrow> osin) \<Rightarrow> 'c testb \<Rightarrow> tb_stop + 'c testb" where
  "zipsim_tick io os s =
    (let p = core_outs io (m_core s); dat = m_last_qspi_dat s
     in case tick_flash p (m_flash s) of Inl e \<Rightarrow> Inl (Flash_stop e)
        | Inr (iqspi, f) \<Rightarrow>
       (let (rx, sent, u) = uart_op (os (m_tickcount s)) (o_uart p) 25 (m_uart s);
            s = s\<lparr>m_flash := f, m_last_qspi_dat := qspi_lines p iqspi, m_uart := u,
              m_out := m_out s @ (if sent = [] then [] else [Uart_sent sent]),
              m_ins := (m_ins s)\<lparr>i_qspi_dat := dat, i_gpio := gpiosim (o_gpio p), i_btn := 0,
                i_kp_row := keypadsim (o_kp_col p), i_uart_cts_n := False, i_uart := rx\<rparr>\<rparr>;
            s = testb_tick io s;
            p = core_outs io (m_core s);
            s = tick_lines p s;
            s = (if watchdog_int p then s\<lparr>m_out := m_out s @ [Watchdog (cpu_ipc p) (m_tickcount s)]\<rparr> else s)
        in if cpu_op_sim p \<and> cpu_op_valid p \<and> cpu_alu_ce p
           then (case execsim (cpu_sim_immv p) (m_tickcount s) p of
                   Inl c \<Rightarrow> Inl (Sim_exit c) | Inr ev \<Rightarrow> Inr (s\<lparr>m_out := m_out s @ ev\<rparr>))
           else Inr s))"

section \<open>The program\<close>

record sim_opts =
  codef :: "string option"
  trace_file :: "string option"
  debug_flag :: bool
  serial_port :: int

definition tolower :: "char \<Rightarrow> char" where
  "tolower c = (if 65 \<le> (of_char c :: nat) \<and> (of_char c :: nat) \<le> 90 then char_of (of_char c + (32 :: nat)) else c)"

text \<open>The decimal number at the start of a string.\<close>

definition is_space :: "char \<Rightarrow> bool" where
  "is_space c \<longleftrightarrow> (of_char c :: nat) = 32 \<or> 9 \<le> (of_char c :: nat) \<and> (of_char c :: nat) \<le> 13"

definition is_digit :: "char \<Rightarrow> bool" where
  "is_digit c \<longleftrightarrow> 48 \<le> (of_char c :: nat) \<and> (of_char c :: nat) \<le> 57"

definition dec_value :: "string \<Rightarrow> int" where
  "dec_value ds = fold (\<lambda>c n. 10 * n + int (of_char c - 48)) (takeWhile is_digit ds) 0"

definition atoi :: "string \<Rightarrow> int" where
  "atoi str =
    (let t = dropWhile is_space str
     in if take 1 t = ''-'' then - dec_value (tl t) else if take 1 t = ''+'' then dec_value (tl t) else dec_value t)"

text \<open>
  The letters of one argument that begins with a dash; \<open>rest\<close> is what follows it. At most 511 letters are looked at. The result:
  \<open>None\<close> where a null pointer is read, the options and the arguments left.
\<close>

fun sim_flags :: "nat \<Rightarrow> string \<Rightarrow> string list \<Rightarrow> sim_opts \<Rightarrow> (string list \<times> sim_opts) outcome" where
  "sim_flags j [] rest opts = Some (Inr (rest, opts))"
| "sim_flags j (c # cs) rest opts =
    (if j \<ge> 512 then Some (Inr (rest, opts))
     else let c = tolower c
     in if c = CHR ''c'' \<or> c = CHR ''p'' then sim_flags (j + 1) cs rest opts
        else if c = CHR ''d''
        then sim_flags (j + 1) cs rest (opts\<lparr>debug_flag := True,
          trace_file := (if trace_file opts = None then Some ''trace.vcd'' else trace_file opts)\<rparr>)
        else if c = CHR ''s''
        then (case rest of [] \<Rightarrow> None | a # as \<Rightarrow> Some (Inr (as, opts\<lparr>serial_port := atoi a\<rparr>)))
        else if c = CHR ''t''
        then (case rest of [] \<Rightarrow> Some (Inr ([], opts\<lparr>trace_file := None\<rparr>)) | a # as \<Rightarrow> Some (Inr (as, opts\<lparr>trace_file := Some a\<rparr>)))
        else if c = CHR ''h'' then Some (Inl EXIT_SUCCESS)
        else Some (Inl EXIT_FAILURE))"

lemma sim_flags_rest:
  "sim_flags j cs rest opts = Some (Inr (rest', opts')) \<Longrightarrow> length rest' \<le> length rest"
  by (induction j cs rest opts rule: sim_flags.induct) (auto simp: Let_def split: if_splits list.splits)

function sim_args :: "(string \<Rightarrow> u8 list option) \<Rightarrow> string list \<Rightarrow> sim_opts \<Rightarrow> sim_opts outcome" where
  "sim_args fs [] opts = Some (Inr opts)"
| "sim_args fs (a # as) opts =
    (if take 1 a = ''-''
     then (case sim_flags 1 (tl a) as opts of
             None \<Rightarrow> None | Some (Inl c) \<Rightarrow> Some (Inl c) | Some (Inr (as', opts')) \<Rightarrow> sim_args fs as' opts')
     else if iself (fs a) then sim_args fs as (opts\<lparr>codef := Some a\<rparr>)
     else Some (Inl EXIT_FAILURE))"
  by pat_completeness auto

termination
  by (relation "measure (\<lambda>(fs, as, opts). length as)") (auto dest!: sim_flags_rest)

text \<open>The sections of the program, into the flash.\<close>

partial_function (option) sim_load :: "block \<Rightarrow> nat \<Rightarrow> flash \<Rightarrow> (sim_stop + flash) option" where
  "sim_load b i f =
    (if sec_len b i = 0 then Some (Inr f)
     else case flash_write (sec_start b i) (map (sec_data b i) [0..<unat (sec_len b i)]) f of
            Inl e \<Rightarrow> Some (Inl e) | Inr f1 \<Rightarrow> sim_load b (i + 1) f1)"

partial_function (option) sim_loop :: "'c core \<Rightarrow> (u64 \<Rightarrow> osin) \<Rightarrow> 'c testb \<Rightarrow> (tb_stop + 'c testb) option" where
  "sim_loop io os s =
    (if cpu_halted (core_outs io (m_core s)) then Some (Inr s)
     else case zipsim_tick io os s of Inl e \<Rightarrow> Some (Inl e) | Inr s1 \<Rightarrow> sim_loop io os s1)"

text \<open>The constructors: a core, a flash and a serial port as they happen to be made, and the first evaluation.\<close>

definition zipsim_new :: "'c core \<Rightarrow> 'c \<Rightarrow> core_in \<Rightarrow> flash \<Rightarrow> uartsim \<Rightarrow> int \<Rightarrow> bool \<Rightarrow> 'c testb" where
  "zipsim_new io c ins f u port dbg =
    testb_eval io \<lparr>m_core = c, m_ins = ins\<lparr>i_clk := False\<rparr>, m_tickcount = 0, m_flash = f, m_uart = u,
      m_last_led = - 1, m_last_gpio = - 1, m_last_pf_pc = - 1, m_last_qspi_dat = 15,
      m_serial_port = port, m_dbg = dbg, m_out = []\<rparr>"

definition zipsim_main :: "'c core \<Rightarrow> 'c \<Rightarrow> core_in \<Rightarrow> flash \<Rightarrow> (int \<Rightarrow> uartsim) \<Rightarrow> (u64 \<Rightarrow> osin) \<Rightarrow> (string \<Rightarrow> u8 list option) \<Rightarrow>
    (string \<Rightarrow> libelf) \<Rightarrow> (nat \<Rightarrow> u8) \<Rightarrow> string list \<Rightarrow> (tb_stop + int \<times> 'c testb) option" where
  "zipsim_main io c ins f uart os fs elf junk argv =
    (case sim_args fs (tl argv) \<lparr>codef = None, trace_file = None, debug_flag = False, serial_port = - 1\<rparr> of
       None \<Rightarrow> None
     | Some (Inl n) \<Rightarrow> Some (Inl (Sim_exit n))
     | Some (Inr opts) \<Rightarrow>
        let port = (if serial_port opts < 0 then 0 else serial_port opts);
            s = zipsim_new io c ins f (uart port) port (debug_flag opts)
        in (case codef opts of None \<Rightarrow> None
           | Some name \<Rightarrow>
          (case elfread junk (elf name) (fs name) of None \<Rightarrow> None
           | Some (Inl n) \<Rightarrow> Some (Inl (Sim_exit n))
           | Some (Inr (entry, b)) \<Rightarrow>
              if entry \<noteq> 0x01200000 then None
              else (case sim_load b 0 (m_flash s) of None \<Rightarrow> None
                    | Some (Inl e) \<Rightarrow> Some (Inl (Flash_stop e))
                    | Some (Inr f1) \<Rightarrow>
                   (case sim_loop io os (s\<lparr>m_flash := f1\<rparr>) of None \<Rightarrow> None
                    | Some (Inl e) \<Rightarrow> Some (Inl e)
                    | Some (Inr s1) \<Rightarrow>
                        Some (andthen (zipsim_tick io os s1) (\<lambda>s2. andthen (zipsim_tick io os s2)
                          (\<lambda>s3. andthen (zipsim_tick io os s3) (\<lambda>s4. Inr (0, s4))))))))))"

section \<open>Simulation instructions, in general\<close>

text \<open>The code of an exit is a byte, and no register outside the two sets of sixteen is looked at.\<close>

lemma word_and_byte: "uint ((x :: u32) AND 0x0ff) < 256"
proof -
  have "(0x0ff :: u32) = mask 8"
    by (simp add: mask_eq_exp_minus_1)
  then have "unat (x AND 0x0ff) = unat x mod 256"
    using unat_and_mask_eq_mod [of x 8] by simp
  then have "int (unat (x AND 0x0ff)) < 256"
    by simp
  then show ?thesis
    by (simp only: uint_nat)
qed

lemma execsim_exit: "execsim imm ticks p = Inl c \<Longrightarrow> 0 \<le> c \<and> c < 256"
  by (auto simp: execsim_def Let_def word_and_byte split: if_splits)

lemma unat_and_15: "unat ((x :: u32) AND 0x0f) < 16"
proof -
  have "(0x0f :: u32) = mask 4"
    by (simp add: mask_eq_exp_minus_1)
  then show ?thesis
    using unat_and_mask_eq_mod [of x 4] by simp
qed

lemma execsim_registers:
  assumes "\<And>r. r < 32 \<Longrightarrow> regs r = cpu_regset p r"
  shows "execsim imm ticks (p\<lparr>cpu_regset := regs\<rparr>) = execsim imm ticks p"
proof -
  have "regs (unat (imm AND 0x0f) + 16) = cpu_regset p (unat (imm AND 0x0f) + 16)"
    "regs (unat (imm AND 0x0f)) = cpu_regset p (unat (imm AND 0x0f))"
    using unat_and_15 [of imm] by (auto intro!: assms)
  moreover have "sim_dump (p\<lparr>cpu_regset := regs\<rparr>) = sim_dump p"
    by (simp add: sim_dump_def assms)
  ultimately show ?thesis
    by (simp add: execsim_def Let_def)
qed

section \<open>Loading\<close>

text \<open>The memory of the flash by its offsets.\<close>

definition flash_bytes :: "flash \<Rightarrow> bytes" where
  "flash_bytes f x = (if x < 0x1000000 then m_mem f (of_nat x) else 0)"

lemma flash_write_blit:
  assumes "0x1000000 \<le> unat a" "unat a + length bs \<le> 0x2000000" "bs \<noteq> []"
  shows "\<exists>mem. flash_write a bs f = Inr (f\<lparr>m_mem := mem\<rparr>) \<and>
    flash_bytes (f\<lparr>m_mem := mem\<rparr>) = blit (unat a - 0x1000000) bs (flash_bytes f)"
proof -
  have len: "0 < length bs"
    using assms(3) by simp
  have "(MEMBYTES - 1 :: u32) = mask 24"
    by (simp add: mask_eq_exp_minus_1)
  then have "unat (a AND (MEMBYTES - 1)) = unat a mod 2 ^ 24"
    by (simp only: unat_and_mask_eq_mod)
  also have "\<dots> = (unat a - 0x1000000) mod 2 ^ 24"
    using le_mod_geq [of "0x1000000" "unat a"] assms(1) by simp
  also have "\<dots> = unat a - 0x1000000"
  proof (rule mod_less)
    have "unat a < 0x2000000"
      using assms(2) len by linarith
    then show "unat a - 0x1000000 < 2 ^ 24"
      using assms(1) by simp
  qed
  finally have moff: "unat (a AND (MEMBYTES - 1)) = unat a - 0x1000000" .
  have room: "\<not> unat (a AND (MEMBYTES - 1)) + length bs > unat MEMBYTES"
    unfolding moff using assms(1,2) by simp
  let ?m = "\<lambda>x. if a AND (MEMBYTES - 1) \<le> x \<and> unat x < unat (a AND (MEMBYTES - 1)) + length bs
    then bs ! (unat x - unat (a AND (MEMBYTES - 1))) else m_mem f x"
  have w: "flash_write a bs f = Inr (f\<lparr>m_mem := ?m\<rparr>)"
    using room by (simp only: flash_write_def Let_def if_False)
  have "flash_bytes (f\<lparr>m_mem := ?m\<rparr>) x = blit (unat a - 0x1000000) bs (flash_bytes f) x" for x
  proof (cases "x < 0x1000000")
    case True
    then have "unat (of_nat x :: u32) = x"
      by (simp add: unat_of_nat_u32)
    then show ?thesis
      using True by (simp only: flash_bytes_def flash.select_convs flash.update_convs blit_def word_le_nat_alt moff if_True) simp
  next
    case False
    then have "\<not> (unat a - 0x1000000 \<le> x \<and> x < unat a - 0x1000000 + length bs)"
      using assms(1,2) by linarith
    then show ?thesis
      using False by (simp only: flash_bytes_def blit_def if_False)
  qed
  then show ?thesis
    using w by blast
qed

lemma sim_load_valid:
  assumes load: "loadable S L n" and stop: "sec_len b n = 0"
    and sec: "\<And>i. i < n \<Longrightarrow> unat (sec_start b i) = S i \<and> unat (sec_len b i) = L i"
    and st: "i \<le> n" "placed S L (sec_data b) i (flash_bytes f)"
  shows "\<exists>mem. sim_load b i f = Some (Inr (f\<lparr>m_mem := mem\<rparr>)) \<and> placed S L (sec_data b) n (flash_bytes (f\<lparr>m_mem := mem\<rparr>))"
  using st
proof (induction "n - i" arbitrary: i f)
  case 0
  then show ?case
    using stop by (intro exI [of _ "m_mem f"]) (subst sim_load.simps, simp)
next
  case (Suc k)
  then have i: "i < n" by simp
  let ?bs = "map (sec_data b i) [0..<L i]"
  have ok: "0x1200000 \<le> S i" "0 < L i" "S i + L i \<le> 0x2000000"
    using load i by (auto simp: loadable_def)
  obtain mem where mem: "flash_write (sec_start b i) ?bs f = Inr (f\<lparr>m_mem := mem\<rparr>)"
    "flash_bytes (f\<lparr>m_mem := mem\<rparr>) = blit (S i - 0x1000000) ?bs (flash_bytes f)"
    using flash_write_blit [of "sec_start b i" ?bs f] sec [OF i] ok by auto
  have nz: "sec_len b i \<noteq> 0"
    using sec [OF i] ok by auto
  have "placed S L (sec_data b) (Suc i) (flash_bytes (f\<lparr>m_mem := mem\<rparr>))"
    unfolding mem(2) by (rule placed_Suc [OF Suc.prems(2) ok(1)]) (use load i in \<open>auto simp: loadable_def\<close>)
  moreover have "k = n - Suc i" "Suc i \<le> n"
    using Suc.hyps(2) i by simp_all
  ultimately obtain mem' where "sim_load b (Suc i) (f\<lparr>m_mem := mem\<rparr>) = Some (Inr (f\<lparr>m_mem := mem, m_mem := mem'\<rparr>))"
    "placed S L (sec_data b) n (flash_bytes (f\<lparr>m_mem := mem, m_mem := mem'\<rparr>))"
    using Suc.hyps(1) [of "Suc i" "f\<lparr>m_mem := mem\<rparr>"] by blast
  then show ?case
    using mem(1) nz sec [OF i] by (intro exI [of _ mem']) (subst sim_load.simps, simp)
qed

section \<open>Bits through the test bench\<close>

fun spi_stream :: "bool list \<Rightarrow> flash \<Rightarrow> sim_stop + bool list \<times> flash" where
  "spi_stream [] s = Inr ([], s)"
| "spi_stream (d # ds) s =
    andthen (spi_bit (of_bool d) s) (\<lambda>(v, s1). andthen (spi_stream ds s1) (\<lambda>(vs, s2). Inr ((v AND 2 \<noteq> 0) # vs, s2)))"

lemma spi_stream_append:
  "spi_stream (xs @ ys) s = andthen (spi_stream xs s) (\<lambda>(vs, s1). andthen (spi_stream ys s1) (\<lambda>(ws, s2). Inr (vs @ ws, s2)))"
proof (induction xs arbitrary: s)
  case Nil
  show ?case
    by (cases "spi_stream ys s") auto
next
  case (Cons x xs)
  show ?case
  proof (cases "spi_bit (of_bool x) s")
    case (Inr r)
    obtain v s1 where r: "r = (v, s1)" by fastforce
    show ?thesis
    proof (cases "spi_stream xs s1")
      case (Inr r1)
      obtain vs s2 where "r1 = (vs, s2)" by fastforce
      then show ?thesis
        using Cons.IH [of s1] \<open>spi_bit (of_bool x) s = Inr r\<close> Inr r by (cases "spi_stream ys s2") auto
    qed (use Cons.IH [of s1] Inr r in simp)
  qed simp
qed

lemma spi_bits_stream: "spi_bits n b s = spi_stream (map (bit b) (rev [0..<n])) s"
proof (induction n arbitrary: s)
  case (Suc n)
  have "rev [0..<Suc n] = n # rev [0..<n]"
    by simp
  then show ?case
    unfolding spi_bits.simps by (simp add: Suc.IH)
qed simp

definition bits_down :: "u8 list \<Rightarrow> bool list" where
  "bits_down bs = concat (map (\<lambda>b. map (bit b) (rev [0..<8])) bs)"

lemma spi_send_stream:
  "spi_send bs s = Inr (outs, s1) \<Longrightarrow> spi_stream (bits_down bs) s = Inr (concat outs, s1)"
proof (induction bs arbitrary: s outs)
  case Nil
  then show ?case by (simp add: bits_down_def)
next
  case (Cons b bs)
  then obtain v s2 vs where "spi_bits 8 b s = Inr (v, s2)" "spi_send bs s2 = Inr (vs, s1)" "outs = v # vs"
    by (auto simp: andthen_eq_Inr)
  then show ?case
    using Cons.IH [of s2 vs] by (simp add: bits_down_def spi_stream_append flip: spi_bits_stream)
qed

text \<open>The core clocks a bit out in a tick, in the mode of one data line.\<close>

definition drives :: "core_out \<Rightarrow> bool \<Rightarrow> bool" where
  "drives p d \<longleftrightarrow> o_qspi_cs_n p = 0 \<and> o_qspi_sck p = 2 \<and> o_qspi_mod p AND 2 = 0 \<and> o_qspi_dat p = of_bool d"

primrec tick_run :: "'c core \<Rightarrow> (u64 \<Rightarrow> osin) \<Rightarrow> nat \<Rightarrow> 'c testb \<Rightarrow> tb_stop + 'c testb" where
  "tick_run io os 0 t = Inr t"
| "tick_run io os (Suc n) t = andthen (zipsim_tick io os t) (tick_run io os n)"

text \<open>It clocks out the bits \<open>ds\<close> and does not stop the simulation meanwhile.\<close>

fun drives_all :: "'c core \<Rightarrow> (u64 \<Rightarrow> osin) \<Rightarrow> bool list \<Rightarrow> 'c testb \<Rightarrow> bool" where
  "drives_all io os [] t \<longleftrightarrow> True"
| "drives_all io os (d # ds) t \<longleftrightarrow> drives (core_outs io (m_core t)) d \<and>
    (case zipsim_tick io os t of Inl (Sim_exit c) \<Rightarrow> False | Inl (Flash_stop e) \<Rightarrow> True | Inr t1 \<Rightarrow> drives_all io os ds t1)"

lemma and_2_bit: "(x :: u32) AND 2 \<noteq> 0 \<longleftrightarrow> bit x 1"
  using and_exp_eq_0_iff_not_bit [of x 1] by simp

lemma qspi_lines_in:
  assumes "drives p d"
  shows "qspi_lines p v AND 2 \<noteq> 0 \<longleftrightarrow> v AND 2 \<noteq> 0"
proof -
  have "bit (0xe :: u32) 1" "\<not> bit (0xc :: u32) 1" "\<not> bit (1 :: u32) 1"
    by simp_all
  then show ?thesis
    using assms unfolding and_2_bit by (simp add: drives_def qspi_lines_def bit_or_iff bit_and_iff)
qed

lemma tick_fields:
  "m_flash (testb_tick io s) = m_flash s" "m_last_qspi_dat (testb_tick io s) = m_last_qspi_dat s"
  "i_qspi_dat (m_ins (testb_tick io s)) = i_qspi_dat (m_ins s)"
  "m_flash (tick_lines p s) = m_flash s" "m_last_qspi_dat (tick_lines p s) = m_last_qspi_dat s" "m_ins (tick_lines p s) = m_ins s"
  by (simp_all add: testb_tick_def testb_eval_def set_clk_def tick_lines_def Let_def)

lemma zipsim_tick_fields:
  assumes "zipsim_tick io os t = Inr t1"
  obtains v where "tick_flash (core_outs io (m_core t)) (m_flash t) = Inr (v, m_flash t1)"
    "m_last_qspi_dat t1 = qspi_lines (core_outs io (m_core t)) v" "i_qspi_dat (m_ins t1) = m_last_qspi_dat t"
proof -
  obtain v f where vf: "tick_flash (core_outs io (m_core t)) (m_flash t) = Inr (v, f)"
    using assms by (auto simp: zipsim_tick_def Let_def split: sum.splits)
  have "m_flash t1 = f \<and> m_last_qspi_dat t1 = qspi_lines (core_outs io (m_core t)) v \<and> i_qspi_dat (m_ins t1) = m_last_qspi_dat t"
    using assms vf by (auto simp: zipsim_tick_def Let_def tick_fields split: sum.splits prod.splits if_splits)
  then show thesis
    using that vf by blast
qed

lemma zipsim_tick_drives:
  assumes "drives (core_outs io (m_core t)) d" "spi_bit (of_bool d) (m_flash t) = Inr (v, f)"
  shows "(\<exists>c. zipsim_tick io os t = Inl (Sim_exit c)) \<or>
    (\<exists>t1. zipsim_tick io os t = Inr t1 \<and> m_flash t1 = f \<and> (m_last_qspi_dat t1 AND 2 \<noteq> 0 \<longleftrightarrow> v AND 2 \<noteq> 0))"
proof -
  have "tick_flash (core_outs io (m_core t)) (m_flash t) = Inr (v, f)"
    using assms by (simp add: tick_flash_def drives_def spi_bit_def)
  note fl = this
  have "(\<exists>c. zipsim_tick io os t = Inl (Sim_exit c)) \<or> (\<exists>t1. zipsim_tick io os t = Inr t1)"
    using fl by (auto simp: zipsim_tick_def Let_def split: sum.splits prod.splits)
  then show ?thesis
  proof (elim disjE exE)
    fix t1 assume t1: "zipsim_tick io os t = Inr t1"
    then have "m_flash t1 = f" "m_last_qspi_dat t1 = qspi_lines (core_outs io (m_core t)) v"
      using fl by (auto elim!: zipsim_tick_fields)
    then show ?thesis
      using t1 qspi_lines_in [OF assms(1)] by simp
  qed blast
qed

lemma length_spi_stream: "spi_stream ds s = Inr (vs, s1) \<Longrightarrow> length vs = length ds"
  by (induction ds arbitrary: s vs) (auto simp: andthen_eq_Inr)

lemma tick_run_stream:
  assumes "drives_all io os ds t" "spi_stream ds (m_flash t) = Inr (vs, f)" "k < length ds"
  shows "\<exists>t1. tick_run io os (Suc k) t = Inr t1 \<and> (m_last_qspi_dat t1 AND 2 \<noteq> 0 \<longleftrightarrow> vs ! k)"
  using assms
proof (induction ds arbitrary: t vs k)
  case (Cons d ds)
  then obtain v f1 ws where v: "spi_bit (of_bool d) (m_flash t) = Inr (v, f1)" "spi_stream ds f1 = Inr (ws, f)"
    "vs = (v AND 2 \<noteq> 0) # ws"
    by (auto simp: andthen_eq_Inr)
  have "drives (core_outs io (m_core t)) d"
    using Cons.prems(1) by simp
  from zipsim_tick_drives [OF this v(1), of os] Cons.prems(1)
  obtain t1 where t1: "zipsim_tick io os t = Inr t1" "m_flash t1 = f1" "m_last_qspi_dat t1 AND 2 \<noteq> 0 \<longleftrightarrow> v AND 2 \<noteq> 0"
    "drives_all io os ds t1"
    by auto
  show ?case
  proof (cases k)
    case 0
    then show ?thesis using t1 v(3) by simp
  next
    case (Suc j)
    then show ?thesis
      using Cons.IH [of t1 ws j] t1 v Cons.prems(3) by auto
  qed
qed simp

text \<open>What the lines carry in a tick, the core gets in the next.\<close>

lemma tick_run_Suc: "tick_run io os (Suc n) t = andthen (tick_run io os n t) (zipsim_tick io os)"
proof (induction n arbitrary: t)
  case 0
  show ?case by (cases "zipsim_tick io os t") simp_all
next
  case (Suc n)
  show ?case
    by (cases "zipsim_tick io os t") (simp_all add: Suc.IH [simplified])
qed

lemma tick_run_delayed:
  assumes "drives_all io os ds t" "spi_stream ds (m_flash t) = Inr (vs, f)" "Suc k < length ds"
  shows "\<exists>t1. tick_run io os (Suc (Suc k)) t = Inr t1 \<and> (i_qspi_dat (m_ins t1) AND 2 \<noteq> 0 \<longleftrightarrow> vs ! k)"
proof -
  obtain t1 where t1: "tick_run io os (Suc k) t = Inr t1" "m_last_qspi_dat t1 AND 2 \<noteq> 0 \<longleftrightarrow> vs ! k"
    using tick_run_stream [OF assms(1,2), of k] assms(3) by auto
  obtain t2 where t2: "tick_run io os (Suc (Suc k)) t = Inr t2"
    using tick_run_stream [OF assms] by auto
  then have "zipsim_tick io os t1 = Inr t2"
    using t1(1) unfolding tick_run_Suc [of io os "Suc k"] by simp
  then have "i_qspi_dat (m_ins t2) = m_last_qspi_dat t1"
    by (auto elim: zipsim_tick_fields)
  then show ?thesis
    using t1(2) t2 by auto
qed

section \<open>Properties\<close>

text \<open>The bytes among the bits.\<close>

lemma nth_concat_8:
  "\<forall>v\<in>set xs. length v = 8 \<Longrightarrow> r < 8 \<Longrightarrow> q < length xs \<Longrightarrow> concat xs ! (8 * q + r) = xs ! q ! r"
proof (induction xs arbitrary: q)
  case (Cons x xs)
  then show ?case
    by (cases q) (simp_all add: nth_append)
qed simp

lemma spi_send_lengths: "spi_send bs s = Inr (outs, s1) \<Longrightarrow> length outs = length bs \<and> (\<forall>v\<in>set outs. length v = 8)"
proof (induction bs arbitrary: s outs)
  case (Cons b bs)
  then obtain v s2 vs where v: "spi_bits 8 b s = Inr (v, s2)" "spi_send bs s2 = Inr (vs, s1)" "outs = v # vs"
    by (auto simp: andthen_eq_Inr)
  have "length v = 8"
    using v(1) length_spi_stream [of "map (bit b) (rev [0..<8])" s v s2] by (simp add: spi_bits_stream)
  then show ?case
    using Cons.IH [OF v(2)] v(3) by simp
qed simp

lemma length_bits_down [simp]: "length (bits_down bs) = 8 * length bs"
  by (induction bs) (simp_all add: bits_down_def)

lemma drives_fast_read:
  assumes "selected f" "unat (address a2 a1 a0) + length xs < 2 ^ 24" "m_flash t = f"
    "drives_all io os (bits_down (0x0b # a2 # a1 # a0 # d # xs)) t" "q + 1 < length xs" "r < 8"
  shows "\<exists>t1. tick_run io os (42 + 8 * q + r) t = Inr t1 \<and>
    (i_qspi_dat (m_ins t1) AND 2 \<noteq> 0 \<longleftrightarrow> bit (m_mem f (address a2 a1 a0 + of_nat q)) (7 - r))"
proof -
  let ?bs = "0x0b # a2 # a1 # a0 # d # xs"
  obtain outs f1 where send: "spi_send ?bs f = Inr (outs, f1)"
    and outs: "drop 5 outs = map (\<lambda>i. bits_of (m_mem f (address a2 a1 a0 + of_nat i))) [0..<length xs]"
    using fast_read_bytes [OF assms(1,2), of d] by blast
  have len: "length outs = 5 + length xs" "\<forall>v\<in>set outs. length v = 8"
    using spi_send_lengths [OF send] by auto
  have "outs ! (5 + q) = drop 5 outs ! q"
    using len(1) by simp
  also have "\<dots> = bits_of (m_mem f (address a2 a1 a0 + of_nat q))"
    unfolding outs using assms(5) by simp
  finally have "concat outs ! (8 * (5 + q) + r) \<longleftrightarrow> bit (m_mem f (address a2 a1 a0 + of_nat q)) (7 - r)"
    using nth_concat_8 [OF len(2) assms(6), of "5 + q"] len(1) assms(5,6) by (simp add: bits_of_def)
  moreover have inside: "Suc (8 * (5 + q) + r) < length (bits_down ?bs)"
    using assms(5,6) by simp
  moreover have "Suc (Suc (8 * (5 + q) + r)) = 42 + 8 * q + r"
    by simp
  ultimately show ?thesis
    using tick_run_delayed [OF assms(4) _ inside, of "concat outs" f1] spi_send_stream [OF send] assms(3)
    by (simp only:)
qed

text \<open>
  C28. From the ELF file to the pins of the processor: the simulator's loader puts every section of a program into the
  simulated flash, and whatever core then clocks a fast read of \<open>k\<close> bytes of a section out of its pins, one bit a tick,
  gets the bytes of the file on its input line, the highest bit first, each bit two ticks after it asked for it.
\<close>

theorem sim_core_reads_program:
  assumes "good_elf e file 0x01200000 n ph" "loadable (ph_start ph) (ph_len ph) n" "selected f"
    "i < n" "j + k \<le> ph_len ph i" "unat (address a2 a1 a0) + 0x1000000 = ph_start ph i + j" "ph_start ph i + j + k + 1 < 0x2000000"
  shows "\<exists>b f1. elfread junk e (Some file) = Some (Inr (0x01200000, b)) \<and> sim_load b 0 f = Some (Inr f1) \<and>
    (\<forall>t xs d. m_flash t = f1 \<and> length xs = k + 1 \<and> drives_all io os (bits_down (0x0b # a2 # a1 # a0 # d # xs)) t \<longrightarrow>
      (\<forall>q<k. \<forall>r<8. \<exists>t1. tick_run io os (42 + 8 * q + r) t = Inr t1 \<and>
        (i_qspi_dat (m_ins t1) AND 2 \<noteq> 0 \<longleftrightarrow> bit (file ! (unat (p_offset (ph i)) + j + q)) (7 - r))))"
proof -
  let ?S = "ph_start ph" and ?L = "ph_len ph" and ?a = "address a2 a1 a0"
  obtain b where b: "elfread junk e (Some file) = Some (Inr (0x01200000, b))" "sec_len b n = 0"
    "\<And>i. i < n \<Longrightarrow> sec_holds file (ph i) (offs ph n i) i b"
    using elfread_reads [OF assms(1), of junk] by auto
  have sec: "unat (sec_start b i) = ?S i \<and> unat (sec_len b i) = ?L i" if "i < n" for i
    using sec_words [OF assms(2) b(3) [OF that] that] .
  obtain mem where mem: "sim_load b 0 f = Some (Inr (f\<lparr>m_mem := mem\<rparr>))"
    "placed ?S ?L (sec_data b) n (flash_bytes (f\<lparr>m_mem := mem\<rparr>))"
    using sim_load_valid [OF assms(2) b(2) sec, of 0 f] by (auto simp: placed_def)
  have at: "m_mem (f\<lparr>m_mem := mem\<rparr>) (?a + of_nat q) = file ! (unat (p_offset (ph i)) + j + q)" if "q < k" for q
  proof -
    have s: "0x1200000 \<le> ?S i"
      using assms(2,4) by (simp add: loadable_def)
    have x: "unat ?a + q = ?S i - 0x1000000 + (j + q)"
      using assms(6) s by simp
    have "?a + of_nat q = of_nat (unat ?a + q)"
      by simp
    moreover have "unat ?a + q < 0x1000000"
      using assms(6,7) that by simp
    ultimately have "m_mem (f\<lparr>m_mem := mem\<rparr>) (?a + of_nat q) = flash_bytes (f\<lparr>m_mem := mem\<rparr>) (unat ?a + q)"
      by (simp only: flash_bytes_def if_True)
    also have "\<dots> = sec_data b i (j + q)"
      unfolding x using mem(2) assms(4,5) that by (simp add: placed_def)
    also have "\<dots> = file ! (unat (p_offset (ph i)) + j + q)"
      using b(3) [OF assms(4)] assms(5) that by (simp add: sec_holds_def add.assoc)
    finally show ?thesis .
  qed
  have sel: "selected (f\<lparr>m_mem := mem\<rparr>)"
    using assms(3) by (simp add: selected_def wired_def)
  have "\<exists>t1. tick_run io os (42 + 8 * q + r) t = Inr t1 \<and>
      (i_qspi_dat (m_ins t1) AND 2 \<noteq> 0 \<longleftrightarrow> bit (file ! (unat (p_offset (ph i)) + j + q)) (7 - r))"
    if "m_flash t = f\<lparr>m_mem := mem\<rparr>" "length xs = k + 1" "drives_all io os (bits_down (0x0b # a2 # a1 # a0 # d # xs)) t" "q < k" "r < 8"
    for t xs d q r
    using drives_fast_read [OF sel _ that(1,3), of q r] assms(6,7) that(2,4,5) at [OF that(4)] by simp
  then show ?thesis
    using b(1) mem(1) by blast
qed

section \<open>A witness\<close>

text \<open>A core that clocks out the bits it holds, one with every rising edge of its clock.\<close>

definition bit_outs :: "bool list \<Rightarrow> core_out" where
  "bit_outs ds = \<lparr>o_qspi_cs_n = 0, o_qspi_sck = 2, o_qspi_dat = of_bool (ds \<noteq> [] \<and> hd ds), o_qspi_mod = 0, o_gpio = 0, o_kp_col = 0,
    o_uart = True, o_led = 0, cpu_regset = (\<lambda>_. 0), cpu_gie = False, cpu_ipc = 0, cpu_upc = 0, cpu_iflags = 0, cpu_uflags = 0,
    cpu_pf_pc = 0, cpu_op_sim = False, cpu_op_valid = False, cpu_alu_ce = False, cpu_sim_immv = 0, cpu_halted = False, watchdog_int = False\<rparr>"

definition bit_core :: "bool list core" where
  "bit_core = \<lparr>core_eval = (\<lambda>i ds. if i_clk i then tl ds else ds), core_outs = bit_outs\<rparr>"

lemma bit_core_tick:
  assumes "\<not> i_clk (m_ins t)"
  shows "(\<exists>e. zipsim_tick bit_core os t = Inl (Flash_stop e)) \<or>
    (\<exists>t1. zipsim_tick bit_core os t = Inr t1 \<and> m_core t1 = tl (m_core t) \<and> \<not> i_clk (m_ins t1))"
proof -
  have out: "\<not> cpu_op_sim (bit_outs ds)" "\<not> watchdog_int (bit_outs ds)" for ds
    by (simp_all add: bit_outs_def)
  have lines: "m_core (tick_lines p s) = m_core s" for p and s :: "bool list testb"
    by (simp add: tick_lines_def)
  show ?thesis
    using assms by (auto simp: zipsim_tick_def Let_def out lines tick_fields testb_tick_def testb_eval_def set_clk_def bit_core_def
      split: sum.split prod.split)
qed

lemma bit_core_drives:
  assumes "m_core t = ds" "\<not> i_clk (m_ins t)"
  shows "drives_all bit_core os ds t"
  using assms
proof (induction ds arbitrary: t)
  case (Cons d ds)
  have "drives (core_outs bit_core (m_core t)) d"
    using Cons.prems(1) by (simp add: drives_def bit_core_def bit_outs_def)
  then show ?case
    using bit_core_tick [OF Cons.prems(2), of os] Cons by auto
qed simp

definition demo_bench :: "bool list \<Rightarrow> flash \<Rightarrow> uartsim \<Rightarrow> bool list testb" where
  "demo_bench ds f u = zipsim_new bit_core ds \<lparr>i_clk = False, i_qspi_dat = 0, i_gpio = 0, i_btn = 0, i_kp_row = 0,
    i_uart_cts_n = False, i_uart = True\<rparr> f u 0 False"

theorem sim_core_reads_program_witness:
  "\<forall>os u. \<exists>b f1. elfread (\<lambda>_. 0) demo_elf (Some demo_file) = Some (Inr (0x01200000, b)) \<and> sim_load b 0 demo_flash = Some (Inr f1) \<and>
    (\<exists>t1. tick_run bit_core os 49 (demo_bench (bits_down [0x0b, 0x20, 0, 1, 0, 0, 0]) f1 u) = Inr t1 \<and> i_qspi_dat (m_ins t1) AND 2 = 0) \<and>
    (\<exists>t1. tick_run bit_core os 48 (demo_bench (bits_down [0x0b, 0x20, 0, 1, 0, 0, 0]) f1 u) = Inr t1 \<and> i_qspi_dat (m_ins t1) AND 2 \<noteq> 0)"
proof (intro allI)
  fix os u
  let ?ph = "\<lambda>_ :: nat. \<lparr>p_offset = 52, p_paddr = 0x1200000, p_filesz = 4, p_memsz = 4\<rparr> :: phdr"
  have a: "unat (address 0x20 0 1) = 0x200001"
    by (simp add: address_def)
  have load: "loadable (ph_start ?ph) (ph_len ?ph) 1"
    using demo_loadable by simp
  have "\<exists>b f1. elfread (\<lambda>_. 0) demo_elf (Some demo_file) = Some (Inr (0x01200000, b)) \<and> sim_load b 0 demo_flash = Some (Inr f1) \<and>
    (\<forall>t xs d. m_flash t = f1 \<and> length xs = 1 + 1 \<and> drives_all bit_core os (bits_down (0x0b # 0x20 # 0 # 1 # d # xs)) t \<longrightarrow>
      (\<forall>q<1. \<forall>r<8. \<exists>t1. tick_run bit_core os (42 + 8 * q + r) t = Inr t1 \<and>
        (i_qspi_dat (m_ins t1) AND 2 \<noteq> 0 \<longleftrightarrow> bit (demo_file ! (unat (p_offset (?ph 0)) + 1 + q)) (7 - r))))"
    by (rule sim_core_reads_program [OF demo_good load demo_flash_fields(1)]) (use a in simp_all)
  then obtain b f1 where b: "elfread (\<lambda>_. 0) demo_elf (Some demo_file) = Some (Inr (0x01200000, b))" "sim_load b 0 demo_flash = Some (Inr f1)"
    and bits: "\<forall>t xs d. m_flash t = f1 \<and> length xs = 1 + 1 \<and> drives_all bit_core os (bits_down (0x0b # 0x20 # 0 # 1 # d # xs)) t \<longrightarrow>
      (\<forall>q<1. \<forall>r<8. \<exists>t1. tick_run bit_core os (42 + 8 * q + r) t = Inr t1 \<and>
        (i_qspi_dat (m_ins t1) AND 2 \<noteq> 0 \<longleftrightarrow> bit (demo_file ! (unat (p_offset (?ph 0)) + 1 + q)) (7 - r)))"
    by blast
  have byte: "demo_file ! 53 = 2"
    by (simp add: demo_file_def nth_append)
  let ?t = "demo_bench (bits_down [0x0b, 0x20, 0, 1, 0, 0, 0]) f1 u"
  have t: "m_flash ?t = f1" "m_core ?t = bits_down [0x0b, 0x20, 0, 1, 0, 0, 0]" "\<not> i_clk (m_ins ?t)"
    by (simp_all add: demo_bench_def zipsim_new_def testb_eval_def bit_core_def)
  have "\<exists>t1. tick_run bit_core os (42 + 8 * 0 + r) ?t = Inr t1 \<and> (i_qspi_dat (m_ins t1) AND 2 \<noteq> 0 \<longleftrightarrow> bit (demo_file ! 53) (7 - r))"
    if "r < 8" for r
    using bits [rule_format, of ?t "[0, 0]" 0 0 r] t(1) bit_core_drives [OF t(2,3), of os] that by simp
  from this [of 7] this [of 6]
  show "\<exists>b f1. elfread (\<lambda>_. 0) demo_elf (Some demo_file) = Some (Inr (0x01200000, b)) \<and> sim_load b 0 demo_flash = Some (Inr f1) \<and>
    (\<exists>t1. tick_run bit_core os 49 (demo_bench (bits_down [0x0b, 0x20, 0, 1, 0, 0, 0]) f1 u) = Inr t1 \<and> i_qspi_dat (m_ins t1) AND 2 = 0) \<and>
    (\<exists>t1. tick_run bit_core os 48 (demo_bench (bits_down [0x0b, 0x20, 0, 1, 0, 0, 0]) f1 u) = Inr t1 \<and> i_qspi_dat (m_ins t1) AND 2 \<noteq> 0)"
    using b byte by auto
qed

end
