(* ===== verification/Depp.thy ===== *)
theory Depp
  imports Prelude "HOL-Library.Monad_Syntax"
begin

text \<open>
  Access to the board through Digilent's Adept library: what the library answers, and the simple bus over it,
  sw/host/deppbus.cpp.

  The library is a parameter \<open>adept\<close>: each of its calls gives an answer that depends on the history of the run. A
  result on the left is \<open>exit(EXIT_FAILURE)\<close> or a bus error that is thrown; \<open>None\<close> is a wait that never ends.
\<close>

section \<open>The library\<close>

datatype depp_event =
    Put_reg nat u8 bool
  | Get_reg nat u8 bool
  | Put_repeat nat "u8 list" bool
  | Get_repeat nat "u8 list" bool
  | Get_time
  | Enabled
  | Dev_closed
  | Slept nat

type_synonym depp_hist = "depp_event list"

record adept =
  DeppPutReg :: "depp_hist \<Rightarrow> nat \<Rightarrow> u8 \<Rightarrow> bool"
  DeppGetReg :: "depp_hist \<Rightarrow> nat \<Rightarrow> bool \<times> u8"
  DeppPutRegRepeat :: "depp_hist \<Rightarrow> nat \<Rightarrow> u8 list \<Rightarrow> bool"
  DeppGetRegRepeat :: "depp_hist \<Rightarrow> nat \<Rightarrow> nat \<Rightarrow> bool \<times> u8 list"
  DmgrGetLastError :: "depp_hist \<Rightarrow> u32"
  DmgrOpen :: "string \<Rightarrow> bool"
  DeppEnable :: bool
  DmgrEnumDevices :: int
  DmgrGetDvc :: "nat \<Rightarrow> string \<times> string"
  clock_gettime :: "depp_hist \<Rightarrow> int \<times> int"

datatype 's depp_stop = Depp_exit | Bus_error u32 's

definition put_reg :: "adept \<Rightarrow> nat \<Rightarrow> u8 \<Rightarrow> depp_hist \<Rightarrow> bool \<times> depp_hist" where
  "put_reg env r v h = (let ok = DeppPutReg env h r v in (ok, Put_reg r v ok # h))"

definition get_reg :: "adept \<Rightarrow> nat \<Rightarrow> depp_hist \<Rightarrow> bool \<times> u8 \<times> depp_hist" where
  "get_reg env r h = (let (ok, v) = DeppGetReg env h r in (ok, v, Get_reg r v ok # h))"

text \<open>A chain of \<open>good = good && ...\<close>: after a failure nothing more is sent.\<close>

fun put_regs :: "adept \<Rightarrow> (nat \<times> u8) list \<Rightarrow> depp_hist \<Rightarrow> bool \<times> depp_hist" where
  "put_regs env [] h = (True, h)"
| "put_regs env ((r, v) # rvs) h =
    (let (ok, h1) = put_reg env r v h in if ok then put_regs env rvs h1 else (False, h1))"

section \<open>The bus\<close>

record deppbus =
  m_int :: bool
  m_err :: bool
  d_hist :: depp_hist

text \<open>Byte \<open>k\<close> of a word, the highest first.\<close>

definition word_byte :: "u32 \<Rightarrow> nat \<Rightarrow> u8" where
  "word_byte w k = ucast (drop_bit (24 - 8 * k) w AND 0x0ff)"

definition addr_regs :: "u32 \<Rightarrow> (nat \<times> u8) list" where
  "addr_regs a = map (\<lambda>k. (k, word_byte a k)) [0..<4]"

definition data_regs :: "u32 \<Rightarrow> (nat \<times> u8) list" where
  "data_regs v = map (\<lambda>k. (4 + k, word_byte v k)) [0..<4]"

text \<open>Opening: the device and its DEPP interface.\<close>

definition deppbus_new :: "adept \<Rightarrow> string \<Rightarrow> deppbus depp_stop + deppbus" where
  "deppbus_new env szSel =
    (if \<not> DmgrOpen env szSel then Inl Depp_exit
     else if \<not> DeppEnable env then Inl Depp_exit
     else Inr \<lparr>m_int = False, m_err = False, d_hist = [Enabled]\<rparr>)"

definition deppbus_close :: "deppbus \<Rightarrow> deppbus" where
  "deppbus_close s = s\<lparr>d_hist := Dev_closed # d_hist s\<rparr>"

text \<open>The status register, into the flags.\<close>

definition status_flags :: "u8 \<Rightarrow> deppbus \<Rightarrow> deppbus" where
  "status_flags retn s = s\<lparr>m_err := m_err s \<or> retn AND 1 \<noteq> 0, m_int := m_int s \<or> retn AND 2 \<noteq> 0\<rparr>"

definition deppbus_writeio :: "adept \<Rightarrow> u32 \<Rightarrow> u32 \<Rightarrow> deppbus \<Rightarrow> deppbus depp_stop + deppbus" where
  "deppbus_writeio env a v s =
    (let (good, h) = put_regs env (addr_regs a) (d_hist s)
     in if \<not> good then Inl Depp_exit
        else let (good, h) = put_regs env (data_regs v) h
     in if \<not> good then Inl Depp_exit
        else let (good, h) = put_reg env 16 0x3 h
     in if \<not> good then Inl Depp_exit
        else let (good, retn, h) = get_reg env 16 h;
                 s = status_flags retn (s\<lparr>d_hist := h\<rparr>)
     in if \<not> good then Inl Depp_exit
        else if m_err s then Inl (Bus_error a s) else Inr s)"

fun get_bytes :: "adept \<Rightarrow> nat list \<Rightarrow> u32 \<Rightarrow> depp_hist \<Rightarrow> bool \<times> u32 \<times> depp_hist" where
  "get_bytes env [] v h = (True, v, h)"
| "get_bytes env (r # rs) v h =
    (let (ok, retn, h1) = get_reg env r h
     in if ok then get_bytes env rs (push_bit 8 v OR (ucast retn AND 0x0ff)) h1 else (False, v, h1))"

definition deppbus_readio :: "adept \<Rightarrow> u32 \<Rightarrow> deppbus \<Rightarrow> deppbus depp_stop + u32 \<times> deppbus" where
  "deppbus_readio env a s =
    (let (good, h) = put_regs env (addr_regs a) (d_hist s)
     in if \<not> good then Inl Depp_exit
        else let (good, h) = put_reg env 16 0x1 h
     in if \<not> good then Inl Depp_exit
        else let (good, retn, h) = get_reg env 16 h
     in if \<not> good then Inl Depp_exit
        else let s = status_flags retn (s\<lparr>d_hist := h\<rparr>)
     in if m_err s then Inl (Bus_error a s)
        else let (good, v, h) = get_bytes env [4, 5, 6, 7] 0 (d_hist s)
     in if \<not> good then Inl Depp_exit else Inr (v, s\<lparr>d_hist := h\<rparr>))"

text \<open>The loops over several words, at addresses \<open>step\<close> apart.\<close>

primrec read_loop :: "(u32 \<Rightarrow> 's \<Rightarrow> 'e + u32 \<times> 's) \<Rightarrow> u32 \<Rightarrow> u32 \<Rightarrow> nat \<Rightarrow> 's \<Rightarrow> 'e + u32 list \<times> 's" where
  "read_loop rio step a 0 s = Inr ([], s)"
| "read_loop rio step a (Suc n) s =
    andthen (rio a s) (\<lambda>(v, s1). andthen (read_loop rio step (a + step) n s1) (\<lambda>(vs, s2). Inr (v # vs, s2)))"

fun write_loop :: "(u32 \<Rightarrow> u32 \<Rightarrow> 's \<Rightarrow> 'e + 's) \<Rightarrow> u32 \<Rightarrow> u32 \<Rightarrow> u32 list \<Rightarrow> 's \<Rightarrow> 'e + 's" where
  "write_loop wio step a [] s = Inr s"
| "write_loop wio step a (v # vs) s = andthen (wio a v s) (write_loop wio step (a + step) vs)"

definition deppbus_readi :: "adept \<Rightarrow> u32 \<Rightarrow> nat \<Rightarrow> deppbus \<Rightarrow> deppbus depp_stop + u32 list \<times> deppbus" where
  "deppbus_readi env = read_loop (deppbus_readio env) 1"

definition deppbus_readz :: "adept \<Rightarrow> u32 \<Rightarrow> nat \<Rightarrow> deppbus \<Rightarrow> deppbus depp_stop + u32 list \<times> deppbus" where
  "deppbus_readz env = read_loop (deppbus_readio env) 0"

definition deppbus_writei :: "adept \<Rightarrow> u32 \<Rightarrow> u32 list \<Rightarrow> deppbus \<Rightarrow> deppbus depp_stop + deppbus" where
  "deppbus_writei env = write_loop (deppbus_writeio env) 1"

definition deppbus_writez :: "adept \<Rightarrow> u32 \<Rightarrow> u32 list \<Rightarrow> deppbus \<Rightarrow> deppbus depp_stop + deppbus" where
  "deppbus_writez env = write_loop (deppbus_writeio env) 0"

definition deppbus_poll :: "adept \<Rightarrow> deppbus \<Rightarrow> bool \<times> deppbus" where
  "deppbus_poll env s =
    (if m_int s then (True, s)
     else let (_, retn, h) = get_reg env 16 (d_hist s); s1 = status_flags retn (s\<lparr>d_hist := h\<rparr>) in (m_int s1, s1))"

text \<open>\<open>usleep\<close> calls itself, not the function of the system: it polls until there is an interrupt.\<close>

partial_function (option) deppbus_usleep :: "adept \<Rightarrow> nat \<Rightarrow> deppbus \<Rightarrow> deppbus option" where
  "deppbus_usleep env msec s =
    (let (b, s1) = deppbus_poll env s in if b then Some s1 else deppbus_usleep env msec s1)"

partial_function (option) deppbus_wait :: "adept \<Rightarrow> deppbus \<Rightarrow> deppbus option" where
  "deppbus_wait env s =
    (let (b, s1) = deppbus_poll env s in if b then Some s1 else do { s2 \<leftarrow> deppbus_usleep env 5 s1; deppbus_wait env s2 })"

definition deppbus_reset_err :: "deppbus \<Rightarrow> deppbus" where "deppbus_reset_err s = s\<lparr>m_err := False\<rparr>"
definition deppbus_clear :: "deppbus \<Rightarrow> deppbus" where "deppbus_clear s = s\<lparr>m_int := False, m_err := False\<rparr>"

section \<open>The bus as an interface\<close>

datatype bus_op = Bus_read u32 | Bus_write u32 u32

text \<open>What a series of reads gives on a bus whose answers depend on the accesses before.\<close>

primrec spec_reads :: "(bus_op list \<Rightarrow> u32 \<Rightarrow> u32) \<Rightarrow> u32 \<Rightarrow> u32 \<Rightarrow> nat \<Rightarrow> bus_op list \<Rightarrow> u32 list \<times> bus_op list" where
  "spec_reads rd step a 0 ops = ([], ops)"
| "spec_reads rd step a (Suc n) ops =
    (let (vs, ops') = spec_reads rd step (a + step) n (Bus_read a # ops) in (rd ops a # vs, ops'))"

primrec spec_writes :: "u32 \<Rightarrow> u32 \<Rightarrow> u32 list \<Rightarrow> bus_op list \<Rightarrow> bus_op list" where
  "spec_writes step a [] ops = ops"
| "spec_writes step a (v # vs) ops = spec_writes step (a + step) vs (Bus_write a v # ops)"

text \<open>An access reaches the bus once, with its address and data, and a read returns what the bus answers.\<close>

locale word_bus =
  fixes rio :: "u32 \<Rightarrow> 's \<Rightarrow> 'e + u32 \<times> 's"
    and wio :: "u32 \<Rightarrow> u32 \<Rightarrow> 's \<Rightarrow> 'e + 's"
    and inv :: "'s \<Rightarrow> bool"
    and ops :: "'s \<Rightarrow> bus_op list"
    and rd :: "bus_op list \<Rightarrow> u32 \<Rightarrow> u32"
  assumes read_one: "inv s \<Longrightarrow> \<exists>s'. rio a s = Inr (rd (ops s) a, s') \<and> inv s' \<and> ops s' = Bus_read a # ops s"
    and write_one: "inv s \<Longrightarrow> \<exists>s'. wio a v s = Inr s' \<and> inv s' \<and> ops s' = Bus_write a v # ops s"
begin

lemma reads:
  "inv s \<Longrightarrow> \<exists>vs s'. read_loop rio step a n s = Inr (vs, s') \<and> inv s' \<and> (vs, ops s') = spec_reads rd step a n (ops s)"
proof (induction n arbitrary: a s)
  case (Suc n)
  obtain s1 where s1: "rio a s = Inr (rd (ops s) a, s1)" "inv s1" "ops s1 = Bus_read a # ops s"
    using read_one [OF Suc.prems] by blast
  obtain vs s2 where "read_loop rio step (a + step) n s1 = Inr (vs, s2)" "inv s2"
    "(vs, ops s2) = spec_reads rd step (a + step) n (ops s1)"
    using Suc.IH [OF s1(2)] by blast
  then show ?case
    using s1 by (auto simp: split_beta dest: sym)
qed simp

lemma writes:
  "inv s \<Longrightarrow> \<exists>s'. write_loop wio step a vs s = Inr s' \<and> inv s' \<and> ops s' = spec_writes step a vs (ops s)"
proof (induction vs arbitrary: a s)
  case (Cons v vs)
  obtain s1 where s1: "wio a v s = Inr s1" "inv s1" "ops s1 = Bus_write a v # ops s"
    using write_one [OF Cons.prems] by blast
  then show ?case
    using Cons.IH [OF s1(2), of "a + step"] by auto
qed simp

end

section \<open>The board's side\<close>

text \<open>
  The documented behaviour of rtl/wbdeppsimple.v: registers 0 to 3 take an address, 4 to 7 the data of a write; a write to
  register 16 with bit 0 starts a bus access, a write access if bit 1 is set too; 16 then gives the status and 4 to 7 the data
  of the last read.
\<close>

fun reg_value :: "depp_hist \<Rightarrow> nat \<Rightarrow> u8" where
  "reg_value [] r = 0"
| "reg_value (Put_reg r' v ok # h) r = (if r' = r \<and> ok then v else reg_value h r)"
| "reg_value (_ # h) r = reg_value h r"

definition reg_word :: "depp_hist \<Rightarrow> nat \<Rightarrow> u32" where
  "reg_word h r = push_bit 24 (ucast (reg_value h r)) OR push_bit 16 (ucast (reg_value h (r + 1)))
    OR push_bit 8 (ucast (reg_value h (r + 2))) OR ucast (reg_value h (r + 3))"

fun bus_ops :: "depp_hist \<Rightarrow> bus_op list" where
  "bus_ops [] = []"
| "bus_ops (Put_reg r v ok # h) =
    (if r = 16 \<and> ok \<and> v AND 1 \<noteq> 0
     then (if v AND 2 \<noteq> 0 then Bus_write (reg_word h 0) (reg_word h 4) else Bus_read (reg_word h 0)) # bus_ops h
     else bus_ops h)"
| "bus_ops (_ # h) = bus_ops h"

definition depp_slave :: "adept \<Rightarrow> (bus_op list \<Rightarrow> u32 \<Rightarrow> u32) \<Rightarrow> bool" where
  "depp_slave env rd \<longleftrightarrow> (\<forall>h r v. DeppPutReg env h r v) \<and> (\<forall>h. \<exists>st. DeppGetReg env h 16 = (True, st) \<and> st AND 1 = 0) \<and>
    (\<forall>h k a ops. k < 4 \<and> bus_ops h = Bus_read a # ops \<longrightarrow> DeppGetReg env h (4 + k) = (True, word_byte (rd ops a) k))"

lemma word_of_bytes:
  fixes v :: u32
  shows "push_bit 24 (ucast (word_byte v 0)) OR push_bit 16 (ucast (word_byte v 1)) OR push_bit 8 (ucast (word_byte v 2))
    OR ucast (word_byte v 3) = v"
proof (rule bit_word_eqI)
  have ff: "(0x0ff :: u32) = mask 8"
    by (simp add: mask_eq_exp_minus_1)
  fix n assume "n < LENGTH(32)"
  then consider "n < 8" | "8 \<le> n" "n < 16" | "16 \<le> n" "n < 24" | "24 \<le> n" "n < 32"
    by force
  then show "bit (push_bit 24 (ucast (word_byte v 0)) OR push_bit 16 (ucast (word_byte v 1)) OR push_bit 8 (ucast (word_byte v 2))
    OR ucast (word_byte v 3) :: u32) n \<longleftrightarrow> bit v n"
    by cases (simp_all add: word_byte_def ff bit_or_iff bit_and_iff bit_mask_iff bit_push_bit_iff bit_ucast_iff bit_drop_bit_eq
        possible_bit_def, auto)
qed

lemma slave_put: "depp_slave env rd \<Longrightarrow> put_reg env r v h = (True, Put_reg r v True # h)"
  by (simp add: put_reg_def depp_slave_def)

lemma slave_puts:
  assumes "depp_slave env rd"
  shows "put_regs env rvs h = (True, map (\<lambda>(r, v). Put_reg r v True) (rev rvs) @ h)"
  using assms by (induction rvs arbitrary: h) (auto simp: slave_put)

lemma upt_0_4: "[0..<4] = [0, 1, 2, 3]"
  by (simp add: upt_rec)

lemma addr_latched:
  "reg_word (map (\<lambda>(r, v). Put_reg r v True) (rev (addr_regs a)) @ h) 0 = a"
  using word_of_bytes [of a] by (simp add: addr_regs_def upt_0_4 reg_word_def)

lemma addr_data_latched:
  fixes a v h
  defines "h' \<equiv> map (\<lambda>(r, v). Put_reg r v True) (rev (data_regs v)) @ map (\<lambda>(r, v). Put_reg r v True) (rev (addr_regs a)) @ h"
  shows "reg_word h' 0 = a" "reg_word h' 4 = v"
  using word_of_bytes [of a] word_of_bytes [of v]
  by (simp_all add: h'_def addr_regs_def data_regs_def upt_0_4 reg_word_def)

lemma bus_ops_puts: "\<forall>(r, v)\<in>set rvs. r \<noteq> 16 \<Longrightarrow> bus_ops (map (\<lambda>(r, v). Put_reg r v True) rvs @ h) = bus_ops h"
  by (induction rvs) auto

lemma addr_data_no_ops:
  "\<forall>(r, v)\<in>set (rev (addr_regs a)). r \<noteq> 16" "\<forall>(r, v)\<in>set (rev (data_regs a)). r \<noteq> 16"
  by (auto simp: addr_regs_def data_regs_def)

lemma byte_shift: "(ucast (b :: u8) AND 0x0ff :: u32) = ucast b"
  using ucast_and_byte [of b] by simp

lemma slave_bytes:
  assumes slave: "depp_slave env rd" and "bus_ops h = Bus_read a # ops"
  shows "\<exists>h'. get_bytes env [4, 5, 6, 7] 0 h = (True, rd ops a, h') \<and> bus_ops h' = bus_ops h"
proof -
  have get: "get_reg env (4 + k) h1 = (True, word_byte (rd ops a) k, Get_reg (4 + k) (word_byte (rd ops a) k) True # h1)"
    if "bus_ops h1 = bus_ops h" "k < 4" for k h1
    using slave assms(2) that by (simp add: get_reg_def depp_slave_def)
  let ?e = "\<lambda>k. Get_reg (4 + k) (word_byte (rd ops a) k) True"
  have "get_bytes env (map ((+) 4) [0, 1, 2, 3]) 0 h = (True, rd ops a, ?e 3 # ?e 2 # ?e 1 # ?e 0 # h)"
    using get [of h 0] get [of "?e 0 # h" 1] get [of "?e 1 # ?e 0 # h" 2] get [of "?e 2 # ?e 1 # ?e 0 # h" 3] word_of_bytes [of "rd ops a"]
    by (simp add: byte_shift or.assoc)
  then show ?thesis
    by simp
qed

lemma deppbus_read_one:
  assumes slave: "depp_slave env rd" and err: "\<not> m_err s"
  shows "\<exists>s'. deppbus_readio env a s = Inr (rd (bus_ops (d_hist s)) a, s') \<and> \<not> m_err s' \<and>
    bus_ops (d_hist s') = Bus_read a # bus_ops (d_hist s)"
proof -
  let ?h = "map (\<lambda>(r, v). Put_reg r v True) (rev (addr_regs a)) @ d_hist s"
  let ?h1 = "Put_reg 16 0x1 True # ?h"
  obtain st where st: "DeppGetReg env ?h1 16 = (True, st)" "st AND 1 = 0"
    using slave unfolding depp_slave_def by blast
  let ?h2 = "Get_reg 16 st True # ?h1"
  have ops: "bus_ops ?h2 = Bus_read a # bus_ops (d_hist s)"
    by (simp add: addr_latched bus_ops_puts addr_data_no_ops)
  obtain h3 where "get_bytes env [4, 5, 6, 7] 0 ?h2 = (True, rd (bus_ops (d_hist s)) a, h3)" "bus_ops h3 = bus_ops ?h2"
    using slave_bytes [OF slave ops] by blast
  then show ?thesis
    using ops st err by (simp add: deppbus_readio_def slave_puts [OF slave] slave_put [OF slave] get_reg_def status_flags_def Let_def
        del: get_bytes.simps bus_ops.simps)
qed

lemma deppbus_write_one:
  assumes slave: "depp_slave env rd" and err: "\<not> m_err s"
  shows "\<exists>s'. deppbus_writeio env a v s = Inr s' \<and> \<not> m_err s' \<and> bus_ops (d_hist s') = Bus_write a v # bus_ops (d_hist s)"
proof -
  let ?h = "map (\<lambda>(r, v). Put_reg r v True) (rev (data_regs v)) @ map (\<lambda>(r, v). Put_reg r v True) (rev (addr_regs a)) @ d_hist s"
  let ?h1 = "Put_reg 16 0x3 True # ?h"
  obtain st where st: "DeppGetReg env ?h1 16 = (True, st)" "st AND 1 = 0"
    using slave unfolding depp_slave_def by blast
  have "bus_ops (Get_reg 16 st True # ?h1) = Bus_write a v # bus_ops (d_hist s)"
    by (simp add: addr_data_latched bus_ops_puts addr_data_no_ops)
  then show ?thesis
    using st err by (simp add: deppbus_writeio_def slave_puts [OF slave] slave_put [OF slave] get_reg_def status_flags_def Let_def
        del: bus_ops.simps)
qed

interpretation deppbus: word_bus "deppbus_readio env" "deppbus_writeio env" "\<lambda>s. depp_slave env rd \<and> \<not> m_err s"
    "\<lambda>s. bus_ops (d_hist s)" rd for env rd
  by unfold_locales (use deppbus_read_one deppbus_write_one in blast)+

text \<open>The busy wait.\<close>

lemma usleep_interrupted: "deppbus_usleep env msec s = Some s' \<Longrightarrow> m_int s'"
proof (induction env msec s s' rule: deppbus_usleep.raw_induct [rotated, consumes 1, case_names step])
  case (step loop env msec s s')
  then show ?case
    by (auto simp: deppbus_poll_def Let_def split: prod.splits if_splits)
qed

lemma poll_nothing:
  assumes "\<not> m_int s" "\<forall>h. snd (DeppGetReg env h 16) AND 2 = 0"
  shows "\<exists>s1. deppbus_poll env s = (False, s1) \<and> \<not> m_int s1"
proof -
  obtain ok st where get: "DeppGetReg env (d_hist s) 16 = (ok, st)"
    by fastforce
  have "snd (DeppGetReg env (d_hist s) 16) AND 2 = 0"
    using assms(2) by blast
  then show ?thesis
    using assms(1) get by (simp add: deppbus_poll_def get_reg_def status_flags_def Let_def)
qed

lemma usleep_without:
  assumes "deppbus_usleep env msec s = Some s'" "\<not> m_int s" "\<forall>h. snd (DeppGetReg env h 16) AND 2 = 0"
  shows False
  using assms
proof (induction env msec s s' rule: deppbus_usleep.raw_induct [rotated, consumes 1, case_names step])
  case (step loop env msec s s')
  obtain s1 where s1: "deppbus_poll env s = (False, s1)" "\<not> m_int s1"
    using poll_nothing step.prems by blast
  then have "loop env msec s1 = Some s'"
    using step.hyps by simp
  from step.IH [OF this s1(2) step.prems(2)] show ?case .
qed

section \<open>Properties\<close>

text \<open>
  C29. Over a board that answers as documented, the DEPP bus is the word bus of its interface: reads of several words give what the
  bus answers at the address and the addresses after it, in order, each access reaches the bus exactly once, and writes
  reach it with their data in order; no error is left behind.
\<close>

theorem deppbus_refines_bus:
  assumes "depp_slave env rd" "\<not> m_err s"
  shows "(\<exists>vs s'. deppbus_readi env a n s = Inr (vs, s') \<and> \<not> m_err s' \<and>
      (vs, bus_ops (d_hist s')) = spec_reads rd 1 a n (bus_ops (d_hist s))) \<and>
    (\<exists>s'. deppbus_writei env a ws s = Inr s' \<and> \<not> m_err s' \<and> bus_ops (d_hist s') = spec_writes 1 a ws (bus_ops (d_hist s)))"
  using assms deppbus.reads [of env rd s 1 a n] deppbus.writes [of env rd s 1 a ws] unfolding deppbus_readi_def deppbus_writei_def by blast

text \<open>
  A bus error sticks: after one, every read and write on the DEPP bus fails, whatever the board answers, until the error is
  reset, although the access itself has been sent to the board.
\<close>

theorem deppbus_error_sticks:
  assumes "m_err s"
  shows "(\<exists>e. deppbus_readio env a s = Inl e) \<and> (\<exists>e. deppbus_writeio env a v s = Inl e)"
  using assms by (auto simp: deppbus_readio_def deppbus_writeio_def status_flags_def Let_def split: prod.split)

text \<open>
  \<open>usleep\<close> on the DEPP bus does not sleep and does not end before there is an interrupt: it returns only with the
  interrupt flag set, and never if the status register never shows one, however few milliseconds were asked for.
\<close>

theorem deppbus_usleep_waits:
  "(\<forall>s'. deppbus_usleep env msec s = Some s' \<longrightarrow> m_int s') \<and>
    (\<not> m_int s \<and> (\<forall>h. snd (DeppGetReg env h 16) AND 2 = 0) \<longrightarrow> deppbus_usleep env msec s = None)"
proof (intro conjI allI impI)
  show "m_int s'" if "deppbus_usleep env msec s = Some s'" for s'
    using that by (rule usleep_interrupted)
next
  show "deppbus_usleep env msec s = None" if "\<not> m_int s \<and> (\<forall>h. snd (DeppGetReg env h 16) AND 2 = 0)"
    using that usleep_without [of env msec s] by (cases "deppbus_usleep env msec s") auto
qed

section \<open>Witnesses\<close>

text \<open>A board whose bus always answers with the address.\<close>

definition demo_adept :: "(depp_hist \<Rightarrow> nat \<Rightarrow> nat \<Rightarrow> bool \<times> u8 list) \<Rightarrow> adept" where
  "demo_adept rep = \<lparr>DeppPutReg = (\<lambda>h r v. True),
    DeppGetReg = (\<lambda>h r. (True, if r = 16 then 0 else case bus_ops h of Bus_read a # _ \<Rightarrow> word_byte a (r - 4) | _ \<Rightarrow> 0)),
    DeppPutRegRepeat = (\<lambda>h r vs. True), DeppGetRegRepeat = rep, DmgrGetLastError = (\<lambda>h. 0), DmgrOpen = (\<lambda>n. True), DeppEnable = True,
    DmgrEnumDevices = 1, DmgrGetDvc = (\<lambda>i. (''CmodS6'', ''usb'')), clock_gettime = (\<lambda>h. (0, 0))\<rparr>"

definition demo_deppbus :: deppbus where
  "demo_deppbus = \<lparr>m_int = False, m_err = False, d_hist = []\<rparr>"

lemma demo_slave: "depp_slave (demo_adept rep) (\<lambda>ops a. a)"
  by (auto simp: depp_slave_def demo_adept_def)

theorem deppbus_refines_bus_witness:
  "\<forall>rep. (\<exists>s'. deppbus_readi (demo_adept rep) 0x400 2 demo_deppbus = Inr ([0x400, 0x401], s')) \<and>
    (\<exists>s'. deppbus_writei (demo_adept rep) 0x400 [7] demo_deppbus = Inr s' \<and> bus_ops (d_hist s') = [Bus_write 0x400 7])"
proof
  fix rep
  have "\<not> m_err demo_deppbus" "d_hist demo_deppbus = []"
    by (simp_all add: demo_deppbus_def)
  from this(2) deppbus_refines_bus [OF demo_slave [of rep] this(1), of "0x400" 2 "[7]"]
  show "(\<exists>s'. deppbus_readi (demo_adept rep) 0x400 2 demo_deppbus = Inr ([0x400, 0x401], s')) \<and>
    (\<exists>s'. deppbus_writei (demo_adept rep) 0x400 [7] demo_deppbus = Inr s' \<and> bus_ops (d_hist s') = [Bus_write 0x400 7])"
    by (auto simp: numeral_2_eq_2)
qed

theorem deppbus_error_sticks_witness:
  "\<forall>rep. \<exists>e. deppbus_readio (demo_adept rep) 0x400 (demo_deppbus\<lparr>m_err := True\<rparr>) = Inl e"
  using deppbus_error_sticks [of "demo_deppbus\<lparr>m_err := True\<rparr>"] by simp

theorem deppbus_usleep_waits_witness:
  "\<forall>rep. deppbus_usleep (demo_adept rep) 5 demo_deppbus = None"
proof
  fix rep
  have "snd (DeppGetReg (demo_adept rep) h 16) AND 2 = 0" for h
    by (simp add: demo_adept_def)
  then show "deppbus_usleep (demo_adept rep) 5 demo_deppbus = None"
    using deppbus_usleep_waits [of "demo_adept rep" 5 demo_deppbus] by (simp add: demo_deppbus_def)
qed

end
