(* ===== verification/Deppi.thy ===== *)
theory Deppi
  imports Depp "HOL-Library.Sublist"
begin

text \<open>
  The serial side of the host over the Adept library, sw/host/deppi.cpp: bytes are fetched from register 0 in packets, cleared
  of stuffing, kept in a ring of 512 bytes, and handed out by \<open>read\<close>.

  The debugging flags are constants and false; what only they reach is left out. \<open>None\<close> is a loop that never ends, a result on the left is \<open>exit\<close>.
\<close>

abbreviation (input) PKTLEN :: nat where "PKTLEN \<equiv> 32"
abbreviation (input) RCV_BUFLEN :: nat where "RCV_BUFLEN \<equiv> 512"

text \<open>A difference or sum of indices, masked with \<open>RCV_BUFMASK\<close>.\<close>

definition masked :: "int \<Rightarrow> nat" where "masked i = nat (i AND 511)"

record deppi =
  m_rbuf :: "u8 list"
  m_rbeg :: nat
  m_rend :: nat
  p_hist :: depp_hist

section \<open>The ring\<close>

text \<open>A byte that \<open>poll\<close> and \<open>push_fifo\<close> treat as a code that may be stuffing (a char is signed on the host).\<close>

definition stuffed :: "u8 \<Rightarrow> bool" where
  "stuffed v \<longleftrightarrow> v AND 0x80 \<noteq> 0 \<or> v < 0x10"

fun push_loop :: "u8 \<Rightarrow> u8 list \<Rightarrow> deppi \<Rightarrow> deppi" where
  "push_loop last_v [] s = s"
| "push_loop last_v (v # vs) s =
    push_loop v vs
      (if stuffed v \<and> v = last_v then s
       else if v = 0xff then s
       else s\<lparr>m_rbuf := (m_rbuf s)[m_rbeg s := v], m_rbeg := masked (int (m_rbeg s) + 1)\<rparr>)"

definition push_fifo :: "u8 list \<Rightarrow> deppi \<Rightarrow> deppi" where
  "push_fifo buf s =
    push_loop (if m_rbeg s \<noteq> m_rend s then m_rbuf s ! masked (int (m_rbeg s) - 1) else 0) buf s"

partial_function (option) pop_loop :: "nat \<Rightarrow> nat \<Rightarrow> deppi \<Rightarrow> (u8 list \<times> deppi) option" where
  "pop_loop avail left s =
    (if avail > 0 \<and> left > 0
     then let ln = min (min (RCV_BUFLEN - m_rend s) left) avail
          in do {
            (bs, s1) \<leftarrow> pop_loop (avail - ln) (left - ln) (s\<lparr>m_rend := masked (int (m_rend s + ln))\<rparr>);
            Some (take ln (drop (m_rend s) (m_rbuf s)) @ bs, s1)
          }
     else Some ([], s))"

definition avail_fifo :: "deppi \<Rightarrow> nat" where
  "avail_fifo s = masked (int (m_rbeg s) - int (m_rend s))"

definition pop_fifo :: "nat \<Rightarrow> deppi \<Rightarrow> (u8 list \<times> deppi) option" where
  "pop_fifo len s = pop_loop (avail_fifo s) len s"

section \<open>The device\<close>

text \<open>An error ends the program only if the library knows of one.\<close>

definition deppi_err :: "adept \<Rightarrow> deppi \<Rightarrow> deppi depp_stop + deppi" where
  "deppi_err env s = (if DmgrGetLastError env (p_hist s) \<noteq> 0 then Inl Depp_exit else Inr s)"

definition deppi_raw_read :: "adept \<Rightarrow> nat \<Rightarrow> deppi \<Rightarrow> deppi depp_stop + deppi" where
  "deppi_raw_read env clen s =
    (let empty = 511 - avail_fifo s; len = min clen empty
     in if len > 0
        then let ln = min len PKTLEN;
                 (good, bs) = DeppGetRegRepeat env (p_hist s) 0 ln;
                 s1 = push_fifo bs (s\<lparr>p_hist := Get_repeat 0 bs good # p_hist s\<rparr>)
             in if good then Inr s1 else deppi_err env s1
        else Inr s)"

definition deppi_write :: "adept \<Rightarrow> u8 list \<Rightarrow> deppi \<Rightarrow> deppi depp_stop + deppi" where
  "deppi_write env buf s =
    (let good = DeppPutRegRepeat env (p_hist s) 0 buf; s1 = s\<lparr>p_hist := Put_repeat 0 buf good # p_hist s\<rparr>
     in if good then Inr s1 else deppi_err env s1)"

text \<open>The milliseconds between two times, as the code computes them from seconds and nanoseconds.\<close>

definition elapsed_ms :: "int \<times> int \<Rightarrow> int \<times> int \<Rightarrow> int" where
  "elapsed_ms now later =
    (let num_ns = snd later - snd now;
         sec = (if num_ns < 0 then fst later - 1 else fst later);
         num_ns = (if num_ns < 0 then num_ns + 1000000000 else num_ns);
         num_ms = num_ns div 1000000
     in if sec > fst now then num_ms + (sec - fst now) * 1000 else num_ms)"

text \<open>The loop of \<open>read\<close>: what is still to come, and the bytes given so far.\<close>

partial_function (option) read_loop_ms :: "adept \<Rightarrow> int \<times> int \<Rightarrow> int \<Rightarrow> nat \<Rightarrow> u8 list \<Rightarrow> deppi \<Rightarrow> (deppi depp_stop + u8 list \<times> deppi) option" where
  "read_loop_ms env now timeout_ms left got s =
    (if left > 0
     then case deppi_raw_read env left s of Inl e \<Rightarrow> Some (Inl e)
       | Inr s1 \<Rightarrow>
          do {
            (bs, s2) \<leftarrow> pop_fifo left s1;
            if bs = [] then Some (Inr (got, s2))
            else if timeout_ms = 0 then Some (Inr (got @ bs, s2))
            else if timeout_ms > 0
            then let later = clock_gettime env (p_hist s2); s3 = s2\<lparr>p_hist := Get_time # p_hist s2\<rparr>
                 in if elapsed_ms now later > timeout_ms then Some (Inr (got @ bs, s3))
                    else read_loop_ms env now timeout_ms (left - length bs) (got @ bs) s3
            else read_loop_ms env now timeout_ms (left - length bs) (got @ bs) s2
          }
     else Some (Inr (got, s)))"

definition deppi_read :: "adept \<Rightarrow> nat \<Rightarrow> int \<Rightarrow> deppi \<Rightarrow> (deppi depp_stop + u8 list \<times> deppi) option" where
  "deppi_read env len timeout_ms s =
    (let now = clock_gettime env (p_hist s); s0 = s\<lparr>p_hist := Get_time # p_hist s\<rparr>
     in do {
       (bs, s1) \<leftarrow> pop_fifo len s0;
       read_loop_ms env now timeout_ms (len - length bs) bs s1
     })"

text \<open>The loop of \<open>poll\<close> does not look again at the byte that started it.\<close>

partial_function (option) poll_loop :: "adept \<Rightarrow> nat \<Rightarrow> u8 \<Rightarrow> deppi \<Rightarrow> (deppi depp_stop + nat \<times> deppi) option" where
  "poll_loop env avail v s =
    (if \<not> stuffed v \<and> avail < 511 - 32
     then case deppi_raw_read env 26 s of Inl e \<Rightarrow> Some (Inl e)
       | Inr s1 \<Rightarrow> if avail = avail_fifo s1 then Some (Inr (avail, s1)) else poll_loop env (avail_fifo s1) v s1
     else Some (Inr (avail, s)))"

definition deppi_poll :: "adept \<Rightarrow> deppi \<Rightarrow> (deppi depp_stop + bool \<times> deppi) option" where
  "deppi_poll env s =
    (let avail = avail_fifo s
     in if avail < 2 \<and> (avail < 1 \<or> stuffed (m_rbuf s ! m_rend s))
        then case deppi_raw_read env 4 s of Inl e \<Rightarrow> Some (Inl e)
          | Inr s1 \<Rightarrow>
             if avail_fifo s1 \<noteq> 0
             then do {
               r \<leftarrow> poll_loop env (avail_fifo s1) (m_rbuf s1 ! masked (int (m_rbeg s1) - 1)) s1;
               Some (case r of Inl e \<Rightarrow> Inl e
                 | Inr (avail, s2) \<Rightarrow> Inr (\<not> (avail < 1) \<and> \<not> (avail = 1 \<and> stuffed (m_rbuf s2 ! m_rend s2)), s2))
             }
             else Some (Inr (False, s1))
        else Some (Inr (True, s)))"

partial_function (option) flush_read :: "adept \<Rightarrow> deppi \<Rightarrow> (deppi depp_stop + deppi) option" where
  "flush_read env s =
    do {
      r \<leftarrow> deppi_poll env (s\<lparr>m_rbeg := 0, m_rend := 0\<rparr>);
      case r of Inl e \<Rightarrow> Some (Inl e)
      | Inr (again, s1) \<Rightarrow> if again then flush_read env s1 else Some (Inr s1)
    }"

text \<open>The search for the one board of the right kind, where no serial number is given: how many there are, and the last.\<close>

primrec find_dev :: "adept \<Rightarrow> nat \<Rightarrow> nat \<times> nat" where
  "find_dev env 0 = (0, 0)"
| "find_dev env (Suc n) =
    (let (found, foundid) = find_dev env n
     in if fst (DmgrGetDvc env n) = ''CmodS6'' then (found + 1, n) else (found, foundid))"

definition deppi_new :: "adept \<Rightarrow> string \<Rightarrow> deppi \<Rightarrow> (deppi depp_stop + deppi) option" where
  "deppi_new env szSel s =
    (let conn = (if szSel = []
       then if DmgrEnumDevices env < 0 then None
            else let (found, foundid) = find_dev env (nat (DmgrEnumDevices env))
                 in if found = 0 \<or> found > 1 then None else Some (snd (DmgrGetDvc env foundid))
       else Some szSel)
     in case conn of None \<Rightarrow> Some (Inl Depp_exit)
        | Some name \<Rightarrow>
           if \<not> DmgrOpen env name \<or> \<not> DeppEnable env then Some (Inl Depp_exit)
           else flush_read env (s\<lparr>p_hist := [Enabled]\<rparr>))"

definition deppi_close :: "deppi \<Rightarrow> deppi" where
  "deppi_close s = s\<lparr>p_hist := Dev_closed # p_hist s\<rparr>"

section \<open>The ring as a queue\<close>

definition deppi_wf :: "deppi \<Rightarrow> bool" where
  "deppi_wf s \<longleftrightarrow> length (m_rbuf s) = 512 \<and> m_rbeg s < 512 \<and> m_rend s < 512"

definition queued :: "deppi \<Rightarrow> u8 list" where
  "queued s = map (\<lambda>i. m_rbuf s ! ((m_rend s + i) mod 512)) [0..<avail_fifo s]"

lemma masked_mod: "masked i = nat (i mod 512)"
proof -
  have "(511 :: int) = mask 9"
    by (simp add: mask_eq_exp_minus_1)
  then have "i AND 511 = take_bit 9 i"
    by (simp only: take_bit_eq_mask)
  then show ?thesis
    by (simp add: masked_def take_bit_eq_mod)
qed

lemma masked_int: "masked (int n) = n mod 512"
  unfolding masked_mod using zmod_int [of n 512] by simp

lemma masked_512: "masked 512 = 0"
  by (simp add: masked_mod)

lemma masked_add: "masked (int a + 1) = (a + 1) mod 512" "masked (int a + int b) = (a + b) mod 512"
proof -
  have "int a + 1 = int (a + 1)"
    by simp
  then show "masked (int a + 1) = (a + 1) mod 512"
    by (simp only: masked_int)
qed (simp only: masked_int flip: of_nat_add)

lemma avail_fifo_eq:
  assumes "deppi_wf s"
  shows "avail_fifo s = (if m_rend s \<le> m_rbeg s then m_rbeg s - m_rend s else m_rbeg s + 512 - m_rend s)"
proof (cases "m_rend s \<le> m_rbeg s")
  case True
  then have "int (m_rbeg s) - int (m_rend s) = int (m_rbeg s - m_rend s)"
    by simp
  then show ?thesis
    using True assms unfolding avail_fifo_def masked_mod deppi_wf_def by simp
next
  case False
  have "(int (m_rbeg s) - int (m_rend s)) mod 512 = (int (m_rbeg s) - int (m_rend s) + 512) mod 512"
    by simp
  also have "int (m_rbeg s) - int (m_rend s) + 512 = int (m_rbeg s + 512 - m_rend s)"
    using assms by (simp add: deppi_wf_def)
  finally show ?thesis
    using False assms unfolding avail_fifo_def masked_mod deppi_wf_def by simp
qed

lemma length_queued: "length (queued s) = avail_fifo s"
  by (simp add: queued_def)

lemma avail_less: "deppi_wf s \<Longrightarrow> avail_fifo s < 512"
  by (auto simp: avail_fifo_eq deppi_wf_def)

text \<open>The place of the next byte.\<close>

lemma rbeg_index: "deppi_wf s \<Longrightarrow> m_rbeg s = (m_rend s + avail_fifo s) mod 512"
  by (auto simp: avail_fifo_eq deppi_wf_def)

lemma ring_inj_le: "(r + i) mod 512 = (r + j) mod 512 \<Longrightarrow> j < 512 \<Longrightarrow> i \<le> j \<Longrightarrow> i = (j :: nat)"
  using mod_eq_dvd_iff_nat [of "r + i" "r + j" 512] dvd_imp_le [of 512 "j - i"] by (cases "i = j") auto

lemma ring_inj: "(r + i) mod 512 = (r + j) mod 512 \<Longrightarrow> i < 512 \<Longrightarrow> j < 512 \<Longrightarrow> i = (j :: nat)"
  using ring_inj_le [of r i j] ring_inj_le [of r j i] by (cases "i \<le> j") simp_all

lemma push_one:
  fixes v :: u8
  assumes "deppi_wf s" "avail_fifo s < 511"
  defines "s' \<equiv> s\<lparr>m_rbuf := (m_rbuf s)[m_rbeg s := v], m_rbeg := masked (int (m_rbeg s) + 1)\<rparr>"
  shows "deppi_wf s'" "queued s' = queued s @ [v]" "avail_fifo s' = avail_fifo s + 1" "m_rend s' = m_rend s" "p_hist s' = p_hist s"
proof -
  show wf: "deppi_wf s'"
    using assms(1) by (simp add: s'_def deppi_wf_def masked_add)
  show av: "avail_fifo s' = avail_fifo s + 1"
    unfolding avail_fifo_eq [OF wf] using assms(1,2) unfolding avail_fifo_eq [OF assms(1)]
    by (cases "m_rbeg s = 511") (auto simp: s'_def masked_add masked_512 deppi_wf_def split: if_splits)
  have "m_rbuf s' ! ((m_rend s + i) mod 512) = (if i = avail_fifo s then v else m_rbuf s ! ((m_rend s + i) mod 512))"
    if "i \<le> avail_fifo s" for i
  proof -
    have "(m_rend s + i) mod 512 = m_rbeg s \<longleftrightarrow> i = avail_fifo s"
      using rbeg_index [OF assms(1)] ring_inj [of "m_rend s" i "avail_fifo s"] that assms(2) by auto
    then show ?thesis
      using assms(1) by (auto simp: s'_def deppi_wf_def nth_list_update)
  qed
  then show "queued s' = queued s @ [v]"
    unfolding queued_def av by (simp add: s'_def)
qed (simp_all add: s'_def)

text \<open>What is left of a packet: no byte 0xff, and no repetition of a code.\<close>

fun unstuff :: "u8 \<Rightarrow> u8 list \<Rightarrow> u8 list" where
  "unstuff last_v [] = []"
| "unstuff last_v (v # vs) = (if stuffed v \<and> v = last_v \<or> v = 0xff then [] else [v]) @ unstuff v vs"

lemma length_unstuff: "length (unstuff l vs) \<le> length vs"
  by (induction l vs rule: unstuff.induct) auto

lemma push_loop_queue:
  "deppi_wf s \<Longrightarrow> avail_fifo s + length vs \<le> 511 \<Longrightarrow>
    deppi_wf (push_loop l vs s) \<and> queued (push_loop l vs s) = queued s @ unstuff l vs \<and> p_hist (push_loop l vs s) = p_hist s"
proof (induction l vs s rule: push_loop.induct)
  case (2 l v vs s)
  let ?s = "s\<lparr>m_rbuf := (m_rbuf s)[m_rbeg s := v], m_rbeg := masked (int (m_rbeg s) + 1)\<rparr>"
  have "avail_fifo s < 511"
    using 2(3) by simp
  note one = push_one [OF 2(2) this, of v]
  show ?case
  proof (cases "stuffed v \<and> v = l \<or> v = 0xff")
    case True
    then show ?thesis
      using 2 by auto
  next
    case False
    then have "push_loop l (v # vs) s = push_loop v vs ?s"
      by auto
    then show ?thesis
      using 2(1) False one 2(3) by auto
  qed
qed simp

definition last_code :: "u8 list \<Rightarrow> u8" where
  "last_code q = (if q = [] then 0 else last q)"

lemma push_fifo_queue:
  assumes "deppi_wf s" "avail_fifo s + length vs \<le> 511"
  shows "deppi_wf (push_fifo vs s) \<and> queued (push_fifo vs s) = queued s @ unstuff (last_code (queued s)) vs \<and>
    p_hist (push_fifo vs s) = p_hist s"
proof -
  have last_v: "(if m_rbeg s \<noteq> m_rend s then m_rbuf s ! masked (int (m_rbeg s) - 1) else 0) = last_code (queued s)"
  proof (cases "m_rbeg s = m_rend s")
    case True
    then show ?thesis
      using avail_fifo_eq [OF assms(1)] by (simp add: queued_def last_code_def)
  next
    case False
    let ?n = "avail_fifo s"
    have n: "0 < ?n"
      using False assms(1) unfolding avail_fifo_eq [OF assms(1)] by (auto simp: deppi_wf_def)
    have "masked (int (m_rbeg s) - 1) = (m_rend s + (?n - 1)) mod 512"
    proof (cases "m_rbeg s = 0")
      case True
      then have "0 < m_rend s" "?n = 512 - m_rend s"
        using n unfolding avail_fifo_eq [OF assms(1)] by (auto split: if_splits)
      then show ?thesis
        using True assms(1) by (simp add: masked_mod deppi_wf_def)
    next
      case False
      then have "int (m_rbeg s) - 1 = int (m_rbeg s - 1)"
        by simp
      then have "masked (int (m_rbeg s) - 1) = m_rbeg s - 1"
        using assms(1) by (simp only: masked_int) (simp add: deppi_wf_def)
      moreover have "(m_rend s + (?n - 1)) mod 512 = m_rbeg s - 1"
        using False n assms(1) unfolding avail_fifo_eq [OF assms(1)] by (auto simp: deppi_wf_def mod_if split: if_splits)
      ultimately show ?thesis
        by simp
    qed
    moreover have "queued s \<noteq> []" "last (queued s) = m_rbuf s ! ((m_rend s + (?n - 1)) mod 512)"
      using n by (simp_all add: queued_def last_map)
    ultimately show ?thesis
      using False by (simp add: last_code_def)
  qed
  show ?thesis
    using push_loop_queue [OF assms, of "last_code (queued s)"] unfolding push_fifo_def last_v .
qed

lemma pop_chunk:
  assumes "deppi_wf s" "ln \<le> avail_fifo s" "m_rend s + ln \<le> 512"
  defines "s' \<equiv> s\<lparr>m_rend := masked (int (m_rend s + ln))\<rparr>"
  shows "deppi_wf s'" "avail_fifo s' = avail_fifo s - ln" "queued s' = drop ln (queued s)"
    "take ln (drop (m_rend s) (m_rbuf s)) = take ln (queued s)" "p_hist s' = p_hist s"
proof -
  show wf: "deppi_wf s'"
    using assms(1) by (simp add: s'_def deppi_wf_def masked_add)
  show av: "avail_fifo s' = avail_fifo s - ln"
    unfolding avail_fifo_eq [OF wf] using assms(1-3) unfolding avail_fifo_eq [OF assms(1)]
    by (auto simp: s'_def masked_add deppi_wf_def mod_if split: if_splits)
  show "queued s' = drop ln (queued s)"
  proof (rule nth_equalityI)
    show "length (queued s') = length (drop ln (queued s))"
      by (simp add: length_queued av)
    fix i assume "i < length (queued s')"
    then have i: "ln + i < avail_fifo s"
      by (simp add: length_queued av)
    have "((m_rend s + ln) mod 512 + i) mod 512 = (m_rend s + (ln + i)) mod 512"
      by (simp add: mod_add_left_eq add.assoc)
    moreover have "i < avail_fifo s - ln"
      using i by simp
    ultimately show "queued s' ! i = drop ln (queued s) ! i"
      using i av by (simp add: queued_def s'_def masked_add)
  qed
  show "take ln (drop (m_rend s) (m_rbuf s)) = take ln (queued s)"
    using assms(1-3) by (intro nth_equalityI) (auto simp: length_queued queued_def deppi_wf_def)
qed (simp add: s'_def)

lemma pop_loop_queue:
  "deppi_wf s \<Longrightarrow> \<exists>s'. pop_loop (avail_fifo s) left s = Some (take left (queued s), s') \<and> deppi_wf s' \<and>
    queued s' = drop left (queued s) \<and> p_hist s' = p_hist s"
proof (induction left arbitrary: s rule: less_induct)
  case (less left)
  show ?case
  proof (cases "avail_fifo s > 0 \<and> left > 0")
    case False
    then show ?thesis
      using less.prems by (subst pop_loop.simps) (auto simp: length_queued [symmetric])
  next
    case True
    define ln where "ln = min (min (RCV_BUFLEN - m_rend s) left) (avail_fifo s)"
    let ?s = "s\<lparr>m_rend := masked (int (m_rend s + ln))\<rparr>"
    have ln: "0 < ln" "ln \<le> left" "ln \<le> avail_fifo s" "m_rend s + ln \<le> 512"
      using True less.prems by (auto simp: ln_def deppi_wf_def)
    note chunk = pop_chunk [OF less.prems ln(3,4)]
    obtain s' where s': "pop_loop (avail_fifo ?s) (left - ln) ?s = Some (take (left - ln) (queued ?s), s')" "deppi_wf s'"
      "queued s' = drop (left - ln) (queued ?s)" "p_hist s' = p_hist ?s"
      using less.IH [of "left - ln" ?s] chunk(1) ln True by auto
    have "pop_loop (avail_fifo s) left s = Some (take ln (queued s) @ take (left - ln) (drop ln (queued s)), s')"
      using True s'(1) by (subst pop_loop.simps) (simp add: Let_def chunk(2-4) [simplified] flip: ln_def)
    moreover have "take ln (queued s) @ take (left - ln) (drop ln (queued s)) = take left (queued s)"
      using ln(2) by (simp flip: take_add)
    ultimately show ?thesis
      using s' chunk(3) ln(2) by simp
  qed
qed

lemma pop_fifo_queue:
  assumes "deppi_wf s"
  obtains s' where "pop_fifo len s = Some (take len (queued s), s')" "deppi_wf s'" "queued s' = drop len (queued s)" "p_hist s' = p_hist s"
  using pop_loop_queue [OF assms, of len] unfolding pop_fifo_def by blast

section \<open>What is fetched and what is handed out\<close>

text \<open>All bytes fetched so far, in order.\<close>

fun raw_bytes :: "depp_hist \<Rightarrow> u8 list" where
  "raw_bytes [] = []"
| "raw_bytes (Get_repeat r bs ok # h) = raw_bytes h @ bs"
| "raw_bytes (_ # h) = raw_bytes h"

text \<open>The library gives as many bytes as it is asked for.\<close>

definition adept_ok :: "adept \<Rightarrow> bool" where
  "adept_ok env \<longleftrightarrow> (\<forall>h r n. length (snd (DeppGetRegRepeat env h r n)) = n)"

text \<open>The bytes that are kept are some of those that came, in their order; all of them, if none is a code.\<close>

definition cleared :: "u8 list \<Rightarrow> u8 list \<Rightarrow> bool" where
  "cleared arr raw \<longleftrightarrow> subseq arr raw \<and> ((\<forall>b\<in>set raw. \<not> stuffed b) \<longrightarrow> arr = raw)"

lemma stuffed_ff: "stuffed 0xff"
  by (simp add: stuffed_def)

lemma cleared_unstuff: "cleared (unstuff l vs) vs"
proof (induction l vs rule: unstuff.induct)
  case (2 l v vs)
  then show ?case
    using stuffed_ff by (auto simp: cleared_def)
qed (simp add: cleared_def)

lemma cleared_Nil: "cleared [] []"
  by (simp add: cleared_def)

lemma cleared_append: "cleared a r \<Longrightarrow> cleared b t \<Longrightarrow> cleared (a @ b) (r @ t)"
  by (auto simp: cleared_def list_emb_append_mono)

text \<open>A step from one state to another that has kept \<open>arr\<close> of what it has fetched, and handed out \<open>out\<close>.\<close>

definition moves :: "deppi \<Rightarrow> u8 list \<Rightarrow> u8 list \<Rightarrow> deppi \<Rightarrow> bool" where
  "moves s arr out s' \<longleftrightarrow> deppi_wf s' \<and> queued s @ arr = out @ queued s' \<and>
    (\<exists>raw. raw_bytes (p_hist s') = raw_bytes (p_hist s) @ raw \<and> cleared arr raw)"

lemma moves_trans:
  assumes "moves s a out s1" "moves s1 b out' s2"
  shows "moves s (a @ b) (out @ out') s2"
proof -
  obtain r t where "raw_bytes (p_hist s1) = raw_bytes (p_hist s) @ r" "cleared a r"
    "raw_bytes (p_hist s2) = raw_bytes (p_hist s1) @ t" "cleared b t"
    using assms by (auto simp: moves_def)
  moreover from this have "cleared (a @ b) (r @ t)"
    by (simp add: cleared_append)
  moreover have "queued s @ a @ b = out @ out' @ queued s2"
  proof -
    have "queued s @ a = out @ queued s1" "queued s1 @ b = out' @ queued s2"
      using assms unfolding moves_def by blast+
    then show ?thesis
      by (metis append_assoc)
  qed
  moreover have "deppi_wf s2"
    using assms(2) unfolding moves_def by blast
  ultimately show ?thesis
    by (simp add: moves_def)
qed

lemma moves_wf: "moves s arr out s' \<Longrightarrow> deppi_wf s'"
  unfolding moves_def by blast

lemma moves_refl: "deppi_wf s \<Longrightarrow> moves s [] [] s"
  using cleared_Nil by (simp add: moves_def)

text \<open>The library may come to know of an error.\<close>

definition lib_error :: "adept \<Rightarrow> bool" where
  "lib_error env \<longleftrightarrow> (\<exists>h. DmgrGetLastError env h \<noteq> 0)"

lemma deppi_err_cases: "deppi_err env s = Inl Depp_exit \<and> lib_error env \<or> deppi_err env s = Inr s"
  by (auto simp: deppi_err_def lib_error_def)

lemma deppi_raw_read_moves:
  assumes env: "adept_ok env" and wf: "deppi_wf s"
  shows "deppi_raw_read env clen s = Inl Depp_exit \<and> lib_error env \<or> (\<exists>arr s1. deppi_raw_read env clen s = Inr s1 \<and> moves s arr [] s1)"
proof (cases "min clen (511 - avail_fifo s) > 0")
  case True
  define ln where "ln = min (min clen (511 - avail_fifo s)) PKTLEN"
  obtain good bs where get: "DeppGetRegRepeat env (p_hist s) 0 ln = (good, bs)"
    by fastforce
  let ?s = "s\<lparr>p_hist := Get_repeat 0 bs good # p_hist s\<rparr>"
  have "length (snd (DeppGetRegRepeat env (p_hist s) 0 ln)) = ln"
    using env unfolding adept_ok_def by blast
  then have "length bs = ln"
    by (simp add: get)
  then have room: "avail_fifo ?s + length bs \<le> 511"
    using avail_less [OF wf] by (simp add: avail_fifo_def ln_def)
  have wf': "deppi_wf ?s"
    using wf by (simp add: deppi_wf_def)
  have "queued ?s = queued s"
    by (simp add: queued_def avail_fifo_def)
  then have "moves s (unstuff (last_code (queued s)) bs) [] (push_fifo bs ?s)"
    using push_fifo_queue [OF wf' room] cleared_unstuff by (auto simp: moves_def)
  moreover have "deppi_raw_read env clen s = (if good then Inr (push_fifo bs ?s) else deppi_err env (push_fifo bs ?s))"
    using True get by (simp add: deppi_raw_read_def Let_def flip: ln_def)
  ultimately show ?thesis
    using deppi_err_cases [of env "push_fifo bs ?s"] by auto
next
  case False
  have "moves s [] [] s"
    using wf cleared_Nil by (auto simp: moves_def)
  then show ?thesis
    using False by (auto simp: deppi_raw_read_def Let_def)
qed

lemma pop_moves:
  assumes wf: "deppi_wf s"
  obtains s' where "pop_fifo len s = Some (take len (queued s), s')" "moves s [] (take len (queued s)) s'"
proof -
  obtain s' where s': "pop_fifo len s = Some (take len (queued s), s')" "deppi_wf s'"
    "queued s' = drop len (queued s)" "p_hist s' = p_hist s"
    using pop_fifo_queue [OF wf] by blast
  have "moves s [] (take len (queued s)) s'"
    unfolding moves_def s'(3,4) by (simp add: s'(2) cleared_Nil)
  then show ?thesis
    using that s'(1) by blast
qed

lemma moves_time: "moves s arr out s' \<Longrightarrow> moves s arr out (s'\<lparr>p_hist := Get_time # p_hist s'\<rparr>)"
  by (simp add: moves_def deppi_wf_def queued_def avail_fifo_def)

lemma read_loop_moves:
  assumes env: "adept_ok env"
  shows "deppi_wf s \<Longrightarrow> read_loop_ms env now t left got s = Some (Inl Depp_exit) \<and> lib_error env \<or>
    (\<exists>arr out s'. read_loop_ms env now t left got s = Some (Inr (got @ out, s')) \<and> length out \<le> left \<and> moves s arr out s')"
proof (induction left arbitrary: got s rule: less_induct)
  case (less left)
  note stay = moves_refl [OF less.prems]
  show ?case
  proof (cases "left > 0")
    case False
    then show ?thesis
      using stay by (subst (1 2) read_loop_ms.simps) (simp, blast)
  next
    case True
    from deppi_raw_read_moves [OF env less.prems, of left] show ?thesis
    proof (elim disjE exE conjE)
      assume "deppi_raw_read env left s = Inl Depp_exit" "lib_error env"
      then show ?thesis
        using True by (subst read_loop_ms.simps) simp
    next
      fix arr s1 assume s1: "deppi_raw_read env left s = Inr s1" "moves s arr [] s1"
      obtain s2 where s2: "pop_fifo left s1 = Some (take left (queued s1), s2)" "moves s1 [] (take left (queued s1)) s2"
        using pop_moves [OF moves_wf [OF s1(2)]] by blast
      let ?bs = "take left (queued s1)"
      have m2: "moves s arr ?bs s2"
        using moves_trans [OF s1(2) s2(2)] by simp
      have go_on: "read_loop_ms env now t (left - length ?bs) (got @ ?bs) s3 = Some (Inl Depp_exit) \<and> lib_error env \<or>
        (\<exists>arr out s'. read_loop_ms env now t (left - length ?bs) (got @ ?bs) s3 = Some (Inr (got @ out, s')) \<and>
          length out \<le> left \<and> moves s arr out s')" if "moves s arr ?bs s3" "?bs \<noteq> []" for s3
      proof -
        have small: "left - length ?bs < left" "length ?bs \<le> left"
          using that True by simp_all
        from less.IH [OF small(1) moves_wf [OF that(1)], of "got @ ?bs"] show ?thesis
        proof (elim disjE exE conjE)
          fix arr' out s'
          assume rest: "read_loop_ms env now t (left - length ?bs) (got @ ?bs) s3 = Some (Inr ((got @ ?bs) @ out, s'))"
            "length out \<le> left - length ?bs" "moves s3 arr' out s'"
          have "length (?bs @ out) \<le> left"
            using rest(2) small(2) by simp
          then show ?thesis
            using rest(1) moves_trans [OF that(1) rest(3)] unfolding append_assoc by blast
        qed blast
      qed
      have short: "length ?bs \<le> left"
        by simp
      have stop: "\<exists>arr out s'. Some (Inr (got @ ?bs, s3)) = Some (Inr (got @ out, s') :: deppi depp_stop + u8 list \<times> deppi) \<and>
        length out \<le> left \<and> moves s arr out s'" if "moves s arr ?bs s3" for s3
        using that short by blast
      have unfold: "read_loop_ms env now t left got s =
        (if ?bs = [] then Some (Inr (got, s2))
         else if t = 0 then Some (Inr (got @ ?bs, s2))
         else if t > 0
         then let later = clock_gettime env (p_hist s2); s3 = s2\<lparr>p_hist := Get_time # p_hist s2\<rparr>
              in if elapsed_ms now later > t then Some (Inr (got @ ?bs, s3))
                 else read_loop_ms env now t (left - length ?bs) (got @ ?bs) s3
         else read_loop_ms env now t (left - length ?bs) (got @ ?bs) s2)"
        using True by (subst read_loop_ms.simps) (simp add: s1(1) s2(1) Let_def)
      show ?thesis
      proof (cases "?bs = []")
        case True
        then show ?thesis
          using m2 unfolding unfold by (simp only: if_True) (metis append_Nil2 list.size(3) zero_le)
      next
        case False
        then show ?thesis
          using stop [OF m2] stop [OF moves_time [OF m2]] go_on [OF m2] go_on [OF moves_time [OF m2]]
          unfolding unfold Let_def by presburger
      qed
    qed
  qed
qed

lemma deppi_read_moves:
  assumes env: "adept_ok env" and wf: "deppi_wf s"
  shows "deppi_read env len t s = Some (Inl Depp_exit) \<and> lib_error env \<or>
    (\<exists>arr out s'. deppi_read env len t s = Some (Inr (out, s')) \<and> length out \<le> len \<and> moves s arr out s')"
proof -
  let ?s = "s\<lparr>p_hist := Get_time # p_hist s\<rparr>"
  have wf': "deppi_wf ?s" and start: "moves s [] [] ?s"
    using wf cleared_Nil by (auto simp: moves_def deppi_wf_def queued_def avail_fifo_def)
  obtain s1 where s1: "pop_fifo len ?s = Some (take len (queued ?s), s1)" "moves ?s [] (take len (queued ?s)) s1"
    using pop_moves [OF wf', of len] by auto
  let ?bs = "take len (queued ?s)"
  have m1: "moves s [] ?bs s1"
    using moves_trans [OF start s1(2)] by simp
  have read: "deppi_read env len t s = read_loop_ms env (clock_gettime env (p_hist s)) t (len - length ?bs) ?bs s1"
    by (simp add: deppi_read_def s1(1) Let_def)
  have "deppi_wf s1"
    using m1 by (simp add: moves_def)
  from read_loop_moves [OF env this, of "clock_gettime env (p_hist s)" t "len - length ?bs" ?bs] show ?thesis
  proof (elim disjE exE conjE)
    fix arr out s'
    assume loop: "read_loop_ms env (clock_gettime env (p_hist s)) t (len - length ?bs) ?bs s1 = Some (Inr (?bs @ out, s'))"
      "length out \<le> len - length ?bs" "moves s1 arr out s'"
    have "length (?bs @ out) \<le> len"
      using loop(2) by auto
    then show ?thesis
      using loop(1) moves_trans [OF m1 loop(3)] unfolding read by blast
  qed (simp add: read)
qed

section \<open>Polling and flushing\<close>

text \<open>Polling fetches without handing out; the loop ends, since each turn but the last grows what is queued.\<close>

lemma moves_grows: "moves s arr [] s1 \<Longrightarrow> avail_fifo s1 = avail_fifo s + length arr"
  unfolding moves_def by (metis append_Nil length_append length_queued)

lemma poll_loop_moves:
  assumes env: "adept_ok env"
  shows "deppi_wf s \<Longrightarrow> poll_loop env (avail_fifo s) v s = Some (Inl Depp_exit) \<and> lib_error env \<or>
    (\<exists>arr s'. poll_loop env (avail_fifo s) v s = Some (Inr (avail_fifo s', s')) \<and> moves s arr [] s')"
proof (induction "511 - avail_fifo s" arbitrary: s rule: less_induct)
  case less
  note stay = moves_refl [OF less.prems]
  show ?case
  proof (cases "\<not> stuffed v \<and> avail_fifo s < 511 - 32")
    case False
    then have "poll_loop env (avail_fifo s) v s = Some (Inr (avail_fifo s, s))"
      by (subst poll_loop.simps) auto
    then show ?thesis
      using stay by blast
  next
    case True
    from deppi_raw_read_moves [OF env less.prems, of 26] show ?thesis
    proof (elim disjE exE conjE)
      assume "deppi_raw_read env 26 s = Inl Depp_exit" "lib_error env"
      then show ?thesis
        using True by (subst poll_loop.simps) simp
    next
      fix arr s1 assume s1: "deppi_raw_read env 26 s = Inr s1" "moves s arr [] s1"
      have unfold: "poll_loop env (avail_fifo s) v s =
        (if avail_fifo s = avail_fifo s1 then Some (Inr (avail_fifo s, s1)) else poll_loop env (avail_fifo s1) v s1)"
        using True by (subst poll_loop.simps) (simp add: s1(1))
      show ?thesis
      proof (cases "avail_fifo s = avail_fifo s1")
        case same: True
        then show ?thesis
          using s1(2) unfolding unfold by auto
      next
        case different: False
        then have "511 - avail_fifo s1 < 511 - avail_fifo s" 
          using moves_grows [OF s1(2)] conjunct2 [OF True] by linarith
        from less.hyps [OF this moves_wf [OF s1(2)]] different moves_trans [OF s1(2), of _ "[]"] show ?thesis
          unfolding unfold by (simp only: if_False append_Nil) blast
      qed
    qed
  qed
qed

lemma deppi_poll_moves:
  assumes env: "adept_ok env" and wf: "deppi_wf s"
  shows "deppi_poll env s = Some (Inl Depp_exit) \<and> lib_error env \<or>
    (\<exists>b arr s'. deppi_poll env s = Some (Inr (b, s')) \<and> moves s arr [] s')"
proof (cases "avail_fifo s < 2 \<and> (avail_fifo s < 1 \<or> stuffed (m_rbuf s ! m_rend s))")
  case False
  then have "deppi_poll env s = Some (Inr (True, s))"
    by (auto simp: deppi_poll_def Let_def)
  then show ?thesis
    using moves_refl [OF wf] by blast
next
  case True
  from deppi_raw_read_moves [OF env wf, of 4] show ?thesis
  proof (elim disjE exE conjE)
    assume "deppi_raw_read env 4 s = Inl Depp_exit" "lib_error env"
    then show ?thesis
      using True by (simp add: deppi_poll_def)
  next
    fix arr s1 assume s1: "deppi_raw_read env 4 s = Inr s1" "moves s arr [] s1"
    show ?thesis
    proof (cases "avail_fifo s1 = 0")
      case zero: True
      then have "deppi_poll env s = Some (Inr (False, s1))"
        using True by (simp add: deppi_poll_def s1(1))
      then show ?thesis
        using s1(2) by blast
    next
      case False
      define v where "v = m_rbuf s1 ! masked (int (m_rbeg s1) - 1)"
      have unfold: "deppi_poll env s = Option.bind (poll_loop env (avail_fifo s1) v s1)
        (\<lambda>r. Some (case r of Inl e \<Rightarrow> Inl e
          | Inr (avail, s2) \<Rightarrow> Inr (\<not> (avail < 1) \<and> \<not> (avail = 1 \<and> stuffed (m_rbuf s2 ! m_rend s2)), s2)))"
        using True False unfolding deppi_poll_def Let_def by (simp add: s1(1) v_def)
      from poll_loop_moves [OF env moves_wf [OF s1(2)], of v] show ?thesis
      proof (elim disjE exE conjE)
        fix arr' s2 assume s2: "poll_loop env (avail_fifo s1) v s1 = Some (Inr (avail_fifo s2, s2))" "moves s1 arr' [] s2"
        have "moves s (arr @ arr') [] s2"
          using moves_trans [OF s1(2) s2(2)] by simp
        then show ?thesis
          unfolding unfold s2(1) bind.simps(2) sum.case prod.case by blast
      qed (simp add: unfold)
    qed
  qed
qed

lemma flush_read_wf:
  "flush_read env s = Some r \<Longrightarrow> adept_ok env \<Longrightarrow> length (m_rbuf s) = 512 \<Longrightarrow> r = Inl Depp_exit \<or> (\<exists>s'. r = Inr s' \<and> deppi_wf s')"
proof (induction env s r rule: flush_read.raw_induct [rotated, consumes 1, case_names step])
  case (step flush env s r)
  let ?s = "s\<lparr>m_rbeg := 0, m_rend := 0\<rparr>"
  have "deppi_wf ?s"
    using step.prems(2) by (simp add: deppi_wf_def)
  from deppi_poll_moves [OF step.prems(1) this] show ?case
  proof (elim disjE exE conjE)
    fix b arr s1 assume s1: "deppi_poll env ?s = Some (Inr (b, s1))" "moves ?s arr [] s1"
    show ?thesis
    proof (cases b)
      case True
      then have "flush env s1 = Some r"
        using step.hyps s1(1) by simp
      from step.IH [OF this step.prems(1)] show ?thesis
        using moves_wf [OF s1(2)] by (simp add: deppi_wf_def)
    next
      case False
      then show ?thesis
        using step.hyps s1(1) moves_wf [OF s1(2)] by auto
    qed
  qed (use step.hyps in simp)
qed

section \<open>Properties\<close>


text \<open>
  C31. The state of the serial side keeps its type: the constructor leaves a ring whose indices are in range, and \<open>read\<close>
  and \<open>poll\<close>, from such a state, always return, and leave such a state again or end the program with the library's error.
\<close>

theorem deppi_keeps_type:
  assumes "adept_ok env" "length (m_rbuf s) = 512"
  shows "(\<forall>s'. deppi_new env sel s = Some (Inr s') \<longrightarrow> deppi_wf s') \<and>
    (deppi_wf s \<longrightarrow>
      (deppi_read env len t s = Some (Inl Depp_exit) \<or> (\<exists>bs s'. deppi_read env len t s = Some (Inr (bs, s')) \<and> deppi_wf s')) \<and>
      (deppi_poll env s = Some (Inl Depp_exit) \<or> (\<exists>b s'. deppi_poll env s = Some (Inr (b, s')) \<and> deppi_wf s')))"
proof (intro conjI allI impI)
  fix s' assume "deppi_new env sel s = Some (Inr s')"
  then show "deppi_wf s'"
    using assms(2) flush_read_wf [OF _ assms(1), of "s\<lparr>p_hist := [Enabled]\<rparr>" "Inr s'"]
    by (auto simp: deppi_new_def Let_def split: option.splits if_splits)
next
  assume wf: "deppi_wf s"
  show "deppi_read env len t s = Some (Inl Depp_exit) \<or> (\<exists>bs s'. deppi_read env len t s = Some (Inr (bs, s')) \<and> deppi_wf s')"
    using deppi_read_moves [OF assms(1) wf] moves_wf by blast
  show "deppi_poll env s = Some (Inl Depp_exit) \<or> (\<exists>b s'. deppi_poll env s = Some (Inr (b, s')) \<and> deppi_wf s')"
    using deppi_poll_moves [OF assms(1) wf] moves_wf by blast
qed

section \<open>Witnesses\<close>

text \<open>A line on which the letter A comes again and again, and a ring with one byte in it.\<close>

definition letters :: adept where
  "letters = demo_adept (\<lambda>h r n. (True, replicate n 0x41))"

definition demo_deppi :: deppi where
  "demo_deppi = \<lparr>m_rbuf = replicate 512 0x42, m_rbeg = 0, m_rend = 511, p_hist = []\<rparr>"

lemma letters_ok: "adept_ok letters" "DmgrGetLastError letters h = 0"
  by (simp_all add: adept_ok_def letters_def demo_adept_def)

lemma demo_deppi_wf: "deppi_wf demo_deppi"
  by (simp add: deppi_wf_def demo_deppi_def)

lemma demo_deppi_queued: "queued demo_deppi = [0x42]"
  by (simp add: queued_def avail_fifo_eq [OF demo_deppi_wf]) (simp add: demo_deppi_def)


text \<open>A line on which nothing has come: the constructor's flush ends at once.\<close>

definition quiet :: adept where
  "quiet = demo_adept (\<lambda>h r n. (True, replicate n 0xff))"

lemma push_fifo_quiet: "push_fifo (replicate n 0xff) s = s"
proof -
  have "push_loop l (replicate n 0xff) s = s" for l
    by (induction n arbitrary: l) simp_all
  then show ?thesis
    by (simp add: push_fifo_def)
qed

lemma new_quiet: "deppi_new quiet ''x'' demo_deppi = Some (Inr (demo_deppi\<lparr>m_rend := 0, p_hist := [Get_repeat 0 [0xff, 0xff, 0xff, 0xff] True, Enabled]\<rparr>))"
proof -
  let ?s = "demo_deppi\<lparr>m_rend := 0, p_hist := [Enabled]\<rparr>"
  let ?s1 = "demo_deppi\<lparr>m_rend := 0, p_hist := [Get_repeat 0 (replicate 4 0xff) True, Enabled]\<rparr>"
  have empty: "avail_fifo ?s = 0" "avail_fifo ?s1 = 0"
    by (simp_all add: avail_fifo_def masked_mod demo_deppi_def)
  have "deppi_raw_read quiet 4 ?s = Inr ?s1"
    using empty by (simp add: deppi_raw_read_def Let_def push_fifo_quiet) (simp add: quiet_def demo_adept_def push_fifo_quiet)
  then have poll: "deppi_poll quiet ?s = Some (Inr (False, ?s1))"
    using empty by (simp add: deppi_poll_def Let_def)
  have "demo_deppi\<lparr>p_hist := [Enabled], m_rbeg := 0, m_rend := 0\<rparr> = ?s"
    by (simp add: demo_deppi_def)
  then have "flush_read quiet (demo_deppi\<lparr>p_hist := [Enabled]\<rparr>) = Some (Inr ?s1)"
    by (subst flush_read.simps) (simp add: poll)
  then show ?thesis
    by (simp add: deppi_new_def quiet_def demo_adept_def eval_nat_numeral)
qed

theorem deppi_keeps_type_witness:
  "(\<exists>s'. deppi_new quiet ''x'' demo_deppi = Some (Inr s') \<and> deppi_wf s') \<and>
    (deppi_read quiet 3 4 demo_deppi = Some (Inl Depp_exit) \<or> (\<exists>bs s'. deppi_read quiet 3 4 demo_deppi = Some (Inr (bs, s')) \<and> deppi_wf s'))"
proof -
  have "adept_ok quiet" "length (m_rbuf demo_deppi) = 512"
    by (simp_all add: adept_ok_def quiet_def demo_adept_def demo_deppi_def)
  from deppi_keeps_type [OF this, of "''x''" 3 4] new_quiet demo_deppi_wf show ?thesis
    by blast
qed

end
