(* ===== verification/Twoc.thy ===== *)
theory Twoc
  imports Prelude
begin

text \<open>
  Two's complement on the host, sw/host/twoc.cpp: the signed and the unsigned reading of the low bits of a number, and
  rounding to fewer bits.

  A \<open>long\<close> is an integer: with the numbers of bits below 63 that C allows here, no intermediate result leaves the 64
  bits. An \<open>unsigned long\<close> is an integer from 0 below \<open>2 ^ 64\<close>.
\<close>

section \<open>The routines\<close>

definition sbits :: "int \<Rightarrow> nat \<Rightarrow> int" where
  "sbits val bits =
    (let r = val AND (push_bit bits 1 - 1)
     in if r AND push_bit (bits - 1) 1 \<noteq> 0 then r OR push_bit bits (- 1) else r)"

definition sfits :: "int \<Rightarrow> nat \<Rightarrow> bool" where
  "sfits val bits \<longleftrightarrow> sbits val bits = int bits"

definition ubits :: "int \<Rightarrow> nat \<Rightarrow> int" where
  "ubits val bits = (val AND (push_bit bits 1 - 1)) mod 2 ^ 64"

definition rndbits :: "int \<Rightarrow> nat \<Rightarrow> nat \<Rightarrow> int" where
  "rndbits val bits_in bits_out =
    (let s = sbits val bits_in
     in if bits_in = bits_out then s
        else if bits_in - 1 = bits_out
        then let t = sbits (drop_bit 1 val) bits_out in if s AND 3 = 3 then t + 1 else t
        else let t = sbits (drop_bit (bits_in - bits_out) val) bits_out
             in if drop_bit (bits_in - bits_out - 1) s AND 1 = 0 then t
                else if s AND (push_bit (bits_in - bits_out - 1) 1 - 1) \<noteq> 0 then t + 1
                else if t AND 1 \<noteq> 0 then t + 1
                else t) mod 2 ^ 64"

section \<open>The readings\<close>

lemma low_mask: "push_bit n 1 - 1 = (mask n :: int)"
  by (simp add: push_bit_eq_mult mask_eq_exp_minus_1)

lemma and_low: "val AND (push_bit n 1 - 1) = val mod (2 ^ n :: int)"
  by (simp only: low_mask flip: take_bit_eq_mask take_bit_eq_mod)

lemma and_one_bit: "(x :: int) AND push_bit n 1 \<noteq> 0 \<longleftrightarrow> bit x n"
proof -
  have "x AND push_bit n 1 = (if bit x n then 2 ^ n else 0)"
    by (rule bit_eqI) (auto simp: bit_and_iff bit_push_bit_iff bit_1_iff bit_exp_iff)
  then show ?thesis
    by simp
qed

lemma sbits_signed:
  assumes "0 < bits"
  shows "sbits val bits = signed_take_bit (bits - 1) val"
proof (rule bit_eqI)
  fix k
  have "bit (val AND mask bits) (bits - 1) \<longleftrightarrow> bit val (bits - 1)"
    using assms by (simp add: bit_and_iff bit_mask_iff)
  moreover have "bit (push_bit bits (- 1 :: int)) k \<longleftrightarrow> bits \<le> k"
    by (simp add: bit_not_iff bit_mask_iff not_less)
  ultimately show "bit (sbits val bits) k \<longleftrightarrow> bit (signed_take_bit (bits - 1) val) k"
    using assms unfolding sbits_def Let_def low_mask and_one_bit
    by (cases "k < bits"; cases "k = bits - 1") (auto simp: bit_signed_take_bit_iff bit_and_iff bit_or_iff bit_mask_iff bit_not_iff min_def)
qed

lemma drop_signed:
  "drop_bit d (signed_take_bit (n + d) val) = signed_take_bit n (drop_bit d (val :: int))"
  by (rule bit_eqI) (simp add: bit_drop_bit_eq bit_signed_take_bit_iff min_def add.commute)

section \<open>Rounding\<close>

text \<open>\<open>q\<close> is the nearest integer to \<open>s / 2 ^ d\<close>, and the even one of two that are as near.\<close>

definition rounds_to :: "int \<Rightarrow> nat \<Rightarrow> int \<Rightarrow> bool" where
  "rounds_to s d q \<longleftrightarrow> 2 * \<bar>q * 2 ^ d - s\<bar> \<le> 2 ^ d \<and> (2 * \<bar>q * 2 ^ d - s\<bar> = 2 ^ d \<longrightarrow> even q)"

lemma rounds_to_unique:
  assumes "rounds_to s d q" "rounds_to s d q'"
  shows "q = q'"
proof (rule ccontr)
  have less: False if rr: "rounds_to s d q" "rounds_to s d q'" and lt: "q < q'" for q q'
  proof -
    have "(q + 1) * 2 ^ d \<le> q' * 2 ^ d"
      using lt by (intro mult_right_mono) auto
    then have gap: "q * 2 ^ d + 2 ^ d \<le> q' * 2 ^ d"
      by (simp add: distrib_right)
    have near: "2 * (s - q * 2 ^ d) \<le> 2 ^ d" "2 * (q' * 2 ^ d - s) \<le> 2 ^ d"
      using rr abs_ge_self [of "q' * 2 ^ d - s"] abs_ge_minus_self [of "q * 2 ^ d - s"] unfolding rounds_to_def by simp_all
    have between: "2 * (s - a) = p \<and> 2 * (b - s) = p" if "2 * (s - a) \<le> p" "2 * (b - s) \<le> p" "a + p \<le> b" for a b p :: int
      using that by auto
    from between [OF near gap] have tie: "2 * (s - q * 2 ^ d) = 2 ^ d" and tie': "2 * (q' * 2 ^ d - s) = 2 ^ d"
      by blast+
    have pos: "(0 :: int) < 2 ^ d"
      by simp
    have far: "2 * \<bar>a - s\<bar> = p" if "2 * (s - a) = p \<or> 2 * (a - s) = p" "0 < p" for a p :: int
      using that by auto
    have "2 * \<bar>q * 2 ^ d - s\<bar> = 2 ^ d"
      by (rule far) (use tie pos in auto)
    moreover have "2 * \<bar>q' * 2 ^ d - s\<bar> = 2 ^ d"
      by (rule far) (use tie' pos in auto)
    ultimately have "even q" "even q'"
      using rr unfolding rounds_to_def by blast+
    moreover have "q' * 2 ^ d = (q + 1) * 2 ^ d"
      using tie tie' by (simp add: distrib_right)
    then have "q' = q + 1"
      by simp
    ultimately show False
      by simp
  qed
  assume "q \<noteq> q'"
  then show False
    using less [OF assms] less [OF assms(2,1)] by linarith
qed

lemma split_low:
  fixes s :: int
  assumes "0 < d"
  shows "s = drop_bit d s * 2 ^ d + s mod 2 ^ d"
    "s mod 2 ^ d = (if bit s (d - 1) then 2 ^ (d - 1) else 0) + s mod 2 ^ (d - 1)"
proof -
  show "s = drop_bit d s * 2 ^ d + s mod 2 ^ d"
    unfolding drop_bit_eq_div by (rule div_mult_mod_eq [symmetric])
  have "take_bit (Suc (d - 1)) s = 2 ^ (d - 1) * of_bool (bit s (d - 1)) + take_bit (d - 1) s"
    by (simp add: take_bit_Suc_from_most)
  then show "s mod 2 ^ d = (if bit s (d - 1) then 2 ^ (d - 1) else 0) + s mod 2 ^ (d - 1)"
    using assms by (simp add: take_bit_eq_mod)
qed

lemma round_even:
  fixes s :: int
  assumes d: "0 < d"
  shows "rounds_to s d (if \<not> bit s (d - 1) then drop_bit d s
    else if s mod 2 ^ (d - 1) \<noteq> 0 then drop_bit d s + 1
    else if odd (drop_bit d s) then drop_bit d s + 1 else drop_bit d s)"
proof -
  define t where "t = drop_bit d s"
  define l where "l = s mod 2 ^ (d - 1)"
  define h :: int where "h = 2 ^ (d - 1)"
  have pow: "(2 :: int) ^ d = 2 * h"
    unfolding h_def using d by (cases d) simp_all
  have l: "0 \<le> l" "l < h"
    by (simp_all add: l_def h_def)
  have "s = t * (2 * h) + ((if bit s (d - 1) then h else 0) + l)"
    using split_low [OF d, of s] unfolding pow [symmetric] unfolding t_def h_def l_def by simp
  then have diff: "t * (2 * h) - s = - ((if bit s (d - 1) then h else 0) + l)"
    "(t + 1) * (2 * h) - s = 2 * h - ((if bit s (d - 1) then h else 0) + l)"
    by (simp_all add: distrib_right)
  show ?thesis
    unfolding rounds_to_def pow t_def [symmetric] l_def [symmetric]
    using l by (cases "bit s (d - 1)") (simp_all add: diff)
qed

lemma one_bit_zero: "x AND 1 = 0 \<longleftrightarrow> even (x :: int)"
  by (simp add: and_one_eq even_iff_mod_2_eq_zero)

lemma three_bits: "s AND 3 = 3 \<longleftrightarrow> odd s \<and> odd (drop_bit 1 (s :: int))"
proof -
  have "s AND 3 = s mod 4"
    using and_low [of s 2] by (simp add: push_bit_eq_mult)
  then show ?thesis
    by (simp add: drop_bit_eq_div) presburger
qed

text \<open>The three cases of the code with fewer bits are one.\<close>

lemma rndbits_cases:
  fixes val :: int
  assumes "0 < bits_out" "bits_out < bits_in"
  defines "s \<equiv> signed_take_bit (bits_in - 1) val" and "d \<equiv> bits_in - bits_out"
  shows "rndbits val bits_in bits_out = (if \<not> bit s (d - 1) then drop_bit d s
    else if s mod 2 ^ (d - 1) \<noteq> 0 then drop_bit d s + 1
    else if odd (drop_bit d s) then drop_bit d s + 1 else drop_bit d s) mod 2 ^ 64"
proof -
  have s: "sbits val bits_in = s"
    using assms by (simp add: s_def sbits_signed)
  have "bits_in - 1 = bits_out - 1 + d"
    using assms by (simp add: d_def)
  then have t: "sbits (drop_bit d val) bits_out = drop_bit d s"
    using assms(1) unfolding s_def by (simp only: sbits_signed drop_signed)
  show ?thesis
  proof (cases "d = 1")
    case True
    then have "bits_in \<noteq> bits_out" "bits_in - 1 = bits_out"
      using assms by (simp_all add: d_def)
    then show ?thesis
      using True t unfolding rndbits_def Let_def s three_bits by (simp add: bit_0)
  next
    case False
    then have "bits_in \<noteq> bits_out" "bits_in - 1 \<noteq> bits_out"
      using assms(2) by (simp_all add: d_def)
    moreover have "drop_bit (d - 1) s AND 1 = 0 \<longleftrightarrow> \<not> bit s (d - 1)"
      by (simp add: one_bit_zero bit_iff_odd_drop_bit)
    ultimately show ?thesis
      unfolding rndbits_def Let_def s d_def [symmetric] t and_low one_bit_zero by (simp add: bit_iff_odd_drop_bit [of s "d - Suc 0"])
  qed
qed

section \<open>Properties\<close>


text \<open>
  \<open>sfits\<close> does not say whether a number fits: it compares the truncated number with the number of bits. It denies that 1 fits in
  8 bits, and claims that \<open>2 ^ 40 + 8\<close> does.
\<close>

theorem sfits_wrong:
  shows "\<not> sfits 1 8" "sfits (2 ^ 40 + 8) 8"
  by (simp_all add: sfits_def sbits_def push_bit_eq_mult)


end
