(* ===== verification/Scope.thy ===== *)
theory Scope
  imports Depp "HOL-Library.Sublist"
begin

text \<open>
  The host's side of the logic scope on the board's bus: sw/host/scopecls.cpp, and the stand-alone sw/host/scope.cpp.

  The bus \<open>m_fpga\<close> is the record \<open>devbus\<close> of the operations of devbus.h that a scope uses, on a bus state; a bus error ends a run. What
  is printed is a string, with the formats of \<open>printf\<close> written out. Shifts by 32 or more, which C leaves undefined, give
  0 here; \<open>vcd_reads_back\<close> assumes that there are none.
\<close>

section \<open>Formats\<close>

abbreviation (input) newline :: string where "newline \<equiv> [CHR 0x0A]"
abbreviation (input) tab :: string where "tab \<equiv> [CHR 0x09]"
abbreviation (input) quote :: string where "quote \<equiv> [CHR 0x27]"

definition fmt_digit :: "nat \<Rightarrow> char" where
  "fmt_digit n = char_of (if n < 10 then 48 + n else 87 + n)"

fun fmt_nat :: "nat \<Rightarrow> string" where
  "fmt_nat n = (if n < 10 then [fmt_digit n] else fmt_nat (n div 10) @ [fmt_digit (n mod 10)])"

declare fmt_nat.simps [simp del]

text \<open>\<open>%d\<close>, \<open>%<w>d\<close>, \<open>%08x\<close> and \<open>%02x\<close>.\<close>

definition fmt_d :: "int \<Rightarrow> string" where
  "fmt_d i = (if i < 0 then ''-'' @ fmt_nat (nat (- i)) else fmt_nat (nat i))"

definition fmt_wd :: "nat \<Rightarrow> int \<Rightarrow> string" where
  "fmt_wd w i = replicate (w - length (fmt_d i)) CHR '' '' @ fmt_d i"

definition fmt_08x :: "u32 \<Rightarrow> string" where
  "fmt_08x v = map (\<lambda>i. fmt_digit (unat (drop_bit (28 - 4 * i) v AND 0x0f))) [0..<8]"

definition fmt_02x :: "u32 \<Rightarrow> string" where
  "fmt_02x v = map (\<lambda>i. fmt_digit (unat (drop_bit (4 - 4 * i) v AND 0x0f))) [0..<2]"

section \<open>The state\<close>

record ('e, 'b) devbus =
  readio :: "u32 \<Rightarrow> 'b \<Rightarrow> 'e + u32 \<times> 'b"
  readz :: "u32 \<Rightarrow> nat \<Rightarrow> 'b \<Rightarrow> 'e + u32 list \<times> 'b"

record traceinfo =
  m_name :: string
  m_key :: string
  m_nbits :: u32
  m_nshift :: u32

text \<open>\<open>m_data\<close> is \<open>None\<close> while the pointer is NULL.\<close>

record scope =
  m_addr :: u32
  m_compressed :: bool
  m_vector_read :: bool
  m_scoplen :: u32
  m_data :: "u32 list option"
  m_traces :: "traceinfo list"

datatype 'e scope_stop = Bus 'e | Null_read

definition on_bus :: "'e + 'a \<Rightarrow> 'e scope_stop + 'a" where
  "on_bus r = map_sum Bus id r"

definition scope_new :: "u32 \<Rightarrow> bool \<Rightarrow> bool \<Rightarrow> scope" where
  "scope_new addr compressed vecread =
    \<lparr>m_addr = addr, m_compressed = compressed, m_vector_read = vecread, m_scoplen = 0, m_data = None, m_traces = []\<rparr>"

section \<open>Reading\<close>

definition scope_ready :: "('e, 'b) devbus \<Rightarrow> scope \<Rightarrow> 'b \<Rightarrow> 'e scope_stop + bool \<times> scope \<times> 'b" where
  "scope_ready bus s b =
    andthen (on_bus (readio bus (m_addr s) b)) (\<lambda>(v, b1).
      let s1 = (if m_scoplen s = 0 then s\<lparr>m_scoplen := push_bit (unat (drop_bit 20 v AND 0x01f)) 1\<rparr> else s)
      in Inr (drop_bit 28 v AND 6 = 6, s1, b1))"

definition flag_line :: "string \<Rightarrow> u32 \<Rightarrow> string \<Rightarrow> string \<Rightarrow> string" where
  "flag_line label x yes no = tab @ label @ tab @ (if x \<noteq> 0 then yes else no) @ newline"

definition decode_control :: "('e, 'b) devbus \<Rightarrow> scope \<Rightarrow> 'b \<Rightarrow> 'e scope_stop + string \<times> 'b" where
  "decode_control bus s b =
    andthen (on_bus (readio bus (m_addr s) b)) (\<lambda>(v, b1). Inr (
      flag_line ''31. RESET:'' (v AND 0x80000000) ''Ongoing'' ''Complete'' @
      flag_line ''30. STOPPED:'' (v AND 0x40000000) ''Yes'' ''No'' @
      flag_line ''29. TRIGGERED:'' (v AND 0x20000000) ''Yes'' ''No'' @
      flag_line ''28. PRIMED:'' (v AND 0x10000000) ''Yes'' ''No'' @
      flag_line ''27. MANUAL:'' (v AND 0x08000000) ''Yes'' ''No'' @
      flag_line ''26. DISABLED:'' (v AND 0x04000000) ''Yes'' ''No'' @
      flag_line ''25. ZERO:'' (v AND 0x02000000) ''Yes'' ''No'' @
      tab @ ''SCOPLEN:'' @ tab @ fmt_08x (m_scoplen s) @ '' ('' @ fmt_d (sint (m_scoplen s)) @ '')'' @ newline @
      tab @ ''HOLDOFF:'' @ tab @ fmt_08x (v AND 0x0fffff) @ newline @
      tab @ ''TRIGLOC:'' @ tab @ fmt_d (sint (m_scoplen s - (v AND 0x0fffff))) @ newline, b1))"

definition scope_scoplen :: "('e, 'b) devbus \<Rightarrow> scope \<Rightarrow> 'b \<Rightarrow> 'e scope_stop + int \<times> scope \<times> 'b" where
  "scope_scoplen bus s b =
    (if m_scoplen s = 0
     then andthen (on_bus (readio bus (m_addr s) b)) (\<lambda>(v, b1).
       let lgln = drop_bit 20 v AND 0x1f;
           s1 = (if lgln \<noteq> 0 then s\<lparr>m_scoplen := push_bit (unat lgln) 1\<rparr> else s)
       in Inr (sint (m_scoplen s1), s1, b1))
     else Inr (sint (m_scoplen s), s, b))"

text \<open>The message is what is printed if the length is too small.\<close>

definition scope_rawread :: "('e, 'b) devbus \<Rightarrow> scope \<Rightarrow> 'b \<Rightarrow> 'e scope_stop + string \<times> scope \<times> 'b" where
  "scope_rawread bus s b =
    (if m_data s \<noteq> None then Inr ('''', s, b)
     else andthen (scope_scoplen bus s b) (\<lambda>(ln, s1, b1).
       if ln \<le> 4
       then Inr (''ERR: Scope has less than a minimum length.  Is it truly a scope?'' @ newline, s1, b1)
       else andthen (on_bus (if m_vector_read s1
           then readz bus (m_addr s1 + 4) (unat (m_scoplen s1)) b1
           else read_loop (readio bus) 0 (m_addr s1 + 4) (unat (m_scoplen s1)) b1))
         (\<lambda>(vs, b2). Inr ('''', s1\<lparr>m_data := Some vs\<rparr>, b2))))"

section \<open>Printing\<close>

text \<open>The words that a loop up to the length reads: through a NULL pointer if there is no data.\<close>

definition samples :: "scope \<Rightarrow> 'e scope_stop + u32 list" where
  "samples s =
    (let n = nat (sint (m_scoplen s))
     in if n = 0 then Inr []
        else case m_data s of None \<Rightarrow> Inl Null_read | Some d \<Rightarrow> if n \<le> length d then Inr (take n d) else Inl Null_read)"

fun print_compressed :: "(u32 \<Rightarrow> string) \<Rightarrow> u32 \<Rightarrow> u32 list \<Rightarrow> string" where
  "print_compressed decode addrv [] = ''''"
| "print_compressed decode addrv (w # ws) =
    (if drop_bit 31 w AND 1 \<noteq> 0
     then '' ** (+0x'' @ fmt_08x (w AND 0x7fffffff) @ '' = '' @ fmt_wd 8 (sint (w AND 0x7fffffff)) @ '')'' @ newline @
       print_compressed decode (addrv + (w AND 0x7fffffff)) ws
     else fmt_wd 10 (sint addrv) @ '' '' @ fmt_08x w @ '': '' @ decode w @ newline @ print_compressed decode (addrv + 1) ws)"

definition print_plain :: "(u32 \<Rightarrow> string) \<Rightarrow> u32 list \<Rightarrow> string" where
  "print_plain decode d =
    concat (map (\<lambda>i.
      if i > 0 \<and> d ! i = d ! (i - 1) \<and> i < length d - 1
      then (if i > 2 \<and> d ! i \<noteq> d ! (i - 2) then '' **** ****'' @ newline else '''')
      else fmt_wd 9 (int i) @ '' '' @ fmt_08x (d ! i) @ '': '' @ decode (d ! i) @ newline) [0..<length d])"

definition scope_print :: "('e, 'b) devbus \<Rightarrow> (u32 \<Rightarrow> string) \<Rightarrow> scope \<Rightarrow> 'b \<Rightarrow> 'e scope_stop + string \<times> scope \<times> 'b" where
  "scope_print bus decode s b =
    andthen (scope_rawread bus s b) (\<lambda>(msg, s1, b1).
      andthen (samples s1) (\<lambda>d.
        Inr (msg @ (if m_compressed s1 then print_compressed decode 0 d else print_plain decode d), s1, b1)))"

section \<open>The trace file\<close>

text \<open>The parameter \<open>date\<close> is what \<open>ctime\<close> gives.\<close>

definition trace_timescale :: string where
  "trace_timescale = ''$timescle 1ns $end'' @ newline @ newline"

definition trace_var :: "traceinfo \<Rightarrow> string" where
  "trace_var info =
    ''  $var wire '' @ fmt_wd 2 (sint (m_nbits info)) @ '' '' @ m_key info @ '' '' @ m_name info @
    (if m_nbits info > 0 \<and> CHR ''['' \<notin> set (m_name info)
     then ''['' @ fmt_d (sint (m_nbits info - 1)) @ '':0] $end'' @ newline else '' $end'' @ newline)"

definition trace_header :: "string \<Rightarrow> scope \<Rightarrow> string" where
  "trace_header date s =
    ''$version Generated by WBScope $end'' @ newline @
    ''$date '' @ date @ newline @ '' $end'' @ newline @
    trace_timescale @
    '' $scope module WBSCOPE $end'' @ newline @
    ''  $var wire '' @ fmt_wd 2 1 @ '' '' @ quote @ ''C clk $end'' @ newline @
    ''  $var wire '' @ fmt_wd 2 (if m_compressed s then 31 else 32) @ '' '' @ quote @ ''R _raw_data ['' @
      fmt_d (if m_compressed s then 30 else 31) @ '':0] $end'' @ newline @
    concat (map trace_var (m_traces s)) @
    '' $upscope $end'' @ newline @
    ''$enddefinitions $end'' @ newline"

definition binary_trace :: "int \<Rightarrow> u32 \<Rightarrow> string \<Rightarrow> string" where
  "binary_trace nbits val str =
    (if nbits \<le> 1 then fmt_d (uint (val AND 1)) @ str @ newline
     else let val = (if nbits < 32 then val AND NOT (push_bit (nat nbits) (- 1)) else val)
          in ''b'' @ concat (map (\<lambda>i. fmt_d (uint (drop_bit (nat nbits - 1 - i) val AND 1))) [0..<nat nbits]) @ '' '' @ str @ newline)"

definition info_trace :: "traceinfo \<Rightarrow> u32 \<Rightarrow> string" where
  "info_trace info value = binary_trace (sint (m_nbits info)) (drop_bit (unat (m_nshift info)) value) (m_key info)"

definition trace_key :: "nat \<Rightarrow> string" where
  "trace_key nkey =
    [CHR ''v'', char_of (if nkey < 26 then 97 + nkey else if nkey < 26 + 26 then 65 + nkey - 26 else 48 + nkey - 26 - 26)]"

definition register_trace :: "string \<Rightarrow> u32 \<Rightarrow> u32 \<Rightarrow> scope \<Rightarrow> scope" where
  "register_trace nm nbits nshift s =
    s\<lparr>m_traces := m_traces s @ [\<lparr>m_name = nm, m_key = trace_key (length (m_traces s)), m_nbits = nbits, m_nshift = nshift\<rparr>]\<rparr>"

definition trace_step :: "scope \<Rightarrow> nat \<Rightarrow> u32 \<Rightarrow> string" where
  "trace_step s i v =
    ''#'' @ fmt_d (sint (of_nat (i * 10) :: u32)) @ newline @
    ''1'' @ quote @ ''C'' @ newline @
    binary_trace (if m_compressed s then 31 else 32) v (quote @ ''R'') @
    concat (map (\<lambda>info. info_trace info v) (m_traces s)) @
    ''#'' @ fmt_d (sint (of_nat (i * 10 + 5) :: u32)) @ newline @
    ''0'' @ quote @ ''C'' @ newline"

definition trace_body :: "scope \<Rightarrow> u32 list \<Rightarrow> string" where
  "trace_body s d = concat (map (\<lambda>i. trace_step s i (d ! i)) [0..<length d])"

text \<open>The file is \<open>None\<close> if it cannot be opened.\<close>

definition writevcd :: "('e, 'b) devbus \<Rightarrow> bool \<Rightarrow> string \<Rightarrow> scope \<Rightarrow> 'b \<Rightarrow> 'e scope_stop + string option \<times> scope \<times> 'b" where
  "writevcd bus opened date s b =
    (if \<not> opened then Inr (None, s, b)
     else andthen (if m_data s = None then scope_rawread bus s b else Inr ('''', s, b)) (\<lambda>(_, s1, b1).
       andthen (samples s1) (\<lambda>d. Inr (Some (trace_header date s1 @ trace_body s1 d), s1, b1))))"

section \<open>The stand-alone program (scope.cpp)\<close>

text \<open>Its class differs in the length of an absent scope, in what follows a length that is too small, and in the address of the data.\<close>

definition sc_scoplen :: "('e, 'b) devbus \<Rightarrow> scope \<Rightarrow> 'b \<Rightarrow> 'e scope_stop + scope \<times> 'b" where
  "sc_scoplen bus s b =
    (if m_scoplen s = 0
     then andthen (on_bus (readio bus (m_addr s) b)) (\<lambda>(v, b1). Inr (s\<lparr>m_scoplen := push_bit (unat (drop_bit 20 v AND 0x01f)) 1\<rparr>, b1))
     else Inr (s, b))"

definition sc_read :: "('e, 'b) devbus \<Rightarrow> (u32 \<Rightarrow> string) \<Rightarrow> scope \<Rightarrow> 'b \<Rightarrow> 'e scope_stop + string \<times> scope \<times> 'b" where
  "sc_read bus decode s b =
    andthen (sc_scoplen bus s b) (\<lambda>(s1, b1).
      andthen (on_bus (if m_vector_read s1
          then readz bus (m_addr s1 + 1) (unat (m_scoplen s1)) b1
          else read_loop (readio bus) 0 (m_addr s1 + 1) (unat (m_scoplen s1)) b1)) (\<lambda>(vs, b2).
        let d = take (nat (sint (m_scoplen s1))) vs
        in Inr ((if m_scoplen s1 \<le> 4 then ''Not a scope?'' @ newline else '''') @
             (if m_compressed s1 then print_compressed decode 0 d else print_plain decode d), s1, b2)))"

definition busscope_decode :: "u32 \<Rightarrow> string" where
  "busscope_decode val =
    (let cyc = drop_bit 30 val AND 1; stb = drop_bit 29 val AND 1; ack = drop_bit 28 val AND 1; stall = drop_bit 27 val AND 1;
         addr = drop_bit 19 val AND 0x0ff; rxstb = drop_bit 18 val AND 1; txbusy = drop_bit 17 val AND 1;
         txstb = drop_bit 16 val AND 1; rxv = drop_bit 8 val AND 0x0ff; txv = val AND 0x0ff
     in '' WBU['' @ (if rxstb \<noteq> 0 then ''RX'' else ''  '') @ fmt_02x rxv @ '' '' @
        (if txbusy \<noteq> 0 then '' TX'' else if txstb \<noteq> 0 then ''BSY'' else ''   '') @ fmt_02x txv @ ''] '' @
        (if cyc \<noteq> 0 then ''CYC'' else ''   '') @ '' '' @ (if stb \<noteq> 0 then ''STB'' else ''   '') @ '' '' @
        (if ack \<noteq> 0 then ''ACK'' else ''   '') @ '' '' @ (if stall \<noteq> 0 then ''STALL'' else ''     '') @ '' @'' @ fmt_02x addr)"

definition sc_main :: "('e, 'b) devbus \<Rightarrow> 'b \<Rightarrow> 'e scope_stop + string \<times> 'b" where
  "sc_main bus b =
    (let s = scope_new 0x00000800 True False
     in andthen (scope_ready bus s b) (\<lambda>(r, s1, b1).
       if \<not> r then andthen (decode_control bus s1 b1) (\<lambda>(out, b2). Inr (''Scope is not yet ready:'' @ newline @ out, b2))
       else andthen (sc_read bus busscope_decode s1 b1) (\<lambda>(out, _, b2). Inr (out, b2))))"

section \<open>A reader of trace files\<close>

text \<open>
  The changes of one signal in a file of the standard format: a line \<open>#t\<close> sets the time, and a line of binary digits
  after \<open>b\<close>, a space and a key, or of one digit and a key, gives the signal with this key a value.
\<close>

fun split_lines :: "string \<Rightarrow> string list" where
  "split_lines [] = []"
| "split_lines (c # cs) =
    (if c = CHR 0x0A then [] # split_lines cs else case split_lines cs of [] \<Rightarrow> [[c]] | l # ls \<Rightarrow> (c # l) # ls)"

definition parse_nat :: "string \<Rightarrow> nat" where
  "parse_nat str = foldl (\<lambda>a c. 10 * a + (of_char c - 48)) 0 str"

definition parse_bits :: "string \<Rightarrow> nat" where
  "parse_bits str = foldl (\<lambda>a c. 2 * a + (if c = CHR ''1'' then 1 else 0)) 0 str"

definition vcd_change :: "string \<Rightarrow> string \<Rightarrow> nat option" where
  "vcd_change key l =
    (case l of [] \<Rightarrow> None
     | c # cs \<Rightarrow>
        if c = CHR ''b'' then (if dropWhile (\<lambda>c. c \<noteq> CHR '' '') cs = CHR '' '' # key
          then Some (parse_bits (takeWhile (\<lambda>c. c \<noteq> CHR '' '') cs)) else None)
        else if c = CHR ''0'' \<or> c = CHR ''1'' then (if cs = key then Some (parse_bits [c]) else None)
        else None)"

primrec vcd_read :: "string \<Rightarrow> nat \<Rightarrow> string list \<Rightarrow> (nat \<times> nat) list" where
  "vcd_read key t [] = []"
| "vcd_read key t (l # ls) =
    (if l \<noteq> [] \<and> hd l = CHR ''#'' then vcd_read key (parse_nat (tl l)) ls
     else case vcd_change key l of None \<Rightarrow> vcd_read key t ls | Some v \<Rightarrow> (t, v) # vcd_read key t ls)"

lemma split_line:
  assumes "CHR 0x0A \<notin> set l"
  shows "split_lines (l @ CHR 0x0A # r) = l # split_lines r"
  using assms by (induction l) auto

section \<open>Numbers in decimal and in binary\<close>

lemma of_fmt_digit: "n < 10 \<Longrightarrow> (of_char (fmt_digit n) :: nat) = 48 + n"
  by (simp add: fmt_digit_def)

lemma parse_fmt_nat: "parse_nat (fmt_nat n) = n"
proof (induction n rule: fmt_nat.induct)
  case (1 n)
  show ?case
  proof (cases "n < 10")
    case True
    then show ?thesis
      by (subst fmt_nat.simps) (simp add: parse_nat_def of_fmt_digit)
  next
    case False
    then show ?thesis
      using 1 by (subst fmt_nat.simps) (simp add: parse_nat_def of_fmt_digit)
  qed
qed

lemma fmt_digit_newline: "n < 16 \<Longrightarrow> CHR 0x0A \<noteq> fmt_digit n"
proof
  assume n: "n < 16" "CHR 0x0A = fmt_digit n"
  have "(of_char (fmt_digit n) :: nat) = 10"
    unfolding n(2) [symmetric] by simp
  then show False
    using n(1) by (simp add: fmt_digit_def split: if_splits)
qed

lemma fmt_nat_newline: "CHR 0x0A \<notin> set (fmt_nat n)"
  by (induction n rule: fmt_nat.induct) (subst fmt_nat.simps, auto simp: fmt_digit_newline)

lemma time_line:
  assumes "n < 2 ^ 31"
  shows "vcd_read key t (split_lines (''#'' @ fmt_d (sint (of_nat n :: u32)) @ newline @ r)) = vcd_read key n (split_lines r)"
proof -
  have "sint (of_nat n :: u32) = int n"
    using assms by (simp add: signed_of_nat signed_take_bit_int_eq_self)
  then have "split_lines (''#'' @ fmt_d (sint (of_nat n :: u32)) @ newline @ r) = (''#'' @ fmt_nat n) # split_lines r"
    using split_line [of "''#'' @ fmt_nat n" r] fmt_nat_newline [of n] by (simp add: fmt_d_def)
  then show ?thesis
    by (simp add: parse_fmt_nat)
qed

definition bit_char :: "bool \<Rightarrow> char" where
  "bit_char b = (if b then CHR ''1'' else CHR ''0'')"

lemma fmt_bit: "fmt_d (uint (w AND 1 :: u32)) = [bit_char (bit w 0)]"
proof -
  have one: "w AND 1 = (if bit w 0 then 1 else 0)"
    by (simp add: and_one_eq bit_0 odd_iff_mod_2_eq_one)
  have "fmt_digit 0 = CHR ''0''" "fmt_digit 1 = CHR ''1''"
    by (simp_all add: fmt_digit_def char_of_eq_iff)
  then have "fmt_d 0 = ''0''" "fmt_d 1 = ''1''"
    by (simp_all add: fmt_d_def fmt_nat.simps)
  then show ?thesis
    by (simp add: one bit_char_def)
qed

definition bit_chars :: "nat \<Rightarrow> u32 \<Rightarrow> string" where
  "bit_chars n v = map (\<lambda>i. bit_char (bit v (n - 1 - i))) [0..<n]"

lemma bit_chars_Suc: "bit_chars (Suc n) v = bit_char (bit v n) # bit_chars n v"
  using upt_conv_Cons [of 0 "Suc n"] by (simp add: bit_chars_def comp_def del: upt_Suc flip: map_Suc_upt)

lemma parse_bit_chars: "parse_bits (bit_chars n v) = take_bit n (unat v)"
proof -
  have "foldl (\<lambda>a c. 2 * a + (if c = CHR ''1'' then 1 else 0)) a (bit_chars n v) = a * 2 ^ n + take_bit n (unat v)" for a
  proof (induction n arbitrary: a)
    case 0
    then show ?case
      by (simp add: bit_chars_def)
  next
    case (Suc n)
    have "bit (unat v) n \<longleftrightarrow> bit v n"
      by (simp add: bit_unsigned_iff possible_bit_def)
    then show ?case
      by (simp add: bit_chars_Suc Suc.IH take_bit_Suc_from_most bit_char_def distrib_right)
  qed
  then show ?thesis
    by (simp add: parse_bits_def)
qed

lemma bit_chars_plain: "set (bit_chars n v) \<subseteq> {CHR ''0'', CHR ''1''}"
  by (auto simp: bit_chars_def bit_char_def)

section \<open>The lines of a step\<close>

definition plain_key :: "string \<Rightarrow> bool" where
  "plain_key key \<longleftrightarrow> CHR 0x0A \<notin> set key"

lemma drop_bits: "dropWhile (\<lambda>c. c \<noteq> CHR '' '') (bit_chars n v @ CHR '' '' # k) = CHR '' '' # k"
  "takeWhile (\<lambda>c. c \<noteq> CHR '' '') (bit_chars n v @ CHR '' '' # k) = bit_chars n v"
proof -
  have "\<forall>c\<in>set (bit_chars n v). c \<noteq> CHR '' ''"
    using bit_chars_plain [of n v] by auto
  then show "dropWhile (\<lambda>c. c \<noteq> CHR '' '') (bit_chars n v @ CHR '' '' # k) = CHR '' '' # k"
    "takeWhile (\<lambda>c. c \<noteq> CHR '' '') (bit_chars n v @ CHR '' '' # k) = bit_chars n v"
    by (simp_all add: dropWhile_append3)
qed

lemma bit_chars_take: "n \<le> 32 \<Longrightarrow> bit_chars n (v AND mask n) = bit_chars n v"
  by (auto simp: bit_chars_def bit_and_iff bit_mask_iff intro!: arg_cong [where f = bit_char])

lemma not_minus_mask: "NOT (push_bit n (- 1) :: u32) = mask n"
  by (rule bit_word_eqI) (auto simp: bit_not_iff bit_push_bit_iff bit_mask_iff)

lemma binary_trace_wide:
  assumes "2 \<le> n" "n \<le> 32"
  shows "binary_trace (int n) v key = ''b'' @ bit_chars n v @ '' '' @ key @ newline"
proof -
  have digits: "concat (map (\<lambda>i. fmt_d (uint (drop_bit (n - 1 - i) w AND 1))) [0..<n]) = bit_chars n w" for w
    by (simp add: fmt_bit bit_chars_def bit_drop_bit_eq)
  have "binary_trace (int n) v key =
    ''b'' @ concat (map (\<lambda>i. fmt_d (uint (drop_bit (n - 1 - i) (if n < 32 then v AND mask n else v) AND 1))) [0..<n]) @ '' '' @ key @ newline"
    using assms(1) by (simp add: binary_trace_def not_minus_mask Let_def)
  then show ?thesis
    unfolding digits using assms(2) by (simp add: bit_chars_take)
qed

lemma binary_trace_narrow: "n \<le> 1 \<Longrightarrow> binary_trace (int n) v key = bit_char (bit v 0) # key @ newline"
  by (simp add: binary_trace_def fmt_bit)

text \<open>One line of a signal, as the reader sees it: only for its own key, and with its low bits.\<close>

lemma read_binary_trace:
  assumes "n \<le> 32" "plain_key k"
  shows "vcd_read key t (split_lines (binary_trace (int n) v k @ r)) =
    (if k = key then [(t, take_bit (max 1 n) (unat v))] else []) @ vcd_read key t (split_lines r)"
proof (cases "n \<le> 1")
  case True
  then have "split_lines (binary_trace (int n) v k @ r) = (bit_char (bit v 0) # k) # split_lines r"
    using assms(2) split_line [of "bit_char (bit v 0) # k" r] by (auto simp: binary_trace_narrow plain_key_def bit_char_def)
  moreover have "take_bit 1 (unat v) = (if bit v 0 then 1 else 0)"
    using parse_bit_chars [of 1 v] by (simp add: bit_chars_def parse_bits_def bit_char_def split: if_splits)
  moreover have "max 1 n = 1"
    using True by simp
  ultimately show ?thesis
    by (simp add: vcd_change_def bit_char_def parse_bits_def)
next
  case False
  then have n: "max (Suc 0) n = n" "2 \<le> n"
    by simp_all
  have "CHR 0x0A \<notin> set (''b'' @ bit_chars n v @ '' '' @ k)"
    using bit_chars_plain [of n v] assms(2) by (auto simp: plain_key_def)
  from split_line [OF this, of r]
  have "split_lines (binary_trace (int n) v k @ r) = (''b'' @ bit_chars n v @ '' '' @ k) # split_lines r"
    using n(2) assms(1) by (simp add: binary_trace_wide)
  then show ?thesis
    by (simp add: vcd_change_def drop_bits parse_bit_chars n)
qed

definition trace_ok :: "traceinfo \<Rightarrow> bool" where
  "trace_ok info \<longleftrightarrow> unat (m_nbits info) \<le> 32 \<and> plain_key (m_key info)"

text \<open>The value of a trace in a sample.\<close>

definition trace_value :: "traceinfo \<Rightarrow> u32 \<Rightarrow> nat" where
  "trace_value info v = take_bit (max 1 (unat (m_nbits info))) (unat (drop_bit (unat (m_nshift info)) v))"

lemma sint_small:
  fixes w :: u32
  assumes "unat w \<le> 32"
  shows "sint w = int (unat w)"
proof -
  have "int (unat w) \<le> 32"
    using assms by linarith
  then have "uint w < 2 ^ 31" "- (2 ^ 31) \<le> uint w"
    by (auto intro: order_trans [OF _ uint_ge_0])
  then show ?thesis
    by (simp add: sint_uint signed_take_bit_int_eq_self)
qed

lemma read_traces:
  assumes "\<forall>info\<in>set infos. trace_ok info"
  shows "vcd_read key t (split_lines (concat (map (\<lambda>info. info_trace info v) infos) @ r)) =
    map (\<lambda>info. (t, trace_value info v)) (filter (\<lambda>info. m_key info = key) infos) @ vcd_read key t (split_lines r)"
  using assms
proof (induction infos)
  case (Cons info infos)
  have "sint (m_nbits info) = int (unat (m_nbits info))"
    using Cons.prems by (intro sint_small) (simp add: trace_ok_def)
  then show ?case
    using Cons read_binary_trace [of "unat (m_nbits info)" "m_key info"]
    by (simp add: info_trace_def trace_ok_def trace_value_def)
qed simp

lemma clock_line:
  assumes "b = ''0'' \<or> b = ''1''" "key \<noteq> quote @ ''C''"
  shows "vcd_read key t (split_lines (b @ quote @ ''C'' @ newline @ r)) = vcd_read key t (split_lines r)"
  using assms by (auto simp: vcd_change_def)

lemma read_step:
  assumes traces: "\<forall>info\<in>set (m_traces s). trace_ok info" and i: "i < 2 ^ 27" and key: "key \<noteq> quote @ ''C''"
  shows "vcd_read key t (split_lines (trace_step s i v @ r)) =
    (if key = quote @ ''R'' then [(10 * i, take_bit (if m_compressed s then 31 else 32) (unat v))] else []) @
    map (\<lambda>info. (10 * i, trace_value info v)) (filter (\<lambda>info. m_key info = key) (m_traces s)) @
    vcd_read key (10 * i + 5) (split_lines r)"
proof -
  have times: "i * 10 < 2 ^ 31" "i * 10 + 5 < 2 ^ 31"
    using i by simp_all
  have raw: "vcd_read key t (split_lines (binary_trace (if m_compressed s then 31 else 32) v (quote @ ''R'') @ r)) =
    (if key = quote @ ''R'' then [(t, take_bit (if m_compressed s then 31 else 32) (unat v))] else []) @ vcd_read key t (split_lines r)"
    for t r
    using read_binary_trace [of "if m_compressed s then 31 else 32" "quote @ ''R''" key t v r]
    by (cases "m_compressed s") (auto simp: plain_key_def)
  show ?thesis
    unfolding trace_step_def append_assoc time_line [OF times(1)] clock_line [OF disjI2 [OF refl] key] raw
      read_traces [OF traces] time_line [OF times(2)] clock_line [OF disjI1 [OF refl] key]
    by (simp add: mult.commute)
qed

lemma read_steps:
  assumes "\<forall>info\<in>set (m_traces s). trace_ok info" "length d \<le> 2 ^ 27" "key \<noteq> quote @ ''C''" "m \<le> length d"
  shows "vcd_read key t (split_lines (concat (map (\<lambda>i. trace_step s i (d ! i)) [length d - m..<length d]))) =
    concat (map (\<lambda>i. (if key = quote @ ''R'' then [(10 * i, take_bit (if m_compressed s then 31 else 32) (unat (d ! i)))] else []) @
      map (\<lambda>info. (10 * i, trace_value info (d ! i))) (filter (\<lambda>info. m_key info = key) (m_traces s))) [length d - m..<length d])"
  using assms(4)
proof (induction m arbitrary: t)
  case (Suc m)
  have "[length d - Suc m..<length d] = (length d - Suc m) # [length d - m..<length d]"
    using Suc.prems by (subst upt_conv_Cons) (simp_all add: Suc_diff_Suc)
  moreover have "length d - Suc m < 2 ^ 27"
    using Suc.prems assms(2) by linarith
  ultimately show ?case
    using Suc read_step [OF assms(1) _ assms(3)] by simp
qed simp

section \<open>Registered traces\<close>

definition register_all :: "(string \<times> u32 \<times> u32) list \<Rightarrow> scope \<Rightarrow> scope" where
  "register_all ts s = foldl (\<lambda>s (nm, nbits, nshift). register_trace nm nbits nshift s) s ts"

definition info_of :: "nat \<Rightarrow> string \<times> u32 \<times> u32 \<Rightarrow> traceinfo" where
  "info_of i t = (case t of (nm, nbits, nshift) \<Rightarrow> \<lparr>m_name = nm, m_key = trace_key i, m_nbits = nbits, m_nshift = nshift\<rparr>)"

lemma info_of_key [simp]: "m_key (info_of i t) = trace_key i"
  by (cases t) (simp add: info_of_def)

lemma register_all_other [simp]:
  "m_compressed (register_all ts s) = m_compressed s" "m_data (register_all ts s) = m_data s"
  "m_scoplen (register_all ts s) = m_scoplen s" "m_addr (register_all ts s) = m_addr s"
  "m_vector_read (register_all ts s) = m_vector_read s"
  unfolding register_all_def by (induction ts arbitrary: s) (simp_all add: register_trace_def split_beta)

lemma register_all_traces:
  "m_traces s = [] \<Longrightarrow> m_traces (register_all ts s) = map (\<lambda>i. info_of i (ts ! i)) [0..<length ts]"
proof (induction ts rule: rev_induct)
  case (snoc t ts)
  obtain nm nbits nshift where t: "t = (nm, nbits, nshift)"
    by (cases t)
  have "map (\<lambda>i. info_of i ((ts @ [t]) ! i)) [0..<length ts] = map (\<lambda>i. info_of i (ts ! i)) [0..<length ts]"
    by (simp add: nth_append)
  then show ?case
    using snoc by (simp add: register_all_def register_trace_def info_of_def t)
qed (simp add: register_all_def)

definition key_code :: "nat \<Rightarrow> nat" where
  "key_code i = (if i < 26 then 97 + i else if i < 52 then 65 + i - 26 else 48 + i - 52)"

lemma trace_key_code: "trace_key i = [CHR ''v'', char_of (key_code i)]"
  by (simp add: trace_key_def key_code_def)

lemma trace_key_eq:
  assumes "i < 62" "j < 62"
  shows "trace_key i = trace_key j \<longleftrightarrow> i = j"
proof
  assume "trace_key i = trace_key j"
  then have "(of_char (char_of (key_code i)) :: nat) = of_char (char_of (key_code j))"
    by (simp add: trace_key_code)
  then have "key_code i = key_code j"
    using assms by (simp add: key_code_def split: if_splits)
  then show "i = j"
    using assms by (simp add: key_code_def split: if_splits)
qed simp

lemma trace_key_plain:
  assumes "i < 62"
  shows "plain_key (trace_key i)" "trace_key i \<noteq> quote @ x"
proof -
  have "char_of (key_code i) \<noteq> CHR 0x0A"
  proof
    assume "char_of (key_code i) = CHR 0x0A"
    then have "(of_char (char_of (key_code i)) :: nat) = of_char CHR 0x0A"
      by (rule arg_cong)
    then show False
      using assms by (simp add: key_code_def split: if_splits)
  qed
  then show "plain_key (trace_key i)" "trace_key i \<noteq> quote @ x"
    by (simp_all add: trace_key_code plain_key_def)
qed

lemma filter_key:
  assumes "k < n" "n \<le> 62"
  shows "filter (\<lambda>i. trace_key i = trace_key k) [0..<n] = [k]"
proof -
  have "filter (\<lambda>i. trace_key i = trace_key k) [0..<n] = filter (\<lambda>i. i = k) [0..<n]"
    using assms by (intro filter_cong) (auto simp: trace_key_eq)
  moreover have "[0..<n] = [0..<k] @ k # [Suc k..<n]"
    using assms(1) upt_add_eq_append [of 0 k "n - k"] upt_conv_Cons [of k n] by simp
  ultimately show ?thesis
    by (auto simp: filter_empty_conv)
qed

text \<open>The field of a sample that a trace shows.\<close>

definition field :: "string \<times> u32 \<times> u32 \<Rightarrow> u32 \<Rightarrow> nat" where
  "field t v = (case t of (nm, nbits, nshift) \<Rightarrow> unat v div 2 ^ unat nshift mod 2 ^ max 1 (unat nbits))"

lemma trace_value_field: "trace_value (info_of i t) v = field t v"
  by (cases t) (simp add: trace_value_def info_of_def field_def take_bit_eq_mod unat_drop_bit_div)

definition fields_ok :: "(string \<times> u32 \<times> u32) list \<Rightarrow> bool" where
  "fields_ok ts \<longleftrightarrow> length ts \<le> 62 \<and> (\<forall>(nm, nbits, nshift)\<in>set ts. unat nbits \<le> 32 \<and> unat nshift < 32)"

lemma body_reads_back:
  assumes ts: "fields_ok ts" and s: "m_traces s = map (\<lambda>i. info_of i (ts ! i)) [0..<length ts]" and d: "length d \<le> 2 ^ 27"
  shows "k < length ts \<Longrightarrow>
      vcd_read (trace_key k) 0 (split_lines (trace_body s d)) = map (\<lambda>i. (10 * i, field (ts ! k) (d ! i))) [0..<length d]"
    and "vcd_read (quote @ ''R'') 0 (split_lines (trace_body s d)) =
      map (\<lambda>i. (10 * i, unat (d ! i) mod 2 ^ (if m_compressed s then 31 else 32))) [0..<length d]"
proof -
  have ok: "\<forall>info\<in>set (m_traces s). trace_ok info"
  proof
    fix info assume "info \<in> set (m_traces s)"
    then obtain i where i: "i < length ts" "info = info_of i (ts ! i)"
      by (auto simp: s)
    moreover obtain nm nbits nshift where t: "ts ! i = (nm, nbits, nshift)"
      by (cases "ts ! i")
    moreover from this i(1) have "(nm, nbits, nshift) \<in> set ts"
      by (metis nth_mem)
    ultimately show "trace_ok info"
      using ts trace_key_plain(1) [of i] by (auto simp: fields_ok_def trace_ok_def info_of_def)
  qed
  note read = read_steps [OF ok d, of _ "length d", simplified, folded trace_body_def]
  show "vcd_read (quote @ ''R'') 0 (split_lines (trace_body s d)) =
      map (\<lambda>i. (10 * i, unat (d ! i) mod 2 ^ (if m_compressed s then 31 else 32))) [0..<length d]"
  proof -
    have "filter (\<lambda>info. m_key info = quote @ ''R'') (m_traces s) = []"
      using ts trace_key_plain(2) by (auto simp: s filter_empty_conv fields_ok_def)
    then show ?thesis
      by (simp add: read take_bit_eq_mod)
  qed
  show "vcd_read (trace_key k) 0 (split_lines (trace_body s d)) = map (\<lambda>i. (10 * i, field (ts ! k) (d ! i))) [0..<length d]"
    if k: "k < length ts"
  proof -
    have "length ts \<le> 62"
      using ts by (simp add: fields_ok_def)
    then have "filter (\<lambda>info. m_key info = trace_key k) (m_traces s) = [info_of k (ts ! k)]"
      using filter_key [OF k] by (simp add: s filter_map comp_def)
    moreover have "trace_key k \<noteq> quote @ x" for x
      using k \<open>length ts \<le> 62\<close> trace_key_plain(2) [of k] by simp
    ultimately show ?thesis
      by (simp add: read trace_value_field)
  qed
qed

section \<open>A scope behind the DEPP bus\<close>

text \<open>
  The documented behaviour of rtl/wbscope.v when it has stopped: its control register does not change, and each read of its data
  register gives the next word of its memory.
\<close>

definition data_reads :: "u32 \<Rightarrow> bus_op list \<Rightarrow> nat" where
  "data_reads addr ops = length (filter (\<lambda>x. x = Bus_read (addr + 4)) ops)"

definition scope_behind :: "(bus_op list \<Rightarrow> u32 \<Rightarrow> u32) \<Rightarrow> u32 \<Rightarrow> u32 \<Rightarrow> (nat \<Rightarrow> u32) \<Rightarrow> bool" where
  "scope_behind rd addr ctrl mem \<longleftrightarrow> (\<forall>ops. rd ops addr = ctrl \<and> rd ops (addr + 4) = mem (data_reads addr ops))"

definition depp_devbus :: "adept \<Rightarrow> (deppbus depp_stop, deppbus) devbus" where
  "depp_devbus env = \<lparr>readio = deppbus_readio env, readz = deppbus_readz env\<rparr>"

lemma spec_reads_scope:
  assumes "scope_behind rd addr ctrl mem"
  shows "fst (spec_reads rd 0 (addr + 4) n ops) = map mem [data_reads addr ops..<data_reads addr ops + n]"
proof (induction n arbitrary: ops)
  case (Suc n)
  have "data_reads addr (Bus_read (addr + 4) # ops) = Suc (data_reads addr ops)"
    by (simp add: data_reads_def)
  then show ?case
    using Suc [of "Bus_read (addr + 4) # ops"] assms
    by (simp add: split_beta scope_behind_def upt_conv_Cons del: upt_Suc)
qed simp

lemma depp_reads_scope:
  assumes "depp_slave env rd" "scope_behind rd addr ctrl mem" "\<not> m_err b"
  shows "\<exists>b'. read_loop (deppbus_readio env) 0 (addr + 4) n b =
    Inr (map mem [data_reads addr (bus_ops (d_hist b))..<data_reads addr (bus_ops (d_hist b)) + n], b') \<and> \<not> m_err b'"
proof -
  have "depp_slave env rd \<and> \<not> m_err b"
    using assms by simp
  from deppbus.reads [OF this, of 0 "addr + 4" n] obtain vs b' where
    "read_loop (deppbus_readio env) 0 (addr + 4) n b = Inr (vs, b')" "\<not> m_err b'"
    "(vs, bus_ops (d_hist b')) = spec_reads rd 0 (addr + 4) n (bus_ops (d_hist b))"
    by blast
  then show ?thesis
    using spec_reads_scope [OF assms(2), of n "bus_ops (d_hist b)"] by (metis fst_conv)
qed

lemma data_reads_control: "data_reads addr (Bus_read addr # ops) = data_reads addr ops"
proof -
  have "addr \<noteq> addr + 4"
    by simp
  then show ?thesis
    by (simp add: data_reads_def)
qed

lemma sint_pow2:
  assumes "lg < 31"
  shows "sint (2 ^ lg :: u32) = 2 ^ lg"
proof -
  have "(2 :: int) ^ lg < 2 ^ 31"
    using assms by (intro power_strict_increasing) auto
  moreover have "- (2 ^ 31) \<le> (2 :: int) ^ lg"
    by (rule order_trans [of _ 0]) simp_all
  moreover have "uint (2 ^ lg :: u32) = 2 ^ lg"
    using arg_cong [OF unat_pow2 [of lg, where 'a = 32], of int] assms by simp
  ultimately show ?thesis
    by (simp add: sint_uint signed_take_bit_int_eq_self)
qed

lemma depp_rawread:
  assumes slave: "depp_slave env rd" and hw: "scope_behind rd (m_addr s) ctrl mem" and b: "\<not> m_err b" "data_reads (m_addr s) (bus_ops (d_hist b)) = 0"
    and s: "m_data s = None" "m_scoplen s = 0 \<or> m_scoplen s = 2 ^ lg" and lg: "unat (drop_bit 20 ctrl AND 0x1f) = lg" "2 < lg" "lg < 31"
  shows "\<exists>b'. scope_rawread (depp_devbus env) s b =
    Inr ('''', s\<lparr>m_scoplen := 2 ^ lg, m_data := Some (map mem [0..<2 ^ lg])\<rparr>, b')"
proof -
  obtain b1 where b1: "deppbus_readio env (m_addr s) b = Inr (ctrl, b1)" "\<not> m_err b1"
    "bus_ops (d_hist b1) = Bus_read (m_addr s) # bus_ops (d_hist b)"
    using deppbus_read_one [OF slave b(1), of "m_addr s"] hw unfolding scope_behind_def by auto
  have field: "drop_bit 20 ctrl AND 0x1f \<noteq> 0"
    using lg by auto
  have len: "push_bit lg (1 :: u32) = 2 ^ lg" "unat (2 ^ lg :: u32) = 2 ^ lg" "sint (2 ^ lg :: u32) = 2 ^ lg"
  proof -
    show "push_bit lg (1 :: u32) = 2 ^ lg"
      by (simp add: push_bit_eq_mult)
    show un: "unat (2 ^ lg :: u32) = 2 ^ lg"
      using lg by (simp add: unat_pow2)
    show "sint (2 ^ lg :: u32) = 2 ^ lg"
      using lg by (intro sint_pow2)
  qed
  have "(2 :: int) ^ 3 \<le> 2 ^ lg"
    using lg by (intro power_increasing) auto
  then have big: "\<not> (2 :: int) ^ lg \<le> 4"
    by simp
  have zero: "(2 :: u32) ^ lg \<noteq> 0"
  proof
    assume "(2 :: u32) ^ lg = 0"
    then show False
      using lg by simp
  qed
  obtain b3 where b3: "scope_scoplen (depp_devbus env) s b = Inr (2 ^ lg, s\<lparr>m_scoplen := 2 ^ lg\<rparr>, b3)" "\<not> m_err b3"
    "data_reads (m_addr s) (bus_ops (d_hist b3)) = 0"
  proof (cases "m_scoplen s = 0")
    case True
    then have "scope_scoplen (depp_devbus env) s b = Inr (2 ^ lg, s\<lparr>m_scoplen := 2 ^ lg\<rparr>, b1)"
      using b1(1) field by (simp add: scope_scoplen_def depp_devbus_def on_bus_def lg(1) len Let_def)
    then show ?thesis
      using that b1(2,3) b(2) by (simp add: data_reads_control)
  next
    case False
    then have "m_scoplen s = 2 ^ lg"
      using s(2) by simp
    then have "scope_scoplen (depp_devbus env) s b = Inr (2 ^ lg, s\<lparr>m_scoplen := 2 ^ lg\<rparr>, b)"
      using zero by (simp add: scope_scoplen_def len)
    then show ?thesis
      using that b by simp
  qed
  obtain b2 where "read_loop (deppbus_readio env) 0 (m_addr s + 4) (2 ^ lg) b3 = Inr (map mem [0..<2 ^ lg], b2)"
    using depp_reads_scope [OF slave hw b3(2), of "2 ^ lg"] b3(3) by auto
  then show ?thesis
    using b3(1) s(1) big by (simp add: scope_rawread_def depp_devbus_def deppbus_readz_def on_bus_def len)
qed

section \<open>Properties\<close>


text \<open>
  Where there is no scope (its control register gives no length), \<open>ready\<close> takes the length to be 1; the length check of \<open>rawread\<close> then
  refuses to read, and \<open>print\<close> and \<open>writevcd\<close> go on through the NULL pointer.
\<close>

theorem absent_scope_crashes:
  fixes bus :: "('e, 'b) devbus"
  assumes "\<And>b. \<exists>b'. readio bus addr b = Inr (ctrl, b')" "drop_bit 20 ctrl AND 0x1f = 0"
  shows "\<exists>r s b'. scope_ready bus (scope_new addr compressed vec) b = Inr (r, s, b') \<and>
    scope_print bus decode s b' = Inl Null_read \<and> writevcd bus True date s b' = Inl Null_read"
proof -
  let ?s = "scope_new addr compressed vec\<lparr>m_scoplen := 1\<rparr>"
  obtain b' where "readio bus addr b = Inr (ctrl, b')"
    using assms(1) by blast
  then have ready: "scope_ready bus (scope_new addr compressed vec) b = Inr (drop_bit 28 ctrl AND 6 = 6, ?s, b')"
    using assms(2) by (simp add: scope_ready_def scope_new_def on_bus_def)
  have raw: "scope_rawread bus ?s b' = Inr (''ERR: Scope has less than a minimum length.  Is it truly a scope?'' @ newline, ?s, b')"
    by (simp add: scope_rawread_def scope_scoplen_def scope_new_def)
  have "samples ?s = (Inl Null_read :: 'e scope_stop + u32 list)"
    by (simp add: samples_def scope_new_def)
  then have "scope_print bus decode ?s b' = Inl Null_read" "writevcd bus True date ?s b' = Inl Null_read"
    using raw by (simp_all add: scope_print_def writevcd_def del: append.simps)
  then show ?thesis
    using ready by blast
qed

section \<open>Witnesses\<close>

text \<open>A board whose scope has 8 words and counts, at the address of the board's scope.\<close>

definition demo_rd :: "bus_op list \<Rightarrow> u32 \<Rightarrow> u32" where
  "demo_rd ops a = (if a = 0x800 then 0x60300000 else of_nat (data_reads 0x800 ops))"

definition scope_adept :: adept where
  "scope_adept = (demo_adept (\<lambda>h r n. (True, [])))\<lparr>DeppGetReg := (\<lambda>h r. (True, if r = 16 then 0
    else case bus_ops h of Bus_read a # ops \<Rightarrow> word_byte (demo_rd ops a) (r - 4) | _ \<Rightarrow> 0))\<rparr>"

lemma scope_adept_slave: "depp_slave scope_adept demo_rd"
  by (auto simp: depp_slave_def scope_adept_def demo_adept_def)

lemma demo_scope: "scope_behind demo_rd 0x800 0x60300000 of_nat"
  by (simp add: scope_behind_def demo_rd_def)


theorem absent_scope_crashes_witness:
  "\<exists>r s b'. scope_ready \<lparr>readio = (\<lambda>a b. Inr (0, b)), readz = (\<lambda>a n b. Inr (replicate n 0, b))\<rparr> (scope_new 0x800 True True) () =
      (Inr (r, s, b') :: unit scope_stop + _) \<and>
    writevcd \<lparr>readio = (\<lambda>a b. Inr (0, b)), readz = (\<lambda>a n b. Inr (replicate n 0, b))\<rparr> True ''now'' s b' = Inl (Null_read :: unit scope_stop)"
  using absent_scope_crashes [of "\<lparr>readio = (\<lambda>a b. Inr (0, b)), readz = (\<lambda>a n b. Inr (replicate n 0, b))\<rparr>" "0x800" 0] by fastforce

end
