(* ===== verification/Hosttools.thy ===== *)
theory Hosttools
  imports Scope Flashdrvr
begin

text \<open>
  The small programs of the host: register names (sw/host/regdefs.cpp), reading and writing one register (wbregs.cpp), copying the
  flash to a file (readflash.cpp) and the scope on the flash controller (xpflashscop.cpp).

  The bus is a parameter (\<open>depp_fpga\<close> is that of deppbus.cpp). A result on the left is an exit, or a
  bus error that is not caught. What is printed is a string; progress messages are left out.
\<close>

section \<open>Register names (regdefs.cpp)\<close>

abbreviation (input) R_BUSERR :: u32 where "R_BUSERR \<equiv> 0x00000404"
abbreviation (input) R_ITIMERA :: u32 where "R_ITIMERA \<equiv> 0x00000408"
abbreviation (input) R_ITIMERB :: u32 where "R_ITIMERB \<equiv> 0x0000040c"
abbreviation (input) R_PWM :: u32 where "R_PWM \<equiv> 0x00000410"
abbreviation (input) R_SPIO :: u32 where "R_SPIO \<equiv> 0x00000414"
abbreviation (input) R_GPIO :: u32 where "R_GPIO \<equiv> 0x00000418"
abbreviation (input) R_UART :: u32 where "R_UART \<equiv> 0x0000041c"
abbreviation (input) R_VERSION :: u32 where "R_VERSION \<equiv> 0x00000420"
abbreviation (input) R_SCOPE :: u32 where "R_SCOPE \<equiv> 0x00000800"
abbreviation (input) R_SCOPED :: u32 where "R_SCOPED \<equiv> 0x00000804"
abbreviation (input) R_QSPI_CREG :: u32 where "R_QSPI_CREG \<equiv> 0x00000c04"
abbreviation (input) R_QSPI_SREG :: u32 where "R_QSPI_SREG \<equiv> 0x00000c08"
abbreviation (input) R_QSPI_IDREG :: u32 where "R_QSPI_IDREG \<equiv> 0x00000c0c"
abbreviation (input) RAMBASE :: u32 where "RAMBASE \<equiv> 0x4000"
abbreviation (input) SPIFLASH :: u32 where "SPIFLASH \<equiv> 0x1000000"
abbreviation (input) FLASHWORDS :: nat where "FLASHWORDS \<equiv> 4194304"

definition bregs :: "(u32 \<times> string) list" where
  "bregs = [(R_VERSION, ''VERSION''), (R_ICONTROL, ''ICONTROL''), (R_ICONTROL, ''INT''), (R_ICONTROL, ''PIC''), (R_ICONTROL, ''INTC''),
    (R_BUSERR, ''BUSERR''), (R_BUSERR, ''BUS''), (R_ITIMERA, ''TMRA''), (R_ITIMERB, ''TMRB''), (R_PWM, ''PWMAUDIO''), (R_PWM, ''PWM''),
    (R_PWM, ''PWMDATA''), (R_PWM, ''AUDIO''), (R_SPIO, ''SPIO''), (R_GPIO, ''GPIO''), (R_UART, ''UART''), (R_UART, ''UART-RX''),
    (R_UART, ''UARTRX''), (R_UART, ''RX''), (R_UART, ''UART-TX''), (R_UART, ''UARTTX''), (R_UART, ''TX''),
    (R_QSPI_EREG, ''QSPIEREG''), (R_QSPI_EREG, ''QSPIE''), (R_QSPI_CREG, ''QSPICONF''), (R_QSPI_CREG, ''QSPIC''),
    (R_QSPI_SREG, ''QSPISTAT''), (R_QSPI_SREG, ''QSPIS''), (R_QSPI_IDREG, ''QSPIID''), (R_QSPI_IDREG, ''QSPII''),
    (R_SCOPE, ''SCOPE''), (R_SCOPE, ''SCOP''), (R_SCOPED, ''SCOPDATA''), (R_SCOPED, ''SCDATA''), (R_SCOPED, ''SCOPED''),
    (R_SCOPED, ''SCOPD''), (RAMBASE, ''MEM''), (SPIFLASH, ''FLASH'')]"

text \<open>The functions of the C library, in the C locale.\<close>

definition code :: "char \<Rightarrow> nat" where "code c = of_char c"

definition isalpha :: "char \<Rightarrow> bool" where
  "isalpha c \<longleftrightarrow> 65 \<le> code c \<and> code c \<le> 90 \<or> 97 \<le> code c \<and> code c \<le> 122"

definition tolower :: "char \<Rightarrow> nat" where
  "tolower c = (if 65 \<le> code c \<and> code c \<le> 90 then code c + 32 else code c)"

definition strcaseeq :: "string \<Rightarrow> string \<Rightarrow> bool" where
  "strcaseeq a b \<longleftrightarrow> map tolower a = map tolower b"

definition isspace :: "char \<Rightarrow> bool" where
  "isspace c \<longleftrightarrow> code c = 32 \<or> 9 \<le> code c \<and> code c \<le> 13"

definition digit_value :: "char \<Rightarrow> nat" where
  "digit_value c =
    (if 48 \<le> code c \<and> code c \<le> 57 then code c - 48
     else if 97 \<le> tolower c \<and> tolower c \<le> 122 then tolower c - 87 else 36)"

definition strtoul_base :: "string \<Rightarrow> nat \<times> string" where
  "strtoul_base str =
    (case str of c # x # d # r \<Rightarrow> if c = CHR ''0'' \<and> tolower x = 120 \<and> digit_value d < 16 then (16, d # r)
        else if c = CHR ''0'' then (8, str) else (10, str)
     | c # r \<Rightarrow> if c = CHR ''0'' then (8, str) else (10, str)
     | [] \<Rightarrow> (10, str))"

definition strtoul :: "string \<Rightarrow> u64" where
  "strtoul str =
    (let str = dropWhile isspace str;
         neg = (str \<noteq> [] \<and> hd str = CHR ''-'');
         str = (if str \<noteq> [] \<and> (hd str = CHR ''-'' \<or> hd str = CHR ''+'') then tl str else str);
         (base, ds) = strtoul_base str;
         n = foldl (\<lambda>a c. base * a + digit_value c) 0 (takeWhile (\<lambda>c. digit_value c < base) ds)
     in if n \<ge> 2 ^ 64 then - 1 else if neg then - of_nat n else of_nat n)"

text \<open>An unknown register ends the program with \<open>exit(-2)\<close> (\<open>None\<close>).\<close>

definition addrdecode :: "string \<Rightarrow> u32 option" where
  "addrdecode v =
    (if v \<noteq> [] \<and> isalpha (hd v) then map_option fst (find (\<lambda>(a, nm). strcaseeq v nm) bregs)
     else Some (ucast (strtoul v)))"

definition addrname :: "u32 \<Rightarrow> string option" where
  "addrname v = map_option snd (find (\<lambda>(a, nm). a = v) bregs)"

section \<open>One register (wbregs.cpp)\<close>

text \<open>The loop that moves the arguments that are not options to the front.\<close>

primrec drop_options :: "string list \<Rightarrow> string list" where
  "drop_options [] = []"
| "drop_options (a # as) = (if a \<noteq> [] \<and> hd a = CHR ''-'' then drop_options as else a # drop_options as)"

definition isgraph :: "u32 \<Rightarrow> bool" where
  "isgraph c \<longleftrightarrow> 0x21 \<le> c \<and> c \<le> 0x7e"

definition graph_char :: "u32 \<Rightarrow> char" where
  "graph_char c = (if isgraph c then char_of (unat c) else CHR ''.'')"

definition fmt_8s :: "string \<Rightarrow> string" where
  "fmt_8s str = replicate (8 - length str) CHR '' '' @ str"

definition shown_name :: "u32 \<Rightarrow> string" where
  "shown_name address = (case addrname address of None \<Rightarrow> ''no name'' | Some nm \<Rightarrow> nm)"

text \<open>The bus that the program opens: \<open>FPGA\<close> is one of the two of the host, so its operations are a parameter.\<close>

record 'b fpga =
  fpga_open :: "'b depp_stop + 'b"
  fpga_readio :: "u32 \<Rightarrow> 'b \<Rightarrow> 'b depp_stop + u32 \<times> 'b"
  fpga_writeio :: "u32 \<Rightarrow> u32 \<Rightarrow> 'b \<Rightarrow> 'b depp_stop + 'b"
  fpga_poll :: "'b \<Rightarrow> bool \<times> 'b"
  fpga_close :: "'b \<Rightarrow> 'b"

datatype 'b host_stop = Exit_status int | Stopped "'b depp_stop"

text \<open>A read, whose bus error is caught; a write, whose bus error is not.\<close>

definition wb_read :: "'b fpga \<Rightarrow> u32 \<Rightarrow> 'b \<Rightarrow> 'b host_stop + string \<times> 'b" where
  "wb_read bus address b =
    (case fpga_readio bus address b of
       Inr (v, b1) \<Rightarrow>
         (let x = drop_bit 24 v AND 0x0ff; y = drop_bit 16 v AND 0x0ff; z = drop_bit 8 v AND 0x0ff; w = v AND 0x0ff
          in Inr (fmt_08x address @ '' ('' @ fmt_8s (shown_name address) @ '') : ['' @
               [graph_char x, graph_char y, graph_char z, graph_char w] @ ''] '' @ fmt_08x v @ newline, b1))
     | Inl (Bus_error a b1) \<Rightarrow> Inr (fmt_08x address @ '' ('' @ fmt_8s (shown_name address) @ '') : BUS-ERROR'' @ newline, b1)
     | Inl e \<Rightarrow> Inl (Stopped e))"

definition wb_write :: "'b fpga \<Rightarrow> u32 \<Rightarrow> u32 \<Rightarrow> 'b \<Rightarrow> 'b host_stop + string \<times> 'b" where
  "wb_write bus address value b =
    (case fpga_writeio bus address value b of
       Inl e \<Rightarrow> Inl (Stopped e)
     | Inr b1 \<Rightarrow> Inr (fmt_08x address @ '' ('' @ fmt_8s (shown_name address) @ '')-> '' @ fmt_08x value @ newline, b1))"

definition wbregs :: "'b fpga \<Rightarrow> string list \<Rightarrow> 'b host_stop + string \<times> 'b" where
  "wbregs bus argv =
    (case drop_options (tl argv) of
       a # as \<Rightarrow>
         (if length as > 1 then Inl (Exit_status (- 1))
          else case addrdecode a of None \<Rightarrow> Inl (Exit_status (- 2))
           | Some address \<Rightarrow>
              andthen (case fpga_open bus of Inl e \<Rightarrow> Inl (Stopped e) | Inr b \<Rightarrow> Inr b) (\<lambda>b.
              andthen (case as of [] \<Rightarrow> wb_read bus address b | v # _ \<Rightarrow> wb_write bus address (ucast (strtoul v)) b) (\<lambda>(out, b1).
                let (r, b2) = fpga_poll bus b1
                in Inr (out @ (if r then ''FPGA was interrupted'' @ newline else ''''), fpga_close bus b2))))
     | [] \<Rightarrow> Inl (Exit_status (- 1)))"

definition depp_fpga :: "adept \<Rightarrow> deppbus fpga" where
  "depp_fpga env = \<lparr>fpga_open = deppbus_new env '''', fpga_readio = deppbus_readio env, fpga_writeio = deppbus_writeio env,
    fpga_poll = deppbus_poll env, fpga_close = deppbus_close\<rparr>"

section \<open>The flash to a file (readflash.cpp)\<close>

text \<open>
  The blocks of 2048 words, until a bus error; \<open>buf\<close> is the buffer, whose contents are arbitrary at first.
\<close>

primrec rf_blocks :: "(u32 \<Rightarrow> nat \<Rightarrow> 'b \<Rightarrow> 'b depp_stop + u32 list \<times> 'b) \<Rightarrow> nat list \<Rightarrow> u32 list \<Rightarrow> 'b \<Rightarrow> 'b depp_stop + u32 list \<times> 'b" where
  "rf_blocks readi [] buf b = Inr (buf, b)"
| "rf_blocks readi (i # is) buf b =
    (case readi (SPIFLASH + of_nat i) 2048 b of
       Inr (vs, b1) \<Rightarrow> rf_blocks readi is (take i buf @ vs @ drop (i + 2048) buf) b1
     | Inl (Bus_error a b1) \<Rightarrow> Inr (buf, b1)
     | Inl e \<Rightarrow> Inl e)"

primrec rf_size :: "u32 list \<Rightarrow> nat \<Rightarrow> nat" where
  "rf_size buf 0 = 0"
| "rf_size buf (Suc n) = (if buf ! Suc n = 0xffffffff then rf_size buf n else Suc n)"

text \<open>The words of the file.\<close>

definition readflash :: "(u32 \<Rightarrow> nat \<Rightarrow> 'b \<Rightarrow> 'b depp_stop + u32 list \<times> 'b) \<Rightarrow> u32 list \<Rightarrow> 'b \<Rightarrow> 'b depp_stop + u32 list \<times> 'b" where
  "readflash readi buf b =
    andthen (rf_blocks readi (map (\<lambda>k. 2048 * k) [0..<FLASHWORDS div 2048]) buf b) (\<lambda>(buf1, b1).
      Inr (take (rf_size buf1 (FLASHWORDS - 1) + 1) buf1, b1))"

section \<open>The scope on the flash controller (xpflashscop.cpp)\<close>

definition xp_traces :: "(string \<times> u32 \<times> u32) list" where
  "xp_traces = [(''wb_cyc'', 1, 31), (''wb_stb'', 1, 30), (''flash_sel'', 1, 29), (''flctl_sel'', 1, 28), (''flash_ack'', 1, 27),
    (''flash_stall'', 1, 26), (''qspi_cs_n'', 1, 25), (''qspi_sck'', 2, 23), (''qspi_mod'', 2, 21), (''o_qspi_dat'', 4, 16),
    (''i_qspi_dat'', 4, 12), (''flash_data'', 12, 0)]"

definition fmt_ws :: "nat \<Rightarrow> string \<Rightarrow> string" where
  "fmt_ws w str = replicate (w - length str) CHR '' '' @ str"

definition fmt_x1 :: "u32 \<Rightarrow> string" where "fmt_x1 v = [fmt_digit (unat (v AND 0x0f))]"

definition xp_decode :: "u32 \<Rightarrow> string" where
  "xp_decode v =
    (let on = \<lambda>n str. if drop_bit n v AND 1 \<noteq> 0 then str else ''''
     in fmt_ws 3 (on 31 ''CYC'') @ fmt_ws 3 (on 30 ''STB'') @ '' '' @ fmt_ws 3 (on 29 ''SEL'') @ fmt_ws 3 (on 28 ''CTL'') @ '' '' @
        fmt_ws 3 (on 27 ''ACK'') @ fmt_ws 5 (on 26 ''STALL'') @
        ''  '' @ fmt_ws 2 (if drop_bit 25 v AND 1 \<noteq> 0 then '''' else ''CS'') @ ''['' @ fmt_d (uint (drop_bit 24 v AND 1)) @
        fmt_d (uint (drop_bit 23 v AND 1)) @ '','' @ fmt_d (uint (drop_bit 21 v AND 3)) @ ''] '' @
        fmt_x1 (drop_bit 16 v AND 0xf) @ ''->'' @ fmt_x1 (drop_bit 12 v AND 0xf) @ '' '' @
        map (\<lambda>i. fmt_digit (unat (drop_bit (8 - 4 * i) (v AND 0x0fff) AND 0x0f))) [0..<3])"

definition xp_new :: scope where
  "xp_new = register_all xp_traces (scope_new R_SCOPE False True)"

text \<open>What is printed, and the trace file if one is written.\<close>

definition xpflashscop :: "('e, 'b) devbus \<Rightarrow> bool \<Rightarrow> string \<Rightarrow> 'b \<Rightarrow> 'e scope_stop + (string \<times> string option) \<times> 'b" where
  "xpflashscop bus opened date b =
    andthen (scope_ready bus xp_new b) (\<lambda>(r, s, b1).
      if r
      then andthen (scope_print bus xp_decode s b1) (\<lambda>(out, s1, b2).
        andthen (writevcd bus opened date s1 b2) (\<lambda>(vcd, s2, b3). Inr ((out, vcd), b3)))
      else andthen (decode_control bus s b1) (\<lambda>(out, b2). Inr ((out, None), b2)))"

section \<open>The names\<close>

lemma isalpha_tolower: "isalpha c \<longleftrightarrow> 97 \<le> tolower c \<and> tolower c \<le> 122"
  by (auto simp: isalpha_def tolower_def)

lemma strcaseeq_isalpha:
  assumes "strcaseeq a b" "b \<noteq> [] \<and> isalpha (hd b)"
  shows "a \<noteq> [] \<and> isalpha (hd a)"
  using assms by (cases a; cases b) (auto simp: strcaseeq_def isalpha_tolower)

lemma find_distinct: "distinct (map f xs) \<Longrightarrow> x \<in> set xs \<Longrightarrow> find (\<lambda>y. f x = f y) xs = Some x"
  by (induction xs) (auto, metis image_eqI)

text \<open>No two names are the same up to capitals.\<close>

lemma bregs_letters: "list_all (\<lambda>(a, nm). nm \<noteq> [] \<and> isalpha (hd nm)) bregs"
  by (simp add: bregs_def isalpha_def code_def)

lemma bregs_distinct: "distinct (map (\<lambda>(a, nm). map tolower nm) bregs)"
  by (simp add: bregs_def tolower_def code_def)

text \<open>A name of a register, in any mixture of capitals and small letters, is decoded to its address.\<close>

lemma addrdecode_name:
  assumes "(a, nm) \<in> set bregs" "strcaseeq v nm"
  shows "addrdecode v = Some a"
proof -
  have eq: "(\<lambda>(a, x). strcaseeq v x) = (\<lambda>y. (\<lambda>(a, x). map tolower x) (a, nm) = (\<lambda>(a, x). map tolower x) y)"
    using assms(2) by (auto simp: strcaseeq_def)
  have "find (\<lambda>(a, x). strcaseeq v x) bregs = Some (a, nm)"
    unfolding eq by (rule find_distinct [OF bregs_distinct assms(1)])
  moreover have "v \<noteq> [] \<and> isalpha (hd v)"
    using strcaseeq_isalpha [OF assms(2)] bregs_letters assms(1) by (auto simp: list_all_iff)
  ultimately show ?thesis
    by (simp add: addrdecode_def)
qed

lemma addrname_decodes:
  assumes "addrname a = Some nm"
  shows "addrdecode nm = Some a"
proof -
  have "(a, nm) \<in> set bregs"
    using assms by (auto simp: addrname_def find_Some_iff) (metis nth_mem)
  then show ?thesis
    using addrdecode_name [of a nm nm] by (simp add: strcaseeq_def)
qed

text \<open>The hexadecimal digits that are printed for a number.\<close>

lemma digit_value_fmt:
  assumes "n < 16"
  shows "digit_value (fmt_digit n) = n"
proof -
  have "code (fmt_digit n) = (if n < 10 then 48 + n else 87 + n)"
    using assms by (simp add: code_def fmt_digit_def)
  then show ?thesis
    using assms by (simp add: digit_value_def tolower_def)
qed

lemma fmt_08x_value:
  "foldl (\<lambda>a c. 16 * a + digit_value c) 0 (fmt_08x v) = unat v" "\<forall>c\<in>set (fmt_08x v). digit_value c < 16"
proof -
  have nib: "unat (drop_bit n v AND 0x0f) = unat v div 2 ^ n mod 16" for n
    using unat_and_mask_eq_mod [of "drop_bit n v" 4] by (simp add: mask_eq_exp_minus_1 unat_drop_bit_div)
  have less: "unat v div 2 ^ n mod 16 < 16" for n
    by simp
  show "\<forall>c\<in>set (fmt_08x v). digit_value c < 16"
    by (auto simp: fmt_08x_def nib digit_value_fmt)
  have top: "unat v div 2 ^ 28 mod 16 = unat v div 2 ^ 28"
    using unsigned_less [of v, where 'a = nat] by simp
  have step: "16 * (n div 2 ^ (k + 4)) + n div 2 ^ k mod 16 = n div 2 ^ k" for n k :: nat
    using div_mult2_eq [of n "2 ^ k" 16] mult_div_mod_eq [of 16 "n div 2 ^ k"] by (simp add: power_add)
  note steps = step [of _ 24, unfolded numeral_plus_numeral add_num_simps] step [of _ 20, unfolded numeral_plus_numeral add_num_simps]
    step [of _ 16, unfolded numeral_plus_numeral add_num_simps] step [of _ 12, unfolded numeral_plus_numeral add_num_simps]
    step [of _ 8, unfolded numeral_plus_numeral add_num_simps] step [of _ 4, unfolded numeral_plus_numeral add_num_simps]
    step [of _ 0, unfolded add_0]
  have "foldl (\<lambda>a c. 16 * a + digit_value c) 0 (fmt_08x v) = foldl (\<lambda>a i. 16 * a + unat v div 2 ^ i mod 16) 0 [28, 24, 20, 16, 12, 8, 4, 0]"
    by (simp add: fmt_08x_def nib digit_value_fmt upt_rec)
  also have "\<dots> = unat v div 2 ^ 0"
    unfolding foldl_Cons foldl_Nil mult_0_right add_0 top steps ..
  finally show "foldl (\<lambda>a c. 16 * a + digit_value c) 0 (fmt_08x v) = unat v"
    by simp
qed

lemma fmt_08x_Cons: "fmt_08x v = fmt_digit (unat (drop_bit 28 v AND 0x0f)) # tl (fmt_08x v)"
  by (simp add: fmt_08x_def upt_rec)

lemma strtoul_hex: "ucast (strtoul (''0x'' @ fmt_08x w)) = w"
proof -
  obtain d r where dr: "fmt_08x w = d # r"
    using fmt_08x_Cons by blast
  then have "digit_value d < 16"
    using fmt_08x_value(2) [of w] by simp
  then have base: "strtoul_base (''0x'' @ fmt_08x w) = (16, fmt_08x w)"
    by (simp add: strtoul_base_def dr tolower_def code_def)
  have all: "takeWhile (\<lambda>c. digit_value c < 16) (fmt_08x w) = fmt_08x w"
    using fmt_08x_value(2) [of w] by simp
  have "unat w < 2 ^ 64"
    using unsigned_less [of w, where 'a = nat] by simp
  then have "strtoul (''0x'' @ fmt_08x w) = of_nat (unat w)"
    using base fmt_08x_value(1) [of w] by (simp add: strtoul_def isspace_def code_def Let_def all)
  then have "strtoul (''0x'' @ fmt_08x w) = ucast w"
    by simp
  moreover have "ucast (ucast w :: u64) = w"
    by (rule bit_word_eqI) (simp add: bit_ucast_iff)
  ultimately show ?thesis
    by simp
qed

section \<open>A register over the DEPP bus\<close>

lemma new_depp:
  assumes "DmgrOpen env ''''" "DeppEnable env"
  shows "deppbus_new env '''' = Inr \<lparr>m_int = False, m_err = False, d_hist = [Enabled]\<rparr>"
  using assms by (simp add: deppbus_new_def)

lemma poll_ops: "bus_ops (d_hist (deppbus_close (snd (deppbus_poll env b)))) = bus_ops (d_hist b)"
  by (auto simp: deppbus_close_def deppbus_poll_def get_reg_def status_flags_def Let_def split: prod.split)

lemma options_kept: "a \<noteq> [] \<Longrightarrow> hd a \<noteq> CHR ''-'' \<Longrightarrow> drop_options (a # as) = a # drop_options as"
  by simp

section \<open>The blocks of the flash\<close>

definition block_reader :: "benv \<Rightarrow> u32 \<Rightarrow> nat \<Rightarrow> bhist \<Rightarrow> bhist depp_stop + u32 list \<times> bhist" where
  "block_reader env a n h = Inr (bus_readi env a n h)"

text \<open>Word \<open>j\<close> of block \<open>k\<close>, as the program fetches it: the address of the block is its index in words, not bytes.\<close>

definition fetched :: "bytes \<Rightarrow> u32 list \<Rightarrow> nat \<Rightarrow> bool" where
  "fetched m buf k \<longleftrightarrow> (\<forall>j < 2048. \<forall>c < 4. be_byte (buf ! (2048 * k + j)) c = m (0x1000000 + 2048 * k + 4 * j + c))"

lemma block_address: "k < 2048 \<Longrightarrow> unat (SPIFLASH + of_nat (2048 * k) :: u32) = 0x1000000 + 2048 * k"
proof -
  assume "k < 2048"
  then have "(SPIFLASH + of_nat (2048 * k) :: u32) = of_nat (0x1000000 + 2048 * k)" "0x1000000 + 2048 * k < 2 ^ 32"
    by simp_all
  then show ?thesis
    by (simp only: unsigned_of_nat) (simp add: take_bit_nat_eq_self)
qed

lemma rf_blocks_fetch:
  assumes dev: "flash_device m env"
  shows "n \<le> 2048 \<Longrightarrow> length buf = FLASHWORDS \<Longrightarrow> flash_mem m h = m \<Longrightarrow>
    \<exists>buf' h'. rf_blocks (block_reader env) (map (\<lambda>k. 2048 * k) [2048 - n..<2048]) buf h = Inr (buf', h') \<and> length buf' = FLASHWORDS \<and>
      (\<forall>i < 2048 * (2048 - n). buf' ! i = buf ! i) \<and> (\<forall>k. 2048 - n \<le> k \<and> k < 2048 \<longrightarrow> fetched m buf' k)"
proof (induction n arbitrary: buf h)
  case (Suc n)
  define k where "k = 2048 - Suc n"
  have k: "k < 2048" "2048 - n = Suc k" "[2048 - Suc n..<2048] = k # [Suc k..<2048]"
    using Suc.prems(1) by (simp_all add: k_def upt_conv_Cons)
  obtain vs h1 where read: "bus_readi env (SPIFLASH + of_nat (2048 * k)) 2048 h = (vs, h1)"
    by fastforce
  define buf1 where "buf1 = take (2048 * k) buf @ vs @ drop (2048 * k + 2048) buf"
  have vs: "length vs = 2048"
    using read by (auto simp: bus_readi_def Let_def)
  have len: "length buf1 = FLASHWORDS" "2048 * k + 2048 \<le> FLASHWORDS"
    using Suc.prems(2) vs k(1) by (auto simp: buf1_def)
  have h1: "flash_mem m h1 = m"
    using flash_mem_simps(3) [of m env "SPIFLASH + of_nat (2048 * k)" 2048 h] Suc.prems(3) unfolding read snd_conv by simp
  have block: "buf1 ! (2048 * k + j) = vs ! j" if "j < 2048" for j
    using that vs Suc.prems(2) len(2) by (simp add: buf1_def nth_append min_def)
  have now: "fetched m buf1 k"
    unfolding fetched_def
  proof (intro allI impI)
    fix j c :: nat assume j: "j < 2048" "c < 4"
    have "be_byte (vs ! ((4 * j + c) div 4)) ((4 * j + c) mod 4) = flash_mem m h (unat (SPIFLASH + of_nat (2048 * k) :: u32) + (4 * j + c))"
      using device_reads [OF dev, of "4 * j + c" 2048 "SPIFLASH + of_nat (2048 * k)" h] j unfolding read fst_conv by simp
    moreover have "(4 * j + c) div 4 = j" "(4 * j + c) mod 4 = c"
      using j by simp_all
    ultimately show "be_byte (buf1 ! (2048 * k + j)) c = m (0x1000000 + 2048 * k + 4 * j + c)"
      using block [OF j(1)] unfolding block_address [OF k(1)] Suc.prems(3) by (simp add: add.assoc)
  qed
  obtain buf' h' where rest: "rf_blocks (block_reader env) (map (\<lambda>k. 2048 * k) [2048 - n..<2048]) buf1 h1 = Inr (buf', h')"
    "length buf' = FLASHWORDS" "\<forall>i < 2048 * (2048 - n). buf' ! i = buf1 ! i" "\<forall>k. 2048 - n \<le> k \<and> k < 2048 \<longrightarrow> fetched m buf' k"
    using Suc.IH [OF _ len(1) h1] Suc.prems(1) by auto
  have "rf_blocks (block_reader env) (map (\<lambda>k. 2048 * k) [2048 - Suc n..<2048]) buf h = Inr (buf', h')"
    using rest(1) unfolding k(2,3) list.map rf_blocks.simps block_reader_def read buf1_def by simp
  moreover have "buf' ! i = buf ! i" if "i < 2048 * k" for i
    using that rest(3) k(2) Suc.prems(2) len(2) by (simp add: buf1_def nth_append)
  moreover have "fetched m buf' k"
    using now rest(3) unfolding fetched_def k(2) by simp
  then have "\<forall>k'. k \<le> k' \<and> k' < 2048 \<longrightarrow> fetched m buf' k'"
    using rest(4) unfolding k(2) by (metis Suc_leI le_neq_implies_less)
  ultimately show ?case
    using rest(2) unfolding k_def [symmetric] by blast
qed auto

lemma rf_size_less: "rf_size buf n \<le> n"
  by (induction n) auto

section \<open>The scope on the flash controller, over the DEPP bus\<close>

lemma xp_new_fields:
  "m_addr xp_new = R_SCOPE" "m_data xp_new = None" "m_scoplen xp_new = 0" "m_compressed xp_new = False"
  "m_traces xp_new = map (\<lambda>i. info_of i (xp_traces ! i)) [0..<length xp_traces]"
  using register_all_traces [of "scope_new R_SCOPE False True" xp_traces] by (simp_all add: xp_new_def scope_new_def)

lemma xp_fields_ok: "fields_ok xp_traces"
  by (simp add: fields_ok_def xp_traces_def)

text \<open>If the scope is ready, the whole program writes a trace file whose twelve signals are the fields of every sample.\<close>

lemma xpflashscop_reads_back:
  assumes slave: "depp_slave env rd" and hw: "scope_behind rd R_SCOPE ctrl mem"
    and b: "\<not> m_err b" "data_reads R_SCOPE (bus_ops (d_hist b)) = 0"
    and lg: "unat (drop_bit 20 ctrl AND 0x1f) = lg" "2 < lg" "lg < 28" and ready: "drop_bit 28 ctrl AND 6 = 6"
  shows "\<exists>out header body b'. xpflashscop (depp_devbus env) True date b = Inr ((out, Some (header @ body)), b') \<and>
    (\<forall>k < 12. vcd_read (trace_key k) 0 (split_lines body) = map (\<lambda>i. (10 * i, field (xp_traces ! k) (mem i))) [0..<2 ^ lg])"
proof -
  let ?d = "map mem [0..<2 ^ lg]"
  obtain b1 where b1: "deppbus_readio env R_SCOPE b = Inr (ctrl, b1)" "\<not> m_err b1"
    "bus_ops (d_hist b1) = Bus_read R_SCOPE # bus_ops (d_hist b)"
    using deppbus_read_one [OF slave b(1), of R_SCOPE] hw unfolding scope_behind_def by auto
  define s1 where "s1 = xp_new\<lparr>m_scoplen := 2 ^ lg\<rparr>"
  define s2 where "s2 = s1\<lparr>m_data := Some ?d\<rparr>"
  have ready': "scope_ready (depp_devbus env) xp_new b = Inr (True, s1, b1)"
    using b1(1) ready lg(1) by (simp add: scope_ready_def xp_new_fields depp_devbus_def on_bus_def s1_def push_bit_eq_mult)
  have "m_addr s1 = R_SCOPE" "m_data s1 = None" "m_scoplen s1 = 2 ^ lg"
    by (simp_all add: s1_def xp_new_fields)
  then obtain b2 where raw: "scope_rawread (depp_devbus env) s1 b1 = Inr ('''', s2, b2)"
    using depp_rawread [OF slave, of s1 ctrl mem b1 lg] hw b1(2) data_reads_control [of R_SCOPE "bus_ops (d_hist b)"] b(2) lg
    unfolding s2_def by (auto simp: b1(3) s1_def)
  have "nat (sint (2 ^ lg :: u32)) = 2 ^ lg"
    using lg by (simp add: sint_pow2 nat_power_eq)
  then have samples: "samples s2 = (Inr ?d :: deppbus depp_stop scope_stop + u32 list)"
    by (simp add: samples_def s1_def s2_def)
  have "xpflashscop (depp_devbus env) True date b =
    Inr ((print_plain xp_decode ?d, Some (trace_header date s2 @ trace_body s2 ?d)), b2)"
    using ready' raw samples
    by (simp add: xpflashscop_def scope_print_def writevcd_def) (simp add: s2_def s1_def xp_new_fields)
  moreover have "\<forall>k < 12. vcd_read (trace_key k) 0 (split_lines (trace_body s2 ?d)) = map (\<lambda>i. (10 * i, field (xp_traces ! k) (mem i))) [0..<2 ^ lg]"
  proof -
    have "m_traces s2 = map (\<lambda>i. info_of i (xp_traces ! i)) [0..<length xp_traces]"
      by (simp add: s1_def s2_def xp_new_fields)
    moreover have "length ?d \<le> 2 ^ 27"
      using power_increasing [of lg 27 "2 :: nat"] lg by simp
    moreover have "length xp_traces = 12"
      by (simp add: xp_traces_def)
    ultimately show ?thesis
      using body_reads_back(1) [OF xp_fields_ok, of s2 ?d] by auto
  qed
  ultimately show ?thesis
    by blast
qed

section \<open>Properties\<close>

text \<open>
  C34. \<open>wbregs\<close> reaches the register it is told, over the DEPP bus of a board that answers as documented: with the name of a register,
  in any spelling, the bus is read once, at the address of the register, and the answer is printed; with a value in hexadecimal after
  the name, the bus is written once, at that address, with that value.
\<close>

theorem wbregs_reaches_register:
  assumes "depp_slave env rd" "DmgrOpen env ''''" "DeppEnable env" "(a, nm) \<in> set bregs" "strcaseeq r nm"
  shows "(\<exists>chars i b. wbregs (depp_fpga env) [prog, r] =
      Inr (fmt_08x a @ '' ('' @ fmt_8s (shown_name a) @ '') : ['' @ chars @ ''] '' @ fmt_08x (rd [] a) @ newline @ i, b) \<and>
      length chars = 4 \<and> bus_ops (d_hist b) = [Bus_read a]) \<and>
    (\<exists>i b. wbregs (depp_fpga env) [prog, r, ''0x'' @ fmt_08x w] =
      Inr (fmt_08x a @ '' ('' @ fmt_8s (shown_name a) @ '')-> '' @ fmt_08x w @ newline @ i, b) \<and> bus_ops (d_hist b) = [Bus_write a w])"
proof -
  let ?b = "\<lparr>m_int = False, m_err = False, d_hist = [Enabled]\<rparr>"
  have "nm \<noteq> [] \<and> isalpha (hd nm)"
    using assms(4) bregs_letters by (auto simp: list_all_iff)
  from strcaseeq_isalpha [OF assms(5) this] have r: "r \<noteq> []" "hd r \<noteq> CHR ''-''"
    by (auto simp: isalpha_def code_def)
  note addr = addrdecode_name [OF assms(4,5)]
  note new = new_depp [OF assms(2,3)]
  obtain b1 where b1: "deppbus_readio env a ?b = Inr (rd [] a, b1)" "bus_ops (d_hist b1) = [Bus_read a]"
    using deppbus_read_one [OF assms(1), of ?b a] by auto
  obtain b2 where b2: "deppbus_writeio env a w ?b = Inr b2" "bus_ops (d_hist b2) = [Bus_write a w]"
    using deppbus_write_one [OF assms(1), of ?b a w] by auto
  define chars where "chars = [graph_char (drop_bit 24 (rd [] a) AND 0x0ff), graph_char (drop_bit 16 (rd [] a) AND 0x0ff),
    graph_char (drop_bit 8 (rd [] a) AND 0x0ff), graph_char (rd [] a AND 0x0ff)]"
  define i where "i b = (if fst (deppbus_poll env b) then ''FPGA was interrupted'' @ newline else '''')" for b
  have "wbregs (depp_fpga env) [prog, r] = Inr (fmt_08x a @ '' ('' @ fmt_8s (shown_name a) @ '') : ['' @ chars @ ''] '' @ fmt_08x (rd [] a) @ newline @ i b1,
      deppbus_close (snd (deppbus_poll env b1)))"
    using r by (simp add: wbregs_def addr new wb_read_def depp_fpga_def b1(1) Let_def chars_def i_def split: prod.split)
  moreover have "wbregs (depp_fpga env) [prog, r, ''0x'' @ fmt_08x w] = Inr (fmt_08x a @ '' ('' @ fmt_8s (shown_name a) @ '')-> '' @ fmt_08x w @ newline @ i b2,
      deppbus_close (snd (deppbus_poll env b2)))"
    using r strtoul_hex [of w] by (simp add: wbregs_def addr new wb_write_def depp_fpga_def b2(1) i_def split: prod.split)
  moreover have "length chars = 4"
    by (simp add: chars_def)
  ultimately show ?thesis
    using poll_ops [of env b1] poll_ops [of env b2] b1(2) b2(2) by auto
qed


section \<open>Witnesses\<close>

theorem wbregs_reaches_register_witness:
  "\<exists>i b. wbregs (depp_fpga scope_adept) [''wbregs'', ''scope'', ''0x'' @ fmt_08x 5] =
    Inr (fmt_08x 0x800 @ '' ('' @ fmt_8s (shown_name 0x800) @ '')-> '' @ fmt_08x 5 @ newline @ i, b) \<and> bus_ops (d_hist b) = [Bus_write 0x800 5]"
proof -
  have "DmgrOpen scope_adept ''''" "DeppEnable scope_adept"
    by (simp_all add: scope_adept_def demo_adept_def)
  moreover have "(0x800, ''SCOPE'') \<in> set bregs"
    by (simp add: bregs_def)
  moreover have "strcaseeq ''scope'' ''SCOPE''"
    by (simp add: strcaseeq_def tolower_def code_def)
  ultimately show ?thesis
    using wbregs_reaches_register [OF scope_adept_slave, of "0x800" "''SCOPE''" "''scope''" "''wbregs''" 5] by blast
qed

text \<open>A flash in which every byte holds the low bits of its address.\<close>

definition address_bus :: benv where
  "address_bus h q i = (case q of QReadi a \<Rightarrow> demo_read (flash_mem of_nat h) (unat a + 4 * i) | _ \<Rightarrow> 0)"

lemma address_bus: "flash_device of_nat address_bus"
  by (auto simp: flash_device_def address_bus_def demo_read_def be_byte_buildword)


end
