(* ===== verification/Bell2.thy ===== *)
theory Bell2
  imports Drivers Rtc Buffers
begin

text \<open>
  The second stand-alone doorbell program, sw/dev/doorbell2.c: a clock on the display and the serial port, and the sound when the
  button is pressed.

  The two message arrays are lists of bytes whose contents are arbitrary at first, and the pointers into them indices; an access
  outside an array gives \<open>None\<close>, as does a loop that never ends. The samples are the parameter \<open>smp\<close>.
\<close>

section \<open>Messages\<close>

abbreviation (input) WBSCOPE_STOPPED :: u32 where "WBSCOPE_STOPPED \<equiv> 0x40000000"

definition WBSCOPE_LENGTH :: "u32 \<Rightarrow> u32" where
  "WBSCOPE_LENGTH a = push_bit (unat (drop_bit 20 a AND 0x01f)) 1"

definition bget :: "nat \<Rightarrow> u8 list \<Rightarrow> u8 option" where
  "bget i buf = (if i < length buf then Some (buf ! i) else None)"

definition time_digit :: "u32 \<Rightarrow> nat \<Rightarrow> u8" where
  "time_digit clk n = ucast ((drop_bit n clk AND 0x0f) + 48)"

text \<open>The first digit is put into its place with \<open>|=\<close>, where the end of the string is.\<close>

definition build_dpymsg :: "u32 \<Rightarrow> u8 list \<Rightarrow> u8 list option" where
  "build_dpymsg clk msg = do {
    msg \<leftarrow> bset 0 0x1b msg;
    msg \<leftarrow> bstrcpy 1 (cstring ''[jClock : '') msg;
    n \<leftarrow> bstrlen 1 msg;
    let i = 1 + n;
    c \<leftarrow> bget i msg;
    msg \<leftarrow> bset i (c OR (if drop_bit 20 clk AND 0x0f \<noteq> 0 then time_digit clk 20 else 32)) msg;
    msg \<leftarrow> bset (i + 1) (time_digit clk 16) msg;
    msg \<leftarrow> bset (i + 2) 58 msg;
    msg \<leftarrow> bset (i + 3) (time_digit clk 12) msg;
    msg \<leftarrow> bset (i + 4) (time_digit clk 8) msg;
    msg \<leftarrow> bset (i + 5) 58 msg;
    msg \<leftarrow> bset (i + 6) (time_digit clk 4) msg;
    msg \<leftarrow> bset (i + 7) (time_digit clk 0) msg;
    bset (i + 8) 0 msg
  }"

definition build_uartmsg :: "u32 \<Rightarrow> u8 list \<Rightarrow> u8 list option" where
  "build_uartmsg clk msg = do {
    msg \<leftarrow> bstrcpy 0 (cstring ''Time: '') msg;
    i \<leftarrow> bstrlen 0 msg;
    msg \<leftarrow> bset i (ucast ((drop_bit 20 clk AND 0x03) + 48)) msg;
    msg \<leftarrow> bset (i + 1) (time_digit clk 16) msg;
    msg \<leftarrow> bset (i + 2) 58 msg;
    msg \<leftarrow> bset (i + 3) (time_digit clk 12) msg;
    msg \<leftarrow> bset (i + 4) (time_digit clk 8) msg;
    msg \<leftarrow> bset (i + 5) 13 msg;
    msg \<leftarrow> bset (i + 6) 10 msg;
    msg \<leftarrow> bset (i + 7) 0 msg;
    bset (i + 8) 0 msg
  }"

definition showval :: "u32 \<Rightarrow> hist \<Rightarrow> hist" where
  "showval val h =
    fold (\<lambda>i. dispchar (hexch val i)) [28, 24, 20, 16, 12, 8, 4, 0] (dispchar 106 (dispchar 91 (dispchar 0x1b h)))"

section \<open>The program\<close>

record bell2 =
  dpymsg :: "u8 list"
  dpyptr :: nat
  uartmsg :: "u8 list"
  uartptr :: nat
  newmsgtime :: u32
  leastmsgtime :: u32
  lstmsgtime :: u32
  rtcclock :: u32
  b_hist :: hist

definition io_write :: "ioreg \<Rightarrow> u32 \<Rightarrow> bell2 \<Rightarrow> bell2" where
  "io_write r v s = s\<lparr>b_hist := wr r v (b_hist s)\<rparr>"

definition io_read :: "env \<Rightarrow> ioreg \<Rightarrow> bell2 \<Rightarrow> u32 \<times> bell2" where
  "io_read env r s = (let (v, h) = rd env r (b_hist s) in (v, s\<lparr>b_hist := h\<rparr>))"

definition touch_watchdog :: "bell2 \<Rightarrow> bell2" where
  "touch_watchdog = io_write IO_WATCHDOG 500000"

text \<open>The samples of the scope, if it has stopped.\<close>

primrec scope_dump :: "env \<Rightarrow> nat \<Rightarrow> hist \<Rightarrow> hist option" where
  "scope_dump env 0 h = Some h"
| "scope_dump env (Suc n) h = do { let (v, h1) = rd env SCOPE_DATA h; h2 \<leftarrow> txval env v h1; scope_dump env n h2 }"

definition bell2_scope :: "env \<Rightarrow> hist \<Rightarrow> hist option" where
  "bell2_scope env h = do {
    h1 \<leftarrow> txstr env (cstring ([CHR 0x0D, CHR 0x0A] @ ''REBOOT!'' @ [CHR 0x0D, CHR 0x0A])) h;
    h2 \<leftarrow> txstr env (cstring ''Scope Control = '') h1;
    let (v, h3) = rd env SCOPE_CTRL h2;
    h4 \<leftarrow> txval env v h3;
    let (c, h5) = rd env SCOPE_CTRL h4;
    if c AND WBSCOPE_STOPPED \<noteq> 0
    then do {
      let (l, h6) = rd env SCOPE_CTRL h5;
      h7 \<leftarrow> scope_dump env (nat (sint (WBSCOPE_LENGTH l))) h6;
      let (e, h8) = rd env IO_BUSERR h7;
      h9 \<leftarrow> txval env e h8;
      txstr env (cstring ([CHR 0x0D, CHR 0x0A, CHR 0x0D, CHR 0x0A] @ ''EndScope'' @ [CHR 0x0D, CHR 0x0A])) h9
    }
    else do { h6 \<leftarrow> txstr env (cstring [CHR 0x0D, CHR 0x0A]) h5; Some (wr SCOPE_CTRL 20 h6) }
  }"

definition bell2_start :: "env \<Rightarrow> u8 list \<Rightarrow> u8 list \<Rightarrow> u32 \<Rightarrow> hist \<Rightarrow> bell2 option" where
  "bell2_start env stk1 stk2 clock h = do {
    h1 \<leftarrow> bell2_scope env (wr IO_WATCHDOG 0 h);
    dpy \<leftarrow> bset 0 0 stk1;
    uart \<leftarrow> bset 0 0 stk2;
    uart \<leftarrow> build_uartmsg 0 uart;
    let (t, h2) = rd env IO_TIMER (wr IO_SPIO 0x0f4 (wr IO_PIC INT_CLEARPIC (wr IO_WATCHDOG 0 h1)));
    Some \<lparr>dpymsg = dpy, dpyptr = 0, uartmsg = uart, uartptr = 0, newmsgtime = t, leastmsgtime = - 1, lstmsgtime = t,
      rtcclock = clock, b_hist = h2\<rparr>
  }"

text \<open>The top of a second: the clock, a new display message once the last is out, a new line at the top of a minute.\<close>

definition bell2_second :: "env \<Rightarrow> bell2 \<Rightarrow> bell2 option" where
  "bell2_second env s = do {
    let s = io_write IO_PIC INT_TIMER s;
    let s = io_write IO_SPIO 0x0f0 (s\<lparr>rtcclock := rtcnext (rtcclock s)\<rparr>);
    d \<leftarrow> bget (dpyptr s) (dpymsg s);
    s \<leftarrow> (if d = 0
      then do { m \<leftarrow> build_dpymsg (rtcclock s) (dpymsg s); Some (s\<lparr>dpymsg := m, dpyptr := 0\<rparr>) }
      else Some s);
    if rtcclock s AND 0x0ff = 0
    then do {
      u \<leftarrow> bget (uartptr s) (uartmsg s);
      if u = 0
      then do {
        m \<leftarrow> build_uartmsg (rtcclock s) (uartmsg s);
        let (t, s) = io_read env IO_TIMER (io_write IO_SPIO 0x0f1 (s\<lparr>uartmsg := m, uartptr := 0\<rparr>));
        Some (s\<lparr>newmsgtime := t, lstmsgtime := - 1, leastmsgtime := - 1\<rparr>)
      }
      else Some s
    }
    else Some s
  }"

definition bell2_uart :: "env \<Rightarrow> u32 \<Rightarrow> bell2 \<Rightarrow> bell2 option" where
  "bell2_uart env pic s = do {
    u \<leftarrow> bget (uartptr s) (uartmsg s);
    Some (if u \<noteq> 0
      then if pic AND INT_UARTTX \<noteq> 0
        then (let s = io_write IO_PIC INT_UARTTX (io_write IO_SPIO 0x22 (io_write IO_UART (ucast u) (s\<lparr>uartptr := uartptr s + 1\<rparr>)));
                  s = (if lstmsgtime s \<noteq> - 1
                    then let (t, s) = io_read env IO_TIMER s; tmp = lstmsgtime s - t
                         in if leastmsgtime s <s 0 \<or> tmp <s leastmsgtime s then s\<lparr>leastmsgtime := tmp\<rparr> else s
                    else s);
                  (t, s) = io_read env IO_TIMER s
              in s\<lparr>lstmsgtime := t\<rparr>)
        else s
      else io_write IO_SPIO 0x20 s)
  }"

text \<open>One character to the display; the LEDs are set to \<open>led\<close> after it.\<close>

definition bell2_disp :: "u32 \<Rightarrow> bell2 \<Rightarrow> bell2 option" where
  "bell2_disp led s = do {
    d \<leftarrow> bget (dpyptr s) (dpymsg s);
    Some (if d \<noteq> 0
      then io_write IO_SPIO led (s\<lparr>dpyptr := dpyptr s + 1, b_hist := dispchar d (b_hist s)\<rparr>)
      else io_write IO_SPIO 0x40 s)
  }"

partial_function (option) bell2_wait :: "env \<Rightarrow> bell2 \<Rightarrow> bell2 option" where
  "bell2_wait env s =
    (let (pic, s) = io_read env IO_PIC s
     in if pic AND INT_BUTTON = 0
        then do {
          let s = touch_watchdog s;
          s \<leftarrow> (if pic AND INT_TIMER \<noteq> 0 then bell2_second env s else Some s);
          s \<leftarrow> bell2_uart env pic s;
          s \<leftarrow> bell2_disp 0x44 s;
          bell2_wait env s
        }
        else Some s)"

definition bell2_text :: "u8 list" where
  "bell2_text = cstring ([CHR 0x0D, CHR 0x0A] @ ''Doorbell!'' @ [CHR 0x0D, CHR 0x0A, CHR 0x0D, CHR 0x0A])"

text \<open>The messages of the doorbell: the text is put after what the line to the serial port already holds.\<close>

definition bell2_ring :: "bell2 \<Rightarrow> bell2 option" where
  "bell2_ring s = do {
    dpy \<leftarrow> bstrcpy 0 (cstring ''a[jDoorbell!'') (dpymsg s);
    dpy \<leftarrow> bset 0 0x1b dpy;
    uart \<leftarrow> bstrcat 0 bell2_text (uartmsg s);
    Some (s\<lparr>dpymsg := dpy, dpyptr := 0, uartmsg := uart, uartptr := 0\<rparr>)
  }"

definition bell2_play_step :: "env \<Rightarrow> u32 \<times> bell2 \<Rightarrow> (u32 \<times> u32 \<times> bell2) option" where
  "bell2_play_step env = (\<lambda>(seconds, s). do {
    let (pic, s) = io_read env IO_PIC (touch_watchdog s);
    let (seconds, s) = (if pic AND INT_TIMER \<noteq> 0
      then let s = io_write IO_PIC INT_TIMER s in (seconds + 1, s\<lparr>rtcclock := rtcnext (rtcclock s)\<rparr>)
      else (seconds, s));
    u \<leftarrow> bget (uartptr s) (uartmsg s);
    let s = (if pic AND INT_UARTTX \<noteq> 0 \<and> u \<noteq> 0
      then io_write IO_SPIO 0x22 (io_write IO_PIC INT_UARTTX (io_write IO_UART (ucast u) (s\<lparr>uartptr := uartptr s + 1\<rparr>)))
      else if u = 0 then io_write IO_SPIO 0x20 s else s);
    s \<leftarrow> bell2_disp 0x45 s;
    Some (pic, seconds, s)
  })"

partial_function (option) bell2_play_wait :: "env \<Rightarrow> u32 \<times> bell2 \<Rightarrow> (u32 \<times> bell2) option" where
  "bell2_play_wait env st = do {
    (pic, st1) \<leftarrow> bell2_play_step env st;
    if pic AND INT_AUDIO = 0 then bell2_play_wait env st1 else Some st1
  }"

fun bell2_play :: "env \<Rightarrow> u16 list \<Rightarrow> u32 \<times> bell2 \<Rightarrow> (u32 \<times> bell2) option" where
  "bell2_play env [] st = Some st"
| "bell2_play env (v # vs) st = do {
    (seconds, s) \<leftarrow> bell2_play_wait env st;
    bell2_play env vs (seconds, io_write IO_PIC INT_AUDIO (io_write IO_PWM_AUDIO (ucast v AND 0x0ffff) s))
  }"

partial_function (option) bell2_rest :: "env \<Rightarrow> u32 \<times> bell2 \<Rightarrow> bell2 option" where
  "bell2_rest env st = (case st of (seconds, s) \<Rightarrow>
    if seconds <s 30
    then let (pic, s) = io_read env IO_PIC (touch_watchdog s);
             (seconds, s) = (if pic AND INT_TIMER \<noteq> 0
               then let s = io_write IO_PIC INT_TIMER s in (seconds + 1, s\<lparr>rtcclock := rtcnext (rtcclock s)\<rparr>)
               else (seconds, s))
         in bell2_rest env (if pic AND INT_BUTTON \<noteq> 0 then (0, io_write IO_PIC INT_BUTTON s) else (seconds, s))
    else Some s)"

text \<open>A turn of the endless loop.\<close>

definition bell2_round :: "env \<Rightarrow> u16 list \<Rightarrow> bell2 \<Rightarrow> bell2 option" where
  "bell2_round env smp s = do {
    s \<leftarrow> bell2_wait env (io_write IO_TIMER (TM_ONE_SECOND OR TM_REPEAT) (io_write IO_PWM_AUDIO 0x0018000 (io_write IO_SPIO 0x0f0 s)));
    s \<leftarrow> bell2_ring (touch_watchdog s);
    (seconds, s) \<leftarrow> bell2_play env smp (0, io_write IO_PWM_AUDIO 0x0310000 (io_write IO_SPIO 0x0ff s));
    let s = touch_watchdog (io_write IO_SPIO 0x10 (io_write IO_PIC INT_BUTTON s));
    s \<leftarrow> bell2_rest env (seconds, io_write IO_PWM_AUDIO 0x018000 (io_write IO_SPIO 0x0f8 s));
    Some (touch_watchdog (io_write IO_PIC INT_BUTTON s))
  }"

section \<open>The messages in their arrays\<close>

lemma cstring_simps [simp]: "cstring [] = []" "cstring (c # cs) = of_char c # cstring cs"
  by (simp_all add: cstring_def)

definition uart_line :: "u32 \<Rightarrow> u8 list" where
  "uart_line clk = cstring ''Time: '' @
    [ucast ((drop_bit 20 clk AND 0x03) + 48), time_digit clk 16, 58, time_digit clk 12, time_digit clk 8, 13, 10]"

definition dpy_line :: "u32 \<Rightarrow> u8 list" where
  "dpy_line clk = 0x1b # cstring ''[jClock : '' @ [if drop_bit 20 clk AND 0x0f \<noteq> 0 then time_digit clk 20 else 32, time_digit clk 16, 58,
    time_digit clk 12, time_digit clk 8, 58, time_digit clk 4, time_digit clk 0]"

lemma two_pow_4: "(2 :: nat) ^ 4 = 16"
  by simp

lemma time_digit_nonzero: "time_digit clk n \<noteq> 0" "ucast ((drop_bit 20 clk AND 0x03) + 48 :: u32) \<noteq> (0 :: u8)"
proof -
  have "unat (ucast ((x AND mask k) + 48 :: u32) :: u8) = unat x mod 2 ^ k + 48" if "k \<le> 4" for x :: u32 and k
  proof -
    have m: "unat (x AND mask k) = unat x mod 2 ^ k"
      by (rule unat_and_mask_eq_mod)
    have "(2 :: nat) ^ k \<le> 2 ^ 4"
      using that by (intro power_increasing) auto
    moreover have "unat x mod 2 ^ k < 2 ^ k"
      by simp
    ultimately have small: "unat x mod 2 ^ k < 16"
      by (metis order_less_le_trans two_pow_4)
    then have "unat (x AND mask k) + unat (48 :: u32) < 2 ^ LENGTH(32)"
      unfolding m by simp
    then have "unat ((x AND mask k) + 48) = unat x mod 2 ^ k + 48"
      unfolding unat_add_lem unfolding m by simp
    then show ?thesis
      using small by (simp add: unat_to_u8)
  qed
  note this [of 4 "drop_bit n clk"] this [of 2 "drop_bit 20 clk"]
  then show "time_digit clk n \<noteq> 0" "ucast ((drop_bit 20 clk AND 0x03) + 48 :: u32) \<noteq> (0 :: u8)"
    unfolding time_digit_def by (auto simp: mask_eq_exp_minus_1)
qed

lemma build_uartmsg_line:
  assumes "15 \<le> length msg"
  shows "build_uartmsg clk msg = Some (uart_line clk @ 0 # 0 # drop 15 msg)"
proof -
  obtain y0 y1 y2 y3 y4 y5 y6 y7 y8 y9 y10 y11 y12 y13 y14 ys
    where "msg = y0 # y1 # y2 # y3 # y4 # y5 # y6 # y7 # y8 # y9 # y10 # y11 # y12 # y13 # y14 # ys"
    using assms by (auto simp: eval_nat_numeral Suc_le_length_iff)
  then show ?thesis
    by (simp add: build_uartmsg_def uart_line_def bstrcpy_def bput_def buf_write_def bstrlen_def bnul_def bset_def Let_def list_update_numeral)
qed

lemma build_dpymsg_line:
  assumes "20 \<le> length msg"
  shows "build_dpymsg clk msg = Some (dpy_line clk @ 0 # drop 20 msg)"
proof -
  obtain y0 y1 y2 y3 y4 y5 y6 y7 y8 y9 y10 y11 y12 y13 y14 y15 y16 y17 y18 y19 ys
    where "msg = y0 # y1 # y2 # y3 # y4 # y5 # y6 # y7 # y8 # y9 # y10 # y11 # y12 # y13 # y14 # y15 # y16 # y17 # y18 # y19 # ys"
    using assms by (auto simp: eval_nat_numeral Suc_le_length_iff)
  then show ?thesis
    by (simp add: build_dpymsg_def dpy_line_def bstrcpy_def bput_def buf_write_def bstrlen_def bnul_def bset_def bget_def Let_def list_update_numeral)
qed

text \<open>The text of the doorbell, once for each ring since the line was built.\<close>

fun rings :: "nat \<Rightarrow> u8 list \<Rightarrow> u8 list option" where
  "rings 0 buf = Some buf"
| "rings (Suc n) buf = Option.bind (rings n buf) (bstrcat 0 bell2_text)"

lemma bell2_text_bytes: "length bell2_text = 15" "0 \<notin> set bell2_text"
  by (simp_all add: bell2_text_def)

lemma uart_line: "length (uart_line clk) = 13" "0 \<notin> set (uart_line clk)"
  using time_digit_nonzero [of clk] by (simp_all add: uart_line_def eq_commute [of 0])

lemma rings_text:
  assumes "length s = 13" "0 \<notin> set s" "length buf = 160" "buf = s @ 0 # r"
  shows "n \<le> 9 \<Longrightarrow> \<exists>r. rings n buf = Some (s @ concat (replicate n bell2_text) @ 0 # r) \<and> 13 + 15 * n + 1 + length r = 160"
proof (induction n)
  case 0
  then show ?case
    using assms by auto
next
  case (Suc n)
  then obtain r where r: "rings n buf = Some ((s @ concat (replicate n bell2_text)) @ 0 # r)" "13 + 15 * n + 1 + length r = 160"
    by auto
  let ?t = "s @ concat (replicate n bell2_text)"
  have t: "length ?t = 13 + 15 * n" "0 \<notin> set ?t"
    using assms(1,2) bell2_text_bytes by (auto simp: length_concat sum_list_replicate)
  have "bnul 0 (?t @ 0 # r) = Some (length ?t)"
    using bnul_append [OF t(2)] by blast
  moreover have "length (bell2_text @ [0]) \<le> length (0 # r)"
    using r(2) Suc.prems bell2_text_bytes(1) by simp
  ultimately have "bstrcat 0 bell2_text (?t @ 0 # r) = Some (?t @ (bell2_text @ [0]) @ drop 15 r)"
    using bput_at [of "bell2_text @ [0]" "0 # r" ?t] bell2_text_bytes(1) by (simp add: bstrcat_def)
  then have "rings (Suc n) buf = Some (?t @ (bell2_text @ [0]) @ drop 15 r)"
    unfolding rings.simps r(1) bind.simps .
  moreover have "concat (replicate (Suc n) bell2_text) = concat (replicate n bell2_text) @ bell2_text"
    by (simp flip: replicate_append_same)
  ultimately show ?case
    using r(2) Suc.prems by (intro exI [of _ "drop 15 r"]) simp
qed

lemma rings_overflow:
  assumes "length s = 13" "0 \<notin> set s" "length buf = 160" "buf = s @ 0 # r"
  shows "rings 10 buf = None"
proof -
  obtain r where r: "rings 9 buf = Some ((s @ concat (replicate 9 bell2_text)) @ 0 # r)" "length r = 11"
    using rings_text [OF assms, of 9] by auto
  let ?t = "s @ concat (replicate 9 bell2_text)"
  have t: "length ?t = 148" "0 \<notin> set ?t"
    using assms(1,2) bell2_text_bytes by (auto simp: length_concat sum_list_replicate)
  have "bnul 0 (?t @ 0 # r) = Some (length ?t)"
    using bnul_append [OF t(2)] by blast
  then have "bstrcat 0 bell2_text (?t @ 0 # r) = None"
    using t(1) r(2) bell2_text_bytes(1) by (simp add: bstrcat_def bput_def)
  moreover have "rings 10 buf = Option.bind (rings 9 buf) (bstrcat 0 bell2_text)"
    using rings.simps(2) [of 9 buf] by simp
  ultimately show ?thesis
    unfolding r(1) by simp
qed

section \<open>The clock\<close>

text \<open>How many timer events a run has acknowledged.\<close>

definition ticks :: "hist \<Rightarrow> nat" where
  "ticks h = length (filter (\<lambda>v. v = INT_TIMER) (written IO_PIC h))"

lemma ticks_simps [simp]:
  "ticks (wr r v h) = (if r = IO_PIC \<and> v = INT_TIMER then Suc (ticks h) else ticks h)"
  "ticks (snd (rd env r h)) = ticks h"
  by (simp_all add: ticks_def)

lemma ticks_dispchar [simp]: "ticks (dispchar c h) = ticks h"
proof -
  have "ticks (dispbits n v h) = ticks h" for n v h
    by (induction n arbitrary: v h) (simp_all add: dispbit_def Let_def)
  then show ?thesis
    by (simp add: dispchar_def)
qed

definition on_time :: "u32 \<Rightarrow> bell2 \<Rightarrow> bool" where
  "on_time c s \<longleftrightarrow> rtcclock s = (rtcnext ^^ ticks (b_hist s)) c"

lemma on_time_simps [simp]:
  "\<not> (r = IO_PIC \<and> v = INT_TIMER) \<Longrightarrow> on_time c (io_write r v s) = on_time c s"
  "on_time c (snd (io_read env r s)) = on_time c s"
  "on_time c (touch_watchdog s) = on_time c s"
  "on_time c (s\<lparr>uartptr := p\<rparr>) = on_time c s"
  "on_time c (s\<lparr>uartmsg := m\<rparr>) = on_time c s"
  "on_time c (s\<lparr>dpymsg := d\<rparr>) = on_time c s"
  "on_time c (s\<lparr>dpyptr := p\<rparr>) = on_time c s"
  "on_time c (s\<lparr>newmsgtime := t\<rparr>) = on_time c s"
  "on_time c (s\<lparr>leastmsgtime := t\<rparr>) = on_time c s"
  "on_time c (s\<lparr>lstmsgtime := t\<rparr>) = on_time c s"
  "on_time c (s\<lparr>dpyptr := p, b_hist := dispchar e (b_hist s)\<rparr>) = on_time c s"
  by (auto simp: on_time_def io_write_def io_read_def touch_watchdog_def split_beta)

lemma on_time_read: "io_read env r s = (v, s1) \<Longrightarrow> on_time c s1 = on_time c s"
  using on_time_simps(2) [of c env r s] by simp

lemma on_time_tick:
  assumes "on_time c s"
  shows "on_time c ((io_write IO_PIC INT_TIMER s)\<lparr>rtcclock := rtcnext (rtcclock s)\<rparr>)"
  using assms by (simp add: on_time_def io_write_def)

lemma io_write_clock [simp]: "rtcclock (io_write r v s) = rtcclock s"
  by (simp add: io_write_def)

lemma on_time_second:
  assumes "bell2_second env s = Some s'" "on_time c s"
  shows "on_time c s'"
proof -
  define s1 where "s1 = io_write IO_SPIO 0x0f0 ((io_write IO_PIC INT_TIMER s)\<lparr>rtcclock := rtcnext (rtcclock (io_write IO_PIC INT_TIMER s))\<rparr>)"
  have t1: "on_time c s1"
    using on_time_tick [OF assms(2)] by (simp add: s1_def)
  obtain d s2 where d: "bget (dpyptr s1) (dpymsg s1) = Some d"
    and s2: "(if d = 0 then do { m \<leftarrow> build_dpymsg (rtcclock s1) (dpymsg s1); Some (s1\<lparr>dpymsg := m, dpyptr := 0\<rparr>) } else Some s1) = Some s2"
    and last: "(if rtcclock s2 AND 0x0ff = 0
      then do {
        u \<leftarrow> bget (uartptr s2) (uartmsg s2);
        if u = 0
        then do {
          m \<leftarrow> build_uartmsg (rtcclock s2) (uartmsg s2);
          let (t, s) = io_read env IO_TIMER (io_write IO_SPIO 0x0f1 (s2\<lparr>uartmsg := m, uartptr := 0\<rparr>));
          Some (s\<lparr>newmsgtime := t, lstmsgtime := - 1, leastmsgtime := - 1\<rparr>)
        }
        else Some s2
      }
      else Some s2) = Some s'"
    using assms(1) unfolding bell2_second_def Let_def s1_def [symmetric] bind_eq_Some_conv by blast
  have t2: "on_time c s2"
    using s2 t1 by (auto simp: bind_eq_Some_conv split: if_splits)
  show ?thesis
    using last t2 by (auto simp: bind_eq_Some_conv split_beta split: if_splits)
qed

lemma on_time_uart: "bell2_uart env pic s = Some s' \<Longrightarrow> on_time c s \<Longrightarrow> on_time c s'"
  by (auto simp: bell2_uart_def Let_def bind_eq_Some_conv split_beta)

lemma on_time_disp: "bell2_disp led s = Some s' \<Longrightarrow> on_time c s \<Longrightarrow> on_time c s'"
  by (auto simp: bell2_disp_def bind_eq_Some_conv)

lemma on_time_wait: "bell2_wait env s = Some s' \<Longrightarrow> on_time c s \<Longrightarrow> on_time c s'"
proof (induction env s s' rule: bell2_wait.raw_induct [rotated, consumes 1, case_names step])
  case (step loop env s s')
  obtain pic s1 where s1: "io_read env IO_PIC s = (pic, s1)"
    by fastforce
  have t1: "on_time c s1"
    using step.prems on_time_read [OF s1] by simp
  show ?case
  proof (cases "pic AND INT_BUTTON = 0")
    case False
    then show ?thesis
      using step.hyps s1 t1 by simp
  next
    case True
    then obtain s2 s3 s4 where s2: "(if pic AND INT_TIMER \<noteq> 0 then bell2_second env (touch_watchdog s1) else Some (touch_watchdog s1)) = Some s2"
      and s3: "bell2_uart env pic s2 = Some s3" and s4: "bell2_disp 0x44 s3 = Some s4" and l: "loop env s4 = Some s'"
      using step.hyps s1 by (auto simp: Let_def bind_eq_Some_conv)
    have "on_time c s2"
      using s2 t1 on_time_second by (auto split: if_splits)
    from step.IH [OF l on_time_disp [OF s4 on_time_uart [OF s3 this]]] show ?thesis .
  qed
qed

lemma on_time_play_step: "bell2_play_step env (n, s) = Some (pic, n', s') \<Longrightarrow> on_time c s \<Longrightarrow> on_time c s'"
  by (auto simp: bell2_play_step_def Let_def bind_eq_Some_conv split: prod.splits if_splits
      dest!: on_time_read [of _ _ _ _ _ c] elim!: on_time_disp intro: on_time_tick)

lemma on_time_play_wait: "bell2_play_wait env st = Some r \<Longrightarrow> on_time c (snd st) \<Longrightarrow> on_time c (snd r)"
proof (induction env st r rule: bell2_play_wait.raw_induct [rotated, consumes 1, case_names step])
  case (step loop env st r)
  obtain pic n1 s1 where st1: "bell2_play_step env st = Some (pic, n1, s1)"
    and l: "(if pic AND INT_AUDIO = 0 then loop env (n1, s1) else Some (n1, s1)) = Some r"
    using step.hyps by (auto simp: bind_eq_Some_conv)
  have "on_time c s1"
    using on_time_play_step [of env "fst st" "snd st"] st1 step.prems by simp
  then show ?case
    using step.IH [of env "(n1, s1)" r] l by (auto split: if_splits)
qed

lemma on_time_play: "bell2_play env vs (n, s) = Some (n', s') \<Longrightarrow> on_time c s \<Longrightarrow> on_time c s'"
proof (induction vs arbitrary: n s)
  case (Cons v vs)
  obtain n1 s1 where "bell2_play_wait env (n, s) = Some (n1, s1)"
    and rest: "bell2_play env vs (n1, io_write IO_PIC INT_AUDIO (io_write IO_PWM_AUDIO (ucast v AND 0x0ffff) s1)) = Some (n', s')"
    using Cons.prems(1) by (auto simp: bind_eq_Some_conv)
  then have "on_time c s1"
    using on_time_play_wait [of env "(n, s)" "(n1, s1)" c] Cons.prems(2) by simp
  then show ?case
    using Cons.IH [OF rest] by simp
qed simp

lemma on_time_rest: "bell2_rest env st = Some s' \<Longrightarrow> on_time c (snd st) \<Longrightarrow> on_time c s'"
proof (induction env st s' rule: bell2_rest.raw_induct [rotated, consumes 1, case_names step])
  case (step loop env st s')
  obtain n s where st: "st = (n, s)"
    by fastforce
  show ?case
  proof (cases "n <s 30")
    case False
    then show ?thesis
      using step.hyps step.prems st by simp
  next
    case True
    obtain pic s1 where s1: "io_read env IO_PIC (touch_watchdog s) = (pic, s1)"
      by fastforce
    define s2 where "s2 = (if pic AND INT_TIMER \<noteq> 0 then (io_write IO_PIC INT_TIMER s1)\<lparr>rtcclock := rtcnext (rtcclock s1)\<rparr> else s1)"
    have "on_time c s1"
      using step.prems on_time_read [OF s1] by (simp add: st)
    then have t2: "on_time c s2"
      using on_time_tick by (simp add: s2_def)
    obtain n' where "loop env (n', if pic AND INT_BUTTON \<noteq> 0 then io_write IO_PIC INT_BUTTON s2 else s2) = Some s'"
      using step.hyps True s1 by (auto simp: st s2_def Let_def split: if_splits)
    from step.IH [OF this] t2 show ?thesis
      by simp
  qed
qed

lemma on_time_ring: "bell2_ring s = Some s' \<Longrightarrow> on_time c s \<Longrightarrow> on_time c s'"
  by (auto simp: bell2_ring_def bind_eq_Some_conv)

section \<open>Properties\<close>

text \<open>
  C36. The clock of \<open>doorbell2\<close> loses no second: through a whole turn of the program (waiting, ringing, playing and the rest after it) the
  clock has advanced by one second for each timer event that was acknowledged, and by nothing else.
\<close>

theorem bell2_keeps_time:
  assumes "bell2_round env smp s = Some s'" "rtcclock s = (rtcnext ^^ ticks (b_hist s)) c"
  shows "rtcclock s' = (rtcnext ^^ ticks (b_hist s')) c"
proof -
  obtain s1 s2 n s3 s4 where
    w: "bell2_wait env (io_write IO_TIMER (TM_ONE_SECOND OR TM_REPEAT) (io_write IO_PWM_AUDIO 0x0018000 (io_write IO_SPIO 0x0f0 s))) = Some s1"
    and r: "bell2_ring (touch_watchdog s1) = Some s2"
    and p: "bell2_play env smp (0, io_write IO_PWM_AUDIO 0x0310000 (io_write IO_SPIO 0x0ff s2)) = Some (n, s3)"
    and e: "bell2_rest env (n, io_write IO_PWM_AUDIO 0x018000 (io_write IO_SPIO 0x0f8
      (touch_watchdog (io_write IO_SPIO 0x10 (io_write IO_PIC INT_BUTTON s3))))) = Some s4"
    and s': "s' = touch_watchdog (io_write IO_PIC INT_BUTTON s4)"
    using assms(1) by (auto simp: bell2_round_def bind_eq_Some_conv)
  have "on_time c s"
    using assms(2) by (simp add: on_time_def)
  then have "on_time c s1"
    using on_time_wait [OF w] by simp
  then have "on_time c s2"
    using on_time_ring [OF r] by simp
  then have "on_time c s3"
    using on_time_play [OF p] by simp
  then have "on_time c s'"
    using on_time_rest [OF e] by (simp add: s')
  then show ?thesis
    by (simp add: on_time_def)
qed

text \<open>How often the button may be pressed in the same minute: the state after \<open>n\<close> rings.\<close>

fun ring_times :: "nat \<Rightarrow> bell2 \<Rightarrow> bell2 option" where
  "ring_times 0 s = Some s"
| "ring_times (Suc n) s = Option.bind (ring_times n s) bell2_ring"

lemma bell2_ring_uart:
  assumes "length (dpymsg s) = 64"
  shows "bell2_ring s = map_option (\<lambda>u. s\<lparr>dpymsg := 0x1b # cstring ''[jDoorbell!'' @ 0 # drop 13 (dpymsg s), dpyptr := 0,
    uartmsg := u, uartptr := 0\<rparr>) (bstrcat 0 bell2_text (uartmsg s))"
proof -
  have "bstrcpy 0 (cstring ''a[jDoorbell!'') (dpymsg s) = Some (cstring ''a[jDoorbell!'' @ 0 # drop 13 (dpymsg s))"
    using assms by (simp add: bstrcpy_def bput_0 numeral_eq_Suc)
  then show ?thesis
    by (cases "bstrcat 0 bell2_text (uartmsg s)") (simp_all add: bell2_ring_def bset_def)
qed

lemma ring_times_uart:
  "length (dpymsg s) = 64 \<Longrightarrow>
    (case ring_times n s of None \<Rightarrow> rings n (uartmsg s) = None
     | Some s' \<Rightarrow> rings n (uartmsg s) = Some (uartmsg s') \<and> length (dpymsg s') = 64)"
proof (induction n)
  case (Suc n)
  then show ?case
  proof (cases "ring_times n s")
    case (Some s1)
    then have "rings n (uartmsg s) = Some (uartmsg s1)" "length (dpymsg s1) = 64"
      using Suc by simp_all
    then show ?thesis
      using Some bell2_ring_uart [of s1] by (cases "bstrcat 0 bell2_text (uartmsg s1)") simp_all
  qed simp
qed simp

text \<open>
  C37. The array for the serial port holds the line of the clock and nine texts of the doorbell: from the state in which the line has just
  been built, nine rings put their texts one after the other behind it, and the tenth runs over the end of the array. The line is
  built anew only at the top of a minute that falls outside the thirty seconds after a ring.
\<close>

theorem bell2_tenth_ring_overflows:
  assumes "length (dpymsg s) = 64" "length stk = 160" "build_uartmsg clk stk = Some (uartmsg s)"
  shows "(\<forall>n \<le> 9. \<exists>s'. ring_times n s = Some s' \<and>
      takeWhile (\<lambda>c. c \<noteq> 0) (uartmsg s') = uart_line clk @ concat (replicate n bell2_text)) \<and>
    ring_times 10 s = None"
proof -
  have line: "uartmsg s = uart_line clk @ 0 # 0 # drop 15 stk"
    using assms(2,3) build_uartmsg_line [of stk clk] by simp
  moreover have "length (uart_line clk @ 0 # 0 # drop 15 stk) = 160"
    using assms(2) uart_line(1) [of clk] by simp
  ultimately have len: "length (uartmsg s) = 160"
    by simp
  note filled = rings_text [OF uart_line len line]
  have "\<exists>s'. ring_times n s = Some s' \<and> takeWhile (\<lambda>c. c \<noteq> 0) (uartmsg s') = uart_line clk @ concat (replicate n bell2_text)"
    if n: "n \<le> 9" for n
  proof -
    obtain r where r: "rings n (uartmsg s) = Some ((uart_line clk @ concat (replicate n bell2_text)) @ 0 # r)"
      using filled [OF n] by auto
    then obtain s' where s': "ring_times n s = Some s'" "uartmsg s' = (uart_line clk @ concat (replicate n bell2_text)) @ 0 # r"
      using ring_times_uart [OF assms(1), of n] by (auto split: option.splits)
    have "\<forall>c\<in>set (uart_line clk @ concat (replicate n bell2_text)). c \<noteq> 0"
      using uart_line(2) [of clk] bell2_text_bytes(2) by (auto split: if_splits)
    then have "takeWhile (\<lambda>c. c \<noteq> 0) (uartmsg s') = uart_line clk @ concat (replicate n bell2_text)"
      unfolding s'(2) by (subst takeWhile_append2) auto
    then show ?thesis
      using s'(1) by blast
  qed
  moreover have "ring_times 10 s = None"
    using rings_overflow [OF uart_line len line] ring_times_uart [OF assms(1), of 10] by (simp split: option.splits)
  ultimately show ?thesis
    by blast
qed

section \<open>Witnesses\<close>

text \<open>The button is pressed at once, and after the sound has been turned on a second passes between any two looks at the interrupts.\<close>

definition bell_env :: env where
  "bell_env h q = (if q = QRd IO_PIC then (if 0x0310000 \<in> set (written IO_PWM_AUDIO h) then INT_TIMER else INT_BUTTON) else 0)"

definition bell_demo :: bell2 where
  "bell_demo = \<lparr>dpymsg = replicate 64 0, dpyptr = 0, uartmsg = replicate 160 0, uartptr = 0, newmsgtime = 0, leastmsgtime = - 1,
    lstmsgtime = 0, rtcclock = 0, b_hist = []\<rparr>"

lemma rest_returns:
  "k \<le> 30 \<Longrightarrow> 0x0310000 \<in> set (written IO_PWM_AUDIO (b_hist s)) \<Longrightarrow> \<exists>s'. bell2_rest bell_env (of_nat (30 - k), s) = Some s'"
proof (induction k arbitrary: s)
  case 0
  then show ?case
    by (subst bell2_rest.simps) simp
next
  case (Suc k)
  have next_second: "(of_nat (30 - Suc k) :: u32) + 1 = of_nat (30 - k)"
  proof -
    have "of_nat (30 - Suc k) + (1 :: u32) = of_nat (Suc (30 - Suc k))"
      by simp
    also have "Suc (30 - Suc k) = 30 - k"
      using Suc.prems(1) by simp
    finally show ?thesis .
  qed
  have "(of_nat m :: u32) <s 30" if "m < 30" for m
    using sless_u32_small [of "of_nat m" 30] that by (simp add: unat_of_nat_u32)
  then have less: "(of_nat (30 - Suc k) :: u32) <s 30"
    by (simp del: of_nat_diff)
  define s0 where "s0 = snd (io_read bell_env IO_PIC (touch_watchdog s))"
  define s1 where "s1 = (io_write IO_PIC INT_TIMER s0)\<lparr>rtcclock := rtcnext (rtcclock s0)\<rparr>"
  have pic: "io_read bell_env IO_PIC (touch_watchdog s) = (INT_TIMER, s0)"
    using Suc.prems(2) by (simp add: s0_def io_read_def rd_def bell_env_def touch_watchdog_def io_write_def)
  have "0x0310000 \<in> set (written IO_PWM_AUDIO (b_hist s1))"
    using Suc.prems(2) by (simp add: s1_def s0_def io_read_def touch_watchdog_def io_write_def split_beta)
  then obtain s' where "bell2_rest bell_env (of_nat (30 - k), s1) = Some s'"
    using Suc.IH Suc.prems(1) by auto
  moreover have "bell2_rest bell_env (of_nat (30 - Suc k), s) = bell2_rest bell_env (of_nat (30 - k), s1)"
    using less next_second by (subst bell2_rest.simps) (simp add: pic s1_def del: of_nat_diff)
  ultimately show ?case
    by simp
qed

lemma bell_demo_round: "\<exists>s'. bell2_round bell_env [] bell_demo = Some s'"
proof -
  let ?s = "io_write IO_TIMER (TM_ONE_SECOND OR TM_REPEAT) (io_write IO_PWM_AUDIO 0x0018000 (io_write IO_SPIO 0x0f0 bell_demo))"
  define s1 where "s1 = snd (io_read bell_env IO_PIC ?s)"
  have "io_read bell_env IO_PIC ?s = (INT_BUTTON, s1)"
    by (simp add: s1_def io_read_def rd_def bell_env_def bell_demo_def io_write_def)
  then have wait: "bell2_wait bell_env ?s = Some s1"
    by (subst bell2_wait.simps) simp
  have arrays: "length (dpymsg (touch_watchdog s1)) = 64" "uartmsg (touch_watchdog s1) = replicate 160 0"
    by (simp_all add: s1_def bell_demo_def io_write_def io_read_def touch_watchdog_def split_beta)
  have "bstrcat 0 bell2_text (replicate 160 0) \<noteq> None"
    by (simp add: bstrcat_def bnul_def bput_def bell2_text_bytes(1) Let_def)
  then obtain s2 where ring: "bell2_ring (touch_watchdog s1) = Some s2"
    using bell2_ring_uart [OF arrays(1)] arrays(2) by auto
  define s3 where "s3 = io_write IO_PWM_AUDIO 0x018000 (io_write IO_SPIO 0x0f8
      (touch_watchdog (io_write IO_SPIO 0x10 (io_write IO_PIC INT_BUTTON (io_write IO_PWM_AUDIO 0x0310000 (io_write IO_SPIO 0x0ff s2))))))"
  have "0x0310000 \<in> set (written IO_PWM_AUDIO (b_hist s3))"
    by (simp add: s3_def io_write_def touch_watchdog_def)
  then obtain s4 where "bell2_rest bell_env (0, s3) = Some s4"
    using rest_returns [of 30 s3] by auto
  then show ?thesis
    using wait ring by (simp add: bell2_round_def s3_def)
qed

theorem bell2_keeps_time_witness:
  "\<exists>s'. bell2_round bell_env [] bell_demo = Some s' \<and> rtcclock s' = (rtcnext ^^ ticks (b_hist s')) 0"
proof -
  obtain s' where s': "bell2_round bell_env [] bell_demo = Some s'"
    using bell_demo_round by blast
  have "rtcclock bell_demo = (rtcnext ^^ ticks (b_hist bell_demo)) 0"
    by (simp add: bell_demo_def ticks_def)
  then show ?thesis
    using bell2_keeps_time [OF s'] s' by blast
qed

theorem bell2_tenth_ring_overflows_witness:
  "ring_times 10 (bell_demo\<lparr>uartmsg := uart_line 0x123456 @ 0 # 0 # replicate 145 0\<rparr>) = None"
proof -
  let ?s = "bell_demo\<lparr>uartmsg := uart_line 0x123456 @ 0 # 0 # replicate 145 0\<rparr>"
  have "build_uartmsg 0x123456 (replicate 160 0) = Some (uartmsg ?s)"
    by (simp add: build_uartmsg_line)
  moreover have "length (dpymsg ?s) = 64" "length (replicate 160 (0 :: u8)) = 160"
    by (simp_all add: bell_demo_def)
  ultimately show ?thesis
    using bell2_tenth_ring_overflows by blast
qed

end
