(* ===== verification/Softmpy.thy ===== *)
theory Softmpy
  imports Prelude
begin

text \<open>
  The multiplication routines in C of the processor's self test, sw/dev/cputest.c: the high word of a product from 16-bit
  halves, unsigned and signed. \<open>soft_mpyuhi_high\<close> and \<open>soft_mpyshi_high\<close> say that both are right on all operands; an \<open>int\<close> wraps.
\<close>

section \<open>The routines\<close>

text \<open>The partial product of the bit \<open>k\<close> as (\<open>sup\<close>, \<open>shi\<close>, \<open>slo\<close>), the same in both loops.\<close>

definition mpy_parts :: "u32 \<Rightarrow> u32 \<Rightarrow> nat \<Rightarrow> u32 \<times> u32 \<times> u32" where
  "mpy_parts alo ahi k =
    (let slo = push_bit k alo;
         shi = push_bit k ahi;
         shi = shi OR (drop_bit 16 slo AND 0x0ffff);
         slo = slo AND 0x0ffff;
         sup = drop_bit 16 shi AND 0x0ffff;
         shi = shi AND 0x0ffff
     in (sup, shi, slo))"

definition mpy_low :: "u32 \<Rightarrow> u32 \<Rightarrow> u32 \<Rightarrow> nat \<Rightarrow> u32 \<times> u32 \<times> u32 \<Rightarrow> u32 \<times> u32 \<times> u32" where
  "mpy_low alo ahi b i =
    (\<lambda>(rhi, rlhi, rllo).
      if b AND push_bit i 1 \<noteq> 0 then
        let (sup, shi, slo) = mpy_parts alo ahi i;
            rhi = rhi + sup;
            rlhi = rlhi + shi;
            rllo = rllo + slo;
            rlhi = rlhi + (drop_bit 16 rllo AND 0x0ffff);
            rllo = rllo AND 0x0ffff;
            rhi = rhi + (drop_bit 16 rlhi AND 0x0ffff);
            rlhi = rlhi AND 0x0ffff
        in (rhi, rlhi, rllo)
      else (rhi, rlhi, rllo))"

definition mpy_high :: "u32 \<Rightarrow> u32 \<Rightarrow> u32 \<Rightarrow> nat \<Rightarrow> u32 \<times> u32 \<times> u32 \<Rightarrow> u32 \<times> u32 \<times> u32" where
  "mpy_high alo ahi b i =
    (\<lambda>(rhi, rlhi, rllo).
      if b AND push_bit i 1 \<noteq> 0 then
        let (sup, shi, slo) = mpy_parts alo ahi (i - 16);
            rhi = rhi + push_bit 16 sup;
            rhi = rhi + shi;
            rlhi = rlhi + slo;
            rhi = rhi + (drop_bit 16 rlhi AND 0x0ffff);
            rlhi = rlhi AND 0x0ffff
        in (rhi, rlhi, rllo)
      else (rhi, rlhi, rllo))"

definition soft_mpyuhi :: "u32 \<Rightarrow> u32 \<Rightarrow> u32" where
  "soft_mpyuhi a b =
    (let alo = a AND 0x0ffff;
         ahi = drop_bit 16 a AND 0x0ffff;
         r = fold (mpy_low alo ahi b) [0..<16] (0, 0, 0);
         (rhi, rlhi, rllo) = fold (mpy_high alo ahi b) [16..<32] r
     in rhi)"

definition soft_mpyshi :: "u32 \<Rightarrow> u32 \<Rightarrow> u32" where
  "soft_mpyshi a b =
    (let sgn = signed_drop_bit 31 (a XOR b) AND 0x01;
         a = (if a <s 0 then - a else a);
         b = (if b <s 0 then - b else b);
         p = a * b;
         r = soft_mpyuhi a b;
         r = (if sgn \<noteq> 0 then r XOR (- 1) else r)
     in if sgn \<noteq> 0 \<and> p = 0 then r + 1 else r)"

section \<open>The unsigned routine\<close>

lemma low16: "unat (x AND 0x0ffff :: u32) = unat x mod 65536"
  using unat_and_mask_eq_mod [of x 16] by (simp add: mask_eq_exp_minus_1)

lemma high16: "unat (drop_bit 16 x AND 0x0ffff :: u32) = unat x div 65536"
  unfolding low16 unat_drop_bit_div using unat_u32_less [of x] by simp

lemma unat_push_bit_small: "unat x * 2 ^ k < 2 ^ 32 \<Longrightarrow> unat (push_bit k x :: u32) = unat x * 2 ^ k"
  by (simp only: unsigned_push_bit_eq take_bit_eq_mod) (simp add: push_bit_eq_mult)

lemma carry_top: "(c + n div 65536) * 4294967296 + n mod 65536 * 65536 = c * 4294967296 + n * 65536" for n :: nat
proof -
  have "(n div 65536 * 65536 + n mod 65536) * 65536 = n div 65536 * 4294967296 + n mod 65536 * 65536"
    unfolding add_mult_distrib by simp
  then show ?thesis by (simp add: add_mult_distrib)
qed

lemma carry_both:
  "(c + (m + x div 65536) div 65536) * 4294967296 + (m + x div 65536) mod 65536 * 65536 + x mod 65536 =
    c * 4294967296 + m * 65536 + x" for x :: nat
  unfolding carry_top by (simp add: add_mult_distrib)

lemma less_shift: "n < 65536 \<Longrightarrow> k < 16 \<Longrightarrow> n * 2 ^ k < 2 ^ 31" for n :: nat
proof -
  assume "n < 65536" "k < 16"
  then have "n * 2 ^ k \<le> 65535 * 2 ^ 15"
    by (intro mult_mono power_increasing) auto
  then show ?thesis by simp
qed

text \<open>The halves of \<open>a\<close>, of \<open>a * 2 ^ k\<close> and the accumulator as one number.\<close>

definition joined :: "u32 \<times> u32 \<times> u32 \<Rightarrow> nat" where
  "joined = (\<lambda>(h, m, l). unat h * 4294967296 + unat m * 65536 + unat l)"

lemma mpy_parts_product:
  assumes k: "k < 16"
  obtains sup shi slo where "mpy_parts (a AND 0x0ffff) (drop_bit 16 a AND 0x0ffff) k = (sup, shi, slo)"
    "joined (sup, shi, slo) = unat a * 2 ^ k" "unat sup < 65536" "unat shi < 65536" "unat slo < 65536"
proof -
  define alo ahi where "alo = a AND 0x0ffff" and "ahi = drop_bit 16 a AND 0x0ffff"
  define lo hi where "lo = push_bit k alo" and "hi = push_bit k ahi"
  have alo: "unat alo = unat a mod 65536" and ahi: "unat ahi = unat a div 65536"
    unfolding alo_def ahi_def by (rule low16, rule high16)
  have less: "unat alo < 65536" "unat ahi < 65536"
    unfolding alo ahi using unat_u32_less [of a] by simp_all
  have lo: "unat lo = unat alo * 2 ^ k" and hi: "unat hi = unat ahi * 2 ^ k"
    unfolding lo_def hi_def using less_shift [OF less(1) k] less_shift [OF less(2) k]
    by (simp_all add: unat_push_bit_small)
  have mask: "(0x0ffff :: u32) = mask 16"
    by (simp add: mask_eq_exp_minus_1)
  have "\<not> bit alo n" if "16 \<le> n" for n
    using that unfolding alo_def mask by (simp add: bit_simps)
  then have or: "hi OR (drop_bit 16 lo AND 0x0ffff) = hi + (drop_bit 16 lo AND 0x0ffff)"
    unfolding lo_def hi_def by (intro disjunctive_add [symmetric]) (auto simp: bit_simps)
  have lolt: "unat lo < 2 ^ 31" and hilt: "unat hi < 2 ^ 31"
    unfolding lo hi using less_shift [OF less(1) k] less_shift [OF less(2) k] .
  have sum: "unat (hi + (drop_bit 16 lo AND 0x0ffff)) = unat hi + unat lo div 65536"
    using lolt hilt by (subst unat_add_lem [THEN iffD1]) (simp_all add: high16)
  define mid where "mid = hi + (drop_bit 16 lo AND 0x0ffff)"
  have "mpy_parts alo ahi k = (drop_bit 16 mid AND 0x0ffff, mid AND 0x0ffff, lo AND 0x0ffff)"
    unfolding mpy_parts_def Let_def lo_def [symmetric] hi_def [symmetric] or mid_def by (rule refl)
  moreover have "joined (drop_bit 16 mid AND 0x0ffff, mid AND 0x0ffff, lo AND 0x0ffff) = unat hi * 65536 + unat lo"
    using carry_both [of 0 "unat hi" "unat lo"]
    unfolding joined_def prod.case high16 unfolding low16 sum [folded mid_def] add_0 mult_0 .
  moreover have "unat hi * 65536 + unat lo = unat a * 2 ^ k"
  proof -
    have "(q * 65536 + r) * p = q * p * 65536 + r * p" for q r p :: nat
      by (simp add: add_mult_distrib)
    from this [of "unat a div 65536" "unat a mod 65536" "2 ^ k"] show ?thesis
      unfolding hi lo alo ahi div_mult_mod_eq by (rule sym)
  qed
  ultimately show thesis
    using lolt hilt unfolding alo_def ahi_def
    by (intro that) (auto simp: low16 high16 sum [folded mid_def])
qed

text \<open>The bits of \<open>b\<close> below \<open>i\<close> are in the accumulator.\<close>

definition accumulated :: "u32 \<Rightarrow> u32 \<Rightarrow> nat \<Rightarrow> u32 \<times> u32 \<times> u32 \<Rightarrow> bool" where
  "accumulated a b i r \<longleftrightarrow>
    joined r = unat a * (unat b mod 2 ^ i) \<and> (case r of (h, m, l) \<Rightarrow> unat m < 65536 \<and> unat l < 65536)"

lemma mod_Suc_bit: "unat b mod 2 ^ Suc i = unat b mod 2 ^ i + (if bit b i then 2 ^ i else 0)" for b :: u32
  using take_bit_Suc_from_most [of i "unat b"] by (simp add: take_bit_eq_mod bit_unsigned_iff bit_imp_le_length)

lemma unat_sum_small: "unat x + unat y < 2 ^ 32 \<Longrightarrow> unat (x + y :: u32) = unat x + unat y"
  by (subst unat_add_lem [THEN iffD1]) simp_all

lemma mpy_low_step:
  assumes i: "i < 16" and r: "accumulated a b i r"
  shows "accumulated a b (Suc i) (mpy_low (a AND 0x0ffff) (drop_bit 16 a AND 0x0ffff) b i r)"
proof -
  obtain h m l where [simp]: "r = (h, m, l)" by (cases r)
  obtain sup shi slo where p: "mpy_parts (a AND 0x0ffff) (drop_bit 16 a AND 0x0ffff) i = (sup, shi, slo)"
    "joined (sup, shi, slo) = unat a * 2 ^ i" "unat sup < 65536" "unat shi < 65536" "unat slo < 65536"
    using mpy_parts_product [OF i] .
  have "unat b mod 2 ^ i \<le> 2 ^ 15"
    using i by (intro order_trans [OF less_imp_le [OF mod_less_divisor] power_increasing]) auto
  then have "unat a * (unat b mod 2 ^ i) \<le> 2 ^ 32 * 2 ^ 15"
    using unat_u32_less [of a] by (intro mult_mono) auto
  then have h: "unat h < 65536"
    using r by (simp add: accumulated_def joined_def)
  have l': "unat (l + slo) = unat l + unat slo" and m': "unat (m + shi) = unat m + unat shi"
    using r p by (auto simp: accumulated_def unat_sum_small)
  have m'': "unat (m + shi + (drop_bit 16 (l + slo) AND 0x0ffff)) = unat m + unat shi + (unat l + unat slo) div 65536"
    using r p by (subst unat_sum_small) (auto simp: accumulated_def high16 l' m')
  have h': "unat (h + sup) = unat h + unat sup"
    using h p by (simp add: unat_sum_small)
  have h'': "unat (h + sup + (drop_bit 16 (m + shi + (drop_bit 16 (l + slo) AND 0x0ffff)) AND 0x0ffff)) =
      unat h + unat sup + (unat m + unat shi + (unat l + unat slo) div 65536) div 65536"
    using h r p by (subst unat_sum_small) (auto simp: accumulated_def high16 h' m'')
  show ?thesis
  proof (cases "bit b i")
    case True
    have "joined (mpy_low (a AND 0x0ffff) (drop_bit 16 a AND 0x0ffff) b i r) = joined r + joined (sup, shi, slo)"
      using True carry_both [of "unat h + unat sup" "unat m + unat shi" "unat l + unat slo"]
      by (simp add: mpy_low_def and_exp_eq_0_iff_not_bit Let_def p(1) joined_def h'' m'' l' low16)
    then show ?thesis
      using True r p(2) unfolding accumulated_def mod_Suc_bit
      by (simp add: distrib_left mpy_low_def and_exp_eq_0_iff_not_bit Let_def p(1) low16)
  next
    case False
    then show ?thesis
      using r unfolding accumulated_def mod_Suc_bit by (simp add: mpy_low_def and_exp_eq_0_iff_not_bit)
  qed
qed

lemma mpy_high_step:
  assumes i: "16 \<le> i" "i < 32" and r: "accumulated a b i r"
  shows "accumulated a b (Suc i) (mpy_high (a AND 0x0ffff) (drop_bit 16 a AND 0x0ffff) b i r)"
proof (cases "bit b i")
  case True
  obtain h m l where [simp]: "r = (h, m, l)" by (cases r)
  have "i - 16 < 16" using i by simp
  then obtain sup shi slo where p: "mpy_parts (a AND 0x0ffff) (drop_bit 16 a AND 0x0ffff) (i - 16) = (sup, shi, slo)"
    "joined (sup, shi, slo) = unat a * 2 ^ (i - 16)" "unat sup < 65536" "unat shi < 65536" "unat slo < 65536"
    using mpy_parts_product by metis
  define top where "top = unat h + unat sup * 65536 + unat shi + (unat m + unat slo) div 65536"
  have m': "unat (m + slo) = unat m + unat slo"
    using r p by (auto simp: accumulated_def unat_sum_small)
  have "(2 :: nat) ^ i = 2 ^ (i - 16) * 2 ^ 16"
    unfolding power_add [symmetric] using i by simp
  then have "unat a * 2 ^ i = joined (sup, shi, slo) * 65536"
    unfolding p(2) by simp
  then have "unat a * (unat b mod 2 ^ Suc i) = joined r + joined (sup, shi, slo) * 65536"
    using True r by (simp add: accumulated_def mod_Suc_bit distrib_left del: power_Suc)
  then have sum: "top * 4294967296 + (unat m + unat slo) mod 65536 * 65536 + unat l = unat a * (unat b mod 2 ^ Suc i)"
    using carry_top [of "unat h + unat sup * 65536 + unat shi" "unat m + unat slo"]
    unfolding top_def by (simp add: joined_def)
  have "unat a * (unat b mod 2 ^ Suc i) < 2 ^ 32 * 2 ^ 32"
    using unat_u32_less [of a] unat_u32_less [of b] by (intro mult_strict_mono') (auto intro: le_less_trans [OF mod_less_eq_dividend])
  then have "top * 2 ^ 32 < 2 ^ 32 * 2 ^ 32"
    unfolding sum [symmetric] by (rule order_le_less_trans [rotated]) simp
  then have "top < 2 ^ 32"
    by (simp only: mult_less_cancel2)
  moreover have sup16: "unat (push_bit 16 sup) = unat sup * 65536"
    using p(3) by (simp add: unat_push_bit_small)
  ultimately have top: "unat (h + push_bit 16 sup + shi + (drop_bit 16 (m + slo) AND 0x0ffff)) = top"
    unfolding top_def by (simp add: unat_sum_small high16 m')
  show ?thesis
    using True r sum by (simp add: accumulated_def mpy_high_def and_exp_eq_0_iff_not_bit Let_def p(1) joined_def top m' low16)
next
  case False
  then show ?thesis
    using r unfolding accumulated_def mod_Suc_bit by (cases r) (simp add: mpy_high_def and_exp_eq_0_iff_not_bit)
qed

lemma fold_upt_invariant:
  assumes "P i x" and "\<And>k y. i \<le> k \<Longrightarrow> k < j \<Longrightarrow> P k y \<Longrightarrow> P (Suc k) (f k y)" and "i \<le> j"
  shows "P j (fold f [i..<j] x)"
  using assms(3) assms(2)
proof (induction j rule: dec_induct)
  case base
  then show ?case using assms(1) by simp
next
  case (step n)
  then show ?case by simp
qed

lemma soft_mpyuhi_nat: "unat (soft_mpyuhi a b) = unat a * unat b div 2 ^ 32"
proof -
  define low high where "low = mpy_low (a AND 0x0ffff) (drop_bit 16 a AND 0x0ffff) b"
    and "high = mpy_high (a AND 0x0ffff) (drop_bit 16 a AND 0x0ffff) b"
  have "accumulated a b 16 (fold low [0..<16] (0, 0, 0))"
    unfolding low_def by (rule fold_upt_invariant) (simp_all add: mpy_low_step, simp add: accumulated_def joined_def)
  then have "accumulated a b 32 (fold high [16..<32] (fold low [0..<16] (0, 0, 0)))"
    unfolding high_def by (rule fold_upt_invariant) (simp_all add: mpy_high_step)
  moreover obtain h m l where r: "fold high [16..<32] (fold low [0..<16] (0, 0, 0)) = (h, m, l)"
    by (cases "fold high [16..<32] (fold low [0..<16] (0, 0, 0))")
  ultimately have "unat h * 4294967296 + unat m * 65536 + unat l = unat a * unat b" "unat m < 65536" "unat l < 65536"
    using unat_u32_less [of b] by (auto simp: accumulated_def joined_def)
  then have "unat h = unat a * unat b div 2 ^ 32"
    by simp
  moreover have "soft_mpyuhi a b = h"
    unfolding soft_mpyuhi_def Let_def low_def [symmetric] high_def [symmetric] r by simp
  ultimately show ?thesis by simp
qed

lemma soft_mpyuhi_high: "soft_mpyuhi a b = ucast (drop_bit 32 (ucast a * ucast b :: u64))"
proof -
  have "unat a * unat b < 2 ^ 32 * 2 ^ 32"
    using unat_u32_less [of a] unat_u32_less [of b] by (intro mult_strict_mono') auto
  moreover have "unat (ucast x :: u64) = unat x" for x :: u32
    using unat_u32_less [of x] by (intro unat_ucast_id) simp
  ultimately have "unat (ucast a * ucast b :: u64) = unat a * unat b" "unat a * unat b div 2 ^ 32 < 2 ^ 32"
    by (simp_all add: unat_word_ariths)
  then have "unat (ucast (drop_bit 32 (ucast a * ucast b :: u64)) :: u32) = unat a * unat b div 2 ^ 32"
    by (simp add: unat_ucast_id unat_drop_bit_div)
  then show ?thesis
    unfolding word_unat_eq_iff soft_mpyuhi_nat by simp
qed

section \<open>The signed routine\<close>

lemma sless_zero_bit: "a <s 0 \<longleftrightarrow> bit a 31" for a :: u32
  using bit_last_iff [of a] by (simp add: word_sless_alt)

lemma sign_differs: "signed_drop_bit 31 (a XOR b) AND 0x01 \<noteq> 0 \<longleftrightarrow> (a <s 0) \<noteq> (b <s 0)" for a b :: u32
  using and_exp_eq_0_iff_not_bit [of "signed_drop_bit 31 (a XOR b)" 0]
  by (simp add: sless_zero_bit bit_signed_drop_bit_iff bit_xor_iff)

lemma magnitude: "int (unat (if a <s 0 then - a else a)) = \<bar>sint a\<bar>" for a :: u32
proof (cases "a <s 0")
  case True
  then have "2 ^ 31 \<le> unat a"
    by (simp add: sless_zero_u32)
  moreover from this have "unat (- a) = 2 ^ 32 - unat a"
    using unat_sub_if' [of 0 a] unat_u32_less [of a] by (auto simp: word_le_nat_alt)
  ultimately show ?thesis
    using True unat_u32_less [of a] by (simp add: sint_u32_nat del: of_nat_unat)
next
  case False
  then show ?thesis
    by (simp add: sless_zero_u32 sint_u32_nat del: of_nat_unat)
qed

lemma soft_mpyshi_high: "soft_mpyshi a b = word_of_int (sint a * sint b div 2 ^ 32)"
proof -
  define A B where "A = (if a <s 0 then - a else a)" and "B = (if b <s 0 then - b else b)"
  define P where "P = int (unat A * unat B)"
  have P: "P = \<bar>sint a * sint b\<bar>"
    unfolding P_def A_def B_def by (simp only: of_nat_mult magnitude abs_mult)
  have high: "soft_mpyuhi A B = word_of_int (P div 2 ^ 32)"
  proof -
    have "soft_mpyuhi A B = word_of_nat (unat A * unat B div 2 ^ 32)"
      unfolding soft_mpyuhi_nat [symmetric] by simp
    moreover have "P div 2 ^ 32 = int (unat A * unat B div 2 ^ 32)"
      unfolding P_def by (simp only: zdiv_int of_nat_power of_nat_numeral)
    ultimately show ?thesis
      by (simp only: of_int_of_nat_eq)
  qed
  have low: "A * B = 0 \<longleftrightarrow> P mod 2 ^ 32 = 0"
  proof -
    have "A * B = word_of_int P"
      unfolding P_def of_int_of_nat_eq of_nat_mult by simp
    then show ?thesis
      by (simp only: word_of_int_eq_0_iff dvd_eq_mod_eq_0) simp
  qed
  have soft: "soft_mpyshi a b = (if (a <s 0) \<noteq> (b <s 0)
      then (soft_mpyuhi A B XOR - 1) + (if A * B = 0 then 1 else 0) else soft_mpyuhi A B)"
    unfolding soft_mpyshi_def Let_def A_def [symmetric] B_def [symmetric] sign_differs by simp
  show ?thesis
  proof (cases "(a <s 0) = (b <s 0)")
    case True
    then have "sint a * sint b = P"
      unfolding P by (auto simp: word_sless_alt mult_nonpos_nonpos)
    then show ?thesis
      unfolding soft high using True by simp
  next
    case False
    then have "sint a * sint b = - P"
      unfolding P by (auto simp: word_sless_alt mult_nonneg_nonpos mult_nonpos_nonneg)
    then have "sint a * sint b div 2 ^ 32 = - (P div 2 ^ 32) - 1 + (if A * B = 0 then 1 else 0)"
      unfolding low by (simp add: zdiv_zminus1_eq_if)
    moreover have "w XOR - 1 = - w - 1" for w :: u32
      by (simp add: not_eq_complement)
    ultimately show ?thesis
      unfolding soft high using False by (simp only: of_int_add of_int_diff of_int_minus of_int_1 of_int_0 if_True split: if_split) simp
  qed
qed

section \<open>The property\<close>

text \<open>
  C40. The multiplication routines of the self test are right on all operands: \<open>soft_mpyuhi\<close>, which adds shifted 16-bit halves with
  their carries, gives the high word of the 64-bit product, and \<open>soft_mpyshi\<close> that of the signed product, rounded down, also where
  the low word is zero and for the most negative number.
\<close>

theorem soft_mpy_high_words:
  "soft_mpyuhi a b = ucast (drop_bit 32 (ucast a * ucast b :: u64)) \<and>
   soft_mpyshi a b = word_of_int (sint a * sint b div 2 ^ 32)"
  by (simp only: soft_mpyuhi_high soft_mpyshi_high)

end
