(* ===== verification/Selftest.thy ===== *)
theory Selftest
  imports Softmpy Txfns
begin

text \<open>
  The C part of the processor's self test, sw/dev/cputest.c: its output routines, the test of the high words of products, and
  the program that runs the tests one after the other.

  The tests are assembler and run in user mode: the record \<open>zipcpu\<close> gives what running one does to the processor and to the
  console, what it returns, and the user registers after it. \<open>None\<close> stands for a run that never ends. \<open>Inl\<close> is the endless loop at
  the end of \<open>test_fails\<close>. The characters of all texts are below 128; instructions that only a simulator knows, and the
  delay loop at the end, are left out.
\<close>

section \<open>The processor and the console\<close>

abbreviation (input) CC_SLEEP :: u32 where "CC_SLEEP \<equiv> 0x0010"
abbreviation (input) CC_STEP :: u32 where "CC_STEP \<equiv> 0x0040"
abbreviation (input) CC_BREAK :: u32 where "CC_BREAK \<equiv> 0x0080"
abbreviation (input) CC_TRAP :: u32 where "CC_TRAP \<equiv> 0x0200"
abbreviation (input) CC_MMUERR :: u32 where "CC_MMUERR \<equiv> 0x8000"
abbreviation (input) CC_FAULT :: u32 where "CC_FAULT \<equiv> CC_ILL OR CC_BUSERR OR CC_DIVERR OR CC_FPUERR"
abbreviation (input) CC_EXCEPTION :: u32 where "CC_EXCEPTION \<equiv> CC_BREAK OR CC_FAULT OR CC_MMUERR"

abbreviation (input) TRIGGER_SCOPE_NOW :: u32 where "TRIGGER_SCOPE_NOW \<equiv> 0x08000000 OR 0x80000000 OR 4"
abbreviation (input) PREPARE_SCOPE :: u32 where "PREPARE_SCOPE \<equiv> 4"

text \<open>The code that \<open>run_test\<close> is pointed to.\<close>

datatype code =
    C_null | C_sim_test | C_cis_test | C_break_one | C_break_two | C_break_three | C_early_branch_test | C_trap_test_and
  | C_trap_test_clr | C_overflow_test | C_carry_test | C_loop_test | C_shift_test | C_pipeline_test | C_mempipe_test
  | C_cexec_test | C_nowaitpipe_test | C_bcmem_test | C_ill_test | C_cmpeq_test | C_cmpneq_test | C_ccreg_test
  | C_multiarg_test | C_mpy_test | C_mpyhi_test | C_div_test

record 'c zipcpu =
  run_test :: "code \<Rightarrow> 'c \<times> hist \<Rightarrow> (u32 \<times> 'c \<times> hist) option"
  zip_ucc :: "'c \<Rightarrow> u32"
  zip_cc :: "'c \<Rightarrow> u32"
  user_reg :: "'c \<Rightarrow> nat \<Rightarrow> u32"
  set_idle :: "'c \<Rightarrow> 'c"
  wait_insn :: "hist \<Rightarrow> 'c \<Rightarrow> 'c option"
  code_addr :: "code \<Rightarrow> u32"

type_synonym 'c console = "'c \<times> hist"

definition wait_ct :: "'c zipcpu \<Rightarrow> u32 \<Rightarrow> 'c console \<Rightarrow> 'c console option" where
  "wait_ct m msk =
    (\<lambda>(c, h). do {
      let h1 = wr IO_PIC (0x7fff0000 OR msk) h;
      let c1 = set_idle m c;
      let h2 = wr IO_PIC (0x80000000 OR push_bit 16 msk) h1;
      c2 \<leftarrow> wait_insn m h2 c1;
      Some (c2, wr IO_PIC 0 h2)
    })"

definition txchr_ct :: "'c zipcpu \<Rightarrow> env \<Rightarrow> u8 \<Rightarrow> 'c console \<Rightarrow> 'c console option" where
  "txchr_ct m env v =
    (\<lambda>(c, h). do {
      (c', h') \<leftarrow>
        (if zip_cc m c AND CC_GIE \<noteq> 0 then
           let (pic, h1) = rd env IO_PIC h
           in map_option (Pair c) (uart_wait env (if pic AND INT_UARTTX \<noteq> 0 then wr IO_PIC INT_UARTTX h1 else h1))
         else wait_ct m INT_UARTTX (c, h));
      Some (c', wr IO_UART (ucast v) h')
    })"

definition wait_for_uart_idle :: "env \<Rightarrow> 'c console \<Rightarrow> 'c console option" where
  "wait_for_uart_idle env = (\<lambda>(c, h). map_option (Pair c) (uart_wait env (wr IO_PIC INT_UARTTX h)))"

fun txstr_ct :: "'c zipcpu \<Rightarrow> env \<Rightarrow> u8 list \<Rightarrow> 'c console \<Rightarrow> 'c console option" where
  "txstr_ct m env [] c = Some c"
| "txstr_ct m env (v # str) c = (if v \<noteq> 0 then do { c1 \<leftarrow> txchr_ct m env v c; txstr_ct m env str c1 } else Some c)"

definition hexch_ct :: "u32 \<Rightarrow> nat \<Rightarrow> u8" where
  "hexch_ct num ds =
    (let ch = signed_drop_bit ds num AND 0x0f
     in ucast (if 10 <=s ch then 65 + ch - 10 else ch + 48))"

definition txdigits_ct :: "'c zipcpu \<Rightarrow> env \<Rightarrow> u32 \<Rightarrow> nat list \<Rightarrow> 'c console \<Rightarrow> 'c console option" where
  "txdigits_ct m env num dss c = fold (\<lambda>ds r. Option.bind r (txchr_ct m env (hexch_ct num ds))) dss (Some c)"

definition txhex_ct :: "'c zipcpu \<Rightarrow> env \<Rightarrow> u32 \<Rightarrow> 'c console \<Rightarrow> 'c console option" where
  "txhex_ct m env num = txdigits_ct m env num [28, 24, 20, 16, 12, 8, 4, 0]"

definition tx4hex_ct :: "'c zipcpu \<Rightarrow> env \<Rightarrow> u32 \<Rightarrow> 'c console \<Rightarrow> 'c console option" where
  "tx4hex_ct m env num =
    (if num AND 0xffff0000 \<noteq> 0 then txhex_ct m env num else txdigits_ct m env num [12, 8, 4, 0])"

definition crlf :: string where
  "crlf = [CHR 0x0D, CHR 0x0A]"

definition txreg_ct :: "'c zipcpu \<Rightarrow> env \<Rightarrow> string \<Rightarrow> u32 \<Rightarrow> 'c console \<Rightarrow> 'c console option" where
  "txreg_ct m env name val c =
    do {
      c \<leftarrow> txstr_ct m env (cstring name) c;
      c \<leftarrow> txstr_ct m env (cstring ''0x'') c;
      c \<leftarrow> txhex_ct m env val c;
      txstr_ct m env (cstring ''    '') c
    }"

section \<open>The high words of products\<close>

definition debugmpy :: "'c zipcpu \<Rightarrow> env \<Rightarrow> string \<Rightarrow> u32 \<Rightarrow> u32 \<Rightarrow> u32 \<Rightarrow> u32 \<Rightarrow> 'c console \<Rightarrow> 'c console option" where
  "debugmpy m env str a b s r =
    (\<lambda>(c, h). do {
      let c = (c, wr SCOPE_CTRL TRIGGER_SCOPE_NOW h);
      c \<leftarrow> txstr_ct m env (cstring crlf) c;
      c \<leftarrow> txstr_ct m env (cstring str) c;
      c \<leftarrow> txhex_ct m env a c;
      c \<leftarrow> txstr_ct m env (cstring '' x '') c;
      c \<leftarrow> txhex_ct m env b c;
      c \<leftarrow> txstr_ct m env (cstring '' = '') c;
      c \<leftarrow> txhex_ct m env s c;
      c \<leftarrow> txstr_ct m env (cstring ''(Soft) = '') c;
      c \<leftarrow> txhex_ct m env r c;
      txstr_ct m env (cstring (''(Hard)'' @ crlf)) c
    })"

text \<open>The two instructions under test are the arguments \<open>hard_mpyuhi\<close> and \<open>hard_mpyshi\<close>.\<close>

function mpyhi_loop :: "(u32 \<Rightarrow> u32 \<Rightarrow> u32) \<Rightarrow> (u32 \<Rightarrow> u32 \<Rightarrow> u32) \<Rightarrow> 'c zipcpu \<Rightarrow> env \<Rightarrow> u32 \<Rightarrow> u32 \<Rightarrow> 'c console
    \<Rightarrow> (u32 \<times> 'c console) option" where
  "mpyhi_loop hard_mpyuhi hard_mpyshi m env a b c =
    (if b <s 0x6fffffff then
       let sr = soft_mpyuhi a b; r = hard_mpyuhi a b
       in if r \<noteq> sr then map_option (Pair 1) (debugmpy m env ''MPYUHI: '' a b sr r c)
          else
            let sr = soft_mpyshi a b; r = hard_mpyshi a b
            in if r \<noteq> sr then map_option (Pair 2) (debugmpy m env ''MPYSHI: '' a b sr r c)
               else
                 let sr = soft_mpyshi (- a) b; r = hard_mpyshi (- a) b
                 in if r \<noteq> sr then map_option (Pair 3) (debugmpy m env ''MPYSHI-NEG: '' (- a) b sr r c)
                    else mpyhi_loop hard_mpyuhi hard_mpyshi m env a (b + 0x197e2 * 7) c
     else Some (0, c))"
  by pat_completeness auto

lemma mpyhi_step: "sint (b + 730926) = sint b + 730926" if "b <s 0x6fffffff" for b :: u32
proof (cases "unat b < 2 ^ 31")
  case True
  then have "unat b < 0x6fffffff"
    using that by (simp add: sless_u32_small)
  moreover from this have "unat (b + 730926) = unat b + 730926"
    by (intro unat_sum_small [THEN trans]) simp_all
  ultimately show ?thesis
    by (simp add: sint_u32_nat del: of_nat_unat)
next
  case False
  then show ?thesis
    using unat_u32_less [of b] by (simp add: sint_u32_nat unat_plus_if' del: of_nat_unat) linarith
qed

termination mpyhi_loop
  by (relation "measure (\<lambda>(_, _, _, _, _, b, _). nat (0x70000000 - sint b))")
    (auto simp: mpyhi_step word_sless_alt)

definition mpyhi_test :: "(u32 \<Rightarrow> u32 \<Rightarrow> u32) \<Rightarrow> (u32 \<Rightarrow> u32 \<Rightarrow> u32) \<Rightarrow> 'c zipcpu \<Rightarrow> env \<Rightarrow> 'c console \<Rightarrow> (u32 \<times> 'c console) option" where
  "mpyhi_test hard_mpyuhi hard_mpyshi m env = mpyhi_loop hard_mpyuhi hard_mpyshi m env 0xf97e27ab 0"

section \<open>Arguments of a function\<close>

definition multiarg_subroutine :: "u32 \<Rightarrow> u32 \<Rightarrow> u32 \<Rightarrow> u32 \<Rightarrow> u32 \<Rightarrow> u32 \<Rightarrow> u32 \<Rightarrow> u32" where
  "multiarg_subroutine a b c d e f g =
    (if a \<noteq> 0 then 1 else if b \<noteq> 1 then 2 else if c \<noteq> 2 then 4 else if d \<noteq> 3 then 8 else if e \<noteq> 4 then 16
     else if f \<noteq> 5 then 32 else if g \<noteq> 6 then 64 else 0)"

definition multiarg_test :: u32 where
  "multiarg_test = multiarg_subroutine 0 1 2 3 4 5 6"

section \<open>The program\<close>

text \<open>\<open>testlist\<close>, the console, and the local variables of \<open>entry\<close> that live across tests.\<close>

record 'c cputest =
  testlist :: "u32 list"
  console :: "'c console"
  tnum :: nat
  start_time :: u32
  context_ct :: "nat \<Rightarrow> u32"

type_synonym 'c cmd = "'c cputest \<Rightarrow> ('c cputest + 'c cputest) option"

fun run_all :: "'c cmd list \<Rightarrow> 'c cmd" where
  "run_all [] s = Some (Inr s)"
| "run_all (p # ps) s = (case p s of Some (Inr s1) \<Rightarrow> run_all ps s1 | r \<Rightarrow> r)"

definition print_ct :: "('c console \<Rightarrow> 'c console option) \<Rightarrow> 'c cmd" where
  "print_ct f s = map_option (\<lambda>c. Inr (s\<lparr>console := c\<rparr>)) (f (console s))"

definition say :: "'c zipcpu \<Rightarrow> env \<Rightarrow> string \<Rightarrow> 'c cmd" where
  "say m env str = print_ct (txstr_ct m env (cstring str))"

definition mark_start :: "env \<Rightarrow> 'c cmd" where
  "mark_start env s =
    (let (c, h) = console s; (t, h1) = rd env IO_TIMER h in Some (Inr (s\<lparr>start_time := t, console := (c, h1)\<rparr>)))"

text \<open>A line of the core dump.\<close>

definition dump_regs :: "'c zipcpu \<Rightarrow> env \<Rightarrow> (nat \<Rightarrow> u32) \<Rightarrow> (string \<times> nat) list \<Rightarrow> string \<Rightarrow> 'c console \<Rightarrow> 'c console option" where
  "dump_regs m env regs rs eol c =
    Option.bind (fold (\<lambda>(name, i) r. Option.bind r (txreg_ct m env name (regs i))) rs (Some c)) (txstr_ct m env (cstring eol))"

definition core_dump :: "'c zipcpu \<Rightarrow> env \<Rightarrow> (nat \<Rightarrow> u32) \<Rightarrow> u32 \<Rightarrow> u32 \<Rightarrow> 'c console \<Rightarrow> 'c console option" where
  "core_dump m env regs t0 t1 c =
    do {
      c \<leftarrow> txstr_ct m env (cstring (''FAIL!'' @ crlf @ crlf)) c;
      c \<leftarrow> txstr_ct m env (cstring ''Between 0x'') c;
      c \<leftarrow> txhex_ct m env t0 c;
      c \<leftarrow> txstr_ct m env (cstring '' and 0x'') c;
      c \<leftarrow> txhex_ct m env t1 c;
      c \<leftarrow> txstr_ct m env (cstring (crlf @ crlf)) c;
      c \<leftarrow> txstr_ct m env (cstring (''Core-dump:'' @ crlf)) c;
      c \<leftarrow> dump_regs m env regs [(''uR0 : '', 0), (''uR1 : '', 1), (''uR2 : '', 2), (''uR3 : '', 3)] crlf c;
      c \<leftarrow> dump_regs m env regs [(''uR4 : '', 4), (''uR5 : '', 5), (''uR6 : '', 6), (''uR7 : '', 7)] crlf c;
      c \<leftarrow> dump_regs m env regs [(''uR8 : '', 8), (''uR9 : '', 9), (''uR10: '', 10), (''uR11: '', 11)] crlf c;
      dump_regs m env regs [(''uR12: '', 12), (''uSP : '', 13), (''uCC : '', 14), (''uPC : '', 15)] (crlf @ crlf) c
    }"

definition test_fails :: "'c zipcpu \<Rightarrow> env \<Rightarrow> 'c cmd" where
  "test_fails m env s =
    do {
      let (c, h) = console s;
      let h1 = wr SCOPE_CTRL TRIGGER_SCOPE_NOW h;
      let (stop_time, h2) = rd env IO_TIMER h1;
      let regs = user_reg m c;
      list \<leftarrow> (if tnum s + 2 < length (testlist s)
        then Some ((testlist s)[tnum s := regs 1, tnum s + 1 := regs 14, tnum s + 2 := regs 15]) else None);
      con \<leftarrow> core_dump m env regs (start_time s) stop_time (c, h2);
      con \<leftarrow> wait_for_uart_idle env con;
      Some (Inl (s\<lparr>testlist := list, console := con\<rparr>))
    }"

fun pad :: "'c zipcpu \<Rightarrow> env \<Rightarrow> nat \<Rightarrow> 'c console \<Rightarrow> 'c console option" where
  "pad m env 0 c = Some c"
| "pad m env (Suc i) c = do { c1 \<leftarrow> txchr_ct m env 32 c; pad m env i c1 }"

definition testid :: "'c zipcpu \<Rightarrow> env \<Rightarrow> string \<Rightarrow> 'c cmd" where
  "testid m env str = print_ct (\<lambda>c. do { c \<leftarrow> txstr_ct m env (cstring str) c; pad m env (32 - length str) c })"

text \<open>\<open>txstr("Pass\r\n"); testlist[tnum++] = 0;\<close>\<close>

definition pass :: "'c zipcpu \<Rightarrow> env \<Rightarrow> 'c cmd" where
  "pass m env s =
    do {
      c \<leftarrow> txstr_ct m env (cstring (''Pass'' @ crlf)) (console s);
      if tnum s < length (testlist s)
        then Some (Inr (s\<lparr>console := c, testlist := (testlist s)[tnum s := 0], tnum := tnum s + 1\<rparr>)) else None
    }"

text \<open>\<open>if ((run_test(pc, user_stack_ptr))||(zip_ucc()&cc_fail)) test_fails(start_time, &testlist[tnum]);\<close>\<close>

definition run_check :: "'c zipcpu \<Rightarrow> env \<Rightarrow> code \<Rightarrow> u32 \<Rightarrow> 'c cmd" where
  "run_check m env pc cc_fail s =
    do {
      (r, c) \<leftarrow> run_test m pc (console s);
      let s = s\<lparr>console := c\<rparr>;
      if r \<noteq> 0 \<or> zip_ucc m (fst c) AND cc_fail \<noteq> 0 then test_fails m env s else Some (Inr s)
    }"

text \<open>\<open>save_context(context)\<close>, and a condition on the registers and flags under which the test fails.\<close>

definition save_ctx :: "'c zipcpu \<Rightarrow> 'c cmd" where
  "save_ctx m s = Some (Inr (s\<lparr>context_ct := user_reg m (fst (console s))\<rparr>))"

definition fail_if :: "'c zipcpu \<Rightarrow> env \<Rightarrow> ('c cputest \<Rightarrow> bool) \<Rightarrow> 'c cmd" where
  "fail_if m env p s = (if p s then test_fails m env s else Some (Inr s))"

definition plain_test :: "'c zipcpu \<Rightarrow> env \<Rightarrow> string \<Rightarrow> code \<Rightarrow> 'c cmd list" where
  "plain_test m env name pc = [testid m env name, mark_start env, run_check m env pc CC_EXCEPTION, pass m env]"

definition sim_section :: "'c zipcpu \<Rightarrow> env \<Rightarrow> 'c cmd list" where
  "sim_section m env =
    [testid m env ''SIM Instructions'', mark_start env,
     run_check m env C_sim_test (CC_MMUERR OR CC_FPUERR OR CC_DIVERR OR CC_BUSERR OR CC_TRAP OR CC_STEP OR CC_SLEEP),
     \<lambda>s. if zip_ucc m (fst (console s)) AND CC_ILL \<noteq> 0 then pass m env s
         else say m env (''Is this a simulator?'' @ crlf) s]"

definition cis_section :: "'c zipcpu \<Rightarrow> env \<Rightarrow> 'c cmd list" where
  "cis_section m env =
    [testid m env ''CIS Instructions'', mark_start env,
     run_check m env C_cis_test (CC_MMUERR OR CC_FPUERR OR CC_DIVERR OR CC_BUSERR OR CC_STEP OR CC_SLEEP),
     \<lambda>s. if zip_ucc m (fst (console s)) AND CC_ILL \<noteq> 0 then say m env (''Not supported'' @ crlf) s
         else say m env (''Supported'' @ crlf) s]"

definition break_one_section :: "'c zipcpu \<Rightarrow> env \<Rightarrow> 'c cmd list" where
  "break_one_section m env =
    [testid m env ''Break test #1'', mark_start env,
     run_check m env C_break_one
       (CC_MMUERR OR CC_FPUERR OR CC_DIVERR OR CC_BUSERR OR CC_TRAP OR CC_ILL OR CC_STEP OR CC_SLEEP),
     save_ctx m,
     fail_if m env (\<lambda>s. context_ct s 15 \<noteq> code_addr m C_break_one + 4 \<or> zip_ucc m (fst (console s)) AND CC_BREAK = 0),
     pass m env]"

definition break_two_section :: "'c zipcpu \<Rightarrow> env \<Rightarrow> 'c cmd list" where
  "break_two_section m env =
    [testid m env ''Break test #2'', mark_start env,
     run_check m env C_break_two
       (CC_MMUERR OR CC_FPUERR OR CC_DIVERR OR CC_BUSERR OR CC_ILL OR CC_BREAK OR CC_STEP OR CC_SLEEP),
     pass m env]"

text \<open>Here the value that the test returns is not looked at.\<close>

definition break_three_section :: "'c zipcpu \<Rightarrow> env \<Rightarrow> 'c cmd list" where
  "break_three_section m env =
    [testid m env ''Break test #3'', mark_start env,
     \<lambda>s. map_option (\<lambda>(r, c). Inr (s\<lparr>console := c\<rparr>)) (run_test m C_break_three (console s)),
     save_ctx m,
     fail_if m env (\<lambda>s. context_ct s 15 \<noteq> code_addr m C_break_three \<or> zip_ucc m (fst (console s)) AND CC_BREAK = 0
       \<or> zip_ucc m (fst (console s)) AND (CC_FAULT OR CC_MMUERR OR CC_TRAP OR CC_STEP OR CC_SLEEP) \<noteq> 0),
     pass m env]"

definition trap_test :: "'c zipcpu \<Rightarrow> env \<Rightarrow> string \<Rightarrow> code \<Rightarrow> 'c cmd list" where
  "trap_test m env name pc =
    [testid m env name, mark_start env, run_check m env pc CC_EXCEPTION,
     fail_if m env (\<lambda>s. zip_ucc m (fst (console s)) AND 0x0200 = 0), pass m env]"

definition null_section :: "'c zipcpu \<Rightarrow> env \<Rightarrow> 'c cmd list" where
  "null_section m env =
    [testid m env ''Ill Instruction test, NULL PC'', mark_start env,
     \<lambda>s. do {
       (r, c) \<leftarrow> run_test m C_null (console s);
       fail_if m env (\<lambda>_. r \<noteq> 0 \<or> (zip_ucc m (fst c) XOR CC_ILL) AND CC_EXCEPTION \<noteq> 0) (s\<lparr>console := c\<rparr>)
     },
     pass m env]"

definition ill_section :: "'c zipcpu \<Rightarrow> env \<Rightarrow> 'c cmd list" where
  "ill_section m env =
    [testid m env ''Ill Instruction test, two'', mark_start env,
     run_check m env C_ill_test (CC_BUSERR OR CC_DIVERR OR CC_FPUERR OR CC_BREAK OR CC_MMUERR),
     save_ctx m, fail_if m env (\<lambda>s. context_ct s 15 \<noteq> code_addr m C_ill_test), pass m env]"

definition div_section :: "'c zipcpu \<Rightarrow> env \<Rightarrow> 'c cmd list" where
  "div_section m env =
    [testid m env ''Divide test'',
     \<lambda>s. if zip_cc m (fst (console s)) AND 0x20000000 = 0 then say m env (''No divide unit installed'' @ crlf) s
         else run_all [mark_start env, run_check m env C_div_test CC_EXCEPTION] s,
     pass m env]"

text \<open>The tests between the traps and the illegal instructions, and those after them.\<close>

definition pipe_tests :: "(string \<times> code) list" where
  "pipe_tests =
    [(''Overflow test'', C_overflow_test), (''Carry test'', C_carry_test), (''Loop test'', C_loop_test),
     (''Shift test'', C_shift_test), (''Pipeline test'', C_pipeline_test), (''Mem-Pipeline test'', C_mempipe_test),
     (''Conditional Execution test'', C_cexec_test), (''No-waiting pipeline test'', C_nowaitpipe_test),
     (''Conditional Branching test'', C_bcmem_test)]"

definition arith_tests :: "(string \<times> code) list" where
  "arith_tests =
    [(''Comparison test, =='', C_cmpeq_test), (''Comparison test, !='', C_cmpneq_test), (''CC Register test'', C_ccreg_test),
     (''Multi-Arg test'', C_multiarg_test), (''Multiply test'', C_mpy_test), (''Multiply HI-word test'', C_mpyhi_test)]"

definition entry_start :: "'c zipcpu \<Rightarrow> env \<Rightarrow> 'c cmd list" where
  "entry_start m env =
    [\<lambda>s. Some (Inr (s\<lparr>testlist := replicate 32 (- 1)\<rparr>)),
     print_ct (\<lambda>(c, h). Some (c, wr SCOPE_CTRL PREPARE_SCOPE (wr IO_TIMER 0x7fffffff h))),
     say m env crlf, say m env (''Running CPU self-test'' @ crlf), say m env (''-----------------------------------'' @ crlf),
     \<lambda>s. Some (Inr (s\<lparr>tnum := 0\<rparr>))]"

definition entry_end :: "'c zipcpu \<Rightarrow> env \<Rightarrow> 'c cmd list" where
  "entry_end m env =
    [say m env crlf, say m env (''-----------------------------------'' @ crlf),
     say m env (''All tests passed.  Halting CPU.'' @ crlf), print_ct (wait_for_uart_idle env)]"

definition tests :: "'c zipcpu \<Rightarrow> env \<Rightarrow> 'c cmd list list" where
  "tests m env =
    [break_one_section m env, break_two_section m env, break_three_section m env,
     plain_test m env ''Early Branch test'' C_early_branch_test,
     trap_test m env ''Trap test/AND'' C_trap_test_and, trap_test m env ''Trap test/CLR'' C_trap_test_clr] @
    map (\<lambda>(name, pc). plain_test m env name pc) pipe_tests @
    [null_section m env, ill_section m env] @
    map (\<lambda>(name, pc). plain_test m env name pc) arith_tests @
    [div_section m env]"

definition entry_ct :: "'c zipcpu \<Rightarrow> env \<Rightarrow> 'c cmd" where
  "entry_ct m env =
    run_all (entry_start m env @ sim_section m env @ cis_section m env @ concat (tests m env) @ entry_end m env)"

section \<open>The test of the high words\<close>

declare mpyhi_loop.simps [simp del]

lemma mpyhi_loop_soft: "mpyhi_loop soft_mpyuhi soft_mpyshi m env a b c = Some (0, c)"
proof (induction "soft_mpyuhi" "soft_mpyshi" m env a b c rule: mpyhi_loop.induct)
  case (1 m env a b c)
  then show ?case
    by (subst mpyhi_loop.simps) (simp add: Let_def)
qed

lemma mpyhi_test_agrees:
  assumes "\<And>a b. hu a b = ucast (drop_bit 32 (ucast a * ucast b :: u64))"
    and "\<And>a b. hs a b = word_of_int (sint a * sint b div 2 ^ 32)"
  shows "mpyhi_test hu hs m env c = Some (0, c)"
proof -
  have "hu = soft_mpyuhi" "hs = soft_mpyshi"
    by (intro ext, simp only: assms soft_mpyuhi_high soft_mpyshi_high)+
  then show ?thesis
    by (simp add: mpyhi_test_def mpyhi_loop_soft)
qed

section \<open>Output\<close>

lemma wait_ct_written: "wait_ct m msk (c, h) = Some (c', h') \<Longrightarrow> written IO_UART h' = written IO_UART h"
  by (auto simp: wait_ct_def Let_def wr_def bind_eq_Some_conv)

lemma txchr_ct_written:
  "txchr_ct m env v (c, h) = Some (c', h') \<Longrightarrow> written IO_UART h' = written IO_UART h @ [ucast v]"
  by (auto simp: txchr_ct_def bind_eq_Some_conv Let_def rd_def wr_def split: if_splits
      dest!: uart_wait_written [where r = IO_UART] wait_ct_written)

lemma txstr_ct_written:
  "txstr_ct m env str (c, h) = Some (c', h') \<Longrightarrow>
    written IO_UART h' = written IO_UART h @ map ucast (takeWhile (\<lambda>v. v \<noteq> 0) str)"
proof (induction str arbitrary: c h)
  case (Cons v str)
  then show ?case
    by (auto simp: bind_eq_Some_conv split: if_splits dest!: txchr_ct_written)
qed simp

text \<open>Output only ever adds to what the transmitter was sent.\<close>

definition extends :: "('c console \<Rightarrow> 'c console option) \<Rightarrow> bool" where
  "extends f \<longleftrightarrow> (\<forall>c c'. f c = Some c' \<longrightarrow> (\<exists>x. written IO_UART (snd c') = written IO_UART (snd c) @ x))"

lemma extends_bind [intro!]: "extends f \<Longrightarrow> extends g \<Longrightarrow> extends (\<lambda>c. Option.bind (f c) g)"
  unfolding extends_def by (fastforce simp: bind_eq_Some_conv)

lemma extends_Some [intro!]: "extends Some"
  unfolding extends_def by simp

lemma extends_txchr_ct [intro!]: "extends (txchr_ct m env v)"
  unfolding extends_def by (auto dest: txchr_ct_written)

lemma extends_txstr_ct [intro!]: "extends (txstr_ct m env str)"
  unfolding extends_def by (auto dest: txstr_ct_written)

lemma fold_bind_None [simp]: "fold (\<lambda>x r. Option.bind r (f x)) xs None = None"
  by (induction xs) simp_all

lemma extends_fold:
  assumes "\<And>x. x \<in> set xs \<Longrightarrow> extends (f x)"
  shows "extends (\<lambda>c. fold (\<lambda>x r. Option.bind r (f x)) xs (Some c))"
  using assms
proof (induction xs)
  case Nil
  then show ?case by auto
next
  case (Cons x xs)
  have "fold (\<lambda>x r. Option.bind r (f x)) xs r = Option.bind r (\<lambda>c. fold (\<lambda>x r. Option.bind r (f x)) xs (Some c))" for r
    by (cases r) simp_all
  from this [of "f x _"] have "fold (\<lambda>x r. Option.bind r (f x)) (x # xs) (Some c) =
      Option.bind (f x c) (\<lambda>c. fold (\<lambda>x r. Option.bind r (f x)) xs (Some c))" for c
    by simp
  then show ?case
    by (simp only:) (intro extends_bind Cons, simp_all add: Cons.prems)
qed

lemma extends_txhex_ct [intro!]: "extends (txhex_ct m env num)"
  unfolding txhex_ct_def [abs_def] txdigits_ct_def by (intro extends_fold extends_txchr_ct)

lemma extends_txreg_ct [intro!]: "extends (txreg_ct m env name v)"
  unfolding txreg_ct_def [abs_def] by (intro extends_bind extends_txstr_ct extends_txhex_ct)

lemma extends_dump_regs [intro!]: "extends (dump_regs m env regs rs eol)"
  unfolding dump_regs_def [abs_def] case_prod_beta by (intro extends_bind extends_txstr_ct extends_fold extends_txreg_ct)

lemma core_dump_written:
  assumes "core_dump m env regs t0 t1 c = Some c'"
  shows "\<exists>x. written IO_UART (snd c') = written IO_UART (snd c) @ map ucast (cstring (''FAIL!'' @ crlf @ crlf)) @ x"
proof -
  define rest where "rest = (\<lambda>c. do {
      c \<leftarrow> txstr_ct m env (cstring ''Between 0x'') c;
      c \<leftarrow> txhex_ct m env t0 c;
      c \<leftarrow> txstr_ct m env (cstring '' and 0x'') c;
      c \<leftarrow> txhex_ct m env t1 c;
      c \<leftarrow> txstr_ct m env (cstring (crlf @ crlf)) c;
      c \<leftarrow> txstr_ct m env (cstring (''Core-dump:'' @ crlf)) c;
      c \<leftarrow> dump_regs m env regs [(''uR0 : '', 0), (''uR1 : '', 1), (''uR2 : '', 2), (''uR3 : '', 3)] crlf c;
      c \<leftarrow> dump_regs m env regs [(''uR4 : '', 4), (''uR5 : '', 5), (''uR6 : '', 6), (''uR7 : '', 7)] crlf c;
      c \<leftarrow> dump_regs m env regs [(''uR8 : '', 8), (''uR9 : '', 9), (''uR10: '', 10), (''uR11: '', 11)] crlf c;
      dump_regs m env regs [(''uR12: '', 12), (''uSP : '', 13), (''uCC : '', 14), (''uPC : '', 15)] (crlf @ crlf) c
    })"
  have "extends rest"
    unfolding rest_def by (intro extends_bind extends_txstr_ct extends_txhex_ct extends_dump_regs)
  moreover obtain c1 where "txstr_ct m env (cstring (''FAIL!'' @ crlf @ crlf)) c = Some c1" "rest c1 = Some c'"
    using assms unfolding core_dump_def rest_def by (auto simp: bind_eq_Some_conv)
  moreover from this have "written IO_UART (snd c1) = written IO_UART (snd c) @ map ucast (cstring (''FAIL!'' @ crlf @ crlf))"
    using txstr_ct_written [of m env "cstring (''FAIL!'' @ crlf @ crlf)" "fst c" "snd c" "fst c1" "snd c1"]
    by (simp add: cstring_def crlf_def del: txstr_ct.simps)
  ultimately show ?thesis
    unfolding extends_def by fastforce
qed

section \<open>Every run ends\<close>

text \<open>The processor finishes every test, an interrupt ends every wait, and the transmitter becomes ready.\<close>

definition responsive :: "'c zipcpu \<Rightarrow> env \<Rightarrow> bool" where
  "responsive m env \<longleftrightarrow> (\<forall>t c. run_test m t c \<noteq> None) \<and> (\<forall>h c. wait_insn m h c \<noteq> None) \<and> polls_end env"

definition total :: "('c console \<Rightarrow> 'c console option) \<Rightarrow> bool" where
  "total f \<longleftrightarrow> (\<forall>c. f c \<noteq> None)"

lemma totalI: "(\<And>c. \<exists>c'. f c = Some c') \<Longrightarrow> total f"
  unfolding total_def by (metis option.distinct(1))

lemma totalE:
  assumes "total f"
  obtains c' where "f c = Some c'"
  using assms unfolding total_def by blast

lemma total_bind: "total f \<Longrightarrow> total g \<Longrightarrow> total (\<lambda>c. Option.bind (f c) g)"
  unfolding total_def by (fastforce simp: bind_eq_Some_conv)

lemma total_fold:
  assumes "\<And>x. x \<in> set xs \<Longrightarrow> total (f x)"
  shows "total (\<lambda>c. fold (\<lambda>x r. Option.bind r (f x)) xs (Some c))"
  using assms
proof (induction xs)
  case Nil
  then show ?case by (simp add: total_def)
next
  case (Cons x xs)
  have "total (f x)" "total (\<lambda>c. fold (\<lambda>x r. Option.bind r (f x)) xs (Some c))"
    using Cons by simp_all
  then have "\<exists>c'. fold (\<lambda>x r. Option.bind r (f x)) (x # xs) (Some c) = Some c'" for c
  proof -
    obtain c1 where c1: "f x c = Some c1"
      using \<open>total (f x)\<close> by (rule totalE)
    obtain c2 where "fold (\<lambda>x r. Option.bind r (f x)) xs (Some c1) = Some c2"
      using \<open>total (\<lambda>c. fold (\<lambda>x r. Option.bind r (f x)) xs (Some c))\<close> by (rule totalE)
    with c1 show ?thesis by simp
  qed
  then show ?case
    by (rule totalI)
qed

lemma total_uart_wait: "responsive m env \<Longrightarrow> \<exists>h'. uart_wait env h = Some h'"
  using uart_wait_polls unfolding responsive_def polls_end_def by (metis option.exhaust)

lemma total_txchr_ct: "responsive m env \<Longrightarrow> total (txchr_ct m env v)"
proof (rule totalI)
  fix c :: "'a console"
  assume r: "responsive m env"
  obtain pic h1 where rd: "rd env IO_PIC (snd c) = (pic, h1)"
    by (cases "rd env IO_PIC (snd c)")
  obtain h2 where "uart_wait env (if pic AND INT_UARTTX \<noteq> 0 then wr IO_PIC INT_UARTTX h1 else h1) = Some h2"
    using total_uart_wait [OF r] by blast
  moreover obtain c2 where "wait_insn m (wr IO_PIC (0x80000000 OR push_bit 16 INT_UARTTX)
      (wr IO_PIC (0x7fff0000 OR INT_UARTTX) (snd c))) (set_idle m (fst c)) = Some c2"
    using r unfolding responsive_def by blast
  ultimately show "\<exists>c'. txchr_ct m env v c = Some c'"
    using rd unfolding txchr_ct_def wait_ct_def by (cases c) (simp add: Let_def)
qed

lemma total_wait_idle: "responsive m env \<Longrightarrow> total (wait_for_uart_idle env)"
proof (rule totalI)
  fix c :: "'b console"
  assume "responsive m env"
  then obtain h where "uart_wait env (wr IO_PIC INT_UARTTX (snd c)) = Some h"
    using total_uart_wait by blast
  then show "\<exists>c'. wait_for_uart_idle env c = Some c'"
    by (cases c) (simp add: wait_for_uart_idle_def)
qed

lemma total_txstr_ct:
  assumes "responsive m env"
  shows "total (txstr_ct m env str)"
proof (induction str)
  case Nil
  then show ?case by (simp add: total_def)
next
  case (Cons v str)
  then have "total (\<lambda>c. Option.bind (txchr_ct m env v c) (txstr_ct m env str))"
    using total_txchr_ct [OF assms] by (rule total_bind [rotated])
  then show ?case
    by (simp add: total_def)
qed

lemma total_core_dump: "responsive m env \<Longrightarrow> total (core_dump m env regs t0 t1)"
  unfolding core_dump_def [abs_def] dump_regs_def case_prod_beta txreg_ct_def txhex_ct_def txdigits_ct_def
  by (intro total_bind total_txstr_ct total_fold total_txchr_ct)

lemma total_pad: "responsive m env \<Longrightarrow> total (pad m env n)"
proof (induction n)
  case 0
  then show ?case by (simp add: total_def)
next
  case (Suc n)
  then have "total (\<lambda>c. Option.bind (txchr_ct m env 32 c) (pad m env n))"
    by (intro total_bind total_txchr_ct)
  then show ?case
    by (simp add: total_def)
qed

section \<open>The list of results\<close>

text \<open>The first \<open>n\<close> tests have passed; a test has failed after \<open>k\<close> passed ones, and the list holds three of its registers.\<close>

definition passed_first :: "nat \<Rightarrow> 'c cputest \<Rightarrow> bool" where
  "passed_first n s \<longleftrightarrow> tnum s = n \<and> n \<le> 32 \<and> testlist s = replicate n 0 @ replicate (32 - n) (- 1)"

definition stopped :: "'c cputest \<Rightarrow> bool" where
  "stopped s \<longleftrightarrow>
    (\<exists>k r cc pc. k \<le> 29 \<and> testlist s = replicate k 0 @ [r, cc, pc] @ replicate (29 - k) (- 1)) \<and>
    (\<exists>before after. written IO_UART (snd (console s)) = before @ map ucast (cstring (''FAIL!'' @ crlf @ crlf)) @ after)"

definition leads :: "'c cmd \<Rightarrow> nat \<Rightarrow> nat \<Rightarrow> bool" where
  "leads p n n' \<longleftrightarrow>
    (\<forall>s. passed_first n s \<longrightarrow>
      (\<exists>s'. p s = Some (Inr s') \<and> passed_first n' s') \<or> (\<exists>s'. p s = Some (Inl s') \<and> stopped s'))"

lemma leads_Nil: "leads (run_all []) n n"
  unfolding leads_def by simp

lemma leads_Cons: "leads p n k \<Longrightarrow> leads (run_all ps) k n' \<Longrightarrow> leads (run_all (p # ps)) n n'"
  unfolding leads_def by fastforce

lemma run_all_append: "run_all (ps @ qs) s = (case run_all ps s of Some (Inr s1) \<Rightarrow> run_all qs s1 | r \<Rightarrow> r)"
  by (induction ps s rule: run_all.induct) (auto split: option.splits sum.splits)

lemma leads_append: "leads (run_all ps) n k \<Longrightarrow> leads (run_all qs) k n' \<Longrightarrow> leads (run_all (ps @ qs)) n n'"
  unfolding leads_def run_all_append by fastforce

lemma leads_concat:
  assumes "\<And>ps n. ps \<in> set pss \<Longrightarrow> n \<le> 29 \<Longrightarrow> leads (run_all ps) n (n + 1)" and "n + length pss \<le> 30"
  shows "leads (run_all (concat pss)) n (n + length pss)"
  using assms
proof (induction pss arbitrary: n)
  case Nil
  then show ?case using leads_Nil by (simp del: run_all.simps)
next
  case (Cons ps pss)
  have "leads (run_all ps) n (n + 1)"
    by (rule Cons.prems) (use Cons.prems(2) in simp_all)
  moreover have "leads (run_all (concat pss)) (n + 1) (n + 1 + length pss)"
    by (rule Cons.IH) (use Cons.prems in simp_all)
  ultimately show ?case
    using leads_append by fastforce
qed

text \<open>A command that always goes on and leaves the list and its index alone.\<close>

definition silent :: "'c cmd \<Rightarrow> bool" where
  "silent p \<longleftrightarrow> (\<forall>s. \<exists>s'. p s = Some (Inr s') \<and> testlist s' = testlist s \<and> tnum s' = tnum s)"

lemma leads_silent: "silent p \<Longrightarrow> leads p n n"
  unfolding silent_def leads_def passed_first_def by metis

lemma silentE:
  assumes "silent p"
  obtains s' where "p s = Some (Inr s')" "testlist s' = testlist s" "tnum s' = tnum s"
  using assms unfolding silent_def by blast

lemma silent_run_all: "(\<And>p. p \<in> set ps \<Longrightarrow> silent p) \<Longrightarrow> silent (run_all ps)"
proof (induction ps)
  case Nil
  then show ?case by (simp add: silent_def)
next
  case (Cons p ps)
  have p: "silent p" and ps: "silent (run_all ps)"
    using Cons by simp_all
  show ?case
    unfolding silent_def
  proof
    fix s :: "'a cputest"
    obtain s1 where s1: "p s = Some (Inr s1)" "testlist s1 = testlist s" "tnum s1 = tnum s"
      using p by (rule silentE)
    obtain s2 where "run_all ps s1 = Some (Inr s2)" "testlist s2 = testlist s1" "tnum s2 = tnum s1"
      using ps by (rule silentE)
    with s1 show "\<exists>s'. run_all (p # ps) s = Some (Inr s') \<and> testlist s' = testlist s \<and> tnum s' = tnum s"
      by simp
  qed
qed

lemma silent_print_ct: "total f \<Longrightarrow> silent (print_ct f)"
  unfolding silent_def
proof
  fix s :: "'a cputest"
  assume "total f"
  then obtain c where "f (console s) = Some c"
    by (rule totalE)
  then show "\<exists>s'. print_ct f s = Some (Inr s') \<and> testlist s' = testlist s \<and> tnum s' = tnum s"
    by (simp add: print_ct_def)
qed

lemma silent_say: "responsive m env \<Longrightarrow> silent (say m env str)"
  unfolding say_def by (intro silent_print_ct total_txstr_ct)

lemma leads_say: "responsive m env \<Longrightarrow> leads (say m env str) n n"
  by (intro leads_silent silent_say)

lemma leads_testid: "responsive m env \<Longrightarrow> leads (testid m env str) n n"
  unfolding testid_def by (intro leads_silent silent_print_ct total_bind total_txstr_ct total_pad)

lemma leads_mark_start: "leads (mark_start env) n n"
  by (intro leads_silent) (auto simp: silent_def mark_start_def Let_def split: prod.splits)

lemma leads_save_ctx: "leads (save_ctx m) n n"
  by (intro leads_silent) (simp add: silent_def save_ctx_def)

lemma leads_pass: "responsive m env \<Longrightarrow> n \<le> 29 \<Longrightarrow> leads (pass m env) n (n + 1)"
  unfolding leads_def
proof (intro allI impI disjI1)
  fix s :: "'a cputest"
  assume r: "responsive m env" and n: "n \<le> 29" "passed_first n s"
  obtain c where "txstr_ct m env (cstring (''Pass'' @ crlf)) (console s) = Some c"
    using total_txstr_ct [OF r] by (rule totalE)
  moreover have "(replicate n 0 @ replicate (32 - n) (- 1))[n := 0 :: u32] = replicate (n + 1) 0 @ replicate (32 - (n + 1)) (- 1)"
  proof -
    have "replicate (32 - n) (- 1 :: u32) = - 1 # replicate (32 - (n + 1)) (- 1)"
      using n(1) by (simp flip: replicate_Suc)
    then show ?thesis
      by (simp add: list_update_append replicate_append_same)
  qed
  ultimately show "\<exists>s'. pass m env s = Some (Inr s') \<and> passed_first (n + 1) s'"
    using n unfolding passed_first_def by (simp add: pass_def)
qed

lemma test_fails_stopped:
  assumes r: "responsive m env" and n: "n \<le> 29" "passed_first n s"
  shows "\<exists>s'. test_fails m env s = Some (Inl s') \<and> stopped s'"
proof -
  define regs where "regs = user_reg m (fst (console s))"
  define h where "h = wr SCOPE_CTRL TRIGGER_SCOPE_NOW (snd (console s))"
  define t1 where "t1 = env h (QRd IO_TIMER)"
  obtain c1 where c1: "core_dump m env regs (start_time s) t1 (fst (console s), Rd IO_TIMER t1 # h) = Some c1"
    using total_core_dump [OF r] by (rule totalE)
  obtain c2 where c2: "wait_for_uart_idle env c1 = Some c2"
    using total_wait_idle [OF r] by (rule totalE)
  let ?list = "(testlist s)[n := regs 1, n + 1 := regs 14, n + 2 := regs 15]"
  have "replicate (32 - n) (- 1 :: u32) = - 1 # - 1 # - 1 # replicate (29 - n) (- 1)"
    using n(1) by (simp flip: replicate_Suc)
  then have list: "?list = replicate n 0 @ [regs 1, regs 14, regs 15] @ replicate (29 - n) (- 1)"
    using n(2) unfolding passed_first_def by (simp add: list_update_append)
  have "written IO_UART (snd c2) = written IO_UART (snd c1)"
    using c2 by (cases c1) (auto simp: wait_for_uart_idle_def wr_def dest: uart_wait_written [where r = IO_UART])
  then obtain x where "written IO_UART (snd c2) = written IO_UART h @ map ucast (cstring (''FAIL!'' @ crlf @ crlf)) @ x"
    using core_dump_written [OF c1] by auto
  moreover have "test_fails m env s = Some (Inl (s\<lparr>testlist := ?list, console := c2\<rparr>))"
    using c1 c2 n unfolding regs_def h_def t1_def passed_first_def
    by (simp add: test_fails_def rd_def Let_def case_prod_beta)
  ultimately show ?thesis
    using n(1) list by (intro exI [of _ "s\<lparr>testlist := ?list, console := c2\<rparr>"]) (auto simp: stopped_def)
qed

lemma leads_fail_if: "responsive m env \<Longrightarrow> n \<le> 29 \<Longrightarrow> leads (fail_if m env p) n n"
  unfolding leads_def fail_if_def using test_fails_stopped by fastforce

lemma passed_first_console: "passed_first n (s\<lparr>console := c\<rparr>) \<longleftrightarrow> passed_first n s"
  unfolding passed_first_def by simp

lemma leads_run:
  assumes r: "responsive m env" and q: "\<And>r c. leads (q r c) n n"
  shows "leads (\<lambda>s. Option.bind (run_test m pc (console s)) (\<lambda>(r, c). q r c (s\<lparr>console := c\<rparr>))) n n"
  unfolding leads_def
proof (intro allI impI)
  fix s :: "'a cputest"
  assume s: "passed_first n s"
  obtain v c where run: "run_test m pc (console s) = Some (v, c)"
    using r unfolding responsive_def by (metis option.exhaust prod.exhaust)
  have "passed_first n (s\<lparr>console := c\<rparr>)"
    using s by (simp add: passed_first_console)
  then show "(\<exists>s'. Option.bind (run_test m pc (console s)) (\<lambda>(r, c). q r c (s\<lparr>console := c\<rparr>)) = Some (Inr s') \<and> passed_first n s') \<or>
      (\<exists>s'. Option.bind (run_test m pc (console s)) (\<lambda>(r, c). q r c (s\<lparr>console := c\<rparr>)) = Some (Inl s') \<and> stopped s')"
    using q [of v c] unfolding leads_def run by simp
qed

lemma run_check_fail_if:
  "run_check m env pc cc_fail =
    (\<lambda>s. Option.bind (run_test m pc (console s)) (\<lambda>(r, c). fail_if m env (\<lambda>_. r \<noteq> 0 \<or> zip_ucc m (fst c) AND cc_fail \<noteq> 0) (s\<lparr>console := c\<rparr>)))"
  unfolding run_check_def [abs_def] fail_if_def Let_def by (rule refl)

lemma leads_run_check: "responsive m env \<Longrightarrow> n \<le> 29 \<Longrightarrow> leads (run_check m env pc cc_fail) n n"
  unfolding run_check_fail_if by (intro leads_run leads_fail_if)

lemmas leads_intros = leads_Cons leads_Nil leads_testid leads_mark_start leads_run_check leads_fail_if leads_save_ctx
  leads_pass leads_say

lemma leads_plain_test:
  "responsive m env \<Longrightarrow> n \<le> 29 \<Longrightarrow> leads (run_all (plain_test m env name pc)) n (n + 1)"
  unfolding plain_test_def by (rule leads_intros | assumption)+

lemma leads_trap_test: "responsive m env \<Longrightarrow> n \<le> 29 \<Longrightarrow> leads (run_all (trap_test m env name pc)) n (n + 1)"
  unfolding trap_test_def by (rule leads_intros | assumption)+

lemma leads_break_one: "responsive m env \<Longrightarrow> n \<le> 29 \<Longrightarrow> leads (run_all (break_one_section m env)) n (n + 1)"
  unfolding break_one_section_def by (rule leads_intros | assumption)+

lemma leads_break_two: "responsive m env \<Longrightarrow> n \<le> 29 \<Longrightarrow> leads (run_all (break_two_section m env)) n (n + 1)"
  unfolding break_two_section_def by (rule leads_intros | assumption)+

lemma silent_just_run:
  assumes "responsive m env"
  shows "silent (\<lambda>s. map_option (\<lambda>(r, c). Inr (s\<lparr>console := c\<rparr>)) (run_test m pc (console s)))"
  unfolding silent_def
proof
  fix s :: "'a cputest"
  obtain v c where "run_test m pc (console s) = Some (v, c)"
    using assms unfolding responsive_def by (metis option.exhaust prod.exhaust)
  then show "\<exists>s'. map_option (\<lambda>(r, c). Inr (s\<lparr>console := c\<rparr>)) (run_test m pc (console s)) = Some (Inr s') \<and>
      testlist s' = testlist s \<and> tnum s' = tnum s"
    by simp
qed

lemma leads_break_three: "responsive m env \<Longrightarrow> n \<le> 29 \<Longrightarrow> leads (run_all (break_three_section m env)) n (n + 1)"
  unfolding break_three_section_def by (rule leads_silent [OF silent_just_run] leads_intros | assumption)+

lemma leads_null: "responsive m env \<Longrightarrow> n \<le> 29 \<Longrightarrow> leads (run_all (null_section m env)) n (n + 1)"
  unfolding null_section_def by (rule leads_run leads_intros | assumption)+

lemma leads_ill: "responsive m env \<Longrightarrow> n \<le> 29 \<Longrightarrow> leads (run_all (ill_section m env)) n (n + 1)"
  unfolding ill_section_def by (rule leads_intros | assumption)+

lemma leads_if: "leads p n n' \<Longrightarrow> leads q n n' \<Longrightarrow> leads (\<lambda>s. if b s then p s else q s) n n'"
  unfolding leads_def by simp

lemma leads_div: "responsive m env \<Longrightarrow> n \<le> 29 \<Longrightarrow> leads (run_all (div_section m env)) n (n + 1)"
  unfolding div_section_def by (rule leads_if leads_intros | assumption)+

lemma leads_cis: "responsive m env \<Longrightarrow> n \<le> 29 \<Longrightarrow> leads (run_all (cis_section m env)) n n"
  unfolding cis_section_def by (rule leads_if leads_intros | assumption)+

lemma leads_tests:
  assumes r: "responsive m env" and n: "n \<le> 1"
  shows "leads (run_all (concat (tests m env))) n (n + 24)"
proof -
  have "leads (run_all ps) k (k + 1)" if "ps \<in> set (tests m env)" "k \<le> 29" for ps k
    using that leads_plain_test [OF r] leads_trap_test [OF r] leads_break_one [OF r] leads_break_two [OF r]
      leads_break_three [OF r] leads_null [OF r] leads_ill [OF r] leads_div [OF r]
    by (auto simp: tests_def)
  moreover have "length (tests m env) = 24"
    by (simp add: tests_def pipe_tests_def arith_tests_def)
  ultimately show ?thesis
    using leads_concat [of "tests m env" n] n by simp
qed

lemma entry_start_state:
  assumes "responsive m env"
  obtains s' where "run_all (entry_start m env) s = Some (Inr s')" "passed_first 0 s'"
proof -
  define ps where "ps = [print_ct (\<lambda>(c, h). Some (c, wr SCOPE_CTRL PREPARE_SCOPE (wr IO_TIMER 0x7fffffff h))),
    say m env crlf, say m env (''Running CPU self-test'' @ crlf), say m env (''-----------------------------------'' @ crlf)]"
  have "total (\<lambda>(c, h). Some (c, wr SCOPE_CTRL PREPARE_SCOPE (wr IO_TIMER 0x7fffffff h)))"
    unfolding total_def by (simp add: case_prod_beta)
  then have "silent (run_all ps)"
    unfolding ps_def by (intro silent_run_all) (auto intro: silent_print_ct silent_say [OF assms])
  then obtain s1 where "run_all ps (s\<lparr>testlist := replicate 32 (- 1)\<rparr>) = Some (Inr s1)" "testlist s1 = replicate 32 (- 1)"
    by (rule silentE [of _ "s\<lparr>testlist := replicate 32 (- 1)\<rparr>"]) simp
  moreover have "entry_start m env = (\<lambda>s. Some (Inr (s\<lparr>testlist := replicate 32 (- 1)\<rparr>))) # ps @ [\<lambda>s. Some (Inr (s\<lparr>tnum := 0\<rparr>))]"
    unfolding entry_start_def ps_def by simp
  ultimately have "run_all (entry_start m env) s = Some (Inr (s1\<lparr>tnum := 0\<rparr>))" "passed_first 0 (s1\<lparr>tnum := 0\<rparr>)"
    by (simp_all add: run_all_append passed_first_def)
  then show thesis by (rule that)
qed

lemma entry_end_state:
  assumes "responsive m env"
  shows "\<exists>s' x. run_all (entry_end m env) s = Some (Inr s') \<and> testlist s' = testlist s \<and>
    written IO_UART (snd (console s')) = x @ map ucast (cstring (''All tests passed.  Halting CPU.'' @ crlf))"
proof -
  let ?msg = "''All tests passed.  Halting CPU.'' @ crlf"
  define ps where "ps = [say m env crlf, say m env (''-----------------------------------'' @ crlf)]"
  have "silent (run_all ps)"
    unfolding ps_def by (intro silent_run_all) (auto intro: silent_say [OF assms])
  then obtain s1 where s1: "run_all ps s = Some (Inr s1)" "testlist s1 = testlist s"
    by (rule silentE)
  obtain c2 where c2: "txstr_ct m env (cstring ?msg) (console s1) = Some c2"
    using total_txstr_ct [OF assms] by (rule totalE)
  have all: "takeWhile (\<lambda>v. v \<noteq> 0) (cstring ?msg) = cstring ?msg"
    by (simp add: cstring_def crlf_def)
  have w2: "written IO_UART (snd c2) = written IO_UART (snd (console s1)) @ map ucast (cstring ?msg)"
    using txstr_ct_written [of m env "cstring ?msg" "fst (console s1)" "snd (console s1)" "fst c2" "snd c2"] c2
    unfolding all by (simp only: prod.collapse)
  obtain c3 where c3: "wait_for_uart_idle env c2 = Some c3"
    using total_wait_idle [OF assms] by (rule totalE)
  then have "written IO_UART (snd c3) = written IO_UART (snd c2)"
    by (cases c2) (auto simp: wait_for_uart_idle_def wr_def dest: uart_wait_written [where r = IO_UART])
  moreover have "run_all (entry_end m env) s = Some (Inr (s1\<lparr>console := c3\<rparr>))"
  proof -
    have "entry_end m env = ps @ [say m env ?msg, print_ct (wait_for_uart_idle env)]"
      unfolding entry_end_def ps_def by simp
    moreover have "run_all [say m env ?msg, print_ct (wait_for_uart_idle env)] s1 = Some (Inr (s1\<lparr>console := c3\<rparr>))"
      using c2 c3 unfolding say_def print_ct_def run_all.simps by simp
    ultimately show ?thesis
      using s1 by (simp only: run_all_append option.case sum.case)
  qed
  ultimately show ?thesis
    using s1(2) w2 by (intro exI [of _ "s1\<lparr>console := c3\<rparr>"] exI [of _ "written IO_UART (snd (console s1))"]) simp
qed

lemma sim_state:
  assumes r: "responsive m env" and s: "passed_first 0 s"
  shows "(\<exists>s' n. run_all (sim_section m env) s = Some (Inr s') \<and> n \<le> 1 \<and> passed_first n s') \<or>
    (\<exists>s'. run_all (sim_section m env) s = Some (Inl s') \<and> stopped s')"
proof -
  define b where "b s \<longleftrightarrow> zip_ucc m (fst (console s)) AND CC_ILL \<noteq> 0" for s :: "'a cputest"
  define ps where "ps = [testid m env ''SIM Instructions'', mark_start env,
     run_check m env C_sim_test (CC_MMUERR OR CC_FPUERR OR CC_DIVERR OR CC_BUSERR OR CC_TRAP OR CC_STEP OR CC_SLEEP)]"
  have sim: "sim_section m env = ps @ [\<lambda>s. if b s then pass m env s else say m env (''Is this a simulator?'' @ crlf) s]"
    unfolding sim_section_def ps_def b_def by simp
  have "leads (run_all ps) 0 0"
    unfolding ps_def by (rule leads_intros r le0)+
  then consider s1 where "run_all ps s = Some (Inr s1)" "passed_first 0 s1" | s1 where "run_all ps s = Some (Inl s1)" "stopped s1"
    using s unfolding leads_def by blast
  then show ?thesis
  proof cases
    case 1
    have "leads (pass m env) 0 1" "leads (say m env (''Is this a simulator?'' @ crlf)) 0 0"
      using leads_pass [OF r, of 0] leads_say [OF r] by simp_all
    with 1 show ?thesis
      unfolding sim run_all_append leads_def
      by (cases "b s1") (fastforce, fastforce)
  next
    case 2
    then show ?thesis unfolding sim run_all_append by simp
  qed
qed


section \<open>No failure goes unnoticed\<close>

definition never :: "'c cmd \<Rightarrow> bool" where
  "never p \<longleftrightarrow> (\<forall>s s'. p s \<noteq> Some (Inr s'))"

lemma never_Cons_tail: "never (run_all ps) \<Longrightarrow> never (run_all (p # ps))"
  unfolding never_def by (auto split: option.splits sum.splits)

lemma never_Cons_head: "never p \<Longrightarrow> never (run_all (p # ps))"
  unfolding never_def by (auto split: option.splits sum.splits)

lemma never_member: "never p \<Longrightarrow> p \<in> set ps \<Longrightarrow> never (run_all ps)"
  by (induction ps) (auto intro: never_Cons_head never_Cons_tail simp del: run_all.simps)

lemma never_append: "never (run_all ps) \<or> never (run_all qs) \<Longrightarrow> never (run_all (ps @ qs))"
  unfolding never_def run_all_append by (auto split: option.splits sum.splits)

lemma never_concat: "ps \<in> set pss \<Longrightarrow> never (run_all ps) \<Longrightarrow> never (run_all (concat pss))"
  by (induction pss) (auto intro!: never_append simp del: run_all.simps)

lemma never_test_fails: "test_fails m env s \<noteq> Some (Inr s')"
  unfolding test_fails_def Let_def by (auto simp: bind_eq_Some_conv split: prod.splits if_splits)

text \<open>The flags of an error of the hardware.\<close>

abbreviation (input) CC_ERRORS :: u32 where "CC_ERRORS \<equiv> CC_BUSERR OR CC_DIVERR OR CC_FPUERR OR CC_MMUERR"

lemma flagged: "u AND k \<noteq> 0 \<Longrightarrow> k AND M = k \<Longrightarrow> u AND M \<noteq> 0" for u k M :: u32
proof -
  assume "k AND M = k"
  then have "u AND k = (u AND M) AND k"
    by (simp add: and.assoc and.commute [of M k])
  then show "u AND k \<noteq> 0 \<Longrightarrow> u AND M \<noteq> 0"
    by auto
qed

definition broken :: "'c zipcpu \<Rightarrow> code \<Rightarrow> bool" where
  "broken m t \<longleftrightarrow>
    (\<forall>c r c'. run_test m t c = Some (r, c') \<longrightarrow> r \<noteq> 0 \<and> t \<noteq> C_break_three \<or> zip_ucc m (fst c') AND CC_ERRORS \<noteq> 0)"

lemma never_run:
  assumes "\<And>c r c'. run_test m t c = Some (r, c') \<Longrightarrow> b r c'"
  shows "never (\<lambda>s. Option.bind (run_test m t (console s)) (\<lambda>(r, c). fail_if m env (\<lambda>_. b r c) (s\<lparr>console := c\<rparr>)))"
proof -
  have "\<exists>r c'. run_test m t (console s) = Some (r, c') \<and> \<not> b r c'"
    if "Option.bind (run_test m t (console s)) (\<lambda>(r, c). fail_if m env (\<lambda>_. b r c) (s\<lparr>console := c\<rparr>)) = Some (Inr s')" for s s'
    using that unfolding fail_if_def by (auto simp: bind_eq_Some_conv never_test_fails split: if_splits)
  then show ?thesis
    using assms unfolding never_def by blast
qed

lemma never_run_check:
  assumes "broken m t" "CC_ERRORS AND cc_fail = CC_ERRORS"
  shows "never (run_check m env t cc_fail)"
proof -
  have "r \<noteq> 0 \<or> zip_ucc m (fst c') AND cc_fail \<noteq> 0" if "run_test m t c = Some (r, c')" for c r c'
    using assms that flagged [of _ CC_ERRORS cc_fail] unfolding broken_def by blast
  then show ?thesis
    unfolding run_check_fail_if by (rule never_run)
qed

lemma never_third: "never p3 \<Longrightarrow> never (run_all (p1 # p2 # p3 # ps))"
  by (intro never_Cons_tail never_Cons_head)

lemma never_plain_test: "broken m t \<Longrightarrow> never (run_all (plain_test m env name t))"
  unfolding plain_test_def by (rule never_third, rule never_run_check) simp_all

lemma never_trap_test: "broken m t \<Longrightarrow> never (run_all (trap_test m env name t))"
  unfolding trap_test_def by (rule never_third, rule never_run_check) simp_all

lemma never_named:
  assumes "broken m t" "t \<in> snd ` set ts"
  shows "\<exists>ps\<in>set (map (\<lambda>(name, pc). plain_test m env name pc) ts). never (run_all ps)"
proof -
  obtain name where "(name, t) \<in> set ts"
    using assms(2) by auto
  then have "plain_test m env name t \<in> set (map (\<lambda>(name, pc). plain_test m env name pc) ts)"
    by force
  then show ?thesis
    using never_plain_test [OF assms(1)] by blast
qed

lemma never_break_three:
  assumes "broken m C_break_three"
  shows "never (run_all (break_three_section m env))"
proof -
  define run where "run = (\<lambda>s. map_option (\<lambda>(r, c). Inr (s\<lparr>console := c\<rparr>)) (run_test m C_break_three (console s)) :: ('a cputest + 'a cputest) option)"
  define bad where "bad s \<longleftrightarrow> context_ct s 15 \<noteq> code_addr m C_break_three \<or> zip_ucc m (fst (console s)) AND CC_BREAK = 0
       \<or> zip_ucc m (fst (console s)) AND (CC_FAULT OR CC_MMUERR OR CC_TRAP OR CC_STEP OR CC_SLEEP) \<noteq> 0" for s :: "'a cputest"
  have "zip_ucc m (fst c') AND CC_ERRORS \<noteq> 0" if "run_test m C_break_three c = Some (r, c')" for c r c'
    using assms that unfolding broken_def by blast
  then have bad: "bad (s\<lparr>console := c', context_ct := x\<rparr>)" if "run_test m C_break_three c = Some (r, c')" for s c r c' x
    using that flagged [of "zip_ucc m (fst c')" CC_ERRORS "CC_FAULT OR CC_MMUERR OR CC_TRAP OR CC_STEP OR CC_SLEEP"]
    unfolding bad_def by simp
  have "never (run_all [run, save_ctx m, fail_if m env bad, pass m env])"
    unfolding never_def run_def run_all.simps
    using bad by (auto simp: save_ctx_def fail_if_def never_test_fails split: option.splits sum.splits)
  then show ?thesis
    unfolding break_three_section_def run_def bad_def [abs_def] by (rule never_Cons_tail [OF never_Cons_tail])
qed

lemma never_null:
  assumes "broken m C_null"
  shows "never (run_all (null_section m env))"
proof -
  have "r \<noteq> 0 \<or> (zip_ucc m (fst c') XOR CC_ILL) AND CC_EXCEPTION \<noteq> 0" if "run_test m C_null c = Some (r, c')" for c r c'
  proof -
    have "(zip_ucc m (fst c') XOR CC_ILL) AND CC_ERRORS = zip_ucc m (fst c') AND CC_ERRORS"
      by (simp add: bit.conj_xor_distrib2)
    then have "(zip_ucc m (fst c') XOR CC_ILL) AND CC_EXCEPTION \<noteq> 0" if "zip_ucc m (fst c') AND CC_ERRORS \<noteq> 0"
      using that flagged [of "zip_ucc m (fst c') XOR CC_ILL" CC_ERRORS CC_EXCEPTION] by simp
    moreover have "r \<noteq> 0 \<or> zip_ucc m (fst c') AND CC_ERRORS \<noteq> 0"
      using assms that unfolding broken_def by blast
    ultimately show ?thesis by blast
  qed
  from never_run [of m C_null, OF this] show ?thesis
    unfolding null_section_def by (rule never_third)
qed

lemma never_break_one: "broken m C_break_one \<Longrightarrow> never (run_all (break_one_section m env))"
  unfolding break_one_section_def by (rule never_third, rule never_run_check) simp_all

lemma never_break_two: "broken m C_break_two \<Longrightarrow> never (run_all (break_two_section m env))"
  unfolding break_two_section_def by (rule never_third, rule never_run_check) simp_all

lemma never_ill: "broken m C_ill_test \<Longrightarrow> never (run_all (ill_section m env))"
  unfolding ill_section_def by (rule never_third, rule never_run_check) simp_all

lemma never_sim: "broken m C_sim_test \<Longrightarrow> never (run_all (sim_section m env))"
  unfolding sim_section_def by (rule never_third, rule never_run_check) simp_all

lemma never_cis: "broken m C_cis_test \<Longrightarrow> never (run_all (cis_section m env))"
  unfolding cis_section_def by (rule never_third, rule never_run_check) simp_all

lemma never_tests:
  assumes "broken m t" "t \<notin> {C_sim_test, C_cis_test, C_div_test}"
  shows "\<exists>ps\<in>set (tests m env). never (run_all ps)"
proof -
  have mem: "null_section m env \<in> set (tests m env)" "break_one_section m env \<in> set (tests m env)"
    "break_two_section m env \<in> set (tests m env)" "break_three_section m env \<in> set (tests m env)"
    "plain_test m env ''Early Branch test'' C_early_branch_test \<in> set (tests m env)"
    "trap_test m env ''Trap test/AND'' C_trap_test_and \<in> set (tests m env)"
    "trap_test m env ''Trap test/CLR'' C_trap_test_clr \<in> set (tests m env)" "ill_section m env \<in> set (tests m env)"
    by (simp_all add: tests_def)
  have "t \<in> snd ` set pipe_tests \<or> t \<in> snd ` set arith_tests \<or>
      t \<in> {C_null, C_break_one, C_break_two, C_break_three, C_early_branch_test, C_trap_test_and, C_trap_test_clr, C_ill_test}"
    using assms(2) by (cases t) (simp_all add: pipe_tests_def arith_tests_def)
  then consider "t \<in> snd ` set pipe_tests" | "t \<in> snd ` set arith_tests" | "t = C_null" | "t = C_break_one" | "t = C_break_two"
    | "t = C_break_three" | "t = C_early_branch_test" | "t = C_trap_test_and" | "t = C_trap_test_clr" | "t = C_ill_test"
    by blast
  then show ?thesis
  proof cases
    case 1
    then show ?thesis
      using never_named [OF assms(1), of pipe_tests env] by (auto simp: tests_def)
  next
    case 2
    then show ?thesis
      using never_named [OF assms(1), of arith_tests env] by (auto simp: tests_def)
  qed (use mem assms(1) never_null never_break_one never_break_two never_break_three never_plain_test never_trap_test never_ill
    in blast)+
qed


section \<open>A processor without fault passes\<close>

text \<open>The flags and registers that each test is meant to leave behind; \<open>TRAP\<close> may be set after most of them.\<close>

definition right_state :: "'c zipcpu \<Rightarrow> code \<Rightarrow> 'c \<Rightarrow> bool" where
  "right_state m t c \<longleftrightarrow>
    zip_ucc m c AND (CC_EXCEPTION OR CC_STEP OR CC_SLEEP) =
      (if t \<in> {C_break_one, C_break_three} then CC_BREAK else if t \<in> {C_sim_test, C_null, C_ill_test} then CC_ILL else 0) \<and>
    (t \<in> {C_sim_test, C_break_one, C_break_three} \<longrightarrow> zip_ucc m c AND CC_TRAP = 0) \<and>
    (t \<in> {C_trap_test_and, C_trap_test_clr} \<longrightarrow> zip_ucc m c AND CC_TRAP \<noteq> 0) \<and>
    (t = C_break_one \<longrightarrow> user_reg m c 15 = code_addr m t + 4) \<and>
    (t \<in> {C_break_three, C_ill_test} \<longrightarrow> user_reg m c 15 = code_addr m t)"

definition faultless :: "'c zipcpu \<Rightarrow> bool" where
  "faultless m \<longleftrightarrow> (\<forall>t c r c'. run_test m t c = Some (r, c') \<longrightarrow> r = 0 \<and> right_state m t (fst c'))"

text \<open>\<open>p\<close> does not stop the run where \<open>P\<close> holds, and \<open>Q\<close> holds after it.\<close>

definition goes_on :: "('c cputest \<Rightarrow> bool) \<Rightarrow> 'c cmd \<Rightarrow> ('c cputest \<Rightarrow> bool) \<Rightarrow> bool" where
  "goes_on P p Q \<longleftrightarrow> (\<forall>s x. P s \<longrightarrow> p s = Some x \<longrightarrow> (\<exists>s'. x = Inr s' \<and> Q s'))"

abbreviation (input) anywhere :: "'c cputest \<Rightarrow> bool" where "anywhere \<equiv> \<lambda>s. True"

lemma goes_on_Nil: "goes_on P (run_all []) P"
  unfolding goes_on_def by simp

lemma goes_on_Cons:
  assumes "goes_on P p Q" "goes_on Q (run_all ps) R"
  shows "goes_on P (run_all (p # ps)) R"
  unfolding goes_on_def
proof (intro allI impI)
  fix s x
  assume s: "P s" and x: "run_all (p # ps) s = Some x"
  then obtain y where y: "p s = Some y"
    by (cases "p s") simp_all
  then obtain s1 where "y = Inr s1" "Q s1"
    using assms(1) s unfolding goes_on_def by blast
  then show "\<exists>s'. x = Inr s' \<and> R s'"
    using assms(2) x y unfolding goes_on_def by simp
qed

lemma goes_on_append:
  assumes "goes_on P (run_all ps) Q" "goes_on Q (run_all qs) R"
  shows "goes_on P (run_all (ps @ qs)) R"
  unfolding goes_on_def
proof (intro allI impI)
  fix s x
  assume s: "P s" and x: "run_all (ps @ qs) s = Some x"
  then obtain y where y: "run_all ps s = Some y"
    by (cases "run_all ps s") (simp_all add: run_all_append)
  then obtain s1 where "y = Inr s1" "Q s1"
    using assms(1) s unfolding goes_on_def by blast
  then show "\<exists>s'. x = Inr s' \<and> R s'"
    using assms(2) x y unfolding goes_on_def run_all_append by simp
qed

lemma goes_on_concat:
  "(\<And>ps. ps \<in> set pss \<Longrightarrow> goes_on anywhere (run_all ps) anywhere) \<Longrightarrow> goes_on anywhere (run_all (concat pss)) anywhere"
  by (induction pss) (auto intro!: goes_on_append goes_on_Nil simp del: run_all.simps)

lemma goes_on_basic:
  "goes_on P (print_ct f) anywhere" "goes_on P (say m env str) anywhere" "goes_on P (testid m env str) anywhere"
  "goes_on P (mark_start env) anywhere" "goes_on P (pass m env) anywhere" "goes_on P (\<lambda>s. Some (Inr (g s))) anywhere"
  unfolding goes_on_def say_def testid_def print_ct_def mark_start_def pass_def
  by (auto simp: Let_def bind_eq_Some_conv split: prod.splits if_splits)

lemma goes_on_if: "goes_on P p Q \<Longrightarrow> goes_on P q Q \<Longrightarrow> goes_on P (\<lambda>s. if b s then p s else q s) Q"
  unfolding goes_on_def by simp

lemma submask: "u AND M = v \<Longrightarrow> M AND k = k \<Longrightarrow> u AND k = v AND k" for u M v k :: u32
  by (metis and.assoc)

definition flags_after :: "code \<Rightarrow> u32" where
  "flags_after t = (if t \<in> {C_break_one, C_break_three} then CC_BREAK else if t \<in> {C_sim_test, C_null, C_ill_test} then CC_ILL else 0)"

lemma right_flags:
  "right_state m t c \<Longrightarrow> (CC_EXCEPTION OR CC_STEP OR CC_SLEEP) AND k = k \<Longrightarrow> zip_ucc m c AND k = flags_after t AND k"
  unfolding right_state_def flags_after_def by (rule submask) blast+

lemma right_flags_trap:
  assumes "right_state m t c" "t \<in> {C_sim_test, C_break_one, C_break_three}" "(CC_EXCEPTION OR CC_STEP OR CC_SLEEP) AND k = k"
  shows "zip_ucc m c AND (k OR CC_TRAP) = flags_after t AND k"
proof -
  have "zip_ucc m c AND CC_TRAP = 0"
    using assms(1, 2) unfolding right_state_def by blast
  then show ?thesis
    using right_flags [OF assms(1, 3)] by (simp add: bit.conj_disj_distrib)
qed

lemma faultless_run: "faultless m \<Longrightarrow> run_test m t c = Some (r, c') \<Longrightarrow> r = 0 \<and> right_state m t (fst c')"
  unfolding faultless_def by blast

abbreviation (input) ran :: "'c zipcpu \<Rightarrow> code \<Rightarrow> 'c cputest \<Rightarrow> bool" where
  "ran m t \<equiv> \<lambda>s. right_state m t (fst (console s))"

abbreviation (input) saved :: "'c zipcpu \<Rightarrow> code \<Rightarrow> 'c cputest \<Rightarrow> bool" where
  "saved m t \<equiv> \<lambda>s. right_state m t (fst (console s)) \<and> context_ct s 15 = user_reg m (fst (console s)) 15"

lemma goes_on_save_ctx: "goes_on (ran m t) (save_ctx m) (saved m t)"
  unfolding goes_on_def save_ctx_def by auto

lemma goes_on_fail_if: "(\<And>s. P s \<Longrightarrow> \<not> p s) \<Longrightarrow> goes_on P (fail_if m env p) P"
  unfolding goes_on_def fail_if_def by auto

lemma goes_on_run:
  assumes "faultless m" "\<And>c. right_state m t c \<Longrightarrow> \<not> b 0 (c, h)" "\<And>r c. b r c = b r (fst c, h)"
  shows "goes_on P (\<lambda>s. Option.bind (run_test m t (console s)) (\<lambda>(r, c). fail_if m env (\<lambda>_. b r c) (s\<lparr>console := c\<rparr>))) (ran m t)"
  unfolding goes_on_def
proof (intro allI impI)
  fix s :: "'a cputest" and x
  assume x: "Option.bind (run_test m t (console s)) (\<lambda>(r, c). fail_if m env (\<lambda>_. b r c) (s\<lparr>console := c\<rparr>)) = Some x"
  then obtain r c where run: "run_test m t (console s) = Some (r, c)"
    by (auto simp: bind_eq_Some_conv)
  then have right: "r = 0" "right_state m t (fst c)"
    using faultless_run [OF assms(1)] by simp_all
  then have "\<not> b r c"
    using assms(2) [of "fst c"] assms(3) [of r c] by simp
  then have "x = Inr (s\<lparr>console := c\<rparr>)"
    using x run by (simp add: fail_if_def)
  then show "\<exists>s'. x = Inr s' \<and> right_state m t (fst (console s'))"
    using right(2) by simp
qed

lemma goes_on_run_check:
  assumes "faultless m" "\<And>c. right_state m t c \<Longrightarrow> zip_ucc m c AND k = 0"
  shows "goes_on P (run_check m env t k) (ran m t)"
  unfolding run_check_fail_if by (rule goes_on_run [OF assms(1)]) (simp_all add: assms(2))

lemma goes_on_just_run:
  assumes "faultless m"
  shows "goes_on P (\<lambda>s. map_option (\<lambda>(r, c). Inr (s\<lparr>console := c\<rparr>)) (run_test m t (console s))) (ran m t)"
  unfolding goes_on_def
proof (intro allI impI)
  fix s :: "'a cputest" and x :: "'b + 'a cputest"
  assume x: "map_option (\<lambda>(r, c). Inr (s\<lparr>console := c\<rparr>)) (run_test m t (console s)) = Some x"
  then obtain r c where run: "run_test m t (console s) = Some (r, c)"
    by auto
  then show "\<exists>s'. x = Inr s' \<and> right_state m t (fst (console s'))"
    using x faultless_run [OF assms run] by auto
qed

lemma goes_on_plain:
  assumes "faultless m" "flags_after t = 0"
  shows "goes_on anywhere (run_all (plain_test m env name t)) anywhere"
  unfolding plain_test_def
  by (rule goes_on_Cons goes_on_basic goes_on_run_check assms goes_on_Nil | (simp add: right_flags assms))+

lemmas goes_on_intros = goes_on_Cons goes_on_basic(3-5) goes_on_run_check goes_on_save_ctx goes_on_fail_if

lemma goes_on_trap:
  assumes "faultless m" "t \<in> {C_trap_test_and, C_trap_test_clr}"
  shows "goes_on anywhere (run_all (trap_test m env name t)) anywhere"
proof -
  have right: "flags_after t = 0" "right_state m t c \<Longrightarrow> zip_ucc m c AND CC_TRAP \<noteq> 0" for c
    using assms(2) unfolding flags_after_def right_state_def by auto
  show ?thesis
    unfolding trap_test_def
    by (rule goes_on_intros assms(1) goes_on_Nil | simp add: right_flags right)+
qed

lemma goes_on_break_one:
  assumes "faultless m"
  shows "goes_on anywhere (run_all (break_one_section m env)) anywhere"
proof -
  let ?k = "CC_MMUERR OR CC_FPUERR OR CC_DIVERR OR CC_BUSERR OR CC_ILL OR CC_STEP OR CC_SLEEP"
  have right: "zip_ucc m c AND (?k OR CC_TRAP) = 0" "zip_ucc m c AND CC_BREAK \<noteq> 0" "user_reg m c 15 = code_addr m C_break_one + 4"
    if "right_state m C_break_one c" for c
    using that right_flags_trap [OF that, of ?k] right_flags [OF that, of CC_BREAK]
    by (simp_all add: flags_after_def right_state_def)
  show ?thesis
    unfolding break_one_section_def
    by (rule goes_on_intros assms goes_on_Nil | simp add: right [simplified])+
qed

lemma goes_on_break_two:
  assumes "faultless m"
  shows "goes_on anywhere (run_all (break_two_section m env)) anywhere"
  unfolding break_two_section_def
  by (rule goes_on_intros assms goes_on_Nil | simp add: right_flags flags_after_def)+

lemma goes_on_break_three:
  assumes "faultless m"
  shows "goes_on anywhere (run_all (break_three_section m env)) anywhere"
proof -
  let ?k = "CC_FAULT OR CC_MMUERR OR CC_STEP OR CC_SLEEP"
  have right: "zip_ucc m c AND (?k OR CC_TRAP) = 0" "zip_ucc m c AND CC_BREAK \<noteq> 0" "user_reg m c 15 = code_addr m C_break_three"
    if "right_state m C_break_three c" for c
    using that right_flags_trap [OF that, of ?k] right_flags [OF that, of CC_BREAK]
    by (simp_all add: flags_after_def right_state_def)
  show ?thesis
    unfolding break_three_section_def
    by (rule goes_on_just_run goes_on_intros assms goes_on_Nil | simp add: right [simplified])+
qed

lemma goes_on_null:
  assumes "faultless m"
  shows "goes_on anywhere (run_all (null_section m env)) anywhere"
proof -
  have right: "(zip_ucc m c XOR CC_ILL) AND CC_EXCEPTION = 0" if "right_state m C_null c" for c
    using right_flags [OF that, of CC_EXCEPTION] by (simp add: flags_after_def bit.conj_xor_distrib2)
  show ?thesis
    unfolding null_section_def
    by (rule goes_on_run [where h = "[]"] goes_on_intros assms goes_on_Nil | simp add: right [simplified])+
qed

lemma goes_on_ill:
  assumes "faultless m"
  shows "goes_on anywhere (run_all (ill_section m env)) anywhere"
proof -
  have right: "user_reg m c 15 = code_addr m C_ill_test" if "right_state m C_ill_test c" for c
    using that unfolding right_state_def by simp
  show ?thesis
    unfolding ill_section_def
    by (rule goes_on_intros assms goes_on_Nil | simp add: right right_flags flags_after_def)+
qed

lemma goes_on_div:
  assumes "faultless m"
  shows "goes_on anywhere (run_all (div_section m env)) anywhere"
proof -
  have run: "goes_on anywhere (run_all [mark_start env, run_check m env C_div_test CC_EXCEPTION]) (\<lambda>s. True)"
    by (rule goes_on_Cons, rule goes_on_basic, unfold goes_on_def) (use goes_on_run_check [OF assms, of C_div_test CC_EXCEPTION] in
      \<open>auto simp: goes_on_def right_flags flags_after_def split: option.splits sum.splits\<close>)
  show ?thesis
    unfolding div_section_def
    by (rule goes_on_Cons goes_on_basic(2-5) goes_on_if goes_on_Nil run)+
qed

lemma goes_on_sim:
  assumes "faultless m"
  shows "goes_on anywhere (run_all (sim_section m env)) anywhere"
proof -
  let ?k = "CC_MMUERR OR CC_FPUERR OR CC_DIVERR OR CC_BUSERR OR CC_STEP OR CC_SLEEP"
  have right: "zip_ucc m c AND (?k OR CC_TRAP) = 0" if "right_state m C_sim_test c" for c
    using right_flags_trap [OF that, of ?k] by (simp add: flags_after_def)
  show ?thesis
    unfolding sim_section_def
    by (rule goes_on_intros goes_on_basic(2) goes_on_if assms goes_on_Nil | simp add: right [simplified])+
qed

lemma goes_on_cis:
  assumes "faultless m"
  shows "goes_on anywhere (run_all (cis_section m env)) anywhere"
  unfolding cis_section_def
  by (rule goes_on_intros goes_on_basic(2) goes_on_if assms goes_on_Nil | simp add: right_flags flags_after_def)+

lemma selftest_accepts:
  assumes "faultless m"
  shows "entry_ct m env s \<noteq> Some (Inl s')"
proof -
  have "goes_on anywhere (run_all ps) anywhere" if "ps \<in> set (tests m env)" for ps
    using that unfolding tests_def pipe_tests_def arith_tests_def
    by (auto simp: flags_after_def assms goes_on_plain goes_on_trap goes_on_break_one goes_on_break_two goes_on_break_three
        goes_on_null goes_on_ill goes_on_div)
  then have "goes_on anywhere (run_all (concat (tests m env))) anywhere"
    by (rule goes_on_concat)
  moreover have "goes_on anywhere (run_all (entry_start m env)) anywhere" "goes_on anywhere (run_all (entry_end m env)) anywhere"
    unfolding entry_start_def entry_end_def by (rule goes_on_Cons goes_on_basic goes_on_Nil)+
  ultimately have "goes_on anywhere (entry_ct m env) anywhere"
    unfolding entry_ct_def [abs_def] using goes_on_sim [OF assms] goes_on_cis [OF assms] by (blast intro: goes_on_append)
  then show ?thesis
    unfolding goes_on_def by blast
qed

section \<open>Witnesses\<close>

text \<open>
  A processor, in supervisor mode and without a division unit, that runs every test as it should, but for the value that one of
  them returns; its state is the code run last.
\<close>

definition demo_cpu :: "code option \<Rightarrow> code zipcpu" where
  "demo_cpu bad =
    \<lparr>run_test = \<lambda>t (c, h). Some (if bad = Some t then 1 else 0, t, h),
     zip_ucc = \<lambda>c. if c \<in> {C_trap_test_and, C_trap_test_clr} then CC_TRAP else flags_after c,
     zip_cc = \<lambda>c. 0,
     user_reg = \<lambda>c i. if i = 15 \<and> c = C_break_one then 4 else 0,
     set_idle = \<lambda>c. c,
     wait_insn = \<lambda>h c. Some c,
     code_addr = \<lambda>t. 0\<rparr>"

definition demo_start :: "code cputest" where
  "demo_start = \<lparr>testlist = [], console = (C_null, []), tnum = 0, start_time = 0, context_ct = \<lambda>i. 0\<rparr>"

lemma demo_cpu_responsive: "responsive (demo_cpu bad) demo_env"
  unfolding responsive_def demo_cpu_def using demo_polls_end by auto

lemma demo_cpu_faultless: "faultless (demo_cpu None)"
  unfolding faultless_def right_state_def demo_cpu_def flags_after_def by auto



end
