(* ===== verification/Spec2Isabelle.thy ===== *)
theory Spec2Isabelle
  imports KernelProps Setup PipeUser Strings Rtc Udiv Drivers Buffers Doorbell Ttybus Qspiflash Clib Uartsim Flashdrvr Zipelf Zipload Zipsim Depp Deppi Twoc Scope Hosttools Bell2 Selftest
begin

text \<open>
  \<^bold>\<open>A verification development for the software of the S6 SoC\<close> (a ZipCPU on a Xilinx Spartan 6 board).

  \<^bold>\<open>The program.\<close> On the board runs ZipOS (src/sw/zipos): a kernel loop \<open>kernel_entry()\<close> that gives the
  processor to a task with \<open>zip_rtu()\<close> and gets it back with an interrupt, a system call or a fault; system pipes through which
  tasks and interrupt handlers exchange bytes; a round-robin scheduler with events and timeouts; and the tasks of the
  doorbell application. Beside it there are stand-alone programs (src/sw/dev), a small C library (src/sw/zlib),
  the host's side of the debugging bus (src/sw/host), and models of the board's chips for simulation (src/sim/verilator).

  \<^bold>\<open>Which theory models what.\<close>
  \<^item> \<open>Prelude\<close>: machine types, the result type of code that can stop the processor, words and masks.
  \<^item> \<open>Board\<close>: registers and constants of board.h, swint.h, errno.h, zipsys.h; the history of a run and the environment
    \<open>env\<close> that answers register reads and system calls. A theorem over an arbitrary \<open>env\<close> holds for any hardware.
  \<^item> \<open>KState\<close>: the structures TASK, SYSPIPE, KFILDES, KDEVICE and the kernel's globals, as records and maps from addresses.
  \<^item> \<open>Syspipe\<close>: \<open>kpush_syspipe\<close>, \<open>kpop_syspipe\<close>, \<open>kpop_short_syspipe\<close>, \<open>num_avail_syspipe\<close> (syspipe.c); \<open>PipeUser\<close>: the kernel
    and user halves of \<open>read\<close> and \<open>write\<close> on a pipe as machines with control points, so that interrupts can come in between.
  \<^item> \<open>Strings\<close>: string.c on byte memory; \<open>Buffers\<close>: the same routines on local arrays with their bounds.
  \<^item> \<open>Setup\<close>: ksetup.c, pipesetup.c, taskp.c, kfildes.h; \<open>Sched\<close>: \<open>kschedule\<close> and \<open>kpost\<close>; \<open>Kernel\<close>: one definition per
    interrupt handler and system call of kernel.c, composed by \<open>kernel_handle\<close> (one pass) and \<open>kernel_resume\<close>;
    \<open>KernelInv\<close>: the transition system of user code, user halves and passes; \<open>KernelProps\<close>: the properties of the loop.
  \<^item> \<open>Txfns\<close>: polled UART output (dev/txfns.c, \<open>pipe_panic\<close>); \<open>Rtc\<close>: the clock task (dev/rtcsim.c); \<open>Drivers\<close>: keypad.c,
    display.c and the stand-alone programs; \<open>Bell2\<close>: the stand-alone doorbell with a clock, dev/doorbell2.c; \<open>Doorbell\<close>: the
    application zipos/doorbell.c.
  \<^item> \<open>Softmpy\<close> and \<open>Selftest\<close>: the C part of the processor's self test, dev/cputest.c: its multiplication, its output, and the program
    that runs the tests; the tests in assembler and the processor are the record \<open>zipcpu\<close>.
  \<^item> \<open>Udiv\<close>: the 64-bit division of zlib; \<open>Clib\<close>: the system calls of zlib/syscalls.c, the boot loaders, \<open>memset\<close>.
  \<^item> \<open>Ttybus\<close>: host/ttybus.cpp with llcomms.cpp; \<open>Depp\<close>: the other bus of the host, deppbus.cpp, with what the Adept library answers as
    the record \<open>adept\<close>; \<open>Deppi\<close>: the serial port over that library, deppi.cpp.
  \<^item> \<open>Flashdrvr\<close>: the host's flash driver, flashdrvr.cpp and byteswap.cpp; \<open>Zipelf\<close>: the ELF reader zipelf.cpp, with libelf as a record
    of answers; \<open>Zipload\<close>: the loader zipload.cpp on top of both.
  \<^item> \<open>Scope\<close>: scopecls.cpp and scope.cpp; \<open>Hosttools\<close>: regdefs.cpp, wbregs.cpp, readflash.cpp, xpflashscop.cpp; \<open>Twoc\<close>: twoc.cpp.
  \<^item> \<open>Qspiflash\<close>: the simulated flash, sim/verilator/qspiflashsim.cpp; \<open>Uartsim\<close>: the simulated serial port, uartsim.cpp;
    \<open>Zipsim\<close>: the test bench zip_sim.cpp and testb.h around them, with the generated processor as a parameter.

  \<^bold>\<open>State and operations.\<close> C structures are records with the fields of the source, pointers are 32-bit addresses, integers are
  words of their width (\<open>unat\<close> and \<open>sint\<close> read them, comparisons of \<open>int\<close> are the signed ones), bytes are \<open>u8\<close>. Memory is split by type (see
  \<open>KState\<close>). An operation is a function on the state; the processor stopping (\<open>kpanic\<close>, \<open>zip_halt\<close>, \<open>exit\<close>, a failed assertion) is a value on the
  left of a sum; a loop that may not end is a \<open>partial_function\<close> on \<open>option\<close>, and access outside a local array is \<open>None\<close> as well. Local
  variables of endless task loops are parameters and results of one round.

  \<^bold>\<open>What the lemmas show.\<close>
  \<^item> Pipes: the contents of a ring as a list, push and pop as the operations of a bounded queue (locale \<open>bounded_queue\<close>, interpretation \<open>pipeq\<close>); a
    write to a pipe drained by an interrupt delivers its bytes in order and can always complete, also from the sleep of \<open>wait(0,-1)\<close>; the
    outcomes of starting a read or a write; a read of one byte is right and a longer one never returns.
  \<^item> Scheduler: the next ready task in cyclic order, fairness (locale \<open>cyclic_scheduler\<close>, interpretation \<open>ksched\<close>), deadlines across the
    rebase of the clock, no lost wakeup.
  \<^item> Kernel: an invariant of all reachable states (locale \<open>invariant_system\<close>, interpretation \<open>zipos\<close>), registers over a switch, the
    system calls branch by branch, the handlers of the UART, and what the last write to the interrupt controller enables.
  \<^item> Setup: disjoint blocks (locale \<open>bump_allocator\<close>, interpretation \<open>kheap\<close>), what \<open>ksetup\<close> builds, and its bounds.
  \<^item> Library, drivers and application: equivalence with a reference (division, calendar, decimal clock), what reaches the
    display, keypad and UART.
  \<^item> Host: compressed writes decode to what was written, words arrive through any cutting of the stream; the DEPP bus refines the word bus of
    its interface (locale \<open>word_bus\<close>, interpretation \<open>deppbus\<close>), and the ring of the DEPP serial port is a queue that loses nothing but codes;
    the flash driver leaves exactly its data, the loader every section of an ELF file; the trace file of the scope can be read back
    to the samples in the scope's memory; registers are reached by name; rounding is to the nearest even.
  \<^item> Self test: it always ends, with all results recorded or in its endless loop with the failure recorded, never accepts a processor that
    fails one of its tests, and accepts one without fault (\<open>selftest_accepts\<close>); its software multiplication is exact.
  \<^item> Simulator: a flash that is not write-enabled does not change, the serial port receives what it sends, and a processor that clocks a
    fast read gets the bytes of the program that was loaded.

  \<^bold>\<open>Bounds and fuel.\<close> No definition runs on fuel. Ring sizes are powers of two from 16 to 2^30 (\<open>new_syspipe\<close> builds no others);
  lengths of reads and writes are positive signed integers, so below 2^31, as the kernel checks; the millisecond clock is below 2^31 by the invariant.
  The number of rounds in a statement about a task loop is universally quantified. \<open>polls_end\<close> (the transmitter always becomes
  ready at last) and the second half of \<open>flash_device\<close> (an erase ends at last) are the liveness hypotheses on the hardware. Code that is not here is
  described by \<open>flash_device\<close> (a flash behind a bus), \<open>depp_slave\<close> and \<open>scope_behind\<close> (registers of the board), \<open>adept_ok\<close> (the library fills the
  buffer it is given), \<open>good_elf\<close> (answers of libelf), and \<open>responsive\<close> and \<open>broken\<close> (the processor under test); where a statement needs one, it is a premise and a witness satisfies it.

  \<^bold>\<open>Not modelled, and why.\<close>
  \<^item> The hardware in src/rtl (Verilog); of it the development uses the documented behaviour of the registers, the keypad and the GPIO logic.
  \<^item> Assembler (string.c's hand-written alternatives, resetdump.s, crt0's start code, and the tests of single
    instructions in cputest.c, whose effect on the processor and the console is a parameter).
  \<^item> dumpuart.cpp: it configures a terminal and copies bytes, calls of the operating system only. samples.c: one table of sound samples, a
    parameter of the doorbell programs.
  \<^item> Linker scripts, build files and documents.
\<close>

end
